(* ===== verification/Prelude.thy ===== *)
theory Prelude
  imports Main "HOL-Library.Word" "HOL-Library.Monad_Syntax"
begin

text \<open>
  Shared ground of the development.

  \<^item> Machine integers. The SDK is compiled for 32-bit micro-controllers, so \<open>int\<close>,
    \<open>long\<close> and \<open>size_t\<close> are 32 bits wide. The typedefs \<open>u8\<close>, \<open>u16\<close>, \<open>u32\<close>
    of src/src/sdk_def.h are words of the same width; a signed value is the word
    with the same bits, read by \<open>sint\<close>.
  \<^item> Result codes of src/src/sdk_def.h.
  \<^item> Arrays. A C array is the list of its cells. A read or a write outside the array is
    undefined behaviour in C: it is the value \<open>None\<close> here, so every theorem that a
    model returns \<open>Some\<close> also says that no access was out of bounds.
  \<^item> Windows of circular buffers, with the lemmas every ring of the SDK shares.
\<close>

section \<open>Machine integers and result codes\<close>

type_synonym u8 = "8 word"
type_synonym u16 = "16 word"
type_synonym u32 = "32 word"
type_synonym s32 = "32 word"

named_theorems mem_simps \<open>reads and writes of arrays that stay in bounds\<close>
named_theorems ring_simps \<open>rewriting of windows of circular buffers\<close>

definition SDK_OK :: s32 where
  "SDK_OK = 0"

definition SDK_ERROR :: s32 where
  "SDK_ERROR = 1"

definition SDK_E_TIMEOUT :: s32 where
  "SDK_E_TIMEOUT = 2"

definition SDK_E_MEMORY :: s32 where
  "SDK_E_MEMORY = 3"

definition SDK_E_BUSY :: s32 where
  "SDK_E_BUSY = 4"

definition SDK_E_INVALID :: s32 where
  "SDK_E_INVALID = 5"

lemmas sdk_codes = SDK_OK_def SDK_ERROR_def SDK_E_TIMEOUT_def SDK_E_MEMORY_def
  SDK_E_BUSY_def SDK_E_INVALID_def

text \<open>The codes are pairwise different, with either sign.\<close>

lemma sdk_codes_distinct:
  "distinct [SDK_OK, SDK_ERROR, SDK_E_TIMEOUT, SDK_E_MEMORY, SDK_E_BUSY, SDK_E_INVALID,
     - SDK_ERROR, - SDK_E_TIMEOUT, - SDK_E_MEMORY, - SDK_E_BUSY, - SDK_E_INVALID]"
  by (simp add: sdk_codes)

text \<open>C's implicit conversions between unsigned types: widening keeps the value, narrowing truncates.\<close>

lemma unat_ucast_mod: "unat (ucast (w :: 'a::len word) :: 'b::len word) = unat w mod 2 ^ LENGTH('b)"
  by (simp add: unsigned_ucast_eq take_bit_eq_mod)

lemma unat_u8_less: "unat (x :: u8) < 256"
  using unsigned_less [of x] by simp

lemma unat_u16_less: "unat (x :: u16) < 65536"
  using unsigned_less [of x] by simp

lemma unat_u32_less: "unat (x :: u32) < 4294967296"
  using unsigned_less [of x] by simp

lemma unat_widen_8_16 [simp]: "unat (ucast (x :: u8) :: u16) = unat x"
  and unat_widen_8_32 [simp]: "unat (ucast (x :: u8) :: u32) = unat x"
  and unat_widen_16_32 [simp]: "unat (ucast (y :: u16) :: u32) = unat y"
  using unat_u8_less [of x] unat_u16_less [of y] by (simp_all add: unat_ucast_mod)

lemma unat_u32_Suc_u16 [simp]: "unat (ucast (y :: u16) + 1 :: u32) = Suc (unat y)"
  using unat_u16_less [of y] by (simp add: unat_word_ariths)

declare unat_u8_less [simp] unat_u16_less [simp] unat_u32_less [simp]

section \<open>Arrays with checked access\<close>

definition load :: "'a list \<Rightarrow> nat \<Rightarrow> 'a option" where
  "load xs i = (if i < length xs then Some (xs ! i) else None)"

definition store :: "'a list \<Rightarrow> nat \<Rightarrow> 'a \<Rightarrow> 'a list option" where
  "store xs i v = (if i < length xs then Some (xs[i := v]) else None)"

text \<open>
  \<open>memcpy(dst + d, src + s, n)\<close> between two arrays that do not overlap, and the bytes
  an \<open>n\<close>-byte read at \<open>src + s\<close> returns.
\<close>

definition read_bytes :: "'a list \<Rightarrow> nat \<Rightarrow> nat \<Rightarrow> 'a list option" where
  "read_bytes src s n = (if s + n \<le> length src then Some (take n (drop s src)) else None)"

definition write_bytes :: "'a list \<Rightarrow> nat \<Rightarrow> 'a list \<Rightarrow> 'a list option" where
  "write_bytes dst d bs =
     (if d + length bs \<le> length dst
      then Some (take d dst @ bs @ drop (d + length bs) dst) else None)"

definition copy_bytes :: "'a list \<Rightarrow> nat \<Rightarrow> 'a list \<Rightarrow> nat \<Rightarrow> nat \<Rightarrow> 'a list option" where
  "copy_bytes dst d src s n = do { bs \<leftarrow> read_bytes src s n; write_bytes dst d bs }"

lemma load_in [mem_simps]: "i < length xs \<Longrightarrow> load xs i = Some (xs ! i)"
  by (simp add: load_def)

lemma load_out [mem_simps]: "length xs \<le> i \<Longrightarrow> load xs i = None"
  by (simp add: load_def)

lemma store_in [mem_simps]: "i < length xs \<Longrightarrow> store xs i v = Some (xs[i := v])"
  by (simp add: store_def)

lemma store_out [mem_simps]: "length xs \<le> i \<Longrightarrow> store xs i v = None"
  by (simp add: store_def)

lemma read_bytes_in [mem_simps]:
  "s + n \<le> length src \<Longrightarrow> read_bytes src s n = Some (take n (drop s src))"
  by (simp add: read_bytes_def)

lemma write_bytes_in [mem_simps]:
  "d + length bs \<le> length dst \<Longrightarrow>
     write_bytes dst d bs = Some (take d dst @ bs @ drop (d + length bs) dst)"
  by (simp add: write_bytes_def)

lemma copy_bytes_in [mem_simps]:
  "s + n \<le> length src \<Longrightarrow> d + n \<le> length dst \<Longrightarrow>
     copy_bytes dst d src s n = Some (take d dst @ take n (drop s src) @ drop (d + n) dst)"
  by (simp add: copy_bytes_def read_bytes_in write_bytes_in)

lemma write_bytes_behind:
  "k = length xs \<Longrightarrow> length bs \<le> length ys \<Longrightarrow>
     write_bytes (xs @ ys) k bs = Some (xs @ bs @ drop (length bs) ys)"
  by (simp add: write_bytes_def)

lemma load_Some_iff: "load xs i = Some v \<longleftrightarrow> i < length xs \<and> xs ! i = v"
  by (auto simp: load_def)

lemma store_Some_iff: "store xs i v = Some ys \<longleftrightarrow> i < length xs \<and> ys = xs[i := v]"
  by (auto simp: store_def)

lemma length_write_bytes: "write_bytes dst d bs = Some dst' \<Longrightarrow> length dst' = length dst"
  by (auto simp: write_bytes_def split: if_splits)

lemma read_write_same:
  "write_bytes dst d bs = Some dst' \<Longrightarrow> read_bytes dst' d (length bs) = Some bs"
  by (auto simp: write_bytes_def read_bytes_def min_def split: if_splits)

lemma read_write_disjoint:
  assumes "write_bytes dst d bs = Some dst'" and "s + n \<le> d \<or> d + length bs \<le> s"
  shows "read_bytes dst' s n = read_bytes dst s n"
proof -
  from assms(1) have dst': "dst' = take d dst @ bs @ drop (d + length bs) dst"
    and len: "d + length bs \<le> length dst"
    by (auto simp: write_bytes_def split: if_splits)
  have len': "length dst' = length dst" using len by (simp add: dst')
  have same: "dst' ! k = dst ! k" if "k < d \<or> d + length bs \<le> k" "k < length dst" for k
    using that len by (auto simp: dst' nth_append min_def)
  have "take n (drop s dst') = take n (drop s dst)" if "s + n \<le> length dst"
  proof (rule nth_equalityI)
    show "length (take n (drop s dst')) = length (take n (drop s dst))"
      using len' by simp
  next
    fix i assume "i < length (take n (drop s dst'))"
    then have "i < n" "s + i < length dst" using that len' by simp_all
    then show "take n (drop s dst') ! i = take n (drop s dst) ! i"
      using same [of "s + i"] assms(2) len' by auto
  qed
  then show ?thesis using len' by (simp add: read_bytes_def)
qed

section \<open>Sixteen-bit values in byte arrays\<close>

text \<open>The unions of src/src/sdk_def.h on the little-endian targets of the SDK: \<open>data_8[0]\<close> is the low byte.\<close>

definition lo8 :: "u16 \<Rightarrow> u8" where
  "lo8 w = ucast w"

definition hi8 :: "u16 \<Rightarrow> u8" where
  "hi8 w = ucast (drop_bit 8 w)"

definition mk16 :: "u8 \<Rightarrow> u8 \<Rightarrow> u16" where
  "mk16 lo hi = ucast lo + push_bit 8 (ucast hi)"

lemma unat_lo8: "unat (lo8 w) = unat w mod 256"
  by (simp add: lo8_def unat_ucast_mod)

lemma unat_hi8: "unat (hi8 w) = unat w div 256"
proof -
  have "unat w div 256 < 256" by (rule less_mult_imp_div_less) simp
  then show ?thesis by (simp add: hi8_def unat_ucast_mod drop_bit_eq_div unat_div)
qed

lemma unat_mk16: "unat (mk16 lo hi) = unat lo + 256 * unat hi"
proof -
  have "unat lo + 256 * unat hi < 65536" using unat_u8_less [of lo] unat_u8_less [of hi] by linarith
  then show ?thesis
    by (simp add: mk16_def unat_word_ariths unsigned_push_bit_eq push_bit_eq_mult take_bit_eq_mod
        mult.commute)
qed

lemma mk16_lo8_hi8 [simp]: "mk16 (lo8 w) (hi8 w) = w"
  by (simp add: word_unat_eq_iff unat_mk16 unat_lo8 unat_hi8)

lemma lo8_hi8_eq_iff: "lo8 v = lo8 w \<and> hi8 v = hi8 w \<longleftrightarrow> v = w"
  by (metis mk16_lo8_hi8)

lemma lo8_mk16 [simp]: "lo8 (mk16 a b) = a" and hi8_mk16 [simp]: "hi8 (mk16 a b) = b"
  using unat_u8_less [of a] unat_u8_less [of b]
  by (simp_all add: word_unat_eq_iff unat_mk16 unat_lo8 unat_hi8)

lemma lo8_xor: "lo8 (xor v w) = xor (lo8 v) (lo8 w)" and hi8_xor: "hi8 (xor v w) = xor (hi8 v) (hi8 w)"
  by (simp_all add: lo8_def hi8_def bit_eq_iff bit_simps)

text \<open>An array of 16-bit values as the bytes it occupies in memory.\<close>

definition reg_bytes :: "u16 list \<Rightarrow> u8 list" where
  "reg_bytes regs = concat (map (\<lambda>r. [lo8 r, hi8 r]) regs)"

lemma reg_bytes_simps [simp]:
  "reg_bytes [] = []" "reg_bytes (r # rs) = lo8 r # hi8 r # reg_bytes rs"
  "reg_bytes (rs @ qs) = reg_bytes rs @ reg_bytes qs"
  by (simp_all add: reg_bytes_def)

lemma length_reg_bytes [simp]: "length (reg_bytes rs) = 2 * length rs"
  by (induction rs) simp_all

lemma take_reg_bytes: "take (2 * n) (reg_bytes rs) = reg_bytes (take n rs)"
proof (induction rs arbitrary: n)
  case (Cons r rs)
  then show ?case by (cases n) simp_all
qed simp

lemma drop_reg_bytes: "drop (2 * n) (reg_bytes rs) = reg_bytes (drop n rs)"
proof (induction rs arbitrary: n)
  case (Cons r rs)
  then show ?case by (cases n) simp_all
qed simp

lemma unat_u16_of_nat: "n < 65536 \<Longrightarrow> unat (word_of_nat n :: u16) = n"
  by (simp add: unat_of_nat)

lemma bind_return_map: "Option.bind x (\<lambda>y. Some (f y)) = map_option f x"
  by (cases x) simp_all

section \<open>Windows of a circular buffer\<close>

text \<open>\<open>n\<close> consecutive cells from index \<open>g\<close> on, wrapping at the end of the array.\<close>

definition window :: "'a list \<Rightarrow> nat \<Rightarrow> nat \<Rightarrow> 'a list" where
  "window buf g n = map (\<lambda>k. buf ! ((g + k) mod length buf)) [0..<n]"

lemma length_window [simp]: "length (window buf g n) = n"
  by (simp add: window_def)

lemma window_0 [simp]: "window buf g 0 = []"
  by (simp add: window_def)

lemma window_eq_Nil_iff [simp]: "window buf g n = [] \<longleftrightarrow> n = 0"
  by (metis length_window length_0_conv)

text \<open>Offsets below the length of the ring name different cells.\<close>

lemma ring_index_inj:
  fixes j k g m :: nat
  assumes "j < m" and "k < m" and "(g + j) mod m = (g + k) mod m"
  shows "j = k"
proof -
  have "int m dvd (int g + int j) - (int g + int k)"
    using assms(3) by (metis mod_eq_dvd_iff of_nat_add of_nat_mod)
  then have "int m dvd int j - int k" by simp
  then show ?thesis
    using assms(1,2) zdvd_imp_le [of "int m" "int j - int k"]
      zdvd_imp_le [of "int m" "int k - int j"]
    by (cases "j < k"; cases "k < j") (auto simp: dvd_diff_commute)
qed

lemma window_cong:
  assumes "length buf' = length buf"
    and "\<And>k. k < n \<Longrightarrow> buf' ! ((g + k) mod length buf) = buf ! ((g + k) mod length buf)"
  shows "window buf' g n = window buf g n"
  using assms by (simp add: window_def)

text \<open>Writing the cell behind the window and growing it by one appends an element.\<close>

lemma window_push [ring_simps]:
  assumes "n < length buf"
  shows "window (buf[(g + n) mod length buf := x]) g (Suc n) = window buf g n @ [x]"
proof -
  have "(g + n) mod length buf < length buf" using assms by (cases buf) simp_all
  moreover have "buf[(g + n) mod length buf := x] ! ((g + k) mod length buf)
      = buf ! ((g + k) mod length buf)" if "k < n" for k
    using ring_index_inj [of k "length buf" n g] that assms
    by (intro nth_list_update_neq) auto
  ultimately show ?thesis by (simp add: window_def)
qed

text \<open>Advancing the read index and shrinking the window by one removes the first element.\<close>

lemma window_pop [ring_simps]:
  "window buf g (Suc n) = buf ! (g mod length buf) # window buf (Suc g mod length buf) n"
proof -
  have "map (\<lambda>k. buf ! ((g + k) mod length buf)) [0..<Suc n] =
      buf ! (g mod length buf) # map (\<lambda>k. buf ! ((g + Suc k) mod length buf)) [0..<n]"
    by (simp add: upt_conv_Cons map_Suc_upt [symmetric] del: upt_Suc)
  then show ?thesis by (simp add: window_def mod_simps)
qed

text \<open>Pushing into a full window of the whole ring overwrites its oldest element.\<close>

lemma window_overwrite [ring_simps]:
  assumes "n < length buf"
  shows "window (buf[(g + Suc n) mod length buf := x]) (Suc g mod length buf) (Suc n)
     = tl (window buf g (Suc n)) @ [x]"
proof -
  have "(g + Suc n) mod length buf = (Suc g mod length buf + n) mod length buf"
    by (simp add: mod_simps)
  then show ?thesis using assms by (simp only: window_push window_pop [of buf g] list.sel)
qed

lemma window_mod [simp]: "window buf (g mod length buf) n = window buf g n"
  by (simp add: window_def mod_simps)

text \<open>The distance from the read index \<open>g\<close> to the write index \<open>p\<close> on a ring of \<open>n\<close> cells.\<close>

lemma ring_distance:
  fixes g p n :: nat
  assumes "g < n" and "p < n"
  shows "(p + n - g) mod n = (if g \<le> p then p - g else n - (g - p))"
proof (cases "g \<le> p")
  case True
  then have "p + n - g = (p - g) + n" by simp
  then have "(p + n - g) mod n = (p - g) mod n" by (simp only: mod_add_self2)
  with True assms show ?thesis by simp
qed (use assms in simp)

lemma ring_distance_offset:
  fixes g l n :: nat
  assumes "g < n" and "l < n"
  shows "((g + l) mod n + n - g) mod n = l"
proof (cases "g + l < n")
  case True
  then show ?thesis using assms by (simp add: ring_distance)
next
  case False
  then have "(g + l) mod n = g + l - n" using assms by (simp add: mod_if)
  then show ?thesis using False assms by simp
qed

lemma ring_distance_inverse:
  fixes g p n :: nat
  assumes "g < n" and "p < n"
  shows "(g + (p + n - g) mod n) mod n = p"
proof -
  have "(g + (p + n - g) mod n) mod n = (g + (p + n - g)) mod n" by (simp only: mod_add_right_eq)
  also have "g + (p + n - g) = p + n" using assms by simp
  finally show ?thesis using assms(2) by simp
qed

section \<open>The last elements of a list\<close>

text \<open>What a receiver that drops the oldest element on overflow still holds.\<close>

definition lastn :: "nat \<Rightarrow> 'a list \<Rightarrow> 'a list" where
  "lastn n xs = drop (length xs - n) xs"

lemma length_lastn [simp]: "length (lastn n xs) = min n (length xs)"
  by (auto simp: lastn_def)

lemma lastn_all [simp]: "length xs \<le> n \<Longrightarrow> lastn n xs = xs"
  by (simp add: lastn_def)

lemma lastn_snoc_full: "length xs = n \<Longrightarrow> 0 < n \<Longrightarrow> lastn n (xs @ [x]) = tl xs @ [x]"
  by (cases xs) (auto simp: lastn_def)

lemma lastn_absorb: "lastn n (lastn n xs @ ys) = lastn n (xs @ ys)"
proof (cases "length xs \<le> n")
  case False
  then have "length xs + length ys - n = (length xs - n) + length ys" by simp
  with False show ?thesis by (simp add: lastn_def add.commute)
qed simp

end
