(* ===== verification/Queue_Interfaces.thy ===== *)
theory Queue_Interfaces
  imports Prelude
begin

text \<open>
  The interfaces of the SDK's queues. Three contracts occur in the code: a queue that can be
  drained (its reader's side), a queue that refuses an element when it is full
  (sdk_ringbuffer_putchar, app_sched_event_put), and a queue that drops its oldest element
  (sdk_ringbuffer_putchar_force, the UART and BLE receive FIFOs, the CAN message queue).
  Every operation returns an option: \<open>None\<close> stands for an access out of bounds or a
  division by zero, which the laws below exclude. The lemmas lift the laws of one element
  to the transfer of whole messages; the components interpret the locales on their models.
\<close>

section \<open>Transfers of several elements\<close>

fun enq_list :: "('a \<Rightarrow> 'q \<Rightarrow> (bool \<times> 'q) option) \<Rightarrow> 'a list \<Rightarrow> 'q \<Rightarrow> (nat \<times> 'q) option" where
  "enq_list enq [] q = Some (0, q)"
| "enq_list enq (x # xs) q =
     do { (ok, q1) \<leftarrow> enq x q;
          if ok then do { (n, q2) \<leftarrow> enq_list enq xs q1; Some (Suc n, q2) }
          else Some (0, q1) }"

fun deq_list :: "('q \<Rightarrow> ('a option \<times> 'q) option) \<Rightarrow> nat \<Rightarrow> 'q \<Rightarrow> ('a list \<times> 'q) option" where
  "deq_list deq 0 q = Some ([], q)"
| "deq_list deq (Suc n) q =
     do { (r, q1) \<leftarrow> deq q;
          (case r of
             None \<Rightarrow> Some ([], q1)
           | Some x \<Rightarrow> do { (xs, q2) \<leftarrow> deq_list deq n q1; Some (x # xs, q2) }) }"

fun push_list :: "('a \<Rightarrow> 'q \<Rightarrow> 'q option) \<Rightarrow> 'a list \<Rightarrow> 'q \<Rightarrow> 'q option" where
  "push_list push [] q = Some q"
| "push_list push (x # xs) q = do { q1 \<leftarrow> push x q; push_list push xs q1 }"

section \<open>A queue that can be drained\<close>

locale drainable_queue =
  fixes deq :: "'q \<Rightarrow> ('a option \<times> 'q) option"
    and view :: "'q \<Rightarrow> 'a list"
    and inv :: "'q \<Rightarrow> bool"
    and cap :: "'q \<Rightarrow> nat"
  assumes deq_Nil: "inv q \<Longrightarrow> view q = [] \<Longrightarrow> deq q = Some (None, q)"
    and deq_Cons: "inv q \<Longrightarrow> view q = x # xs \<Longrightarrow>
      \<exists>q1. deq q = Some (Some x, q1) \<and> inv q1 \<and> view q1 = xs \<and> cap q1 = cap q"
    and view_le_cap: "inv q \<Longrightarrow> length (view q) \<le> cap q"
begin

lemma deq_list_view:
  "inv q \<Longrightarrow> \<exists>q1. deq_list deq n q = Some (take n (view q), q1) \<and> inv q1
     \<and> view q1 = drop n (view q) \<and> cap q1 = cap q"
proof (induction n arbitrary: q)
  case 0
  then show ?case by simp
next
  case (Suc n)
  show ?case
  proof (cases "view q")
    case Nil
    with Suc.prems show ?thesis by (simp add: deq_Nil)
  next
    case (Cons x xs)
    with Suc.prems obtain q1 where q1: "deq q = Some (Some x, q1)" "inv q1" "view q1 = xs"
      "cap q1 = cap q"
      using deq_Cons by blast
    with Suc.IH [of q1] Cons show ?thesis by auto
  qed
qed

end

section \<open>A queue that refuses elements when it is full\<close>

locale bounded_queue = drainable_queue deq view inv cap
  for deq :: "'q \<Rightarrow> ('a option \<times> 'q) option" and view inv cap +
  fixes enq :: "'a \<Rightarrow> 'q \<Rightarrow> (bool \<times> 'q) option"
  assumes enq_free: "inv q \<Longrightarrow> length (view q) < cap q \<Longrightarrow>
      \<exists>q1. enq x q = Some (True, q1) \<and> inv q1 \<and> view q1 = view q @ [x] \<and> cap q1 = cap q"
    and enq_full: "inv q \<Longrightarrow> length (view q) = cap q \<Longrightarrow> enq x q = Some (False, q)"
begin

text \<open>A message is stored as far as there is room; the count says how far.\<close>

lemma enq_list_view:
  "inv q \<Longrightarrow> \<exists>q1. enq_list enq xs q = Some (min (length xs) (cap q - length (view q)), q1)
     \<and> inv q1 \<and> view q1 = view q @ take (cap q - length (view q)) xs \<and> cap q1 = cap q"
proof (induction xs arbitrary: q)
  case Nil
  then show ?case by simp
next
  case (Cons x xs)
  show ?case
  proof (cases "length (view q) = cap q")
    case True
    with Cons.prems show ?thesis by (simp add: enq_full)
  next
    case False
    with Cons.prems have "length (view q) < cap q" by (meson le_neq_implies_less view_le_cap)
    with Cons.prems obtain q1 where q1: "enq x q = Some (True, q1)" "inv q1"
      "view q1 = view q @ [x]" "cap q1 = cap q"
      using enq_free by blast
    have "cap q - length (view q) = Suc (cap q1 - length (view q1))"
      using q1 \<open>length (view q) < cap q\<close> by simp
    with Cons.IH [of q1] q1 show ?thesis by auto
  qed
qed

text \<open>What was written to an empty queue with enough room is what is read back.\<close>

lemma enq_deq_roundtrip:
  assumes "inv q" and "view q = []" and "length xs \<le> cap q"
  shows "\<exists>q1 q2. enq_list enq xs q = Some (length xs, q1)
    \<and> deq_list deq (length xs) q1 = Some (xs, q2) \<and> view q2 = []"
proof -
  obtain q1 where q1: "enq_list enq xs q = Some (length xs, q1)" "inv q1" "view q1 = xs"
    using enq_list_view [OF assms(1), of xs] assms(2,3) by (auto simp: min_def)
  with deq_list_view [of q1 "length xs"] show ?thesis by auto
qed

end

section \<open>A queue that drops its oldest element when it is full\<close>

locale overwriting_queue = drainable_queue deq view inv cap
  for deq :: "'q \<Rightarrow> ('a option \<times> 'q) option" and view inv cap +
  fixes push :: "'a \<Rightarrow> 'q \<Rightarrow> 'q option"
  assumes push_lastn: "inv q \<Longrightarrow>
      \<exists>q1. push x q = Some q1 \<and> inv q1 \<and> view q1 = lastn (cap q) (view q @ [x]) \<and> cap q1 = cap q"
begin

text \<open>After any burst the queue holds the last elements that were received.\<close>

lemma push_list_lastn:
  "inv q \<Longrightarrow> \<exists>q1. push_list push xs q = Some q1 \<and> inv q1
     \<and> view q1 = lastn (cap q) (view q @ xs) \<and> cap q1 = cap q"
proof (induction xs arbitrary: q)
  case Nil
  then show ?case by (simp add: view_le_cap)
next
  case (Cons x xs)
  then obtain q1 where q1: "push x q = Some q1" "inv q1" "cap q1 = cap q"
    "view q1 = lastn (cap q) (view q @ [x])"
    using push_lastn by blast
  with Cons.IH [of q1] show ?case by (auto simp: lastn_absorb)
qed

text \<open>A burst that fits is received whole and in order.\<close>

lemma push_deq_roundtrip:
  assumes "inv q" and "view q = []" and "length xs \<le> cap q"
  shows "\<exists>q1 q2. push_list push xs q = Some q1
    \<and> deq_list deq (length xs) q1 = Some (xs, q2) \<and> view q2 = []"
proof -
  obtain q1 where q1: "push_list push xs q = Some q1" "inv q1" "view q1 = xs"
    using push_list_lastn [OF assms(1), of xs] assms(2,3) by auto
  with deq_list_view [of q1 "length xs"] show ?thesis by auto
qed

end

end
