(* ===== verification/Ringbuffer.thy ===== *)
theory Ringbuffer
  imports Queue_Interfaces
begin

text \<open>
  src/src/sdk_ringbuffer.c and src/src/sdk_ringbuffer.h: the byte ring used between
  interrupt handlers and the main loop. \<open>rb_buf\<close> is the memory the caller passed as
  \<open>pool\<close>; every operation returns \<open>None\<close> where the C code would index outside
  that memory or divide by zero.
\<close>

section \<open>State and operations\<close>

record sdk_ringbuffer =
  rb_buf_ptr :: "u8 list"
  rb_bufsz :: u32
  rb_get_index :: u16
  rb_put_index :: u16
  rb_is_full :: bool

text \<open>The size parameter is an \<open>int16_t\<close> that is sign-extended into the 32-bit field.\<close>

definition sdk_ringbuffer_init :: "u8 list \<Rightarrow> 16 word \<Rightarrow> sdk_ringbuffer" where
  "sdk_ringbuffer_init pool sz =
     \<lparr>rb_buf_ptr = pool, rb_bufsz = scast sz, rb_get_index = 0, rb_put_index = 0,
      rb_is_full = False\<rparr>"

definition sdk_ringbuffer_reset :: "sdk_ringbuffer \<Rightarrow> sdk_ringbuffer" where
  "sdk_ringbuffer_reset rb = rb\<lparr>rb_get_index := 0, rb_put_index := 0, rb_is_full := False\<rparr>"

text \<open>\<open>(index + 1) % bufsz\<close>, computed in 32 bits and truncated to the 16-bit field.\<close>

definition rb_next :: "u16 \<Rightarrow> u32 \<Rightarrow> u16 option" where
  "rb_next i sz = (if sz = 0 then None else Some (ucast ((ucast i + 1) mod sz)))"

definition sdk_ringbuffer_putchar :: "sdk_ringbuffer \<Rightarrow> u8 \<Rightarrow> (nat \<times> sdk_ringbuffer) option" where
  "sdk_ringbuffer_putchar rb ch =
     (if rb_is_full rb then Some (0, rb)
      else do {
        buf \<leftarrow> store (rb_buf_ptr rb) (unat (rb_put_index rb)) ch;
        p \<leftarrow> rb_next (rb_put_index rb) (rb_bufsz rb);
        let rb1 = rb\<lparr>rb_buf_ptr := buf, rb_put_index := p\<rparr>;
        Some (1, if rb_put_index rb1 = rb_get_index rb1 then rb1\<lparr>rb_is_full := True\<rparr> else rb1)
      })"

text \<open>The buffer argument is a pointer here: \<open>None\<close> models \<open>NULL\<close>.\<close>

definition sdk_ringbuffer_putchar_force ::
    "sdk_ringbuffer option \<Rightarrow> u8 \<Rightarrow> (nat \<times> sdk_ringbuffer option) option" where
  "sdk_ringbuffer_putchar_force rbp ch =
     (case rbp of
        None \<Rightarrow> Some (0, None)
      | Some rb \<Rightarrow> do {
          rb1 \<leftarrow> (if rb_is_full rb
                  then do { g \<leftarrow> rb_next (rb_get_index rb) (rb_bufsz rb);
                            Some (rb\<lparr>rb_get_index := g\<rparr>) }
                  else Some rb);
          buf \<leftarrow> store (rb_buf_ptr rb1) (unat (rb_put_index rb1)) ch;
          p \<leftarrow> rb_next (rb_put_index rb1) (rb_bufsz rb1);
          let rb2 = rb1\<lparr>rb_buf_ptr := buf, rb_put_index := p\<rparr>;
          Some (1, Some (if rb_put_index rb2 = rb_get_index rb2
                         then rb2\<lparr>rb_is_full := True\<rparr> else rb2))
        })"

text \<open>The result parameter \<open>*ch\<close> keeps its old value when the buffer is empty.\<close>

definition sdk_ringbuffer_getchar ::
    "sdk_ringbuffer \<Rightarrow> u8 \<Rightarrow> (nat \<times> u8 \<times> sdk_ringbuffer) option" where
  "sdk_ringbuffer_getchar rb ch =
     (if \<not> rb_is_full rb \<and> rb_get_index rb = rb_put_index rb then Some (0, ch, rb)
      else do {
        c \<leftarrow> load (rb_buf_ptr rb) (unat (rb_get_index rb));
        g \<leftarrow> rb_next (rb_get_index rb) (rb_bufsz rb);
        Some (1, c, rb\<lparr>rb_get_index := g, rb_is_full := False\<rparr>)
      })"

text \<open>
  The loops over a message run for \<open>i = 0, \<dots>, length - 1\<close>; the third argument is the
  number of rounds left.
\<close>

fun rb_put_loop :: "sdk_ringbuffer \<Rightarrow> u8 list \<Rightarrow> nat \<Rightarrow> nat \<Rightarrow> nat \<Rightarrow> (nat \<times> sdk_ringbuffer) option" where
  "rb_put_loop rb ptr i 0 acc = Some (acc, rb)"
| "rb_put_loop rb ptr i (Suc n) acc =
     do { c \<leftarrow> load ptr i;
          (ret, rb1) \<leftarrow> sdk_ringbuffer_putchar rb c;
          if ret \<noteq> 0 then rb_put_loop rb1 ptr (Suc i) n (Suc acc) else Some (acc, rb1) }"

definition sdk_ringbuffer_put ::
    "sdk_ringbuffer \<Rightarrow> u8 list \<Rightarrow> u16 \<Rightarrow> (nat \<times> sdk_ringbuffer) option" where
  "sdk_ringbuffer_put rb ptr len = rb_put_loop rb ptr 0 (unat len) 0"

fun rb_put_force_loop ::
    "sdk_ringbuffer option \<Rightarrow> u8 list \<Rightarrow> nat \<Rightarrow> nat \<Rightarrow> sdk_ringbuffer option option" where
  "rb_put_force_loop rbp ptr i 0 = Some rbp"
| "rb_put_force_loop rbp ptr i (Suc n) =
     do { c \<leftarrow> load ptr i;
          (_, rbp1) \<leftarrow> sdk_ringbuffer_putchar_force rbp c;
          rb_put_force_loop rbp1 ptr (Suc i) n }"

definition sdk_ringbuffer_put_force ::
    "sdk_ringbuffer option \<Rightarrow> u8 list \<Rightarrow> u16 \<Rightarrow> (nat \<times> sdk_ringbuffer option) option" where
  "sdk_ringbuffer_put_force rbp ptr len =
     do { rbp1 \<leftarrow> rb_put_force_loop rbp ptr 0 (unat len); Some (unat len, rbp1) }"

text \<open>\<open>ptr\<close> is the caller's destination array, written cell by cell.\<close>

fun rb_get_loop ::
    "sdk_ringbuffer \<Rightarrow> u8 list \<Rightarrow> nat \<Rightarrow> nat \<Rightarrow> nat \<Rightarrow> (nat \<times> u8 list \<times> sdk_ringbuffer) option" where
  "rb_get_loop rb ptr i 0 acc = Some (acc, ptr, rb)"
| "rb_get_loop rb ptr i (Suc n) acc =
     do { old \<leftarrow> load ptr i;
          (ret, c, rb1) \<leftarrow> sdk_ringbuffer_getchar rb old;
          ptr1 \<leftarrow> store ptr i c;
          if ret \<noteq> 0 then rb_get_loop rb1 ptr1 (Suc i) n (Suc acc)
          else Some (acc, ptr1, rb1) }"

definition sdk_ringbuffer_get ::
    "sdk_ringbuffer \<Rightarrow> u8 list \<Rightarrow> u16 \<Rightarrow> (nat \<times> u8 list \<times> sdk_ringbuffer) option" where
  "sdk_ringbuffer_get rb ptr len = rb_get_loop rb ptr 0 (unat len) 0"

text \<open>
  The result is the return value and the cell \<open>*ptr\<close> points to afterwards (\<open>None\<close>
  when the pointer is left alone).
\<close>

definition sdk_ringbuffer_peak :: "sdk_ringbuffer \<Rightarrow> nat \<times> nat option" where
  "sdk_ringbuffer_peak rb =
     (if rb_get_index rb = rb_put_index rb then (0, None)
      else (1, Some (unat (rb_get_index rb))))"

definition sdk_ringbuffer_data_len :: "sdk_ringbuffer \<Rightarrow> u32" where
  "sdk_ringbuffer_data_len rb =
     (if rb_is_full rb then rb_bufsz rb
      else if rb_get_index rb \<le> rb_put_index rb
      then ucast (rb_put_index rb) - ucast (rb_get_index rb)
      else rb_bufsz rb - (ucast (rb_get_index rb) - ucast (rb_put_index rb)))"

section \<open>Abstraction: the queue of stored bytes\<close>

text \<open>
  The ring occupies the first \<open>bufsz\<close> cells of the pool; its contents are the cells from
  the read index on, as many as \<open>sdk_ringbuffer_data_len\<close> reports.
\<close>

definition rb_cap :: "sdk_ringbuffer \<Rightarrow> nat" where
  "rb_cap rb = unat (rb_bufsz rb)"

definition rb_inv :: "sdk_ringbuffer \<Rightarrow> bool" where
  "rb_inv rb \<longleftrightarrow>
     0 < rb_cap rb \<and> rb_cap rb \<le> 2 ^ 16 \<and> rb_cap rb \<le> length (rb_buf_ptr rb)
     \<and> unat (rb_get_index rb) < rb_cap rb \<and> unat (rb_put_index rb) < rb_cap rb
     \<and> (rb_is_full rb \<longrightarrow> rb_get_index rb = rb_put_index rb)"

definition rb_view :: "sdk_ringbuffer \<Rightarrow> u8 list" where
  "rb_view rb = window (take (rb_cap rb) (rb_buf_ptr rb)) (unat (rb_get_index rb))
     (unat (sdk_ringbuffer_data_len rb))"

definition rb_enq :: "u8 \<Rightarrow> sdk_ringbuffer \<Rightarrow> (bool \<times> sdk_ringbuffer) option" where
  "rb_enq c rb = map_option (\<lambda>(ret, rb1). (ret \<noteq> 0, rb1)) (sdk_ringbuffer_putchar rb c)"

definition rb_deq :: "sdk_ringbuffer \<Rightarrow> (u8 option \<times> sdk_ringbuffer) option" where
  "rb_deq rb = map_option (\<lambda>(ret, c, rb1). (if ret \<noteq> 0 then Some c else None, rb1))
     (sdk_ringbuffer_getchar rb 0)"

definition rb_push :: "u8 \<Rightarrow> sdk_ringbuffer \<Rightarrow> sdk_ringbuffer option" where
  "rb_push c rb = Option.bind (sdk_ringbuffer_putchar_force (Some rb) c) snd"

section \<open>Index arithmetic\<close>

lemma rb_next_nat:
  assumes "0 < unat sz" and "unat sz \<le> 2 ^ 16"
  shows "\<exists>j. rb_next i sz = Some j \<and> unat j = Suc (unat i) mod unat sz"
proof -
  have "sz \<noteq> 0" using assms(1) by auto
  moreover have "unat ((ucast i + 1 :: u32) mod sz) = Suc (unat i) mod unat sz"
    by (simp add: unat_mod)
  moreover have "Suc (unat i) mod unat sz < 2 ^ 16"
    using assms mod_less_divisor [of "unat sz" "Suc (unat i)"] by linarith
  ultimately show ?thesis by (simp add: rb_next_def unat_ucast_mod)
qed

text \<open>The length the code reports is the distance of the indices, in every wrap position.\<close>

lemma data_len_nat:
  assumes "rb_inv rb"
  shows "unat (sdk_ringbuffer_data_len rb) =
    (if rb_is_full rb then rb_cap rb
     else (unat (rb_put_index rb) + rb_cap rb - unat (rb_get_index rb)) mod rb_cap rb)"
proof -
  let ?g = "unat (rb_get_index rb)" and ?p = "unat (rb_put_index rb)" and ?n = "rb_cap rb"
  have b: "?g < ?n" "?p < ?n" "?n \<le> 2 ^ 16" using assms by (auto simp: rb_inv_def)
  note dist = ring_distance [OF b(1,2)]
  show ?thesis
  proof (cases "rb_is_full rb \<or> rb_get_index rb \<le> rb_put_index rb")
    case True
    then show ?thesis
      using dist by (auto simp: sdk_ringbuffer_data_len_def rb_cap_def unat_sub word_le_nat_alt)
  next
    case False
    then have lt: "?p < ?g" "\<not> rb_is_full rb" by (auto simp: word_le_nat_alt)
    then have d: "unat (ucast (rb_get_index rb) - ucast (rb_put_index rb) :: u32) = ?g - ?p"
      by (simp add: unat_sub word_le_nat_alt)
    then have "unat (rb_bufsz rb - (ucast (rb_get_index rb) - ucast (rb_put_index rb)))
        = ?n - (?g - ?p)"
      using b lt by (subst unat_sub) (auto simp: word_le_nat_alt rb_cap_def)
    then show ?thesis
      using lt False dist by (auto simp: sdk_ringbuffer_data_len_def)
  qed
qed

text \<open>The length of the contents and the next indices, as the operations need them.\<close>

lemma rb_inv_facts:
  assumes "rb_inv rb"
  shows "0 < unat (rb_bufsz rb)" and "unat (rb_bufsz rb) \<le> 2 ^ 16"
    and "unat (rb_get_index rb) < rb_cap rb" and "unat (rb_put_index rb) < rb_cap rb"
    and "length (take (rb_cap rb) (rb_buf_ptr rb)) = rb_cap rb"
    and "unat (rb_put_index rb) < length (rb_buf_ptr rb)"
    and "unat (rb_get_index rb) < length (rb_buf_ptr rb)"
  using assms by (auto simp: rb_inv_def rb_cap_def)

lemma length_rb_view: "length (rb_view rb) = unat (sdk_ringbuffer_data_len rb)"
  by (simp add: rb_view_def)

lemma rb_view_le_cap: "rb_inv rb \<Longrightarrow> length (rb_view rb) \<le> rb_cap rb"
  by (simp add: length_rb_view data_len_nat rb_inv_def mod_le_divisor)

lemma rb_full_iff:
  assumes "rb_inv rb"
  shows "rb_is_full rb \<longleftrightarrow> length (rb_view rb) = rb_cap rb"
proof -
  have "0 < rb_cap rb" using assms by (simp add: rb_inv_def)
  then have "k mod rb_cap rb \<noteq> rb_cap rb" for k by (metis mod_less_divisor less_irrefl)
  then show ?thesis by (simp add: length_rb_view data_len_nat [OF assms])
qed

lemma rb_empty_iff:
  assumes "rb_inv rb"
  shows "rb_view rb = [] \<longleftrightarrow> \<not> rb_is_full rb \<and> rb_get_index rb = rb_put_index rb"
proof -
  let ?g = "unat (rb_get_index rb)" and ?p = "unat (rb_put_index rb)"
  have b: "0 < rb_cap rb" "?g < rb_cap rb" "?p < rb_cap rb"
    using assms by (simp_all add: rb_inv_def)
  have "rb_view rb = [] \<longleftrightarrow> unat (sdk_ringbuffer_data_len rb) = 0"
    by (simp add: rb_view_def)
  also have "\<dots> \<longleftrightarrow> \<not> rb_is_full rb \<and> ?g = ?p"
    unfolding data_len_nat [OF assms] ring_distance [OF b(2,3)] using b by auto
  finally show ?thesis by (simp add: word_unat_eq_iff)
qed

text \<open>The write index sits right behind the contents.\<close>

lemma rb_put_index_view:
  assumes "rb_inv rb"
  shows "unat (rb_put_index rb) = (unat (rb_get_index rb) + length (rb_view rb)) mod rb_cap rb"
proof -
  let ?g = "unat (rb_get_index rb)" and ?p = "unat (rb_put_index rb)" and ?n = "rb_cap rb"
  have b: "?g < ?n" "?p < ?n" using assms by (auto simp: rb_inv_def)
  show ?thesis
  proof (cases "rb_is_full rb")
    case True
    with assms b show ?thesis by (simp add: length_rb_view data_len_nat rb_inv_def)
  next
    case False
    then have "(?g + length (rb_view rb)) mod ?n = (?g + (?p + ?n - ?g)) mod ?n"
      using assms by (simp add: length_rb_view data_len_nat mod_simps del: add_diff_assoc)
    also have "\<dots> = ?p" using b by simp
    finally show ?thesis by simp
  qed
qed

lemma data_len_unique:
  assumes "rb_inv rb" and "unat (rb_put_index rb) = (unat (rb_get_index rb) + l) mod rb_cap rb"
    and "l \<le> rb_cap rb" and "rb_is_full rb \<longleftrightarrow> l = rb_cap rb"
  shows "unat (sdk_ringbuffer_data_len rb) = l"
proof (cases "rb_is_full rb")
  case True
  with assms show ?thesis by (simp add: data_len_nat)
next
  case False
  with assms have "unat (rb_get_index rb) < rb_cap rb" "l < rb_cap rb"
    by (auto simp: rb_inv_def)
  with False assms show ?thesis by (simp add: data_len_nat ring_distance_offset)
qed

section \<open>The operations on the abstract queue\<close>

text \<open>Storing a byte behind contents of length \<open>l\<close>, common to both put operations.\<close>

lemma rb_store_step:
  fixes ch :: u8
  assumes inv: "rb_inv rb" and room: "length (rb_view rb) < rb_cap rb"
    and p: "unat p = Suc (unat (rb_put_index rb)) mod unat (rb_bufsz rb)"
  defines "rb1 \<equiv> rb\<lparr>rb_buf_ptr := (rb_buf_ptr rb)[unat (rb_put_index rb) := ch], rb_put_index := p,
              rb_is_full := (p = rb_get_index rb)\<rparr>"
  shows "rb_inv rb1 \<and> rb_view rb1 = rb_view rb @ [ch] \<and> rb_cap rb1 = rb_cap rb"
proof -
  let ?n = "rb_cap rb" and ?g = "unat (rb_get_index rb)" and ?l = "length (rb_view rb)"
  let ?buf = "take ?n (rb_buf_ptr rb)"
  have cap: "rb_cap rb1 = ?n" by (simp add: rb1_def rb_cap_def)
  have n: "0 < ?n" "length ?buf = ?n" "?g < ?n" using inv by (auto simp: rb_inv_def)
  have p': "unat p = (?g + Suc ?l) mod ?n"
    using p rb_put_index_view [OF inv] by (simp add: rb_cap_def mod_simps)
  have full: "p = rb_get_index rb \<longleftrightarrow> Suc ?l = ?n"
  proof
    assume "p = rb_get_index rb"
    then have "(?g + Suc ?l) mod ?n = (?g + 0) mod ?n" using p' n by simp
    then show "Suc ?l = ?n"
      using ring_index_inj [of "Suc ?l" ?n 0 ?g] n room by (metis Suc_lessI nat.distinct(1))
  next
    assume "Suc ?l = ?n"
    then show "p = rb_get_index rb" using p' n by (simp add: word_unat_eq_iff)
  qed
  have inv1: "rb_inv rb1"
    using inv p n cap unfolding rb_inv_def by (auto simp: rb1_def rb_cap_def)
  have "unat (sdk_ringbuffer_data_len rb1) = Suc ?l"
  proof (rule data_len_unique [OF inv1])
    show "unat (rb_put_index rb1) = (unat (rb_get_index rb1) + Suc ?l) mod rb_cap rb1"
      using p' by (simp add: cap) (simp add: rb1_def)
    show "Suc ?l \<le> rb_cap rb1" using room cap by simp
    show "rb_is_full rb1 \<longleftrightarrow> Suc ?l = rb_cap rb1"
      using full by (simp add: cap) (simp add: rb1_def)
  qed
  moreover have "take ?n (rb_buf_ptr rb1) = ?buf[(?g + ?l) mod length ?buf := ch]"
    using rb_put_index_view [OF inv] n by (simp add: rb1_def take_update_swap)
  moreover have "rb_get_index rb1 = rb_get_index rb" by (simp add: rb1_def)
  ultimately have "rb_view rb1 = window (?buf[(?g + ?l) mod length ?buf := ch]) ?g (Suc ?l)"
    by (simp add: rb_view_def [of rb1] cap)
  also have "\<dots> = window ?buf ?g ?l @ [ch]" using window_push n room by metis
  also have "window ?buf ?g ?l = rb_view rb"
    by (simp add: rb_view_def length_rb_view)
  finally show ?thesis using inv1 cap by simp
qed

lemma rb_put_free:
  assumes inv: "rb_inv rb" and room: "length (rb_view rb) < rb_cap rb"
  shows "\<exists>rb1. sdk_ringbuffer_putchar rb ch = Some (1, rb1)
    \<and> rb_inv rb1 \<and> rb_view rb1 = rb_view rb @ [ch] \<and> rb_cap rb1 = rb_cap rb"
proof -
  obtain p where p: "rb_next (rb_put_index rb) (rb_bufsz rb) = Some p"
    "unat p = Suc (unat (rb_put_index rb)) mod unat (rb_bufsz rb)"
    using rb_next_nat rb_inv_facts(1,2) [OF inv] by blast
  have nf: "\<not> rb_is_full rb" using room rb_full_iff [OF inv] by simp
  let ?rb1 = "rb\<lparr>rb_buf_ptr := (rb_buf_ptr rb)[unat (rb_put_index rb) := ch], rb_put_index := p,
                rb_is_full := (p = rb_get_index rb)\<rparr>"
  have "sdk_ringbuffer_putchar rb ch = Some (1, ?rb1)"
    using nf p(1) rb_inv_facts(6) [OF inv]
    by (simp add: sdk_ringbuffer_putchar_def mem_simps Let_def)
  with rb_store_step [OF inv room p(2), where ch = ch] show ?thesis by blast
qed

lemma rb_put_full:
  "rb_inv rb \<Longrightarrow> length (rb_view rb) = rb_cap rb \<Longrightarrow> sdk_ringbuffer_putchar rb ch = Some (0, rb)"
  using rb_full_iff [of rb] by (simp add: sdk_ringbuffer_putchar_def)

lemma rb_get_empty:
  "rb_inv rb \<Longrightarrow> rb_view rb = [] \<Longrightarrow> sdk_ringbuffer_getchar rb ch = Some (0, ch, rb)"
  using rb_empty_iff [of rb] by (simp add: sdk_ringbuffer_getchar_def)

text \<open>Advancing the read index, common to reading and to overwriting.\<close>

lemma rb_advance_step:
  assumes inv: "rb_inv rb" and v: "rb_view rb = c # cs"
    and g: "unat g = Suc (unat (rb_get_index rb)) mod unat (rb_bufsz rb)"
  defines "rb1 \<equiv> rb\<lparr>rb_get_index := g, rb_is_full := False\<rparr>"
  shows "rb_inv rb1 \<and> rb_view rb1 = cs \<and> rb_cap rb1 = rb_cap rb
    \<and> rb_buf_ptr rb ! unat (rb_get_index rb) = c"
proof -
  let ?n = "rb_cap rb" and ?g = "unat (rb_get_index rb)"
  let ?buf = "take ?n (rb_buf_ptr rb)"
  have cap: "rb_cap rb1 = ?n" by (simp add: rb1_def rb_cap_def)
  have n: "0 < ?n" "length ?buf = ?n" "?g < ?n" using inv by (auto simp: rb_inv_def)
  have len: "Suc (length cs) \<le> ?n" using rb_view_le_cap [OF inv] v by simp
  have g': "unat g = Suc ?g mod ?n" using g by (simp add: rb_cap_def)
  have inv1: "rb_inv rb1"
    using inv g n cap unfolding rb_inv_def by (auto simp: rb1_def rb_cap_def)
  have "unat (sdk_ringbuffer_data_len rb1) = length cs"
  proof (rule data_len_unique [OF inv1])
    show "unat (rb_put_index rb1) = (unat (rb_get_index rb1) + length cs) mod rb_cap rb1"
      using rb_put_index_view [OF inv] v g' by (simp add: cap mod_simps) (simp add: rb1_def mod_simps)
    show "length cs \<le> rb_cap rb1" using len cap by simp
    show "rb_is_full rb1 \<longleftrightarrow> length cs = rb_cap rb1" using len cap by (simp add: rb1_def)
  qed
  then have "rb_view rb1 = window ?buf (Suc ?g mod length ?buf) (length cs)"
    using g' n by (simp add: rb_view_def [of rb1] cap) (simp add: rb1_def)
  moreover have "window ?buf ?g (Suc (length cs)) = c # cs"
    using v length_rb_view [of rb] by (simp add: rb_view_def)
  ultimately have "rb_view rb1 = cs" and "?buf ! ?g = c"
    using n by (simp_all add: window_pop)
  then show ?thesis using inv1 cap n by simp
qed

lemma rb_get_some:
  assumes inv: "rb_inv rb" and v: "rb_view rb = c # cs"
  shows "\<exists>rb1. sdk_ringbuffer_getchar rb ch = Some (1, c, rb1)
    \<and> rb_inv rb1 \<and> rb_view rb1 = cs \<and> rb_cap rb1 = rb_cap rb"
proof -
  obtain g where g: "rb_next (rb_get_index rb) (rb_bufsz rb) = Some g"
    "unat g = Suc (unat (rb_get_index rb)) mod unat (rb_bufsz rb)"
    using rb_next_nat rb_inv_facts(1,2) [OF inv] by blast
  have ne: "\<not> (\<not> rb_is_full rb \<and> rb_get_index rb = rb_put_index rb)"
    using v rb_empty_iff [OF inv] by simp
  note step = rb_advance_step [OF inv v g(2)]
  have "sdk_ringbuffer_getchar rb ch = Some (1, c, rb\<lparr>rb_get_index := g, rb_is_full := False\<rparr>)"
    unfolding sdk_ringbuffer_getchar_def if_not_P [OF ne]
    using g(1) rb_inv_facts(7) [OF inv] step by (simp add: mem_simps)
  with step show ?thesis by blast
qed

text \<open>The forced put drops the oldest byte of a full ring and stores the new one.\<close>

lemma rb_force_view:
  assumes inv: "rb_inv rb"
  shows "\<exists>rb1. sdk_ringbuffer_putchar_force (Some rb) ch = Some (1, Some rb1)
    \<and> rb_inv rb1 \<and> rb_view rb1 = lastn (rb_cap rb) (rb_view rb @ [ch]) \<and> rb_cap rb1 = rb_cap rb"
proof (cases "length (rb_view rb) < rb_cap rb")
  case True
  obtain p where p: "rb_next (rb_put_index rb) (rb_bufsz rb) = Some p"
    "unat p = Suc (unat (rb_put_index rb)) mod unat (rb_bufsz rb)"
    using rb_next_nat rb_inv_facts(1,2) [OF inv] by blast
  have nf: "\<not> rb_is_full rb" using True rb_full_iff [OF inv] by simp
  let ?rb1 = "rb\<lparr>rb_buf_ptr := (rb_buf_ptr rb)[unat (rb_put_index rb) := ch], rb_put_index := p,
                rb_is_full := (p = rb_get_index rb)\<rparr>"
  have "sdk_ringbuffer_putchar_force (Some rb) ch = Some (1, Some ?rb1)"
    using nf p(1) rb_inv_facts(6) [OF inv]
    by (simp add: sdk_ringbuffer_putchar_force_def mem_simps Let_def)
  moreover have "lastn (rb_cap rb) (rb_view rb @ [ch]) = rb_view rb @ [ch]" using True by simp
  ultimately show ?thesis using rb_store_step [OF inv True p(2), where ch = ch] by metis
next
  case False
  then have len: "length (rb_view rb) = rb_cap rb" using rb_view_le_cap [OF inv] by simp
  then have full: "rb_is_full rb" using rb_full_iff [OF inv] by simp
  have pos: "0 < rb_cap rb" using inv by (simp add: rb_inv_def)
  obtain c cs where v: "rb_view rb = c # cs"
    using len pos by (metis length_greater_0_conv list.exhaust)
  obtain g where g: "rb_next (rb_get_index rb) (rb_bufsz rb) = Some g"
    "unat g = Suc (unat (rb_get_index rb)) mod unat (rb_bufsz rb)"
    using rb_next_nat rb_inv_facts(1,2) [OF inv] by blast
  have pg: "rb_put_index rb = rb_get_index rb" using inv full by (simp add: rb_inv_def)
  let ?rbA = "rb\<lparr>rb_get_index := g, rb_is_full := False\<rparr>"
  note A = rb_advance_step [OF inv v g(2)]
  have room: "length (rb_view ?rbA) < rb_cap ?rbA" using A len v by simp
  have g2: "unat g = Suc (unat (rb_put_index ?rbA)) mod unat (rb_bufsz ?rbA)"
    using g(2) pg by simp
  have "sdk_ringbuffer_putchar_force (Some rb) ch = Some (1, Some (?rbA\<lparr>
      rb_buf_ptr := (rb_buf_ptr ?rbA)[unat (rb_put_index ?rbA) := ch], rb_put_index := g,
      rb_is_full := (g = rb_get_index ?rbA)\<rparr>))"
    using full pg g(1) rb_inv_facts(6) [OF inv]
    by (simp add: sdk_ringbuffer_putchar_force_def mem_simps Let_def)
  moreover have "lastn (rb_cap rb) (rb_view rb @ [ch]) = cs @ [ch]"
    using lastn_snoc_full [OF len pos, of ch] v by simp
  ultimately show ?thesis
    using rb_store_step [OF conjunct1 [OF A] room g2, where ch = ch] A by metis
qed

section \<open>The ring as an instance of the queue interfaces\<close>

interpretation rbq: bounded_queue rb_deq rb_view rb_inv rb_cap rb_enq
proof unfold_locales
  fix q :: sdk_ringbuffer and x xs
  show "rb_inv q \<Longrightarrow> rb_view q = [] \<Longrightarrow> rb_deq q = Some (None, q)"
    by (simp add: rb_deq_def rb_get_empty)
  show "rb_inv q \<Longrightarrow> rb_view q = x # xs \<Longrightarrow>
      \<exists>q1. rb_deq q = Some (Some x, q1) \<and> rb_inv q1 \<and> rb_view q1 = xs \<and> rb_cap q1 = rb_cap q"
    using rb_get_some [of q x xs 0] by (auto simp: rb_deq_def)
  show "rb_inv q \<Longrightarrow> length (rb_view q) \<le> rb_cap q" by (rule rb_view_le_cap)
  show "rb_inv q \<Longrightarrow> length (rb_view q) < rb_cap q \<Longrightarrow>
      \<exists>q1. rb_enq x q = Some (True, q1) \<and> rb_inv q1 \<and> rb_view q1 = rb_view q @ [x]
        \<and> rb_cap q1 = rb_cap q"
    using rb_put_free [of q x] by (auto simp: rb_enq_def)
  show "rb_inv q \<Longrightarrow> length (rb_view q) = rb_cap q \<Longrightarrow> rb_enq x q = Some (False, q)"
    by (simp add: rb_enq_def rb_put_full)
qed

interpretation rbo: overwriting_queue rb_deq rb_view rb_inv rb_cap rb_push
proof unfold_locales
  fix q :: sdk_ringbuffer and x
  assume "rb_inv q"
  from rb_force_view [OF this, of x]
  show "\<exists>q1. rb_push x q = Some q1 \<and> rb_inv q1 \<and> rb_view q1 = lastn (rb_cap q) (rb_view q @ [x])
      \<and> rb_cap q1 = rb_cap q"
    by (auto simp: rb_push_def)
qed

text \<open>The loops of the code are the transfers of the interfaces.\<close>

lemma rb_put_loop_enq_list:
  "i + n \<le> length ptr \<Longrightarrow> rb_put_loop rb ptr i n acc =
     map_option (\<lambda>(k, rb1). (acc + k, rb1)) (enq_list rb_enq (take n (drop i ptr)) rb)"
proof (induction n arbitrary: rb i acc)
  case (Suc n)
  then have "take (Suc n) (drop i ptr) = ptr ! i # take n (drop (Suc i) ptr)"
    by (metis Cons_nth_drop_Suc add_leD1 add_Suc_right less_le_trans lessI not_less_eq_eq
        take_Suc_Cons less_iff_Suc_add Suc_le_lessD add_Suc)
  with Suc show ?case
    by (auto simp: mem_simps rb_enq_def map_option_case split: option.splits bind_splits)
qed simp

lemma rb_force_loop_push_list:
  "rb_inv rb \<Longrightarrow> i + n \<le> length ptr \<Longrightarrow>
     rb_put_force_loop (Some rb) ptr i n =
     map_option Some (push_list rb_push (take n (drop i ptr)) rb)"
proof (induction n arbitrary: rb i)
  case (Suc n)
  obtain rb1 where rb1: "sdk_ringbuffer_putchar_force (Some rb) (ptr ! i) = Some (1, Some rb1)"
    "rb_inv rb1"
    using rb_force_view [OF Suc.prems(1)] by blast
  have "take (Suc n) (drop i ptr) = ptr ! i # take n (drop (Suc i) ptr)"
    using Suc.prems(2) by (simp add: Cons_nth_drop_Suc [symmetric])
  then show ?case
    using rb1 Suc.prems(2) Suc.IH [OF rb1(2), of "Suc i"] by (simp add: mem_simps rb_push_def)
qed simp

lemma rb_get_loop_view:
  "rb_inv rb \<Longrightarrow> i + n \<le> length ptr \<Longrightarrow>
     \<exists>rb1. rb_get_loop rb ptr i n acc =
         Some (acc + min n (length (rb_view rb)),
               take i ptr @ take n (rb_view rb) @ drop (i + min n (length (rb_view rb))) ptr, rb1)
       \<and> rb_inv rb1 \<and> rb_view rb1 = drop n (rb_view rb)"
proof (induction n arbitrary: rb i ptr acc)
  case 0
  then show ?case by simp
next
  case (Suc n)
  have i: "i < length ptr" using Suc.prems(2) by simp
  show ?case
  proof (cases "rb_view rb")
    case Nil
    with Suc.prems i show ?thesis by (simp add: rb_get_empty mem_simps)
  next
    case (Cons c cs)
    obtain rb1 where rb1: "sdk_ringbuffer_getchar rb (ptr ! i) = Some (1, c, rb1)" "rb_inv rb1"
      "rb_view rb1 = cs"
      using rb_get_some [OF Suc.prems(1) Cons] by blast
    have "Suc i + n \<le> length (ptr[i := c])" using Suc.prems(2) by simp
    from Suc.IH [OF rb1(2) this, of "Suc acc"] obtain rb2 where
      "rb_get_loop rb1 (ptr[i := c]) (Suc i) n (Suc acc) =
         Some (Suc acc + min n (length cs), take (Suc i) (ptr[i := c]) @ take n cs
           @ drop (Suc i + min n (length cs)) (ptr[i := c]), rb2)"
      "rb_inv rb2" "rb_view rb2 = drop n cs"
      using rb1(3) by auto
    then show ?thesis
      using rb1(1) i Cons by (simp add: mem_simps take_Suc_conv_app_nth)
  qed
qed

section \<open>Properties\<close>

lemma rb_inv_init:
  assumes "0 < sint sz" and "nat (sint sz) \<le> length pool"
  shows "rb_inv (sdk_ringbuffer_init pool sz) \<and> rb_view (sdk_ringbuffer_init pool sz) = []
    \<and> rb_cap (sdk_ringbuffer_init pool sz) = nat (sint sz)"
proof -
  have lt: "sint sz < 2 ^ 15" using sint_lt [of sz] by simp
  have "sint (scast sz :: u32) = sint sz"
    by (simp add: is_up_def source_size target_size word_size sint_up_scast)
  then have "uint (scast sz :: u32) = sint sz"
    using assms(1) lt by (simp add: uint_sint take_bit_int_eq_self)
  then have "rb_cap (sdk_ringbuffer_init pool sz) = nat (sint sz)"
    by (simp add: rb_cap_def sdk_ringbuffer_init_def unat_eq_nat_uint)
  moreover have "rb_view (sdk_ringbuffer_init pool sz) = []"
    by (simp add: rb_view_def sdk_ringbuffer_data_len_def sdk_ringbuffer_init_def)
  ultimately show ?thesis
    using assms lt by (simp add: rb_inv_def) (simp add: sdk_ringbuffer_init_def)
qed

text \<open>
  C1. Storing a message: \<open>sdk_ringbuffer_put\<close> never leaves its memory, stores exactly the
  prefix of the message that fits behind the bytes already queued, in order, and returns its
  length; the ring stays well formed.
\<close>

theorem ringbuffer_put_message:
  assumes "rb_inv rb" and "unat len \<le> length ptr"
  shows "\<exists>rb1. sdk_ringbuffer_put rb ptr len =
      Some (min (unat len) (rb_cap rb - length (rb_view rb)), rb1)
    \<and> rb_inv rb1 \<and> rb_cap rb1 = rb_cap rb
    \<and> rb_view rb1 = rb_view rb @ take (min (unat len) (rb_cap rb - length (rb_view rb))) ptr"
proof -
  from rbq.enq_list_view [OF assms(1), of "take (unat len) ptr"] assms(2)
  show ?thesis
    by (auto simp: sdk_ringbuffer_put_def rb_put_loop_enq_list min.commute)
qed

theorem ringbuffer_put_message_witness:
  "\<exists>rb1. sdk_ringbuffer_put (sdk_ringbuffer_init [0, 0, 0] 3) [7, 8, 9, 10] 4 = Some (3, rb1)
    \<and> rb_view rb1 = [7, 8, 9]"
  using rb_inv_init [of 3 "[0, 0, 0]"]
    ringbuffer_put_message [of "sdk_ringbuffer_init [0, 0, 0] 3" 4 "[7, 8, 9, 10]"]
  by auto

text \<open>
  C4. Reading a message: \<open>sdk_ringbuffer_get\<close> never leaves the ring or the destination,
  copies the oldest bytes in the order they were stored to the front of the destination,
  leaves the rest of the destination alone, removes exactly the bytes it copied and returns
  how many they were.
\<close>

theorem ringbuffer_get_message:
  assumes "rb_inv rb" and "unat len \<le> length ptr"
  shows "\<exists>rb1. sdk_ringbuffer_get rb ptr len =
      Some (min (unat len) (length (rb_view rb)),
        take (unat len) (rb_view rb) @ drop (min (unat len) (length (rb_view rb))) ptr, rb1)
    \<and> rb_inv rb1 \<and> rb_view rb1 = drop (unat len) (rb_view rb)"
  using rb_get_loop_view [OF assms(1), of 0 "unat len" ptr 0] assms(2)
  by (simp add: sdk_ringbuffer_get_def)

theorem ringbuffer_get_message_witness:
  "\<exists>rb1. sdk_ringbuffer_get (\<lparr>rb_buf_ptr = [5, 6, 7], rb_bufsz = 3, rb_get_index = 2,
       rb_put_index = 1, rb_is_full = False\<rparr>) [0, 0, 0] 3 = Some (2, [7, 5, 0], rb1)
    \<and> rb_view rb1 = []"
proof -
  let ?rb = "\<lparr>rb_buf_ptr = [5, 6, 7], rb_bufsz = 3, rb_get_index = 2, rb_put_index = 1,
      rb_is_full = False\<rparr>"
  have inv: "rb_inv ?rb" by (simp add: rb_inv_def rb_cap_def)
  have "rb_view ?rb = [7, 5]"
    by code_simp
  then show ?thesis using ringbuffer_get_message [OF inv, of 3 "[0, 0, 0]"] by auto
qed

text \<open>
  C11. Overwriting: whatever burst of bytes \<open>sdk_ringbuffer_put_force\<close> is given, it
  reports the whole length and the ring afterwards holds the most recent bytes, at most
  \<open>bufsz\<close> of them, in order.
\<close>

theorem ringbuffer_put_force_keeps_latest:
  assumes "rb_inv rb" and "unat len \<le> length ptr"
  shows "\<exists>rb1. sdk_ringbuffer_put_force (Some rb) ptr len = Some (unat len, Some rb1)
    \<and> rb_inv rb1 \<and> rb_view rb1 = lastn (rb_cap rb) (rb_view rb @ take (unat len) ptr)"
proof -
  from rbo.push_list_lastn [OF assms(1), of "take (unat len) ptr"] assms
  show ?thesis by (auto simp: sdk_ringbuffer_put_force_def rb_force_loop_push_list)
qed

theorem ringbuffer_put_force_keeps_latest_witness:
  "\<exists>rb1. sdk_ringbuffer_put_force (Some (sdk_ringbuffer_init [0, 0, 0] 3)) [7, 8, 9, 10] 4
      = Some (4, Some rb1) \<and> rb_view rb1 = [8, 9, 10]"
  using rb_inv_init [of 3 "[0, 0, 0]"]
    ringbuffer_put_force_keeps_latest [of "sdk_ringbuffer_init [0, 0, 0] 3" 4 "[7, 8, 9, 10]"]
  by (auto simp: lastn_def)

text \<open>
  \<open>sdk_ringbuffer_peak\<close> shows the oldest byte of a partly filled ring and nothing of an
  empty one, but it also reports a completely full ring as empty: it compares the indices
  without looking at \<open>is_full\<close>, which the other readers do.
\<close>

theorem ringbuffer_peak_cases:
  assumes "rb_inv rb"
  shows "(case rb_view rb of
       [] \<Rightarrow> sdk_ringbuffer_peak rb = (0, None)
     | c # _ \<Rightarrow> if length (rb_view rb) = rb_cap rb then sdk_ringbuffer_peak rb = (0, None)
         else \<exists>i. sdk_ringbuffer_peak rb = (1, Some i) \<and> load (rb_buf_ptr rb) i = Some c)"
proof (cases "rb_view rb")
  case Nil
  then show ?thesis using rb_empty_iff [OF assms] by (simp add: sdk_ringbuffer_peak_def)
next
  case (Cons c cs)
  have eq: "rb_get_index rb = rb_put_index rb \<longleftrightarrow> rb_is_full rb"
    using Cons rb_empty_iff [OF assms] assms by (auto simp: rb_inv_def)
  obtain g where "unat (g :: u16) = Suc (unat (rb_get_index rb)) mod unat (rb_bufsz rb)"
    using rb_next_nat rb_inv_facts(1,2) [OF assms] by blast
  from rb_advance_step [OF assms Cons this]
  have "rb_buf_ptr rb ! unat (rb_get_index rb) = c" by blast
  then show ?thesis
    using Cons eq rb_full_iff [OF assms] rb_inv_facts(7) [OF assms]
    by (simp add: sdk_ringbuffer_peak_def mem_simps)
qed

theorem ringbuffer_peak_cases_witness:
  "sdk_ringbuffer_peak \<lparr>rb_buf_ptr = [5, 6], rb_bufsz = 2, rb_get_index = 1, rb_put_index = 1,
     rb_is_full = True\<rparr> = (0, None)"
proof -
  let ?rb = "\<lparr>rb_buf_ptr = [5, 6], rb_bufsz = 2, rb_get_index = 1, rb_put_index = 1,
     rb_is_full = True\<rparr>"
  have inv: "rb_inv ?rb" by (simp add: rb_inv_def rb_cap_def)
  have "rb_view ?rb = [6, 5]"
    by code_simp
  then show ?thesis using ringbuffer_peak_cases [OF inv] by (simp add: rb_cap_def)
qed

end
