(* ===== verification/Soft_Timer.thy ===== *)
theory Soft_Timer
  imports Prelude
begin

text \<open>
  src/src/components/drivers/sdk_soft_timer.c: software timers on the millisecond tick. The tick
  \<open>sdk_hw_get_systick()\<close> comes from the board and is an argument of the operations; it is a
  32-bit counter that wraps. Signed subtraction is two's complement, as on the SDK's targets.
\<close>

record swtimer =
  sw_start :: s32
  sw_timeout_ms :: s32
  sw_isstop :: s32

definition clock_time :: "u32 \<Rightarrow> s32" where
  "clock_time tick = tick"

definition swtimer_expired :: "u32 \<Rightarrow> swtimer \<Rightarrow> bool" where
  "swtimer_expired tick t =
     (if sw_isstop t \<noteq> 1 \<and> sw_start t \<noteq> 0
      then sw_timeout_ms t \<le>s clock_time tick - sw_start t
      else False)"

definition swtimer_set :: "u32 \<Rightarrow> s32 \<Rightarrow> swtimer \<Rightarrow> swtimer" where
  "swtimer_set tick set_timeout_ms t =
     t\<lparr>sw_timeout_ms := set_timeout_ms, sw_start := clock_time tick, sw_isstop := 0\<rparr>"

definition swtimer_stop :: "swtimer \<Rightarrow> swtimer" where
  "swtimer_stop t = t\<lparr>sw_start := 0, sw_isstop := 1\<rparr>"

text \<open>A duration below half the counter range is not negative as a signed number.\<close>

lemma sint_of_nat_31:
  assumes "n < 2 ^ 31"
  shows "sint (word_of_nat n :: s32) = int n"
  using assms by (simp add: signed_of_nat signed_take_bit_int_eq_self)

lemma sle_of_nat_31:
  assumes "n < 2 ^ 31" and "m < 2 ^ 31"
  shows "(word_of_nat n :: s32) \<le>s word_of_nat m \<longleftrightarrow> n \<le> m"
  using assms by (simp add: word_sle_eq sint_of_nat_31)

lemma swtimer_set_elapsed:
  assumes "tick \<noteq> 0" and "timeout < 2 ^ 31" and "elapsed < 2 ^ 31"
  shows "swtimer_expired (tick + word_of_nat elapsed) (swtimer_set tick (word_of_nat timeout) t)
    \<longleftrightarrow> timeout \<le> elapsed"
  using assms
  by (simp add: swtimer_expired_def swtimer_set_def clock_time_def sle_of_nat_31)

lemma swtimer_set_zero_tick: "\<not> swtimer_expired now (swtimer_set 0 timeout t)"
  by (simp add: swtimer_expired_def swtimer_set_def clock_time_def)

lemma swtimer_stop_expired: "\<not> swtimer_expired now (swtimer_stop t)"
  by (simp add: swtimer_expired_def swtimer_stop_def)

section \<open>Properties\<close>

text \<open>
  C18. A timer that was set at a tick other than 0 has expired exactly when at least the requested
  time has passed, also when the tick counter wraps in between (for times below half its range).
  A timer that was set at tick 0 never expires, whatever its timeout: 0 is also the mark of a
  timer that is not running. A stopped timer never expires.
\<close>

theorem swtimer_expires_on_time:
  assumes "timeout < 2 ^ 31" and "elapsed < 2 ^ 31"
  shows "swtimer_expired (tick + word_of_nat elapsed) (swtimer_set tick (word_of_nat timeout) t)
      = (tick \<noteq> 0 \<and> timeout \<le> elapsed)
    \<and> \<not> swtimer_expired (tick + word_of_nat elapsed)
          (swtimer_stop (swtimer_set tick (word_of_nat timeout) t))"
  using swtimer_set_elapsed [OF _ assms] swtimer_set_zero_tick swtimer_stop_expired
  by (cases "tick = 0") simp_all

theorem swtimer_expires_on_time_witness:
  "swtimer_expired (0xFFFFFFFE + word_of_nat 6) (swtimer_set 0xFFFFFFFE (word_of_nat 5)
     \<lparr>sw_start = 0, sw_timeout_ms = 0, sw_isstop = 0\<rparr>)
   \<and> \<not> swtimer_expired (0 + word_of_nat 1000) (swtimer_set 0 (word_of_nat 5)
     \<lparr>sw_start = 0, sw_timeout_ms = 0, sw_isstop = 0\<rparr>)"
proof -
  let ?t = "\<lparr>sw_start = 0, sw_timeout_ms = 0, sw_isstop = 0\<rparr>"
  have lt: "(5 :: nat) < 2 ^ 31" "(6 :: nat) < 2 ^ 31" "(1000 :: nat) < 2 ^ 31" by simp_all
  have "(0xFFFFFFFE :: u32) \<noteq> 0" "(5 :: nat) \<le> 6" by simp_all
  then show ?thesis
    using swtimer_expires_on_time [OF lt(1,2), of "0xFFFFFFFE" ?t]
      swtimer_expires_on_time [OF lt(1,3), of 0 ?t] by blast
qed

end
