(* ===== verification/Os_Port_None.thy ===== *)
theory Os_Port_None
  imports Soft_Timer
begin

text \<open>
  src/src/sdk_os_port_none.c: semaphores and event groups for builds without an RTOS. Nothing
  blocks: a waiting \<open>take\<close> or \<open>recv\<close> is polled, and the wait is a small state machine
  (START, WAITING, TIMEOUT) around a software timer. The current tick is the first argument of the
  operations that look at the clock. The mutex and task functions of that file are stubs
  with constant results.
\<close>

unbundle bit_operations_syntax

section \<open>Semaphores\<close>

datatype sdk_os_sem_state = SEM_STATE_START | SEM_STATE_WAITING | SEM_STATE_TIMEOUT

record sdk_os_semaphore =
  sem_state :: sdk_os_sem_state
  sem_timer :: swtimer
  sem_value :: u16

definition sdk_os_sem_init :: "sdk_os_semaphore \<Rightarrow> s32 \<Rightarrow> s32 \<times> sdk_os_semaphore" where
  "sdk_os_sem_init sem count = (SDK_OK, sem\<lparr>sem_value := ucast count, sem_state := SEM_STATE_START\<rparr>)"

definition sdk_os_sem_delete :: "sdk_os_semaphore \<Rightarrow> s32 \<times> sdk_os_semaphore" where
  "sdk_os_sem_delete sem = (SDK_OK, sem\<lparr>sem_value := 0, sem_state := SEM_STATE_START\<rparr>)"

definition sdk_os_sem_take :: "u32 \<Rightarrow> sdk_os_semaphore \<Rightarrow> s32 \<Rightarrow> s32 \<times> sdk_os_semaphore" where
  "sdk_os_sem_take tick sem timeout =
     (if 0 < sem_value sem
      then (SDK_OK, sem\<lparr>sem_value := sem_value sem - 1, sem_state := SEM_STATE_START\<rparr>)
      else if timeout = 0 then (- SDK_E_TIMEOUT, sem)
      else if 0 <s timeout
      then (case sem_state sem of
              SEM_STATE_START \<Rightarrow>
                (- SDK_E_BUSY, sem\<lparr>sem_timer := swtimer_set tick timeout (sem_timer sem),
                                  sem_state := SEM_STATE_WAITING\<rparr>)
            | SEM_STATE_WAITING \<Rightarrow>
                (- SDK_E_BUSY, if swtimer_expired tick (sem_timer sem)
                               then sem\<lparr>sem_state := SEM_STATE_TIMEOUT\<rparr> else sem)
            | SEM_STATE_TIMEOUT \<Rightarrow> (- SDK_E_TIMEOUT, sem\<lparr>sem_state := SEM_STATE_START\<rparr>))
      else (- SDK_ERROR, sem))"

definition sdk_os_sem_release :: "sdk_os_semaphore \<Rightarrow> s32 \<times> sdk_os_semaphore" where
  "sdk_os_sem_release sem =
     (if unat (sem_value sem) < 0x7FFF then (SDK_OK, sem\<lparr>sem_value := sem_value sem + 1\<rparr>)
      else (- SDK_E_INVALID, sem))"

section \<open>Event groups\<close>

datatype sdk_os_event_state = EVENT_STATE_START | EVENT_STATE_WAITING | EVENT_STATE_TIMEOUT

record sdk_os_event =
  ev_state :: sdk_os_event_state
  ev_timer :: swtimer
  ev_set :: u32

definition SDK_EVENT_FLAG_AND :: u8 where
  "SDK_EVENT_FLAG_AND = 1"

definition SDK_EVENT_FLAG_OR :: u8 where
  "SDK_EVENT_FLAG_OR = 2"

definition SDK_EVENT_FLAG_CLEAR :: u8 where
  "SDK_EVENT_FLAG_CLEAR = 4"

definition sdk_os_event_init :: "sdk_os_event \<Rightarrow> s32 \<times> sdk_os_event" where
  "sdk_os_event_init e = (SDK_OK, e\<lparr>ev_state := EVENT_STATE_START, ev_set := 0\<rparr>)"

definition sdk_os_event_delete :: "sdk_os_event \<Rightarrow> s32 \<times> sdk_os_event" where
  "sdk_os_event_delete e = (SDK_OK, e\<lparr>ev_state := EVENT_STATE_START, ev_set := 0\<rparr>)"

definition sdk_os_event_send :: "sdk_os_event \<Rightarrow> u32 \<Rightarrow> s32 \<times> sdk_os_event" where
  "sdk_os_event_send e bits =
     (if bits = 0 then (- SDK_ERROR, e) else (SDK_OK, e\<lparr>ev_set := ev_set e OR bits\<rparr>))"

text \<open>
  The last component of the result is what \<open>*recved\<close> is bits to: \<open>None\<close> when the pointer is
  not written (no success).
\<close>

definition sdk_os_event_recv ::
    "u32 \<Rightarrow> sdk_os_event \<Rightarrow> u32 \<Rightarrow> u8 \<Rightarrow> s32 \<Rightarrow> s32 \<times> sdk_os_event \<times> u32 option" where
  "sdk_os_event_recv tick e bits opt timeout =
     (if bits = 0 then (- SDK_ERROR, e, None)
      else
        let status =
              (if opt AND SDK_EVENT_FLAG_AND \<noteq> 0
               then (if ev_set e AND bits = bits then SDK_OK else - SDK_ERROR)
               else if opt AND SDK_EVENT_FLAG_OR \<noteq> 0
               then (if ev_set e AND bits \<noteq> 0 then SDK_OK else - SDK_ERROR)
               else - SDK_ERROR)
        in if status = SDK_OK
           then (status,
                 e\<lparr>ev_state := EVENT_STATE_START,
                   ev_set := (if opt AND SDK_EVENT_FLAG_CLEAR \<noteq> 0
                              then ev_set e AND NOT bits else ev_set e)\<rparr>,
                 Some (ev_set e AND bits))
           else if timeout = 0 then (- SDK_E_TIMEOUT, e, None)
           else (case ev_state e of
                   EVENT_STATE_START \<Rightarrow>
                     (- SDK_E_BUSY, e\<lparr>ev_timer := swtimer_set tick timeout (ev_timer e),
                                      ev_state := EVENT_STATE_WAITING\<rparr>, None)
                 | EVENT_STATE_WAITING \<Rightarrow>
                     (- SDK_E_BUSY, if swtimer_expired tick (ev_timer e)
                                    then e\<lparr>ev_state := EVENT_STATE_TIMEOUT\<rparr> else e, None)
                 | EVENT_STATE_TIMEOUT \<Rightarrow>
                     (- SDK_E_TIMEOUT, e\<lparr>ev_state := EVENT_STATE_START\<rparr>, None)))"

text \<open>The mutex stubs of this port: taking and releasing always succeeds with 1.\<close>

definition sdk_os_mutex_take_none :: "s32 \<Rightarrow> s32" where
  "sdk_os_mutex_take_none timeout = 1"

definition sdk_os_mutex_release_none :: "unit \<Rightarrow> s32" where
  "sdk_os_mutex_release_none u = 1"

section \<open>Conservation of the semaphore count\<close>

text \<open>
  A semaphore under any interleaving of takes (with any timeout, at any tick) and releases.
  The counters record the operations that reported success.
\<close>

inductive sem_run :: "sdk_os_semaphore \<Rightarrow> nat \<Rightarrow> nat \<Rightarrow> sdk_os_semaphore \<Rightarrow> bool"
  for s0 :: sdk_os_semaphore where
  start: "sem_run s0 0 0 s0"
| take: "sem_run s0 taken released s \<Longrightarrow> sdk_os_sem_take tick s timeout = (r, s1) \<Longrightarrow>
     sem_run s0 (if r = SDK_OK then Suc taken else taken) released s1"
| release: "sem_run s0 taken released s \<Longrightarrow> sdk_os_sem_release s = (r, s1) \<Longrightarrow>
     sem_run s0 taken (if r = SDK_OK then Suc released else released) s1"

lemma sem_take_value:
  assumes "sdk_os_sem_take tick s timeout = (r, s1)"
  shows "(r = SDK_OK \<longleftrightarrow> 0 < sem_value s)
    \<and> unat (sem_value s) = unat (sem_value s1) + (if r = SDK_OK then 1 else 0)"
proof (cases "0 < sem_value s")
  case True
  then have "unat (sem_value s - 1) = unat (sem_value s) - 1" "0 < unat (sem_value s)"
    by (simp_all add: unat_minus_one word_neq_0_conv word_less_nat_alt)
  with True assms show ?thesis by (auto simp: sdk_os_sem_take_def)
next
  case False
  with assms show ?thesis
    by (auto simp: sdk_os_sem_take_def sdk_codes split: if_splits sdk_os_sem_state.splits)
qed

lemma sem_release_value:
  assumes "sdk_os_sem_release s = (r, s1)"
  shows "(r = SDK_OK \<longleftrightarrow> unat (sem_value s) < 0x7FFF)
    \<and> unat (sem_value s1) = unat (sem_value s) + (if r = SDK_OK then 1 else 0)"
proof -
  have "unat (sem_value s + 1) = unat (sem_value s) + 1" if "unat (sem_value s) < 0x7FFF"
    using that by (simp add: unat_word_ariths)
  with assms show ?thesis by (auto simp: sdk_os_sem_release_def sdk_codes split: if_splits)
qed

lemma sem_run_value:
  "sem_run s0 taken released s \<Longrightarrow> unat (sem_value s) + taken = unat (sem_value s0) + released"
proof (induction rule: sem_run.induct)
  case (take taken released s tick timeout r s1)
  with sem_take_value [OF take(2)] show ?case by (simp split: if_splits)
next
  case (release taken released s r s1)
  with sem_release_value [OF release(2)] show ?case by simp
qed simp

lemma sem_run_bound:
  "sem_run s0 taken released s \<Longrightarrow> unat (sem_value s0) \<le> 0x7FFF \<Longrightarrow> unat (sem_value s) \<le> 0x7FFF"
proof (induction rule: sem_run.induct)
  case (take taken released s tick timeout r s1)
  with sem_take_value [OF take(2)] show ?case by simp
next
  case (release taken released s r s1)
  with sem_release_value [OF release(2)] show ?case by (auto split: if_splits)
qed

section \<open>The polled wait\<close>

text \<open>The results of polling a semaphore at a list of ticks.\<close>

fun sem_polls :: "u32 list \<Rightarrow> sdk_os_semaphore \<Rightarrow> s32 \<Rightarrow> s32 list \<times> sdk_os_semaphore" where
  "sem_polls [] s timeout = ([], s)"
| "sem_polls (t # ts) s timeout =
     (let (r, s1) = sdk_os_sem_take t s timeout; (rs, s2) = sem_polls ts s1 timeout
      in (r # rs, s2))"

lemma sem_polls_append:
  "sem_polls (ts @ us) s timeout =
     (let (rs, s1) = sem_polls ts s timeout; (qs, s2) = sem_polls us s1 timeout
      in (rs @ qs, s2))"
  by (induction ts arbitrary: s) (auto split: prod.splits)

text \<open>Signed comparison of a positive timeout below half the range.\<close>

lemma timeout_pos:
  assumes "0 < n" and "n < 2 ^ 31"
  shows "(word_of_nat n :: s32) \<noteq> 0" and "0 <s (word_of_nat n :: s32)"
proof -
  have "sint (word_of_nat n :: s32) = int n" using assms by (simp add: sint_of_nat_31)
  then show "0 <s (word_of_nat n :: s32)" using assms(1) by (simp add: word_sless_alt)
  then show "(word_of_nat n :: s32) \<noteq> 0" by auto
qed

lemma sem_polls_waiting:
  assumes "sem_value s = 0" and "sem_state s = SEM_STATE_WAITING"
    and "\<forall>t \<in> set ts. \<not> swtimer_expired t (sem_timer s)" and "0 < n" "n < 2 ^ 31"
  shows "sem_polls ts s (word_of_nat n) = (replicate (length ts) (- SDK_E_BUSY), s)"
  using assms(3)
proof (induction ts)
  case (Cons t ts)
  then have "sdk_os_sem_take t s (word_of_nat n) = (- SDK_E_BUSY, s)"
    using assms timeout_pos [of n] by (simp add: sdk_os_sem_take_def)
  with Cons show ?case by simp
qed simp

section \<open>Properties\<close>

text \<open>
  C20. Whatever takes and releases are interleaved on a semaphore, successful takes never outrun
  the initial count plus successful releases, the value is exactly the difference, and it never
  passes INT16_MAX, so the 16-bit counter does not wrap.
\<close>

theorem semaphore_conservation:
  assumes "sem_run (snd (sdk_os_sem_init s (word_of_nat count))) taken released s1" and "count \<le> 0x7FFF"
  shows "taken \<le> count + released \<and> unat (sem_value s1) = count + released - taken
    \<and> unat (sem_value s1) \<le> 0x7FFF"
proof -
  have "unat (sem_value (snd (sdk_os_sem_init s (word_of_nat count)))) = count"
    using assms(2) by (simp add: sdk_os_sem_init_def unat_ucast_mod unat_of_nat)
  with sem_run_value [OF assms(1)] sem_run_bound [OF assms(1)] assms(2) show ?thesis by simp
qed

theorem semaphore_conservation_witness:
  "\<exists>s1. sem_run (snd (sdk_os_sem_init
        \<lparr>sem_state = SEM_STATE_START, sem_timer = \<lparr>sw_start = 0, sw_timeout_ms = 0, sw_isstop = 0\<rparr>,
         sem_value = 0\<rparr> (word_of_nat 0))) 0 1 s1 \<and> unat (sem_value s1) = 1"
proof -
  let ?s = "\<lparr>sem_state = SEM_STATE_START,
      sem_timer = \<lparr>sw_start = 0, sw_timeout_ms = 0, sw_isstop = 0\<rparr>, sem_value = 0\<rparr>"
  let ?s0 = "snd (sdk_os_sem_init ?s (word_of_nat 0))"
  let ?s1 = "snd (sdk_os_sem_release ?s0)"
  have "sdk_os_sem_release ?s0 = (SDK_OK, ?s1)"
    by (simp add: sdk_os_sem_release_def sdk_os_sem_init_def)
  from sem_run.release [OF sem_run.start this] have run: "sem_run ?s0 0 1 ?s1" by simp
  with semaphore_conservation [OF run] show ?thesis by auto
qed

text \<open>
  C23. The polled wait: on an empty semaphore a take with a timeout reports busy on the first poll
  (at tick \<open>t\<close>), on every poll before the timeout has passed and on the first poll after it; the
  next poll, at any tick, reports the timeout and leaves the semaphore ready for a new wait.
\<close>

theorem sem_take_wait_protocol:
  assumes "sem_value s = 0" and "sem_state s = SEM_STATE_START" and "t \<noteq> 0"
    and "0 < n" and "n < 2 ^ 31" and "\<forall>d \<in> set early. d < n" and "n \<le> late" and "late < 2 ^ 31"
  shows "\<exists>s1. sem_polls (t # map (\<lambda>d. t + word_of_nat d) early @ [t + word_of_nat late, t'])
        s (word_of_nat n)
      = (replicate (length early + 2) (- SDK_E_BUSY) @ [- SDK_E_TIMEOUT], s1)
    \<and> sem_value s1 = 0 \<and> sem_state s1 = SEM_STATE_START"
proof -
  let ?tm = "swtimer_set t (word_of_nat n) (sem_timer s)"
  let ?w = "s\<lparr>sem_timer := ?tm, sem_state := SEM_STATE_WAITING\<rparr>"
  note pos = timeout_pos [OF assms(4,5)]
  have first: "sdk_os_sem_take t s (word_of_nat n) = (- SDK_E_BUSY, ?w)"
    using assms(1,2) pos by (simp add: sdk_os_sem_take_def)
  have "\<forall>u \<in> set (map (\<lambda>d. t + word_of_nat d) early). \<not> swtimer_expired u ?tm"
  proof
    fix u assume "u \<in> set (map (\<lambda>d. t + word_of_nat d) early)"
    then obtain d where d: "d \<in> set early" "u = t + word_of_nat d" by auto
    then have "d < n" "d < 2 ^ 31" using assms(5,6) by auto
    then show "\<not> swtimer_expired u ?tm"
      using swtimer_set_elapsed [OF assms(3,5), of d "sem_timer s"] d(2) by simp
  qed
  then have mid: "sem_polls (map (\<lambda>d. t + word_of_nat d) early) ?w (word_of_nat n)
      = (replicate (length early) (- SDK_E_BUSY), ?w)"
    using sem_polls_waiting [of ?w] assms by simp
  have "swtimer_expired (t + word_of_nat late) ?tm"
    using swtimer_set_elapsed [OF assms(3,5,8), of "sem_timer s"] assms(7) by simp
  then have last: "sem_polls [t + word_of_nat late, t'] ?w (word_of_nat n)
      = ([- SDK_E_BUSY, - SDK_E_TIMEOUT], ?w\<lparr>sem_state := SEM_STATE_START\<rparr>)"
    using assms(1) pos by (simp add: sdk_os_sem_take_def)
  have "replicate (length early + 2) (- SDK_E_BUSY) @ [- SDK_E_TIMEOUT]
      = - SDK_E_BUSY # replicate (length early) (- SDK_E_BUSY) @ [- SDK_E_BUSY, - SDK_E_TIMEOUT]"
    by (simp add: replicate_append_same [symmetric] del: append_assoc)
  then show ?thesis using assms(1) last by (simp add: first mid sem_polls_append)
qed

theorem sem_take_wait_protocol_witness:
  "fst (sem_polls (7 # map (\<lambda>d. 7 + word_of_nat d) [1, 2] @ [7 + word_of_nat 3, 50])
      \<lparr>sem_state = SEM_STATE_START, sem_timer = \<lparr>sw_start = 0, sw_timeout_ms = 0, sw_isstop = 0\<rparr>,
       sem_value = 0\<rparr> (word_of_nat 3))
    = replicate 4 (- SDK_E_BUSY) @ [- SDK_E_TIMEOUT]"
proof -
  let ?s = "\<lparr>sem_state = SEM_STATE_START,
      sem_timer = \<lparr>sw_start = 0, sw_timeout_ms = 0, sw_isstop = 0\<rparr>, sem_value = 0\<rparr>"
  have early: "\<forall>d \<in> set [1, 2]. d < (3 :: nat)" and n: "(0 :: nat) < 3" "(3 :: nat) < 2 ^ 31"
    "(3 :: nat) \<le> 3" and t: "(7 :: u32) \<noteq> 0" and len: "length [1, 2 :: nat] + 2 = 4"
    and s: "sem_value ?s = 0" "sem_state ?s = SEM_STATE_START"
    by simp_all
  from sem_take_wait_protocol [OF s t n(1,2) early n(3) n(2), of 50]
  show ?thesis unfolding len by fastforce
qed

text \<open>
  Events are not lost and not invented: after any sequence of sends, a \<open>recv\<close> for a set of
  flags succeeds exactly when all of them (AND) or one of them (OR) is pending, it reports exactly
  the pending flags of the set, and with CLEAR it removes those flags and no others; without
  success nothing pending changes.
\<close>

theorem event_recv_pending:
  fixes e :: sdk_os_event and sent :: "u32 list" and bits :: u32 and opt :: u8
  assumes "bits \<noteq> 0"
  defines "e1 \<equiv> fold (\<lambda>b e. snd (sdk_os_event_send e b)) sent e"
  defines "pending \<equiv> fold (\<lambda>b w. w OR b) sent (ev_set e)"
  defines "ok \<equiv> (if opt AND SDK_EVENT_FLAG_AND \<noteq> 0 then pending AND bits = bits
      else opt AND SDK_EVENT_FLAG_OR \<noteq> 0 \<and> pending AND bits \<noteq> 0)"
  shows "case sdk_os_event_recv tick e1 bits opt timeout of (r, e2, recved) \<Rightarrow>
      (r = SDK_OK) = ok
    \<and> recved = (if ok then Some (pending AND bits) else None)
    \<and> ev_set e2 = (if ok \<and> opt AND SDK_EVENT_FLAG_CLEAR \<noteq> 0 then pending AND NOT bits else pending)"
proof -
  have "ev_set (fold (\<lambda>b e. snd (sdk_os_event_send e b)) sent e) = fold (\<lambda>b w. w OR b) sent (ev_set e)"
    by (induction sent arbitrary: e) (simp_all add: sdk_os_event_send_def)
  then have "ev_set e1 = pending" by (simp add: e1_def pending_def)
  then show ?thesis
    using assms(1) by (auto simp: sdk_os_event_recv_def ok_def sdk_codes split: sdk_os_event_state.splits)
qed

theorem event_recv_pending_witness:
  "sdk_os_event_recv 9 (fold (\<lambda>b e. snd (sdk_os_event_send e b)) [1, 4]
      \<lparr>ev_state = EVENT_STATE_START, ev_timer = \<lparr>sw_start = 0, sw_timeout_ms = 0, sw_isstop = 0\<rparr>,
       ev_set = 0\<rparr>) 6 6 0
   = (SDK_OK, \<lparr>ev_state = EVENT_STATE_START,
        ev_timer = \<lparr>sw_start = 0, sw_timeout_ms = 0, sw_isstop = 0\<rparr>, ev_set = 1\<rparr>, Some 4)"
proof -
  let ?e = "\<lparr>ev_state = EVENT_STATE_START,
      ev_timer = \<lparr>sw_start = 0, sw_timeout_ms = 0, sw_isstop = 0\<rparr>, ev_set = 0\<rparr>"
  have "(6 :: u32) \<noteq> 0" by simp
  from event_recv_pending [OF this, of 9 "[1, 4]" ?e 6 0]
  show ?thesis
    by (simp add: sdk_os_event_recv_def sdk_os_event_send_def SDK_EVENT_FLAG_AND_def
        SDK_EVENT_FLAG_OR_def SDK_EVENT_FLAG_CLEAR_def sdk_codes Let_def)
qed

end
