(* ===== verification/Rx_Fifo.thy ===== *)
theory Rx_Fifo
  imports Queue_Interfaces
begin

text \<open>
  The receive FIFO that src/src/components/drivers/sdk_uart.c (bytes),
  src/src/components/drivers/sdk_can.c (CAN messages) and
  src/src/components/unibus/unibus_backend_ble.c (bytes) each write out for themselves, with the
  same fields and the same code up to the length of the array. \<open>N\<close> is that length
  (\<open>SDK_UART_RX_FIFO_LEN\<close>, \<open>SDK_CAN_RX_MQ_LEN\<close>, \<open>SDK_BLE_RX_FIFO_LEN\<close>). The
  theories of the three drivers define their operations from the steps below.
\<close>

section \<open>State and steps\<close>

record 'a rx_fifo =
  ff_buffer :: "'a list"
  ff_put_index :: u16
  ff_get_index :: u16
  ff_is_full :: bool

text \<open>\<open>index += 1; if (index >= N) index = 0;\<close>\<close>

definition fifo_next :: "nat \<Rightarrow> u16 \<Rightarrow> u16" where
  "fifo_next N i = (let j = i + 1 in if N \<le> unat j then 0 else j)"

text \<open>Store one element; when the write index runs into the read index, drop the oldest one.\<close>

definition fifo_push :: "nat \<Rightarrow> 'a \<Rightarrow> 'a rx_fifo \<Rightarrow> 'a rx_fifo option" where
  "fifo_push N x f =
     do { buf \<leftarrow> store (ff_buffer f) (unat (ff_put_index f)) x;
          let f1 = f\<lparr>ff_buffer := buf, ff_put_index := fifo_next N (ff_put_index f)\<rparr>;
          Some (if ff_put_index f1 = ff_get_index f1
                then f1\<lparr>ff_get_index := fifo_next N (ff_get_index f1), ff_is_full := True\<rparr>
                else f1) }"

text \<open>Take one element; the flag is cleared by every successful read.\<close>

definition fifo_pop :: "nat \<Rightarrow> 'a rx_fifo \<Rightarrow> ('a option \<times> 'a rx_fifo) option" where
  "fifo_pop N f =
     (if ff_get_index f = ff_put_index f \<and> \<not> ff_is_full f then Some (None, f)
      else do {
        x \<leftarrow> load (ff_buffer f) (unat (ff_get_index f));
        Some (Some x, f\<lparr>ff_get_index := fifo_next N (ff_get_index f), ff_is_full := False\<rparr>) })"

text \<open>
  The loop \<open>while (len)\<close> of the readers: \<open>dst\<close> is the caller's buffer from index \<open>i\<close>
  on, the third argument the rounds left. The result is the number of elements read.
\<close>

fun fifo_read :: "nat \<Rightarrow> 'a rx_fifo \<Rightarrow> 'a list \<Rightarrow> nat \<Rightarrow> nat \<Rightarrow> (nat \<times> 'a list \<times> 'a rx_fifo) option" where
  "fifo_read N f dst i 0 = Some (0, dst, f)"
| "fifo_read N f dst i (Suc n) =
     do { (r, f1) \<leftarrow> fifo_pop N f;
          (case r of
             None \<Rightarrow> Some (0, dst, f1)
           | Some x \<Rightarrow> do { dst1 \<leftarrow> store dst i x;
                            (k, dst2, f2) \<leftarrow> fifo_read N f1 dst1 (Suc i) n;
                            Some (Suc k, dst2, f2) }) }"

section \<open>Invariant and contents\<close>

text \<open>
  The indices stay inside the array, and the flag is set only right after an overwrite, when the
  write index is one behind the read index. A FIFO of \<open>N\<close> cells therefore holds at most
  \<open>N - 1\<close> elements: the flag never makes it larger.
\<close>

definition fifo_inv :: "nat \<Rightarrow> 'a rx_fifo \<Rightarrow> bool" where
  "fifo_inv N f \<longleftrightarrow> 2 \<le> N \<and> N < 2 ^ 16 \<and> length (ff_buffer f) = N
     \<and> unat (ff_get_index f) < N \<and> unat (ff_put_index f) < N
     \<and> (ff_is_full f \<longrightarrow> ff_get_index f \<noteq> ff_put_index f)"

definition fifo_len :: "nat \<Rightarrow> 'a rx_fifo \<Rightarrow> nat" where
  "fifo_len N f = (unat (ff_put_index f) + N - unat (ff_get_index f)) mod N"

definition fifo_view :: "nat \<Rightarrow> 'a rx_fifo \<Rightarrow> 'a list" where
  "fifo_view N f = window (ff_buffer f) (unat (ff_get_index f)) (fifo_len N f)"

lemma fifo_next_nat:
  assumes "unat i < N" and "N < 2 ^ 16"
  shows "unat (fifo_next N i) = Suc (unat i) mod N"
proof -
  have "unat (i + 1) = Suc (unat i)" using assms by (simp add: unat_word_ariths)
  then show ?thesis using assms by (auto simp: fifo_next_def Let_def mod_Suc)
qed

lemma fifo_len_less: "fifo_inv N f \<Longrightarrow> fifo_len N f < N"
  by (simp add: fifo_len_def fifo_inv_def)

lemma length_fifo_view [simp]: "length (fifo_view N f) = fifo_len N f"
  by (simp add: fifo_view_def)

lemma fifo_empty_iff:
  assumes "fifo_inv N f"
  shows "fifo_view N f = [] \<longleftrightarrow> ff_get_index f = ff_put_index f \<and> \<not> ff_is_full f"
proof -
  have "unat (ff_get_index f) < N" "unat (ff_put_index f) < N"
    using assms by (simp_all add: fifo_inv_def)
  note d = ring_distance [OF this]
  have "fifo_view N f = [] \<longleftrightarrow> fifo_len N f = 0" by (simp add: fifo_view_def)
  also have "\<dots> \<longleftrightarrow> unat (ff_get_index f) = unat (ff_put_index f)"
    unfolding fifo_len_def d using assms by (auto simp: fifo_inv_def)
  finally show ?thesis using assms by (auto simp: word_unat_eq_iff fifo_inv_def)
qed

lemma fifo_put_index_len:
  assumes "fifo_inv N f"
  shows "unat (ff_put_index f) = (unat (ff_get_index f) + fifo_len N f) mod N"
proof -
  let ?g = "unat (ff_get_index f)" and ?p = "unat (ff_put_index f)"
  have b: "?g < N" "?p < N" using assms by (simp_all add: fifo_inv_def)
  have "(?g + fifo_len N f) mod N = (?g + (?p + N - ?g)) mod N"
    by (simp add: fifo_len_def mod_simps del: add_diff_assoc)
  then show ?thesis using b by simp
qed

lemma fifo_len_unique:
  assumes "unat (ff_get_index f) < N" and "l < N"
    and "unat (ff_put_index f) = (unat (ff_get_index f) + l) mod N"
  shows "fifo_len N f = l"
  using assms by (simp add: fifo_len_def ring_distance_offset)

lemma fifo_pop_Nil:
  "fifo_inv N f \<Longrightarrow> fifo_view N f = [] \<Longrightarrow> fifo_pop N f = Some (None, f)"
  using fifo_empty_iff [of N f] by (simp add: fifo_pop_def)

lemma fifo_pop_Cons:
  assumes inv: "fifo_inv N f" and v: "fifo_view N f = x # xs"
  shows "\<exists>f1. fifo_pop N f = Some (Some x, f1) \<and> fifo_inv N f1 \<and> fifo_view N f1 = xs"
proof -
  let ?g = "unat (ff_get_index f)"
  let ?f1 = "f\<lparr>ff_get_index := fifo_next N (ff_get_index f), ff_is_full := False\<rparr>"
  have b: "?g < N" "N < 2 ^ 16" "length (ff_buffer f) = N" using inv by (auto simp: fifo_inv_def)
  note nx = fifo_next_nat [OF b(1,2)]
  have len: "fifo_len N f = Suc (length xs)" using v length_fifo_view [of N f] by simp
  have inv1: "fifo_inv N ?f1" using inv nx by (simp add: fifo_inv_def)
  have "fifo_len N ?f1 = length xs"
  proof (rule fifo_len_unique)
    show "unat (ff_get_index ?f1) < N" using inv1 by (simp add: fifo_inv_def)
    show "length xs < N" using fifo_len_less [OF inv] len by simp
    show "unat (ff_put_index ?f1) = (unat (ff_get_index ?f1) + length xs) mod N"
      using fifo_put_index_len [OF inv] len nx by (simp add: mod_simps)
  qed
  then have v1: "fifo_view N ?f1 = window (ff_buffer f) (Suc ?g mod length (ff_buffer f)) (length xs)"
    using nx b by (simp add: fifo_view_def)
  have "window (ff_buffer f) ?g (Suc (length xs)) = x # xs"
    using v len by (simp add: fifo_view_def)
  then have "fifo_view N ?f1 = xs" and "ff_buffer f ! ?g = x"
    using v1 b by (simp_all add: window_pop)
  moreover have "\<not> (ff_get_index f = ff_put_index f \<and> \<not> ff_is_full f)"
    using v fifo_empty_iff [OF inv] by simp
  ultimately show ?thesis using inv1 b by (auto simp: fifo_pop_def mem_simps)
qed

lemma fifo_push_lastn:
  assumes inv: "fifo_inv N f"
  shows "\<exists>f1. fifo_push N x f = Some f1 \<and> fifo_inv N f1
    \<and> fifo_view N f1 = lastn (N - 1) (fifo_view N f @ [x])"
proof -
  let ?g = "unat (ff_get_index f)" and ?p = "unat (ff_put_index f)" and ?l = "fifo_len N f"
  let ?buf = "(ff_buffer f)[?p := x]"
  let ?p1 = "fifo_next N (ff_put_index f)" and ?g1 = "fifo_next N (ff_get_index f)"
  have b: "?g < N" "?p < N" "N < 2 ^ 16" "2 \<le> N" "length (ff_buffer f) = N"
    using inv by (auto simp: fifo_inv_def)
  have pos: "?p = (?g + ?l) mod length (ff_buffer f)" using fifo_put_index_len [OF inv] b by simp
  have p1: "unat ?p1 = (?g + Suc ?l) mod N"
    using fifo_next_nat [OF b(2,3)] pos b by (simp add: mod_simps)
  have g1: "unat ?g1 = Suc ?g mod N" using fifo_next_nat [OF b(1,3)] .
  have l: "?l < N" by (rule fifo_len_less [OF inv])
  have hit: "?p1 = ff_get_index f \<longleftrightarrow> Suc ?l = N"
  proof
    assume "?p1 = ff_get_index f"
    then have "(?g + Suc ?l) mod N = (?g + 0) mod N" using p1 b by simp
    then show "Suc ?l = N"
      using ring_index_inj [of "Suc ?l" N 0 ?g] b l by (metis Suc_lessI nat.distinct(1) gr_implies_not0 not_gr0)
  next
    assume "Suc ?l = N"
    then show "?p1 = ff_get_index f" using p1 b by (simp add: word_unat_eq_iff)
  qed
  show ?thesis
  proof (cases "Suc ?l = N")
    case False
    let ?f1 = "f\<lparr>ff_buffer := ?buf, ff_put_index := ?p1\<rparr>"
    have "fifo_push N x f = Some ?f1"
      using hit False b by (simp add: fifo_push_def mem_simps Let_def)
    moreover have "fifo_inv N ?f1"
      using inv hit False p1 by (auto simp: fifo_inv_def)
    moreover have "fifo_len N ?f1 = Suc ?l"
      using b p1 l False by (intro fifo_len_unique) simp_all
    then have "fifo_view N ?f1 = fifo_view N f @ [x]"
      using window_push [of ?l "ff_buffer f" ?g x] b l pos by (simp add: fifo_view_def)
    ultimately show ?thesis using l False b by simp
  next
    case True
    let ?f1 = "f\<lparr>ff_buffer := ?buf, ff_put_index := ?p1, ff_get_index := ?g1, ff_is_full := True\<rparr>"
    have push: "fifo_push N x f = Some ?f1"
      using hit True b by (simp add: fifo_push_def mem_simps Let_def)
    have lt: "N - 2 < N" "Suc (N - 2) = ?l" using b True by simp_all
    have "unat ?g1 \<noteq> unat ?p1"
      using g1 p1 True ring_index_inj [of 1 N 0 ?g] b by auto
    then have inv1: "fifo_inv N ?f1" using inv p1 g1 by (auto simp: fifo_inv_def)
    have "fifo_len N ?f1 = ?l"
    proof (rule fifo_len_unique)
      show "unat (ff_get_index ?f1) < N" using inv1 by (simp add: fifo_inv_def)
      show "unat (ff_put_index ?f1) = (unat (ff_get_index ?f1) + ?l) mod N"
        using p1 g1 by (simp add: mod_simps)
    qed (rule l)
    then have "fifo_view N ?f1 = window ?buf (Suc ?g mod N) ?l"
      using g1 by (simp add: fifo_view_def)
    also have "\<dots> = tl (fifo_view N f) @ [x]"
      using window_overwrite [of "N - 2" "ff_buffer f" ?g x] lt b pos by (simp add: fifo_view_def)
    also have "\<dots> = lastn (N - 1) (fifo_view N f @ [x])"
      using lt b by (intro lastn_snoc_full [symmetric]) simp_all
    finally show ?thesis using push inv1 by blast
  qed
qed

section \<open>Reading into a buffer\<close>

text \<open>
  The reader stops when it has delivered what it was asked for or when the FIFO is empty. It never
  looks at the size of the destination: the access is in bounds exactly when the elements it
  delivers fit.
\<close>

lemma fifo_read_view:
  "fifo_inv N f \<Longrightarrow> i + min n (fifo_len N f) \<le> length dst \<Longrightarrow>
     \<exists>f1. fifo_read N f dst i n = Some (min n (fifo_len N f),
         take i dst @ take n (fifo_view N f) @ drop (i + min n (fifo_len N f)) dst, f1)
       \<and> fifo_inv N f1 \<and> fifo_view N f1 = drop n (fifo_view N f)"
proof (induction n arbitrary: f i dst)
  case 0
  then show ?case by simp
next
  case (Suc n)
  show ?case
  proof (cases "fifo_view N f")
    case Nil
    then have "fifo_len N f = 0" using length_fifo_view [of N f] by simp
    with Suc.prems Nil show ?thesis by (simp add: fifo_pop_Nil)
  next
    case (Cons x xs)
    obtain f1 where f1: "fifo_pop N f = Some (Some x, f1)" "fifo_inv N f1" "fifo_view N f1 = xs"
      using fifo_pop_Cons [OF Suc.prems(1) Cons] by blast
    have len: "fifo_len N f = Suc (fifo_len N f1)"
      using Cons f1(3) length_fifo_view [of N f] length_fifo_view [of N f1] by simp
    have i: "i < length dst" using Suc.prems(2) len by simp
    have "Suc i + min n (fifo_len N f1) \<le> length (dst[i := x])" using Suc.prems(2) len by simp
    from Suc.IH [OF f1(2) this] obtain f2 where
      "fifo_read N f1 (dst[i := x]) (Suc i) n = Some (min n (fifo_len N f1),
         take (Suc i) (dst[i := x]) @ take n xs @ drop (Suc i + min n (fifo_len N f1)) (dst[i := x]), f2)"
      "fifo_inv N f2" "fifo_view N f2 = drop n xs"
      using f1(3) by auto
    then show ?thesis using f1(1) i Cons len by (simp add: mem_simps take_Suc_conv_app_nth)
  qed
qed

lemma fifo_read_overrun:
  "fifo_inv N f \<Longrightarrow> i \<le> length dst \<Longrightarrow> length dst < i + min n (fifo_len N f) \<Longrightarrow>
     fifo_read N f dst i n = None"
proof (induction n arbitrary: f i dst)
  case 0
  then show ?case by simp
next
  case (Suc n)
  show ?case
  proof (cases "fifo_view N f")
    case Nil
    then have "fifo_len N f = 0" using length_fifo_view [of N f] by simp
    with Suc.prems show ?thesis by simp
  next
    case (Cons x xs)
    obtain f1 where f1: "fifo_pop N f = Some (Some x, f1)" "fifo_inv N f1" "fifo_view N f1 = xs"
      using fifo_pop_Cons [OF Suc.prems(1) Cons] by blast
    have len: "fifo_len N f = Suc (fifo_len N f1)"
      using Cons f1(3) length_fifo_view [of N f] length_fifo_view [of N f1] by simp
    show ?thesis
    proof (cases "i < length dst")
      case True
      then have "fifo_read N f1 (dst[i := x]) (Suc i) n = None"
        using Suc.IH [OF f1(2), of "Suc i" "dst[i := x]"] Suc.prems len by simp
      with f1(1) True show ?thesis by (simp add: mem_simps)
    next
      case False
      with f1(1) Suc.prems show ?thesis by (simp add: mem_simps)
    qed
  qed
qed

text \<open>The laws of the overwriting queue, for every length of the array.\<close>

lemma fifo_overwriting_queue:
  assumes "2 \<le> N"
  shows "overwriting_queue (fifo_pop N) (fifo_view N) (fifo_inv N) (\<lambda>_. N - 1) (fifo_push N)"
proof unfold_locales
  fix q :: "'a rx_fifo" and x xs
  show "fifo_inv N q \<Longrightarrow> fifo_view N q = [] \<Longrightarrow> fifo_pop N q = Some (None, q)"
    by (rule fifo_pop_Nil)
  show "fifo_inv N q \<Longrightarrow> fifo_view N q = x # xs \<Longrightarrow>
      \<exists>q1. fifo_pop N q = Some (Some x, q1) \<and> fifo_inv N q1 \<and> fifo_view N q1 = xs \<and> N - 1 = N - 1"
    using fifo_pop_Cons by fastforce
  show "fifo_inv N q \<Longrightarrow> length (fifo_view N q) \<le> N - 1"
    using fifo_len_less [of N q] by simp
  show "fifo_inv N q \<Longrightarrow> \<exists>q1. fifo_push N x q = Some q1 \<and> fifo_inv N q1
      \<and> fifo_view N q1 = lastn (N - 1) (fifo_view N q @ [x]) \<and> N - 1 = N - 1"
    using fifo_push_lastn by fastforce
qed

text \<open>A zeroed FIFO is empty.\<close>

lemma fifo_inv_zero:
  assumes "2 \<le> N" "N < 2 ^ 16" "length buf = N"
  shows "fifo_inv N \<lparr>ff_buffer = buf, ff_put_index = 0, ff_get_index = 0, ff_is_full = False\<rparr>
    \<and> fifo_view N \<lparr>ff_buffer = buf, ff_put_index = 0, ff_get_index = 0, ff_is_full = False\<rparr> = []"
  using assms by (simp add: fifo_inv_def fifo_view_def fifo_len_def)

end
