(* ===== verification/Uart.thy ===== *)
theory Uart
  imports Rx_Fifo Soft_Timer
begin

text \<open>
  src/src/components/drivers/sdk_uart.c: the UART driver above the board's operations. The
  board (\<open>ops\<close>, the delay) is not part of the SDK: it is an argument of the operations. Its state,
  everything outside the driver's struct, is the second half \<open>'h\<close> of the driver state. A delay
  may run interrupts, so it can change both halves. The branch \<open>UART_DMA_LEGACY\<close> is off.
\<close>

section \<open>State\<close>

datatype uartstate = UART_UNINIT | UART_STOP | UART_READY
datatype uarttxstate = UART_TX_IDLE | UART_TX_ACTIVE | UART_TX_COMPLETE
datatype uartrxstate = UART_RX_IDLE | UART_RX_ACTIVE | UART_RX_COMPLETE

definition SDK_UART_RX_FIFO_LEN :: nat where
  "SDK_UART_RX_FIFO_LEN = 512"

record 'h sdk_uart =
  ua_state :: uartstate
  ua_txstate :: uarttxstate
  ua_rxstate :: uartrxstate
  ua_use_dma_rx :: u8
  ua_rx_fifo :: "u8 rx_fifo"
  ua_rx_callback :: "(u8 \<Rightarrow> 'h \<Rightarrow> 'h) option"
  ua_rx_idle_callback :: "('h \<Rightarrow> 'h) option"
  ua_rx_rto_callback :: "('h \<Rightarrow> 'h) option"

type_synonym 'h uart_st = "'h sdk_uart \<times> 'h"

text \<open>A driver without transmitter has \<open>NULL\<close> for \<open>write\<close>.\<close>

record 'h sdk_uart_ops =
  uop_open :: "s32 \<Rightarrow> s32 \<Rightarrow> u8 \<Rightarrow> s32 \<Rightarrow> 'h uart_st \<Rightarrow> s32 \<times> 'h uart_st"
  uop_close :: "'h uart_st \<Rightarrow> s32 \<times> 'h uart_st"
  uop_write :: "(u8 list \<Rightarrow> u32 \<Rightarrow> 'h uart_st \<Rightarrow> s32 \<times> 'h uart_st) option"
  uop_putc :: "s32 \<Rightarrow> 'h uart_st \<Rightarrow> s32 \<times> 'h uart_st"
  uop_getc :: "'h uart_st \<Rightarrow> s32 \<times> 'h uart_st"
  uop_control :: "s32 \<Rightarrow> u8 list option \<Rightarrow> 'h uart_st \<Rightarrow> s32 \<times> 'h uart_st"

section \<open>Opening, closing, control\<close>

definition sdk_uart_open ::
    "'h sdk_uart_ops \<Rightarrow> ('h uart_st \<Rightarrow> 'h uart_st) \<Rightarrow> s32 \<Rightarrow> s32 \<Rightarrow> u8 \<Rightarrow> s32 \<Rightarrow> 'h uart_st \<Rightarrow> 'h uart_st" where
  "sdk_uart_open ops mutex_init baudrate data_bit parity stop_bit \<sigma> =
     (if ua_state (fst \<sigma>) = UART_READY then \<sigma>
      else let (_, \<sigma>1) = uop_open ops baudrate data_bit parity stop_bit \<sigma>;
               (u, h) = mutex_init \<sigma>1
           in (u\<lparr>ua_state := UART_READY, ua_txstate := UART_TX_IDLE, ua_rxstate := UART_RX_IDLE\<rparr>, h))"

definition sdk_uart_close :: "'h sdk_uart_ops \<Rightarrow> 'h uart_st \<Rightarrow> 'h uart_st" where
  "sdk_uart_close ops \<sigma> =
     (let (_, (u, h)) = uop_close ops \<sigma>
      in (u\<lparr>ua_state := UART_STOP, ua_txstate := UART_TX_IDLE, ua_rxstate := UART_RX_IDLE\<rparr>, h))"

definition sdk_uart_control ::
    "'h sdk_uart_ops \<Rightarrow> s32 \<Rightarrow> u8 list option \<Rightarrow> 'h uart_st \<Rightarrow> s32 \<times> 'h uart_st" where
  "sdk_uart_control ops cmd args \<sigma> =
     (let (u, h) = \<sigma>;
          u1 = (if cmd = 2 then u\<lparr>ua_use_dma_rx := 1\<rparr>
                else if cmd = 3 then u\<lparr>ua_use_dma_rx := 0\<rparr> else u)
      in uop_control ops cmd args (u1, h))"

definition SDK_CONTROL_UART_UPDATE_STATE :: s32 where
  "SDK_CONTROL_UART_UPDATE_STATE = 11"

section \<open>Sending\<close>

text \<open>
  The wait for the transmitter: \<open>cnt\<close> is \<open>timeout_cnt\<close>. The loop gives up when it has polled
  more than 10000 times.
\<close>

function uart_tx_wait ::
    "'h sdk_uart_ops \<Rightarrow> (s32 \<Rightarrow> 'h uart_st \<Rightarrow> 'h uart_st) \<Rightarrow> nat \<Rightarrow> 'h uart_st \<Rightarrow> bool \<times> 'h uart_st" where
  "uart_tx_wait ops delay_ms cnt \<sigma> =
     (if ua_txstate (fst \<sigma>) = UART_TX_ACTIVE
      then let (_, \<sigma>1) = sdk_uart_control ops SDK_CONTROL_UART_UPDATE_STATE None \<sigma>
           in if 10000 < cnt then (False, \<sigma>1)
              else uart_tx_wait ops delay_ms (Suc cnt) (delay_ms 1 \<sigma>1)
      else (True, \<sigma>))"
  by pat_completeness auto
termination by (relation "measure (\<lambda>(ops, delay_ms, cnt, \<sigma>). 10001 - cnt)") auto

declare uart_tx_wait.simps [simp del]

definition sdk_uart_write ::
    "'h sdk_uart_ops \<Rightarrow> (s32 \<Rightarrow> 'h uart_st \<Rightarrow> 'h uart_st) \<Rightarrow> u8 list \<Rightarrow> s32 \<Rightarrow> 'h uart_st \<Rightarrow> s32 \<times> 'h uart_st" where
  "sdk_uart_write ops delay_ms data len \<sigma> =
     (case uop_write ops of
        None \<Rightarrow> (- 1, \<sigma>)
      | Some wr \<Rightarrow>
          if ua_state (fst \<sigma>) \<noteq> UART_READY then (- 1, \<sigma>)
          else let (_, \<sigma>1) = sdk_uart_control ops SDK_CONTROL_UART_UPDATE_STATE None \<sigma>;
                   (idle, \<sigma>2) = uart_tx_wait ops delay_ms 0 \<sigma>1
               in if \<not> idle then (- 1, \<sigma>2)
                  else let (u, h) = \<sigma>2;
                           (_, \<sigma>3) = wr data len (u\<lparr>ua_txstate := UART_TX_ACTIVE\<rparr>, h)
                       in (len, \<sigma>3))"

text \<open>\<open>for (i = 0; i < len; i++) putc(data[i])\<close>, with \<open>n\<close> rounds left.\<close>

fun uart_putc_loop :: "'h sdk_uart_ops \<Rightarrow> u8 list \<Rightarrow> nat \<Rightarrow> nat \<Rightarrow> 'h uart_st \<Rightarrow> 'h uart_st option" where
  "uart_putc_loop ops data i 0 \<sigma> = Some \<sigma>"
| "uart_putc_loop ops data i (Suc n) \<sigma> =
     do { c \<leftarrow> load data i;
          uart_putc_loop ops data (Suc i) n (snd (uop_putc ops (ucast c) \<sigma>)) }"

definition sdk_uart_write_cycle ::
    "'h sdk_uart_ops \<Rightarrow> u8 list \<Rightarrow> s32 \<Rightarrow> 'h uart_st \<Rightarrow> (s32 \<times> 'h uart_st) option" where
  "sdk_uart_write_cycle ops data len \<sigma> =
     (if ua_state (fst \<sigma>) \<noteq> UART_READY \<or> uop_write ops = None then Some (- 1, \<sigma>)
      else do { \<sigma>1 \<leftarrow> uart_putc_loop ops data 0 (nat (sint len)) \<sigma>; Some (len, \<sigma>1) })"

section \<open>Receiving\<close>

text \<open>
  \<open>ch & 0xff\<close> of a received character is the stored byte. With \<open>use_dma_rx = 1\<close> the loop runs
  without masking interrupts and otherwise does the same. The loop counts \<open>len\<close> down to 0.
\<close>

definition uart_read_at ::
    "'h sdk_uart \<Rightarrow> u8 list \<Rightarrow> nat \<Rightarrow> u32 \<Rightarrow> (s32 \<times> u8 list \<times> 'h sdk_uart) option" where
  "uart_read_at u data i len =
     do { (k, data1, f) \<leftarrow> fifo_read SDK_UART_RX_FIFO_LEN (ua_rx_fifo u) data i (unat len);
          Some (word_of_nat k, data1, u\<lparr>ua_rx_fifo := f\<rparr>) }"

definition sdk_uart_read :: "'h sdk_uart \<Rightarrow> u8 list \<Rightarrow> s32 \<Rightarrow> (s32 \<times> u8 list \<times> 'h sdk_uart) option" where
  "sdk_uart_read u data len = uart_read_at u data 0 len"

text \<open>
  The waiting readers, written once: \<open>quit_empty\<close> is the extra exit of \<open>sdk_uart_read_until\<close>, which
  leaves at once when nothing has arrived at all. \<open>cnt\<close> is \<open>timeout_cnt\<close>, whose decrement wraps.
  The loop always ends: a round either delivers bytes or counts \<open>cnt\<close> down.
\<close>

lemma fifo_read_le: "fifo_read N f dst i n = Some (k, r) \<Longrightarrow> k \<le> n"
  by (induction n arbitrary: f dst i k r) (auto split: bind_splits option.splits)

lemma uart_read_at_le:
  assumes "uart_read_at u data i len = Some (rl, data1, u1)"
  shows "unat rl \<le> unat len"
proof -
  from assms obtain k where "k \<le> unat len" "rl = word_of_nat k"
    by (auto simp: uart_read_at_def dest: fifo_read_le split: bind_splits)
  then show ?thesis
    using unat_u32_less [of len] by (simp add: unat_of_nat)
qed

lemma word_sub_progress:
  fixes len sm rl :: u32
  assumes "rl \<noteq> 0" and "unat rl \<le> unat (len - sm)"
  shows "unat (len - (sm + rl)) < unat (len - sm)"
proof -
  have "0 < unat rl" using assms(1) by (simp add: unat_gt_0)
  moreover have "unat (len - (sm + rl)) = unat (len - sm) - unat rl"
    using assms(2) by (subst diff_diff_eq [symmetric]) (simp add: unat_sub word_le_nat_alt)
  ultimately show ?thesis using assms(2) by simp
qed

lemma word_pred_progress:
  fixes c :: s32
  assumes "c \<noteq> 1"
  shows "unat (c - 2) < unat (c - 1)"
proof -
  have "c - 1 \<noteq> 0" using assms by simp
  then have "unat (c - 1 - 1) = unat (c - 1) - 1" and "0 < unat (c - 1)"
    by (rule unat_minus_one) (simp add: unat_gt_0 assms)
  moreover have "c - 1 - 1 = c - 2" by simp
  ultimately show ?thesis by simp
qed

function uart_wait_loop ::
    "bool \<Rightarrow> (s32 \<Rightarrow> 'h uart_st \<Rightarrow> 'h uart_st) \<Rightarrow> u32 \<Rightarrow> s32 \<Rightarrow> 'h uart_st \<Rightarrow> u8 list \<Rightarrow> u32 \<Rightarrow> s32
      \<Rightarrow> (u32 \<times> u8 list \<times> 'h uart_st) option" where
  "uart_wait_loop quit_empty delay_ms len timeout_ms \<sigma> data sm cnt =
     (if len - sm = 0 then Some (sm, data, \<sigma>)
      else (case uart_read_at (fst \<sigma>) data (unat sm) (len - sm) of
              None \<Rightarrow> None
            | Some (rl, data1, u1) \<Rightarrow>
                let sm1 = sm + rl; \<sigma>1 = (u1, snd \<sigma>)
                in if quit_empty \<and> sm1 = 0 then Some (sm1, data1, \<sigma>1)
                   else let (\<sigma>2, cnt2) = (if rl = 0 then (delay_ms 1 \<sigma>1, cnt - 1) else (\<sigma>1, timeout_ms))
                        in if cnt2 \<noteq> 0 then uart_wait_loop quit_empty delay_ms len timeout_ms \<sigma>2 data1 sm1 cnt2
                           else Some (sm1, data1, \<sigma>2)))"
  by pat_completeness auto

termination
  by (relation "measures [\<lambda>(q, d, len, t, \<sigma>, data, sm, cnt). unat (len - sm),
        \<lambda>(q, d, len, t, \<sigma>, data, sm, cnt). unat (cnt - 1)]")
    (auto split: if_splits dest!: uart_read_at_le intro: word_sub_progress word_pred_progress)

declare uart_wait_loop.simps [simp del]

definition sdk_uart_read_until ::
    "(s32 \<Rightarrow> 'h uart_st \<Rightarrow> 'h uart_st) \<Rightarrow> 'h uart_st \<Rightarrow> u8 list \<Rightarrow> s32 \<Rightarrow> s32 \<Rightarrow> (s32 \<times> u8 list \<times> 'h uart_st) option" where
  "sdk_uart_read_until delay_ms \<sigma> data len timeout_ms =
     uart_wait_loop True delay_ms len timeout_ms \<sigma> data 0 timeout_ms"

definition sdk_uart_read_wait ::
    "(s32 \<Rightarrow> 'h uart_st \<Rightarrow> 'h uart_st) \<Rightarrow> 'h uart_st \<Rightarrow> u8 list \<Rightarrow> s32 \<Rightarrow> s32 \<Rightarrow> (s32 \<times> u8 list \<times> 'h uart_st) option" where
  "sdk_uart_read_wait delay_ms \<sigma> data len timeout_ms =
     uart_wait_loop False delay_ms len timeout_ms \<sigma> data 0 timeout_ms"

text \<open>One received character; \<open>-1\<close> stands for none.\<close>

definition sdk_uart_rx_getc :: "'h uart_st \<Rightarrow> s32 \<Rightarrow> 'h uart_st option" where
  "sdk_uart_rx_getc \<sigma> ch =
     (if ch = - 1 then Some \<sigma>
      else let (u, h) = \<sigma>;
               h1 = (case ua_rx_callback u of None \<Rightarrow> h | Some cb \<Rightarrow> cb (ucast ch) h)
           in do { f \<leftarrow> fifo_push SDK_UART_RX_FIFO_LEN (ucast ch) (ua_rx_fifo u);
                   Some (u\<lparr>ua_rx_fifo := f\<rparr>, h1) })"

text \<open>
  The interrupt handler drains the receiver: fuel bounds the characters the hardware delivers
  in one interrupt. It handles a character as \<open>sdk_uart_rx_getc\<close> does, with interrupts masked.
  The outer option is the fuel, the inner one memory safety.
\<close>

fun sdk_uart_rx_isr :: "'h sdk_uart_ops \<Rightarrow> nat \<Rightarrow> 'h uart_st \<Rightarrow> 'h uart_st option option" where
  "sdk_uart_rx_isr ops 0 \<sigma> = None"
| "sdk_uart_rx_isr ops (Suc fuel) \<sigma> =
     (let (ch, \<sigma>1) = uop_getc ops \<sigma>
      in if ch = - 1 then Some (Some \<sigma>1)
         else (case sdk_uart_rx_getc \<sigma>1 ch of
                 None \<Rightarrow> Some None
               | Some \<sigma>2 \<Rightarrow> sdk_uart_rx_isr ops fuel \<sigma>2))"

definition sdk_uart_set_rx_callback :: "'h sdk_uart \<Rightarrow> (u8 \<Rightarrow> 'h \<Rightarrow> 'h) option \<Rightarrow> 'h sdk_uart" where
  "sdk_uart_set_rx_callback u cb = u\<lparr>ua_rx_callback := cb\<rparr>"

definition sdk_uart_set_rx_idle_callback :: "'h sdk_uart \<Rightarrow> ('h \<Rightarrow> 'h) option \<Rightarrow> 'h sdk_uart" where
  "sdk_uart_set_rx_idle_callback u cb = u\<lparr>ua_rx_idle_callback := cb\<rparr>"

definition sdk_uart_set_rx_rto_callback :: "'h sdk_uart \<Rightarrow> ('h \<Rightarrow> 'h) option \<Rightarrow> 'h sdk_uart" where
  "sdk_uart_set_rx_rto_callback u cb = u\<lparr>ua_rx_rto_callback := cb\<rparr>"

section \<open>The receive path\<close>

lemma fifo_len_512 [simp]: "2 \<le> SDK_UART_RX_FIFO_LEN" "SDK_UART_RX_FIFO_LEN - Suc 0 = 511"
  by (simp_all add: SDK_UART_RX_FIFO_LEN_def)

interpretation uartq: overwriting_queue "fifo_pop SDK_UART_RX_FIFO_LEN :: u8 rx_fifo \<Rightarrow> _"
  "fifo_view SDK_UART_RX_FIFO_LEN" "fifo_inv SDK_UART_RX_FIFO_LEN"
  "\<lambda>_. SDK_UART_RX_FIFO_LEN - 1" "fifo_push SDK_UART_RX_FIFO_LEN"
  by (rule fifo_overwriting_queue) simp

abbreviation uart_rx_inv :: "'h sdk_uart \<Rightarrow> bool" where
  "uart_rx_inv u \<equiv> fifo_inv SDK_UART_RX_FIFO_LEN (ua_rx_fifo u)"

abbreviation uart_rx_view :: "'h sdk_uart \<Rightarrow> u8 list" where
  "uart_rx_view u \<equiv> fifo_view SDK_UART_RX_FIFO_LEN (ua_rx_fifo u)"

text \<open>A byte widened to an \<open>int\<close> is never \<open>-1\<close> and narrows back to itself.\<close>

lemma char_not_eof: "(ucast (c :: u8) :: s32) \<noteq> - 1"
proof
  assume "(ucast c :: s32) = - 1"
  then have "unat (ucast c :: s32) = unat (- 1 :: s32)" by simp
  moreover have "unat (- 1 :: s32) = 4294967295" by (simp add: unsigned_minus_1_eq_mask mask_eq_exp_minus_1)
  ultimately show False using unat_u8_less [of c] by simp
qed

lemma char_ucast_back [simp]: "ucast (ucast (c :: u8) :: s32) = c"
  by (simp add: word_unat_eq_iff unat_ucast_mod)

text \<open>The driver after one received byte.\<close>

lemma uart_rx_getc_view:
  assumes "uart_rx_inv u"
  shows "\<exists>f h1. sdk_uart_rx_getc (u, h) (ucast c) = Some (u\<lparr>ua_rx_fifo := f\<rparr>, h1)
    \<and> fifo_push SDK_UART_RX_FIFO_LEN c (ua_rx_fifo u) = Some f
    \<and> h1 = (case ua_rx_callback u of None \<Rightarrow> h | Some cb \<Rightarrow> cb c h)
    \<and> fifo_inv SDK_UART_RX_FIFO_LEN f"
  using uartq.push_lastn [OF assms, of c] char_not_eof [of c]
  by (auto simp: sdk_uart_rx_getc_def split: option.splits)

lemma uart_rx_isr_push_list:
  assumes empty: "\<And>u h. pending h = [] \<Longrightarrow> uop_getc ops (u, h) = (- 1, u, h)"
    and next_c: "\<And>u h c cs. pending h = c # cs \<Longrightarrow>
      \<exists>h1. uop_getc ops (u, h) = (ucast c, u, h1) \<and> pending h1 = cs"
    and cb: "\<And>cb c h. ua_rx_callback u = Some cb \<Longrightarrow> pending (cb c h) = pending h"
    and "uart_rx_inv u" and "length (pending h) < fuel"
  shows "\<exists>f h1. sdk_uart_rx_isr ops fuel (u, h) = Some (Some (u\<lparr>ua_rx_fifo := f\<rparr>, h1))
    \<and> push_list (fifo_push SDK_UART_RX_FIFO_LEN) (pending h) (ua_rx_fifo u) = Some f
    \<and> pending h1 = []"
  using cb assms(4,5)
proof (induction "pending h" arbitrary: u h fuel)
  case Nil
  then obtain n where "fuel = Suc n" by (cases fuel) auto
  with Nil empty [of h u] show ?case by (auto intro!: exI [of _ "ua_rx_fifo u"])
next
  case (Cons c cs)
  then obtain n where n: "fuel = Suc n" by (cases fuel) auto
  obtain h1 where h1: "uop_getc ops (u, h) = (ucast c, u, h1)" "pending h1 = cs"
    using next_c Cons.hyps(2) by metis
  obtain f h2 where f: "sdk_uart_rx_getc (u, h1) (ucast c) = Some (u\<lparr>ua_rx_fifo := f\<rparr>, h2)"
    "fifo_push SDK_UART_RX_FIFO_LEN c (ua_rx_fifo u) = Some f"
    "h2 = (case ua_rx_callback u of None \<Rightarrow> h1 | Some cb \<Rightarrow> cb c h1)" "fifo_inv SDK_UART_RX_FIFO_LEN f"
    using uart_rx_getc_view [OF Cons.prems(2)] by blast
  have p2: "pending h2 = cs"
    using f(3) h1(2) Cons.prems(1) by (auto split: option.splits)
  have "length (pending h2) < n" using p2 n Cons.prems(3) Cons.hyps(2) by (metis Suc_less_eq length_Cons)
  then obtain f2 h3 where
    "sdk_uart_rx_isr ops n (u\<lparr>ua_rx_fifo := f\<rparr>, h2) = Some (Some (u\<lparr>ua_rx_fifo := f2\<rparr>, h3))"
    "push_list (fifo_push SDK_UART_RX_FIFO_LEN) cs f = Some f2" "pending h3 = []"
    using Cons.hyps(1) [of h2 "u\<lparr>ua_rx_fifo := f\<rparr>" n] Cons.prems f(4) p2 by auto
  then show ?case
    using n h1 f Cons.hyps(2) [symmetric] char_not_eof [of c] by simp
qed

lemma uart_read_at_view:
  assumes "uart_rx_inv u" and "i + min (unat len) (length (uart_rx_view u)) \<le> length data"
  shows "\<exists>f. uart_read_at u data i len =
      Some (word_of_nat (min (unat len) (length (uart_rx_view u))),
        take i data @ take (unat len) (uart_rx_view u)
          @ drop (i + min (unat len) (length (uart_rx_view u))) data, u\<lparr>ua_rx_fifo := f\<rparr>)
    \<and> fifo_inv SDK_UART_RX_FIFO_LEN f
    \<and> fifo_view SDK_UART_RX_FIFO_LEN f = drop (unat len) (uart_rx_view u)"
  using fifo_read_view [OF assms(1), of i "unat len" data] assms(2)
  by (auto simp: uart_read_at_def)

lemma uart_read_at_empty:
  assumes "uart_rx_inv u" and "uart_rx_view u = []"
  shows "uart_read_at u data i len = Some (0, data, u)"
proof -
  have "fifo_read SDK_UART_RX_FIFO_LEN (ua_rx_fifo u) data i (unat len) = Some (0, data, ua_rx_fifo u)"
    using fifo_pop_Nil [OF assms] by (cases "unat len") simp_all
  then show ?thesis by (simp add: uart_read_at_def)
qed

section \<open>Waiting on a silent line\<close>

lemma uart_wait_silent:
  fixes cnt :: s32
  assumes silent: "\<And>u h. uart_rx_inv u \<and> uart_rx_view u = [] \<Longrightarrow>
      uart_rx_inv (fst (delay_ms 1 (u, h))) \<and> uart_rx_view (fst (delay_ms 1 (u, h))) = []"
    and "sm \<noteq> len" and "quit_empty \<Longrightarrow> sm \<noteq> 0"
  shows "uart_rx_inv (fst \<sigma>) \<Longrightarrow> uart_rx_view (fst \<sigma>) = [] \<Longrightarrow>
    uart_wait_loop quit_empty delay_ms len timeout_ms \<sigma> data sm cnt
      = Some (sm, data, (delay_ms 1 ^^ Suc (unat (cnt - 1))) \<sigma>)"
proof (induction "unat (cnt - 1)" arbitrary: cnt \<sigma> rule: less_induct)
  case less
  let ?\<sigma>2 = "delay_ms 1 \<sigma>"
  note rd = uart_read_at_empty [OF less.prems, of data "unat sm" "len - sm"]
  have inv2: "uart_rx_inv (fst ?\<sigma>2)" "uart_rx_view (fst ?\<sigma>2) = []"
    using silent [of "fst \<sigma>" "snd \<sigma>"] less.prems by simp_all
  have step: "uart_wait_loop quit_empty delay_ms len timeout_ms \<sigma> data sm cnt =
      (if cnt - 1 \<noteq> 0 then uart_wait_loop quit_empty delay_ms len timeout_ms ?\<sigma>2 data sm (cnt - 1)
       else Some (sm, data, ?\<sigma>2))"
    using assms(2,3) rd by (subst uart_wait_loop.simps) auto
  show ?case
  proof (cases "cnt = 1")
    case True
    then show ?thesis using step by simp
  next
    case False
    then have lt: "unat (cnt - 1 - 1) < unat (cnt - 1)" using word_pred_progress [of cnt] by simp
    have "unat (cnt - 1) = Suc (unat (cnt - 1 - 1))"
      using lt unat_minus_one [of "cnt - 1"] False by simp
    then show ?thesis
      using step less.hyps [OF lt inv2] False by (simp add: funpow_swap1)
  qed
qed

text \<open>The number of rounds of a wait with this timeout.\<close>

definition wait_rounds :: "s32 \<Rightarrow> nat" where
  "wait_rounds timeout_ms = (if timeout_ms = 0 then 2 ^ 32 else unat timeout_ms)"

lemma wait_rounds_eq: "Suc (unat (t - 1)) = wait_rounds t"
  by (cases "t = 0") (simp_all add: wait_rounds_def unat_minus_one unat_gt_0
      unsigned_minus_1_eq_mask mask_eq_exp_minus_1)

lemma uart_tx_wait_busy:
  assumes ctrl: "\<And>\<sigma>. snd (uop_control ops SDK_CONTROL_UART_UPDATE_STATE None \<sigma>) = \<sigma>"
    and stuck: "\<And>\<sigma>. ua_txstate (fst \<sigma>) = UART_TX_ACTIVE \<Longrightarrow>
      ua_txstate (fst (delay_ms 1 \<sigma>)) = UART_TX_ACTIVE"
  shows "ua_txstate (fst \<sigma>) = UART_TX_ACTIVE \<Longrightarrow> n \<le> 10001 \<Longrightarrow>
    uart_tx_wait ops delay_ms (10001 - n) \<sigma> = (False, (delay_ms 1 ^^ n) \<sigma>)"
proof (induction n arbitrary: \<sigma>)
  case 0
  have "snd (sdk_uart_control ops SDK_CONTROL_UART_UPDATE_STATE None \<sigma>) = \<sigma>"
    using ctrl [of \<sigma>] by (simp add: sdk_uart_control_def SDK_CONTROL_UART_UPDATE_STATE_def case_prod_beta)
  with 0 show ?case by (subst uart_tx_wait.simps) (simp add: case_prod_beta)
next
  case (Suc n)
  have "snd (sdk_uart_control ops SDK_CONTROL_UART_UPDATE_STATE None \<sigma>) = \<sigma>"
    using ctrl [of \<sigma>] by (simp add: sdk_uart_control_def SDK_CONTROL_UART_UPDATE_STATE_def case_prod_beta)
  moreover have "Suc (10001 - Suc n) = 10001 - n" and "\<not> 10000 < 10001 - Suc n"
    using Suc.prems(2) by linarith+
  ultimately have "uart_tx_wait ops delay_ms (10001 - Suc n) \<sigma> =
      uart_tx_wait ops delay_ms (10001 - n) (delay_ms 1 \<sigma>)"
    using Suc.prems(1) by (subst uart_tx_wait.simps) (simp add: case_prod_beta del: diff_Suc_Suc)
  also have "\<dots> = (False, (delay_ms 1 ^^ Suc n) \<sigma>)"
    using Suc.IH [OF stuck [OF Suc.prems(1)]] Suc.prems(2) by (simp add: funpow_swap1)
  finally show ?case .
qed

section \<open>Properties\<close>

text \<open>
  C17. From the interrupt to the reader: when the board's \<open>getc\<close> delivers the pending bytes one by
  one and then \<open>-1\<close>, the interrupt handler ends, and a read into a large enough buffer returns
  the first \<open>len\<close> of the 511 most recent bytes, in the order they arrived.
\<close>

theorem uart_isr_then_read:
  assumes "\<And>u h. pending h = [] \<Longrightarrow> uop_getc ops (u, h) = (- 1, u, h)"
    and "\<And>u h c cs. pending h = c # cs \<Longrightarrow>
      \<exists>h1. uop_getc ops (u, h) = (ucast c, u, h1) \<and> pending h1 = cs"
    and "\<And>cb c h. ua_rx_callback u = Some cb \<Longrightarrow> pending (cb c h) = pending h"
    and "fifo_inv SDK_UART_RX_FIFO_LEN (ua_rx_fifo u)" and "length (pending h) < fuel"
    and "unat len \<le> length data"
  shows "\<exists>\<sigma>1 u2. sdk_uart_rx_isr ops fuel (u, h) = Some (Some \<sigma>1)
    \<and> (let received = lastn 511 (fifo_view SDK_UART_RX_FIFO_LEN (ua_rx_fifo u) @ pending h);
           n = min (unat len) (length received)
       in sdk_uart_read (fst \<sigma>1) data len
            = Some (word_of_nat n, take n received @ drop n data, u2)
          \<and> fifo_view SDK_UART_RX_FIFO_LEN (ua_rx_fifo u2) = drop n received)"
proof -
  obtain f h1 where isr: "sdk_uart_rx_isr ops fuel (u, h) = Some (Some (u\<lparr>ua_rx_fifo := f\<rparr>, h1))"
    and push: "push_list (fifo_push SDK_UART_RX_FIFO_LEN) (pending h) (ua_rx_fifo u) = Some f"
    using uart_rx_isr_push_list [of pending ops u h fuel] assms(1-5) by blast
  have f: "fifo_inv SDK_UART_RX_FIFO_LEN f" "fifo_view SDK_UART_RX_FIFO_LEN f
      = lastn 511 (fifo_view SDK_UART_RX_FIFO_LEN (ua_rx_fifo u) @ pending h)"
    using uartq.push_list_lastn [OF assms(4), of "pending h"] push by auto
  have "0 + min (unat len) (length (uart_rx_view (u\<lparr>ua_rx_fifo := f\<rparr>))) \<le> length data"
    using assms(6) by simp
  then obtain f2 where "uart_read_at (u\<lparr>ua_rx_fifo := f\<rparr>) data 0 len =
      Some (word_of_nat (min (unat len) (length (fifo_view SDK_UART_RX_FIFO_LEN f))),
        take (unat len) (fifo_view SDK_UART_RX_FIFO_LEN f)
          @ drop (min (unat len) (length (fifo_view SDK_UART_RX_FIFO_LEN f))) data,
        u\<lparr>ua_rx_fifo := f2\<rparr>)"
    "fifo_view SDK_UART_RX_FIFO_LEN f2 = drop (unat len) (fifo_view SDK_UART_RX_FIFO_LEN f)"
    using uart_read_at_view [of "u\<lparr>ua_rx_fifo := f\<rparr>" 0 len data] f(1) by auto
  then show ?thesis
    using isr by (intro exI [of _ "(u\<lparr>ua_rx_fifo := f\<rparr>, h1)"] exI [of _ "u\<lparr>ua_rx_fifo := f2\<rparr>"])
      (auto simp: sdk_uart_read_def f(2) Let_def min_def simp del: length_fifo_view)
qed

text \<open>An idle driver over a board whose pending bytes are a list, for the concrete instances.\<close>

definition list_board :: "u8 list sdk_uart_ops" where
  "list_board = \<lparr>uop_open = (\<lambda>_ _ _ _ \<sigma>. (0, \<sigma>)), uop_close = (\<lambda>\<sigma>. (0, \<sigma>)),
     uop_write = Some (\<lambda>_ _ \<sigma>. (0, \<sigma>)), uop_putc = (\<lambda>_ \<sigma>. (0, \<sigma>)),
     uop_getc = (\<lambda>(u, h). case h of [] \<Rightarrow> (- 1, u, []) | c # cs \<Rightarrow> (ucast c, u, cs)),
     uop_control = (\<lambda>_ _ \<sigma>. (0, \<sigma>))\<rparr>"

definition idle_uart :: "uarttxstate \<Rightarrow> 'h sdk_uart" where
  "idle_uart tx = \<lparr>ua_state = UART_READY, ua_txstate = tx, ua_rxstate = UART_RX_IDLE,
     ua_use_dma_rx = 0, ua_rx_fifo = \<lparr>ff_buffer = replicate 512 0, ff_put_index = 0,
       ff_get_index = 0, ff_is_full = False\<rparr>,
     ua_rx_callback = None, ua_rx_idle_callback = None, ua_rx_rto_callback = None\<rparr>"

lemma idle_uart_empty: "uart_rx_inv (idle_uart tx) \<and> uart_rx_view (idle_uart tx) = []"
  using fifo_inv_zero [of 512 "replicate 512 0"]
  by (simp add: idle_uart_def SDK_UART_RX_FIFO_LEN_def)

theorem uart_isr_then_read_witness:
  "\<exists>\<sigma>1 u2. sdk_uart_rx_isr list_board 4 (idle_uart UART_TX_IDLE, [7, 8, 9]) = Some (Some \<sigma>1)
     \<and> sdk_uart_read (fst \<sigma>1) [0, 0] 2 = Some (2, [7, 8], u2)"
proof -
  have "\<exists>\<sigma>1 u2. sdk_uart_rx_isr list_board 4 (idle_uart UART_TX_IDLE, [7, 8, 9]) = Some (Some \<sigma>1)
    \<and> (let received = lastn 511 (uart_rx_view (idle_uart UART_TX_IDLE :: u8 list sdk_uart) @ id [7, 8, 9]);
           n = min (unat (2 :: s32)) (length received)
       in sdk_uart_read (fst \<sigma>1) [0, 0] 2 = Some (word_of_nat n, take n received @ drop n [0, 0], u2)
          \<and> fifo_view SDK_UART_RX_FIFO_LEN (ua_rx_fifo u2) = drop n received)"
    by (rule uart_isr_then_read [of id list_board "idle_uart UART_TX_IDLE" "[7, 8, 9]" 4 2 "[0, 0]"])
      (simp_all add: list_board_def idle_uart_empty, simp add: idle_uart_def)
  then show ?thesis by (auto simp: idle_uart_empty Let_def)
qed

text \<open>
  Sending: a ready driver whose transmitter is free marks it active, hands the whole message to
  the board once and returns its length. When the transmitter stays active whatever is polled, the
  call gives up with \<open>-1\<close> after exactly 10001 delays of a millisecond and nothing is sent.
\<close>

theorem uart_write_sends_or_times_out:
  assumes "ua_state u = UART_READY" and "uop_write ops = Some wr"
    and "\<And>\<sigma>. snd (uop_control ops SDK_CONTROL_UART_UPDATE_STATE None \<sigma>) = \<sigma>"
    and "\<And>\<sigma>. ua_txstate (fst \<sigma>) = UART_TX_ACTIVE \<Longrightarrow>
      ua_txstate (fst (delay_ms 1 \<sigma>)) = UART_TX_ACTIVE"
  shows "sdk_uart_write ops delay_ms data len (u, h) =
    (if ua_txstate u = UART_TX_ACTIVE then (- 1, (delay_ms 1 ^^ 10001) (u, h))
     else (len, snd (wr data len (u\<lparr>ua_txstate := UART_TX_ACTIVE\<rparr>, h))))"
proof -
  have ctrl: "snd (sdk_uart_control ops SDK_CONTROL_UART_UPDATE_STATE None (u, h)) = (u, h)"
    using assms(3) [of "(u, h)"]
    by (simp add: sdk_uart_control_def SDK_CONTROL_UART_UPDATE_STATE_def)
  show ?thesis
  proof (cases "ua_txstate u = UART_TX_ACTIVE")
    case True
    then show ?thesis
      using uart_tx_wait_busy [of ops delay_ms "(u, h)" 10001] assms ctrl
      by (simp add: sdk_uart_write_def case_prod_beta del: funpow.simps)
  next
    case False
    then have "uart_tx_wait ops delay_ms 0 (u, h) = (True, (u, h))"
      by (subst uart_tx_wait.simps) simp
    with False show ?thesis
      using assms(1,2) ctrl by (simp add: sdk_uart_write_def case_prod_beta)
  qed
qed

theorem uart_write_sends_or_times_out_witness:
  "fst (sdk_uart_write list_board (\<lambda>_ \<sigma>. \<sigma>) [1, 2] 2 (idle_uart UART_TX_ACTIVE, [])) = - 1
   \<and> fst (sdk_uart_write list_board (\<lambda>_ \<sigma>. \<sigma>) [1, 2] 2 (idle_uart UART_TX_IDLE, [])) = 2"
proof -
  have 1: "ua_state (idle_uart tx) = UART_READY" "uop_write list_board = Some (\<lambda>_ _ \<sigma>. (0, \<sigma>))"
    "ua_txstate (idle_uart tx) = tx" for tx
    by (simp_all add: idle_uart_def list_board_def)
  have 2: "snd (uop_control list_board c a \<sigma>) = \<sigma>" for c a \<sigma> by (simp add: list_board_def)
  show ?thesis
    using uart_write_sends_or_times_out [of "idle_uart UART_TX_ACTIVE" list_board _ "\<lambda>_ \<sigma>. \<sigma>" "[1, 2]" 2 "[]", OF 1(1,2) 2]
      uart_write_sends_or_times_out [of "idle_uart UART_TX_IDLE" list_board _ "\<lambda>_ \<sigma>. \<sigma>" "[1, 2]" 2 "[]", OF 1(1,2) 2]
    by (simp add: 1(3))
qed

text \<open>
  Waiting on a line that stays silent: \<open>sdk_uart_read_wait\<close> returns the bytes that were there
  and, when it was asked for more, comes back after \<open>timeout_ms\<close> delays of a millisecond. With a
  timeout of 0 and nothing received it does not return at once: the counter is decremented before
  it is tested, so the call lasts \<open>2 ^ 32\<close> delays.
\<close>

theorem uart_read_wait_silent_line:
  assumes "\<And>u h. fifo_inv SDK_UART_RX_FIFO_LEN (ua_rx_fifo u)
      \<and> fifo_view SDK_UART_RX_FIFO_LEN (ua_rx_fifo u) = [] \<Longrightarrow>
      fifo_inv SDK_UART_RX_FIFO_LEN (ua_rx_fifo (fst (delay_ms 1 (u, h))))
      \<and> fifo_view SDK_UART_RX_FIFO_LEN (ua_rx_fifo (fst (delay_ms 1 (u, h)))) = []"
    and "fifo_inv SDK_UART_RX_FIFO_LEN (ua_rx_fifo u)"
    and "fifo_view SDK_UART_RX_FIFO_LEN (ua_rx_fifo u) = v"
    and "length v < unat len" and "length v \<le> length data"
  shows "\<exists>f. sdk_uart_read_wait delay_ms (u, h) data len timeout_ms =
    Some (word_of_nat (length v), v @ drop (length v) data,
      (delay_ms 1 ^^ (if timeout_ms \<noteq> 0 then unat timeout_ms else if v = [] then 2 ^ 32 else 0))
        (u\<lparr>ua_rx_fifo := f\<rparr>, h))"
proof (cases "v = []")
  case True
  have "(0 :: u32) \<noteq> len" using assms(4) by auto
  then have "uart_wait_loop False delay_ms len timeout_ms (u, h) data 0 timeout_ms
      = Some (0, data, (delay_ms 1 ^^ Suc (unat (timeout_ms - 1))) (u, h))"
    using uart_wait_silent [of delay_ms 0 len False "(u, h)" timeout_ms data timeout_ms] assms True
    by simp
  then show ?thesis
    using True unfolding wait_rounds_eq wait_rounds_def
    by (intro exI [of _ "ua_rx_fifo u"]) (auto simp: sdk_uart_read_wait_def)
next
  case False
  have lv: "length v < 2 ^ 32" using less_trans [OF assms(4) unsigned_less [of len]] by simp
  then have sm: "unat (word_of_nat (length v) :: u32) = length v" by (simp add: unat_of_nat)
  then have ne: "(word_of_nat (length v) :: u32) \<noteq> 0" using False by (metis length_0_conv unat_0)
  have nl: "(word_of_nat (length v) :: u32) \<noteq> len" using assms(4) sm by auto
  obtain f where f: "uart_read_at u data 0 len = Some (word_of_nat (length v), v @ drop (length v) data,
      u\<lparr>ua_rx_fifo := f\<rparr>)" "fifo_inv SDK_UART_RX_FIFO_LEN f" "fifo_view SDK_UART_RX_FIFO_LEN f = []"
    using uart_read_at_view [OF assms(2), of 0 len data] assms(3-5)
    by (auto simp del: length_fifo_view)
  have "len \<noteq> 0" using assms(4) by auto
  then have step: "sdk_uart_read_wait delay_ms (u, h) data len timeout_ms =
      (if timeout_ms \<noteq> 0
       then uart_wait_loop False delay_ms len timeout_ms (u\<lparr>ua_rx_fifo := f\<rparr>, h) (v @ drop (length v) data)
              (word_of_nat (length v)) timeout_ms
       else Some (word_of_nat (length v), v @ drop (length v) data, (u\<lparr>ua_rx_fifo := f\<rparr>, h)))"
    unfolding sdk_uart_read_wait_def using f(1) ne by (subst uart_wait_loop.simps) simp
  have "uart_wait_loop False delay_ms len timeout_ms (u\<lparr>ua_rx_fifo := f\<rparr>, h) (v @ drop (length v) data)
        (word_of_nat (length v)) timeout_ms
      = Some (word_of_nat (length v), v @ drop (length v) data,
          (delay_ms 1 ^^ wait_rounds timeout_ms) (u\<lparr>ua_rx_fifo := f\<rparr>, h))"
    unfolding wait_rounds_eq [symmetric]
    using uart_wait_silent [of delay_ms "word_of_nat (length v)" len False] assms(1) nl f(2,3) by simp
  then show ?thesis using step False by (auto simp: wait_rounds_def)
qed

theorem uart_read_wait_silent_line_witness:
  "\<exists>u. sdk_uart_read_wait (\<lambda>_ (u, n :: nat). (u, Suc n)) (idle_uart UART_TX_IDLE, 0) [0] 1 20 = Some (0, [0], (u, 20))"
proof -
  let ?d = "\<lambda>(_ :: s32) (u :: nat sdk_uart, n :: nat). (u, Suc n)"
  have "length ([] :: u8 list) < unat (1 :: s32)" and "length ([] :: u8 list) \<le> length [0 :: u8]"
    and "uart_rx_inv (idle_uart UART_TX_IDLE :: nat sdk_uart)"
    and "uart_rx_view (idle_uart UART_TX_IDLE :: nat sdk_uart) = []"
    by (simp_all add: idle_uart_empty)
  from uart_read_wait_silent_line [of ?d, OF _ this(3,4,1,2), of 0 20]
  obtain f where f: "sdk_uart_read_wait ?d (idle_uart UART_TX_IDLE, 0) [0] 1 20
      = Some (0, [0], (?d 1 ^^ 20) ((idle_uart UART_TX_IDLE)\<lparr>ua_rx_fifo := f\<rparr>, 0))"
    by auto
  have "(?d 1 ^^ k) (u, m) = (u, m + k)" for k u m by (induction k) simp_all
  then show ?thesis unfolding f by simp
qed

end
