(* ===== verification/Can.thy ===== *)
theory Can
  imports Rx_Fifo
begin

text \<open>
  src/src/components/drivers/sdk_can.c: the CAN driver, its message queue and the dispatch of
  received messages to the handlers registered by identifier. The registration tables are arrays of
  the application whose entries are chained into one linked list; they live in an explicit
  heap from addresses to nodes. The list starts at a node embedded in the driver's struct.
\<close>

section \<open>State\<close>

record sdk_can_msg =
  cm_canid :: "29 word"
  cm_ide :: "1 word"
  cm_rtr :: "1 word"
  cm_rsv1 :: "1 word"
  cm_dlc :: "4 word"
  cm_reserved :: "28 word"
  cm_data :: "u8 list"

datatype canstate = CAN_UNINIT | CAN_STOP | CAN_STARTING | CAN_STOPPING | CAN_READY | CAN_SLEEP

definition SDK_CAN_RX_MQ_LEN :: nat where
  "SDK_CAN_RX_MQ_LEN = 32"

text \<open>Addresses of nodes; entry \<open>i\<close> of a table at \<open>a\<close> has the address \<open>a + i\<close>.\<close>

type_synonym addr = nat

record 'h sdk_canid_table =
  ct_canid :: u32
  ct_msg_handler :: "(addr \<Rightarrow> sdk_can_msg \<Rightarrow> 'h \<Rightarrow> s32 \<times> 'h) option"
  ct_next :: "addr option"

type_synonym 'h can_heap = "addr \<Rightarrow> 'h sdk_canid_table option"

record sdk_can =
  ca_state :: canstate
  ca_rx_mq :: "sdk_can_msg rx_fifo"
  ca_canid_list :: addr
  ca_can_dev :: addr

type_synonym 'h can_st = "sdk_can \<times> 'h"

record 'h sdk_can_ops =
  cop_open :: "('h can_st \<Rightarrow> s32 \<times> 'h can_st) option"
  cop_close :: "('h can_st \<Rightarrow> s32 \<times> 'h can_st) option"
  cop_read :: "'h can_st \<Rightarrow> s32 \<times> sdk_can_msg \<times> 'h can_st"
  cop_write :: "(sdk_can_msg \<Rightarrow> 'h can_st \<Rightarrow> s32 \<times> 'h can_st) option"
  cop_control :: "(s32 \<Rightarrow> u8 list option \<Rightarrow> 'h can_st \<Rightarrow> s32 \<times> 'h can_st) option"

section \<open>Opening, closing, sending\<close>

text \<open>The pointer test of the code fails only for a caller without a driver: it is not modelled.\<close>

definition sdk_can_open :: "'h sdk_can_ops \<Rightarrow> 'h can_st \<Rightarrow> s32 \<times> 'h can_st" where
  "sdk_can_open ops \<sigma> =
     (case cop_open ops of
        None \<Rightarrow> (- SDK_E_INVALID, \<sigma>)
      | Some opn \<Rightarrow>
          if ca_state (fst \<sigma>) = CAN_UNINIT
          then let (ret, (c, h)) = opn \<sigma>
               in (ret, if ret = SDK_OK then (c\<lparr>ca_state := CAN_READY\<rparr>, h) else (c, h))
          else (SDK_OK, \<sigma>))"

definition sdk_can_close :: "'h sdk_can_ops \<Rightarrow> 'h can_st \<Rightarrow> s32 \<times> 'h can_st" where
  "sdk_can_close ops \<sigma> =
     (case cop_close ops of
        None \<Rightarrow> (- SDK_E_INVALID, \<sigma>)
      | Some cls \<Rightarrow> let (ret, (c, h)) = cls \<sigma>
          in (ret, if ret = SDK_OK then (c\<lparr>ca_state := CAN_UNINIT\<rparr>, h) else (c, h)))"

definition sdk_can_write :: "'h sdk_can_ops \<Rightarrow> sdk_can_msg \<Rightarrow> 'h can_st \<Rightarrow> s32 \<times> 'h can_st" where
  "sdk_can_write ops msg \<sigma> =
     (case cop_write ops of None \<Rightarrow> (- SDK_E_INVALID, \<sigma>) | Some wr \<Rightarrow> wr msg \<sigma>)"

definition sdk_can_control ::
    "'h sdk_can_ops \<Rightarrow> s32 \<Rightarrow> u8 list option \<Rightarrow> 'h can_st \<Rightarrow> s32 \<times> 'h can_st" where
  "sdk_can_control ops cmd args \<sigma> =
     (case cop_control ops of None \<Rightarrow> (- SDK_E_INVALID, \<sigma>) | Some ctl \<Rightarrow> ctl cmd args \<sigma>)"

section \<open>Receiving\<close>

text \<open>\<open>*msg\<close> keeps its value when the queue is empty.\<close>

definition sdk_can_read :: "sdk_can \<Rightarrow> sdk_can_msg \<Rightarrow> (s32 \<times> sdk_can_msg \<times> sdk_can) option" where
  "sdk_can_read c msg =
     do { (r, f) \<leftarrow> fifo_pop SDK_CAN_RX_MQ_LEN (ca_rx_mq c);
          Some (case r of
                  None \<Rightarrow> (0, msg, c\<lparr>ca_rx_mq := f\<rparr>)
                | Some m \<Rightarrow> (1, m, c\<lparr>ca_rx_mq := f\<rparr>)) }"

definition sdk_can_rx_isr :: "'h sdk_can_ops \<Rightarrow> 'h can_st \<Rightarrow> 'h can_st option" where
  "sdk_can_rx_isr ops \<sigma> =
     (let (is_recved, msg, (c, h)) = cop_read ops \<sigma>
      in if is_recved = 0 then Some (c, h)
         else do { f \<leftarrow> fifo_push SDK_CAN_RX_MQ_LEN msg (ca_rx_mq c);
                   Some (c\<lparr>ca_rx_mq := f\<rparr>, h) })"

section \<open>Dispatch\<close>

text \<open>
  The walks along the list may not end on a list with a cycle; \<open>None\<close> stands for that and for a
  dangling pointer. The result of the search is the node's address, if there is one.
\<close>

partial_function (option) canid_find ::
    "'h can_heap \<Rightarrow> addr option \<Rightarrow> u32 \<Rightarrow> addr option option" where
  "canid_find H p canid =
     (case p of
        None \<Rightarrow> Some None
      | Some a \<Rightarrow> (case H a of
          None \<Rightarrow> None
        | Some n \<Rightarrow> if ct_canid n = canid then Some (Some a) else canid_find H (ct_next n) canid))"

definition get_canid_table_obj :: "'h can_heap \<Rightarrow> sdk_can \<Rightarrow> u32 \<Rightarrow> addr option option" where
  "get_canid_table_obj H c canid =
     do { hd_node \<leftarrow> H (ca_canid_list c); canid_find H (ct_next hd_node) canid }"

definition sdk_can_msg_parse ::
    "'h can_heap \<Rightarrow> sdk_can \<Rightarrow> sdk_can_msg \<Rightarrow> 'h \<Rightarrow> (s32 \<times> 'h) option" where
  "sdk_can_msg_parse H c msg h =
     do { r \<leftarrow> get_canid_table_obj H c (ucast (cm_canid msg));
          (case r of
             None \<Rightarrow> Some (0, h)
           | Some a \<Rightarrow> do { n \<leftarrow> H a;
               Some (case ct_msg_handler n of
                       None \<Rightarrow> (0, h)
                     | Some f \<Rightarrow> f (ca_can_dev c) msg h) }) }"

definition zero_can_msg :: sdk_can_msg where
  "zero_can_msg = \<lparr>cm_canid = 0, cm_ide = 0, cm_rtr = 0, cm_rsv1 = 0, cm_dlc = 0, cm_reserved = 0,
     cm_data = replicate 8 0\<rparr>"

definition sdk_can_recv_poll :: "'h can_heap \<Rightarrow> 'h can_st \<Rightarrow> (s32 \<times> 'h can_st) option" where
  "sdk_can_recv_poll H \<sigma> =
     (let (c, h) = \<sigma>
      in do { (rl, msg, c1) \<leftarrow> sdk_can_read c zero_can_msg;
              if 0 <s rl
              then do { (_, h1) \<leftarrow> sdk_can_msg_parse H c1 msg h; Some (rl, (c1, h1)) }
              else Some (rl, (c1, h)) })"

section \<open>Registration\<close>

partial_function (option) canid_mem :: "'h can_heap \<Rightarrow> addr option \<Rightarrow> addr \<Rightarrow> bool option" where
  "canid_mem H p a =
     (case p of
        None \<Rightarrow> Some False
      | Some b \<Rightarrow> if b = a then Some True
                  else (case H b of None \<Rightarrow> None | Some n \<Rightarrow> canid_mem H (ct_next n) a))"

partial_function (option) canid_last :: "'h can_heap \<Rightarrow> addr \<Rightarrow> addr option" where
  "canid_last H a =
     (case H a of
        None \<Rightarrow> None
      | Some n \<Rightarrow> (case ct_next n of None \<Rightarrow> Some a | Some b \<Rightarrow> canid_last H b))"

text \<open>The loop over the table: \<open>i\<close> counts up, \<open>n\<close> rounds are left, \<open>current\<close> stays where it is.\<close>

fun can_register_loop ::
    "'h can_heap \<Rightarrow> addr \<Rightarrow> addr \<Rightarrow> addr \<Rightarrow> nat \<Rightarrow> nat \<Rightarrow> 'h can_heap option" where
  "can_register_loop H canid_list current table i 0 = Some H"
| "can_register_loop H canid_list current table i (Suc n) =
     do { present \<leftarrow> canid_mem H (Some canid_list) (table + i);
          if present then can_register_loop H canid_list current table (Suc i) n
          else do { l \<leftarrow> canid_last H current;
                    node \<leftarrow> H l;
                    can_register_loop (H(l \<mapsto> node\<lparr>ct_next := Some (table + i)\<rparr>))
                      canid_list l table (Suc i) n } }"

definition sdk_can_register ::
    "'h can_heap \<Rightarrow> sdk_can \<Rightarrow> addr \<Rightarrow> addr \<Rightarrow> nat \<Rightarrow> ('h can_heap \<times> sdk_can) option" where
  "sdk_can_register H c can_dev table table_sz =
     do { H1 \<leftarrow> can_register_loop H (ca_canid_list c) (ca_canid_list c) table 0 table_sz;
          Some (H1, c\<lparr>ca_can_dev := can_dev\<rparr>) }"

section \<open>The message queue is an overwriting queue\<close>

lemma can_mq_len [simp]: "2 \<le> SDK_CAN_RX_MQ_LEN" "SDK_CAN_RX_MQ_LEN - Suc 0 = 31"
  by (simp_all add: SDK_CAN_RX_MQ_LEN_def)

interpretation canq: overwriting_queue "fifo_pop SDK_CAN_RX_MQ_LEN :: sdk_can_msg rx_fifo \<Rightarrow> _"
  "fifo_view SDK_CAN_RX_MQ_LEN" "fifo_inv SDK_CAN_RX_MQ_LEN"
  "\<lambda>_. SDK_CAN_RX_MQ_LEN - 1" "fifo_push SDK_CAN_RX_MQ_LEN"
  by (rule fifo_overwriting_queue) simp

section \<open>Lists in the heap\<close>

text \<open>The nodes of the list that starts at a pointer, up to \<open>NULL\<close>.\<close>

fun canid_path :: "'h can_heap \<Rightarrow> addr option \<Rightarrow> addr list \<Rightarrow> bool" where
  "canid_path H p [] \<longleftrightarrow> p = None"
| "canid_path H p (a # as) \<longleftrightarrow> p = Some a \<and> (\<exists>n. H a = Some n \<and> canid_path H (ct_next n) as)"

lemma canid_find_path:
  "canid_path H p as \<Longrightarrow>
     canid_find H p k = Some (find (\<lambda>a. ct_canid (the (H a)) = k) as)"
  by (induction as arbitrary: p) (subst canid_find.simps, auto)+

lemma canid_mem_path: "canid_path H p as \<Longrightarrow> canid_mem H p a = Some (a \<in> set as)"
  by (induction as arbitrary: p) (subst canid_mem.simps, auto)+

lemma canid_last_path: "canid_path H (Some a) (a # as) \<Longrightarrow> canid_last H a = Some (last (a # as))"
proof (induction as arbitrary: a)
  case Nil
  then show ?case by (subst canid_last.simps) auto
next
  case (Cons b as)
  then obtain n where n: "H a = Some n" "ct_next n = Some b" "canid_path H (Some b) (b # as)" by auto
  then show ?case using Cons.IH [OF n(3)] by (subst canid_last.simps) auto
qed

text \<open>Updating a node outside the list changes nothing; linking a fresh node appends it.\<close>

lemma canid_path_upd: "a \<notin> set as \<Longrightarrow> canid_path (H(a \<mapsto> n)) p as = canid_path H p as"
  by (induction as arbitrary: p) auto

lemma canid_path_snoc:
  "canid_path H p as \<Longrightarrow> as \<noteq> [] \<Longrightarrow> distinct as \<Longrightarrow> b \<notin> set as \<Longrightarrow> H b = Some m \<Longrightarrow>
     ct_next m = None \<Longrightarrow> H (last as) = Some n \<Longrightarrow>
     canid_path (H(last as \<mapsto> n\<lparr>ct_next := Some b\<rparr>)) p (as @ [b])"
proof (induction as arbitrary: p)
  case (Cons a as)
  then show ?case
  proof (cases "as = []")
    case False
    then have "last as \<in> set as" by simp
    with Cons False show ?thesis by auto
  qed auto
qed simp

lemma canid_path_node: "canid_path H p as \<Longrightarrow> a \<in> set as \<Longrightarrow> \<exists>n. H a = Some n"
  by (induction as arbitrary: p) auto

text \<open>The end of the list is found from any of its nodes.\<close>

lemma canid_path_suffix: "canid_path H p (as @ a # bs) \<Longrightarrow> canid_path H (Some a) (a # bs)"
  by (induction as arbitrary: p) auto

lemma canid_last_member:
  assumes "canid_path H p as" and "a \<in> set as"
  shows "canid_last H a = Some (last as)"
proof -
  from assms(2) obtain xs ys where "as = xs @ a # ys" by (meson split_list)
  with canid_last_path [of H a ys] canid_path_suffix [of H p xs a ys] assms(1)
  show ?thesis by simp
qed

text \<open>What a node says, apart from its link.\<close>

definition same_entries :: "'h can_heap \<Rightarrow> 'h can_heap \<Rightarrow> bool" where
  "same_entries H H1 \<longleftrightarrow> (\<forall>a. map_option (\<lambda>n. (ct_canid n, ct_msg_handler n)) (H1 a)
     = map_option (\<lambda>n. (ct_canid n, ct_msg_handler n)) (H a))"

lemma same_entries_refl: "same_entries H H"
  by (simp add: same_entries_def)

lemma same_entries_link:
  assumes "H l = Some node" and "same_entries (H(l \<mapsto> node\<lparr>ct_next := q\<rparr>)) H1"
  shows "same_entries H H1"
  using assms by (simp add: same_entries_def)

lemma same_entries_back:
  assumes "same_entries H H1" and "H1 a = Some n1"
  shows "ct_canid (the (H a)) = ct_canid n1" and "ct_msg_handler (the (H a)) = ct_msg_handler n1"
proof -
  have "map_option (\<lambda>n. (ct_canid n, ct_msg_handler n)) (H a) = Some (ct_canid n1, ct_msg_handler n1)"
    using spec [OF assms(1) [unfolded same_entries_def], of a] unfolding assms(2) by simp
  then show "ct_canid (the (H a)) = ct_canid n1" and "ct_msg_handler (the (H a)) = ct_msg_handler n1"
    by auto
qed

lemma can_register_loop_list:
  "canid_path H (Some hd_addr) L \<Longrightarrow> distinct L \<Longrightarrow> current \<in> set L \<Longrightarrow>
     (\<And>j. j < n \<Longrightarrow> \<exists>m. H (table + i + j) = Some m
        \<and> (table + i + j \<notin> set L \<longrightarrow> ct_next m = None)) \<Longrightarrow>
     \<exists>H1. can_register_loop H hd_addr current table i n = Some H1
       \<and> canid_path H1 (Some hd_addr) (L @ filter (\<lambda>a. a \<notin> set L) [table + i..<table + i + n])
       \<and> same_entries H H1"
proof (induction n arbitrary: H current i L)
  case 0
  then show ?case by (simp add: same_entries_refl)
next
  case (Suc n)
  let ?a = "table + i"
  have upt: "[?a..<?a + Suc n] = ?a # [table + Suc i..<table + Suc i + n]"
    by (simp add: upt_conv_Cons del: upt_Suc)
  have rest: "\<exists>m. H (table + Suc i + j) = Some m
      \<and> (table + Suc i + j \<notin> set L \<longrightarrow> ct_next m = None)" if "j < n" for j
    using Suc.prems(4) [of "Suc j"] that by simp
  show ?case
  proof (cases "?a \<in> set L")
    case True
    then have "filter (\<lambda>a. a \<notin> set L) [?a..<?a + Suc n]
        = filter (\<lambda>a. a \<notin> set L) [table + Suc i..<table + Suc i + n]"
      unfolding upt by simp
    moreover obtain H1 where "can_register_loop H hd_addr current table (Suc i) n = Some H1"
      "canid_path H1 (Some hd_addr) (L @ filter (\<lambda>a. a \<notin> set L) [table + Suc i..<table + Suc i + n])"
      "same_entries H H1"
      using Suc.IH [OF Suc.prems(1-3), of "Suc i"] rest by blast
    ultimately show ?thesis
      using True by (simp add: canid_mem_path [OF Suc.prems(1)] del: upt_Suc)
  next
    case False
    let ?l = "last L"
    have ne: "L \<noteq> []" using Suc.prems(3) by auto
    obtain node where node: "H ?l = Some node"
      using canid_path_node [OF Suc.prems(1)] ne last_in_set by blast
    obtain m where m: "H ?a = Some m" "ct_next m = None" using Suc.prems(4) [of 0] False by auto
    let ?H1 = "H(?l \<mapsto> node\<lparr>ct_next := Some ?a\<rparr>)"
    have path1: "canid_path ?H1 (Some hd_addr) (L @ [?a])"
      by (rule canid_path_snoc [OF Suc.prems(1) ne Suc.prems(2) False m node])
    have rest1: "\<exists>m. ?H1 (table + Suc i + j) = Some m
        \<and> (table + Suc i + j \<notin> set (L @ [?a]) \<longrightarrow> ct_next m = None)" if "j < n" for j
      using rest [OF that] ne by auto
    have "distinct (L @ [?a])" and "?l \<in> set (L @ [?a])" using Suc.prems(2) False ne by simp_all
    from Suc.IH [OF path1 this rest1] obtain H2 where H2: "can_register_loop ?H1 hd_addr ?l table (Suc i) n = Some H2"
      "canid_path H2 (Some hd_addr)
         ((L @ [?a]) @ filter (\<lambda>a. a \<notin> set (L @ [?a])) [table + Suc i..<table + Suc i + n])"
      "same_entries ?H1 H2"
      by blast
    have "filter (\<lambda>a. a \<notin> set (L @ [?a])) [table + Suc i..<table + Suc i + n]
        = filter (\<lambda>a. a \<notin> set L) [table + Suc i..<table + Suc i + n]"
      by (rule filter_cong) auto
    moreover have "filter (\<lambda>a. a \<notin> set L) [?a..<?a + Suc n]
        = ?a # filter (\<lambda>a. a \<notin> set L) [table + Suc i..<table + Suc i + n]"
      using False unfolding upt by simp
    ultimately have "canid_path H2 (Some hd_addr) (L @ filter (\<lambda>a. a \<notin> set L) [?a..<?a + Suc n])"
      using H2(2) by (simp del: upt_Suc)
    moreover have "can_register_loop H hd_addr current table i (Suc n) = Some H2"
      using H2(1) False node canid_last_member [OF Suc.prems(1,3)]
      by (simp add: canid_mem_path [OF Suc.prems(1)])
    ultimately show ?thesis using same_entries_link [OF node H2(3)] by blast
  qed
qed

text \<open>Registering a table whose entries are all linked changes nothing.\<close>

lemma can_register_loop_same:
  "canid_path H (Some hd_addr) L \<Longrightarrow> set [table + i..<table + i + n] \<subseteq> set L \<Longrightarrow>
     can_register_loop H hd_addr current table i n = Some H"
proof (induction n arbitrary: i)
  case (Suc n)
  have "table + i \<in> set [table + i..<table + i + Suc n]"
    "set [table + Suc i..<table + Suc i + n] \<subseteq> set [table + i..<table + i + Suc n]" by auto
  then have "table + i \<in> set L" "set [table + Suc i..<table + Suc i + n] \<subseteq> set L"
    using Suc.prems(2) by (blast, blast)
  with Suc.IH [OF Suc.prems(1), of "Suc i"] show ?case by (simp add: canid_mem_path [OF Suc.prems(1)])
qed simp

lemma find_same_entries:
  assumes "same_entries H H1" and "canid_path H1 p as"
  shows "find (\<lambda>a. ct_canid (the (H1 a)) = k) as = find (\<lambda>a. ct_canid (the (H a)) = k) as"
proof (rule find_cong)
  fix a assume "a \<in> set as"
  with canid_path_node [OF assms(2)] obtain n where "H1 a = Some n" by blast
  with same_entries_back [OF assms(1)] show "(ct_canid (the (H1 a)) = k) = (ct_canid (the (H a)) = k)"
    by simp
qed simp

text \<open>The effect the dispatch has on the application, read off the list of registered nodes.\<close>

definition dispatch_effect :: "'h can_heap \<Rightarrow> addr list \<Rightarrow> addr \<Rightarrow> sdk_can_msg \<Rightarrow> 'h \<Rightarrow> 'h" where
  "dispatch_effect H as dev m h =
     (case find (\<lambda>a. ct_canid (the (H a)) = ucast (cm_canid m)) as of
        None \<Rightarrow> h
      | Some a \<Rightarrow> (case ct_msg_handler (the (H a)) of None \<Rightarrow> h | Some f \<Rightarrow> snd (f dev m h)))"

lemma msg_parse_effect:
  assumes "canid_path H1 (Some (ca_canid_list c)) (ca_canid_list c # as)" and "same_entries H H1"
  shows "map_option snd (sdk_can_msg_parse H1 c m h) = Some (dispatch_effect H as (ca_can_dev c) m h)"
proof -
  obtain n where n: "H1 (ca_canid_list c) = Some n" "canid_path H1 (ct_next n) as"
    using assms(1) by auto
  have fd: "get_canid_table_obj H1 c k = Some (find (\<lambda>a. ct_canid (the (H a)) = k) as)" for k
    using n canid_find_path [OF n(2)] find_same_entries [OF assms(2) n(2)]
    by (simp add: get_canid_table_obj_def)
  show ?thesis
  proof (cases "find (\<lambda>a. ct_canid (the (H a)) = ucast (cm_canid m)) as")
    case None
    then show ?thesis by (simp add: sdk_can_msg_parse_def fd dispatch_effect_def)
  next
    case (Some a)
    then have "a \<in> set as" by (auto simp: find_Some_iff)
    then obtain n1 where n1: "H1 a = Some n1" using canid_path_node [OF n(2)] by blast
    then have "ct_msg_handler (the (H a)) = ct_msg_handler n1"
      using same_entries_back [OF assms(2)] by simp
    with Some n1 show ?thesis
      by (auto simp: sdk_can_msg_parse_def fd dispatch_effect_def split: option.splits)
  qed
qed

section \<open>Properties\<close>

text \<open>
  Registration: on a well-formed list, whose nodes are \<open>as\<close> behind the head, registering a table
  of fresh or already linked entries ends, keeps the list well formed, appends exactly the entries
  that are not on it yet, in table order, changes no identifier and no handler, and registering the
  same table once more changes nothing.
\<close>

theorem can_register_appends:
  assumes "canid_path H (Some (ca_canid_list c)) (ca_canid_list c # as)"
    and "distinct (ca_canid_list c # as)"
    and "\<And>j. j < n \<Longrightarrow> \<exists>m. H (table + j) = Some m
      \<and> (table + j \<notin> set (ca_canid_list c # as) \<longrightarrow> ct_next m = None)"
  shows "\<exists>H1. sdk_can_register H c dev table n = Some (H1, c\<lparr>ca_can_dev := dev\<rparr>)
    \<and> canid_path H1 (Some (ca_canid_list c)) (ca_canid_list c # as
        @ filter (\<lambda>a. a \<notin> set (ca_canid_list c # as)) [table..<table + n])
    \<and> same_entries H H1
    \<and> sdk_can_register H1 c dev table n = Some (H1, c\<lparr>ca_can_dev := dev\<rparr>)"
proof -
  let ?L = "ca_canid_list c # as"
  let ?L1 = "?L @ filter (\<lambda>a. a \<notin> set ?L) [table..<table + n]"
  obtain H1 where H1: "can_register_loop H (ca_canid_list c) (ca_canid_list c) table 0 n = Some H1"
    "canid_path H1 (Some (ca_canid_list c)) ?L1" "same_entries H H1"
    using can_register_loop_list [OF assms(1,2), of "ca_canid_list c" n table 0] assms(3)
    by fastforce
  have "set [table + 0..<table + 0 + n] \<subseteq> set ?L1" by auto
  with can_register_loop_same [OF H1(2)]
  have "can_register_loop H1 (ca_canid_list c) (ca_canid_list c) table 0 n = Some H1" by blast
  with H1 show ?thesis by (intro exI [of _ H1]) (simp add: sdk_can_register_def)
qed

text \<open>A small registration: the head at 0 and a table of two entries at 10.\<close>

definition demo_heap :: "nat can_heap" where
  "demo_heap = [0 \<mapsto> \<lparr>ct_canid = 0, ct_msg_handler = None, ct_next = None\<rparr>,
     10 \<mapsto> \<lparr>ct_canid = 5, ct_msg_handler = Some (\<lambda>dev m h. (0, h + 1)), ct_next = None\<rparr>,
     11 \<mapsto> \<lparr>ct_canid = 6, ct_msg_handler = None, ct_next = None\<rparr>]"

definition demo_can :: "sdk_can_msg list \<Rightarrow> sdk_can" where
  "demo_can ms = \<lparr>ca_state = CAN_READY, ca_rx_mq = \<lparr>ff_buffer = ms @ replicate (32 - length ms) zero_can_msg,
     ff_put_index = word_of_nat (length ms), ff_get_index = 0, ff_is_full = False\<rparr>,
     ca_canid_list = 0, ca_can_dev = 0\<rparr>"

theorem can_register_appends_witness:
  "\<exists>H1. sdk_can_register demo_heap (demo_can []) 77 10 2 = Some (H1, (demo_can [])\<lparr>ca_can_dev := 77\<rparr>)
    \<and> canid_path H1 (Some 0) [0, 10, 11]"
proof -
  have hd0: "ca_canid_list (demo_can []) = 0" by (simp add: demo_can_def)
  have "canid_path demo_heap (Some (ca_canid_list (demo_can []))) [ca_canid_list (demo_can [])]"
    and "distinct [ca_canid_list (demo_can [])]"
    by (simp_all add: hd0) (simp add: demo_heap_def)
  moreover have "\<exists>m. demo_heap (10 + j) = Some m
      \<and> (10 + j \<notin> set [ca_canid_list (demo_can [])] \<longrightarrow> ct_next m = None)" if "j < 2" for j
    using that by (cases j) (auto simp: demo_heap_def less_Suc_eq)
  ultimately obtain H1 where H1: "sdk_can_register demo_heap (demo_can []) 77 10 2
      = Some (H1, (demo_can [])\<lparr>ca_can_dev := 77\<rparr>)"
    "canid_path H1 (Some 0) (0 # [] @ filter (\<lambda>a. a \<notin> set [0]) [10..<10 + 2])"
    using can_register_appends [of demo_heap "demo_can []" "[]" 2 10 77] unfolding hd0 by blast
  have "filter (\<lambda>a. a \<notin> set [0]) [10..<10 + 2] = [10, 11 :: nat]" by (simp add: upt_rec)
  then show ?thesis using H1 by auto
qed

text \<open>
  Dispatch: a poll takes the oldest queued message and runs the handler of the first registered
  entry with the message's identifier, once, on the registered device; without such an entry nothing
  runs. An empty queue is left alone.
\<close>

theorem can_poll_dispatches_oldest:
  assumes "canid_path H (Some (ca_canid_list c)) (ca_canid_list c # as)"
    and "fifo_inv SDK_CAN_RX_MQ_LEN (ca_rx_mq c)"
  shows "\<exists>f. fifo_inv SDK_CAN_RX_MQ_LEN f \<and> sdk_can_recv_poll H (c, h) =
    (case fifo_view SDK_CAN_RX_MQ_LEN (ca_rx_mq c) of
       [] \<Rightarrow> Some (0, (c, h))
     | m # ms \<Rightarrow> Some (1, (c\<lparr>ca_rx_mq := f\<rparr>, dispatch_effect H as (ca_can_dev c) m h)))
    \<and> fifo_view SDK_CAN_RX_MQ_LEN f = tl (fifo_view SDK_CAN_RX_MQ_LEN (ca_rx_mq c))"
proof (cases "fifo_view SDK_CAN_RX_MQ_LEN (ca_rx_mq c)")
  case Nil
  then show ?thesis
    using canq.deq_Nil [OF assms(2)] assms(2)
    by (intro exI [of _ "ca_rx_mq c"]) (simp add: sdk_can_recv_poll_def sdk_can_read_def)
next
  case (Cons m ms)
  obtain f where f: "fifo_pop SDK_CAN_RX_MQ_LEN (ca_rx_mq c) = Some (Some m, f)"
    "fifo_inv SDK_CAN_RX_MQ_LEN f" "fifo_view SDK_CAN_RX_MQ_LEN f = ms"
    using canq.deq_Cons [OF assms(2) Cons] by blast
  have "canid_path H (Some (ca_canid_list (c\<lparr>ca_rx_mq := f\<rparr>))) (ca_canid_list (c\<lparr>ca_rx_mq := f\<rparr>) # as)"
    using assms(1) by simp
  from msg_parse_effect [OF this same_entries_refl, of m h] obtain r where
    "sdk_can_msg_parse H (c\<lparr>ca_rx_mq := f\<rparr>) m h = Some (r, dispatch_effect H as (ca_can_dev c) m h)"
    by auto
  with f Cons show ?thesis
    by (intro exI [of _ f]) (simp add: sdk_can_recv_poll_def sdk_can_read_def word_sless_alt)
qed

theorem can_poll_dispatches_oldest_witness:
  "\<exists>c1. sdk_can_recv_poll (demo_heap(0 \<mapsto> \<lparr>ct_canid = 0, ct_msg_handler = None, ct_next = Some 10\<rparr>))
      (demo_can [zero_can_msg\<lparr>cm_canid := 5\<rparr>], 100) = Some (1, (c1, 101))"
proof -
  let ?H = "demo_heap(0 \<mapsto> \<lparr>ct_canid = 0, ct_msg_handler = None, ct_next = Some 10\<rparr>)"
  let ?m = "zero_can_msg\<lparr>cm_canid := 5\<rparr>"
  have path: "canid_path ?H (Some (ca_canid_list (demo_can [?m]))) [ca_canid_list (demo_can [?m]), 10]"
    by (simp add: demo_heap_def demo_can_def)
  have inv: "fifo_inv SDK_CAN_RX_MQ_LEN (ca_rx_mq (demo_can [?m]))"
    by (simp add: fifo_inv_def demo_can_def SDK_CAN_RX_MQ_LEN_def)
  have view: "fifo_view SDK_CAN_RX_MQ_LEN (ca_rx_mq (demo_can [?m])) = [?m]"
    by (simp add: fifo_view_def fifo_len_def demo_can_def SDK_CAN_RX_MQ_LEN_def window_def)
  have eff: "dispatch_effect ?H [10] (ca_can_dev (demo_can [?m])) ?m 100 = 101"
    by (simp add: dispatch_effect_def demo_heap_def)
  show ?thesis
    using can_poll_dispatches_oldest [OF path inv, of 100] unfolding view by (auto simp: eff)
qed

end
