(* ===== verification/Ble.thy ===== *)
theory Ble
  imports Rx_Fifo "HOL-Library.Signed_Division"
begin

text \<open>
  src/src/components/unibus/unibus_backend_ble.c, lines 33 to 328 and 530 to 560: the byte transport of
  the Bluetooth backend, a receive FIFO fed by writes to a GATT characteristic and notifications of at
  most 20 bytes for sending, and the connection. The Bluetooth stack is not part of the SDK: its
  functions and the error values of its macros are arguments. The framing of the same file is in the theory Bus_Frame.
\<close>

section \<open>State and operations\<close>

definition SDK_BLE_RX_FIFO_LEN :: nat where
  "SDK_BLE_RX_FIFO_LEN = 512"

definition TRX_MAX_LEN :: nat where
  "TRX_MAX_LEN = 20"

record ble_transport =
  bl_rx_fifo :: "u8 rx_fifo"
  bl_c2s_value :: "u8 list"
  bl_simulate :: u8

definition ble_getc :: "u8 \<Rightarrow> ble_transport \<Rightarrow> ble_transport option" where
  "ble_getc ch b =
     do { f \<leftarrow> fifo_push SDK_BLE_RX_FIFO_LEN ch (bl_rx_fifo b); Some (b\<lparr>bl_rx_fifo := f\<rparr>) }"

definition ble_read :: "ble_transport \<Rightarrow> u8 list \<Rightarrow> nat \<Rightarrow> u32 \<Rightarrow> (s32 \<times> u8 list \<times> ble_transport) option" where
  "ble_read b data i len =
     do { (k, data1, f) \<leftarrow> fifo_read SDK_BLE_RX_FIFO_LEN (bl_rx_fifo b) data i (unat len);
          Some (word_of_nat k, data1, b\<lparr>bl_rx_fifo := f\<rparr>) }"

text \<open>\<open>for (i = 0; i < len; i++) ble_getc(value[i])\<close>, with \<open>n\<close> rounds left.\<close>

fun ble_getc_loop :: "u8 list \<Rightarrow> nat \<Rightarrow> nat \<Rightarrow> ble_transport \<Rightarrow> ble_transport option" where
  "ble_getc_loop v i 0 b = Some b"
| "ble_getc_loop v i (Suc n) b =
     do { c \<leftarrow> load v i; b1 \<leftarrow> ble_getc c b; ble_getc_loop v (Suc i) n b1 }"

definition write_trx_c2s ::
    "s32 \<Rightarrow> u8 list \<Rightarrow> u16 \<Rightarrow> u16 \<Rightarrow> ble_transport \<Rightarrow> (s32 \<times> ble_transport) option" where
  "write_trx_c2s invalid_offset buf len offset b =
     (if TRX_MAX_LEN < unat offset + unat len then Some (invalid_offset, b)
      else do {
        v \<leftarrow> copy_bytes (bl_c2s_value b) (unat offset) buf 0 (unat len);
        v1 \<leftarrow> store v (unat offset + unat len) 0;
        b1 \<leftarrow> ble_getc_loop v1 0 (unat len) (b\<lparr>bl_c2s_value := v1\<rparr>);
        Some (ucast len, b1) })"

definition trx_s2c_ccc_cfg_changed :: "u16 \<Rightarrow> u16 \<Rightarrow> ble_transport \<Rightarrow> ble_transport" where
  "trx_s2c_ccc_cfg_changed ccc_notify v b = b\<lparr>bl_simulate := (if v = ccc_notify then 1 else 0)\<rparr>"

fun trx_notify_loop ::
    "(u8 list \<Rightarrow> 'h \<Rightarrow> 'h) \<Rightarrow> ble_transport \<Rightarrow> u8 list \<Rightarrow> nat \<Rightarrow> nat \<Rightarrow> 'h \<Rightarrow> 'h option" where
  "trx_notify_loop notify b pbuff i 0 h = Some h"
| "trx_notify_loop notify b pbuff i (Suc n) h =
     (if bl_simulate b \<noteq> 0
      then do { bs \<leftarrow> read_bytes pbuff (i * 20) 20;
                trx_notify_loop notify b pbuff (Suc i) n (notify bs h) }
      else trx_notify_loop notify b pbuff (Suc i) n h)"

definition trx_notify ::
    "(u8 list \<Rightarrow> 'h \<Rightarrow> 'h) \<Rightarrow> ble_transport \<Rightarrow> u8 list \<Rightarrow> s32 \<Rightarrow> 'h \<Rightarrow> (s32 \<times> 'h) option" where
  "trx_notify notify b pbuff len h =
     (let block_num = sint len sdiv 20; bytes_remain = sint len smod 20
      in do {
        h1 \<leftarrow> trx_notify_loop notify b pbuff 0 (nat block_num) h;
        h2 \<leftarrow> (if 0 < bytes_remain \<and> bl_simulate b \<noteq> 0
               then do { bs \<leftarrow> read_bytes pbuff (nat (block_num * 20)) (nat bytes_remain);
                         Some (notify bs h1) }
               else Some h1);
        Some (len, h2) })"

definition unibus_ble_write ::
    "(u8 list \<Rightarrow> 'h \<Rightarrow> 'h) \<Rightarrow> ble_transport \<Rightarrow> u8 list \<Rightarrow> s32 \<Rightarrow> 'h \<Rightarrow> (s32 \<times> 'h) option" where
  "unibus_ble_write notify b pbuff len h = trx_notify notify b pbuff len h"

section \<open>The receive side\<close>

lemma ble_fifo_len [simp]: "2 \<le> SDK_BLE_RX_FIFO_LEN" "SDK_BLE_RX_FIFO_LEN - Suc 0 = 511"
  by (simp_all add: SDK_BLE_RX_FIFO_LEN_def)

interpretation bleq: overwriting_queue "fifo_pop SDK_BLE_RX_FIFO_LEN :: u8 rx_fifo \<Rightarrow> _"
  "fifo_view SDK_BLE_RX_FIFO_LEN" "fifo_inv SDK_BLE_RX_FIFO_LEN"
  "\<lambda>_. SDK_BLE_RX_FIFO_LEN - 1" "fifo_push SDK_BLE_RX_FIFO_LEN"
  by (rule fifo_overwriting_queue) simp

lemma ble_getc_loop_push_list:
  "i + n \<le> length v \<Longrightarrow> ble_getc_loop v i n b =
     map_option (\<lambda>f. b\<lparr>bl_rx_fifo := f\<rparr>)
       (push_list (fifo_push SDK_BLE_RX_FIFO_LEN) (take n (drop i v)) (bl_rx_fifo b))"
proof (induction n arbitrary: i b)
  case (Suc n)
  then have "take (Suc n) (drop i v) = v ! i # take n (drop (Suc i) v)"
    by (simp add: Cons_nth_drop_Suc [symmetric])
  with Suc show ?case
    by (auto simp: mem_simps ble_getc_def map_option_case split: option.splits bind_splits)
qed simp

section \<open>The sending side\<close>

lemma nonneg_sdiv_smod:
  fixes k :: int
  assumes "0 \<le> k"
  shows "k sdiv 20 = k div 20" and "k smod 20 = k mod 20"
  using assms by (simp_all add: signed_divide_int_def signed_modulo_int_def
      sgn_if minus_div_mult_eq_mod)

lemma trx_notify_loop_chunks:
  "bl_simulate b \<noteq> 0 \<Longrightarrow> (i + n) * 20 \<le> length pbuff \<Longrightarrow>
     \<exists>chunks. trx_notify_loop notify b pbuff i n h = Some (fold notify chunks h)
       \<and> concat chunks = take (n * 20) (drop (i * 20) pbuff)
       \<and> (\<forall>c \<in> set chunks. length c = 20)"
proof (induction n arbitrary: i h)
  case (Suc n)
  let ?bs = "take 20 (drop (i * 20) pbuff)"
  obtain cs where "trx_notify_loop notify b pbuff (Suc i) n (notify ?bs h)
      = Some (fold notify cs (notify ?bs h))"
    "concat cs = take (n * 20) (drop (Suc i * 20) pbuff)" "\<forall>c \<in> set cs. length c = 20"
    using Suc.IH [of "Suc i" "notify ?bs h"] Suc.prems by fastforce
  moreover have "take (Suc n * 20) (drop (i * 20) pbuff)
      = ?bs @ take (n * 20) (drop (Suc i * 20) pbuff)"
    by (simp add: take_add [of 20 "n * 20"] add.commute)
  ultimately show ?case
    using Suc.prems by (intro exI [of _ "?bs # cs"]) (simp add: mem_simps)
qed (auto intro: exI [of _ "[]"])

section \<open>Properties\<close>

text \<open>
  A write to the characteristic that does not fit is refused and changes nothing; one that fits
  puts the first \<open>len\<close> bytes of the characteristic's value into the FIFO. With offset 0 these
  are the bytes that were written. With an offset they are the first bytes of the value, not the
  bytes that were written behind the offset.
\<close>

theorem ble_write_feeds_fifo:
  assumes "fifo_inv SDK_BLE_RX_FIFO_LEN (bl_rx_fifo b)" and "length (bl_c2s_value b) = 21"
    and "unat len \<le> length buf"
  shows "if 20 < unat offset + unat len then write_trx_c2s e buf len offset b = Some (e, b)
    else \<exists>b1. write_trx_c2s e buf len offset b = Some (ucast len, b1)
      \<and> fifo_inv SDK_BLE_RX_FIFO_LEN (bl_rx_fifo b1) \<and> length (bl_c2s_value b1) = 21
      \<and> bl_simulate b1 = bl_simulate b
      \<and> fifo_view SDK_BLE_RX_FIFO_LEN (bl_rx_fifo b1) = lastn 511
          (fifo_view SDK_BLE_RX_FIFO_LEN (bl_rx_fifo b)
            @ take (unat len) (take (unat offset) (bl_c2s_value b) @ take (unat len) buf))"
proof (cases "20 < unat offset + unat len")
  case True
  then show ?thesis by (simp add: write_trx_c2s_def TRX_MAX_LEN_def)
next
  case False
  let ?o = "unat offset" and ?l = "unat len"
  let ?v = "take ?o (bl_c2s_value b) @ take ?l buf @ drop (?o + ?l) (bl_c2s_value b)"
  let ?v1 = "?v[?o + ?l := 0]"
  have copy: "copy_bytes (bl_c2s_value b) ?o buf 0 ?l = Some ?v"
    using assms(2,3) False copy_bytes_in [of 0 ?l buf ?o "bl_c2s_value b"] by simp
  have lv: "length ?v = 21" using assms(2,3) False by simp
  have st: "store ?v (?o + ?l) 0 = Some ?v1" using lv False by (simp add: store_in)
  have tk: "take ?l (drop 0 ?v1) = take ?l (take ?o (bl_c2s_value b) @ take ?l buf)"
    using assms(2,3) False by (simp add: take_update_swap list_update_beyond)
  obtain f where f: "push_list (fifo_push SDK_BLE_RX_FIFO_LEN) (take ?l (drop 0 ?v1)) (bl_rx_fifo b) = Some f"
    "fifo_inv SDK_BLE_RX_FIFO_LEN f"
    "fifo_view SDK_BLE_RX_FIFO_LEN f
      = lastn 511 (fifo_view SDK_BLE_RX_FIFO_LEN (bl_rx_fifo b) @ take ?l (drop 0 ?v1))"
    using bleq.push_list_lastn [OF assms(1), of "take ?l (drop 0 ?v1)"] by auto
  have "0 + ?l \<le> length ?v1" using lv False by simp
  note loop = ble_getc_loop_push_list [OF this, of "b\<lparr>bl_c2s_value := ?v1\<rparr>"]
  have "write_trx_c2s e buf len offset b = Some (ucast len, b\<lparr>bl_c2s_value := ?v1, bl_rx_fifo := f\<rparr>)"
    using False copy st loop f(1) by (simp add: write_trx_c2s_def TRX_MAX_LEN_def)
  then show ?thesis using False f(2,3) lv unfolding tk by auto
qed

definition fresh_ble :: ble_transport where
  "fresh_ble = \<lparr>bl_rx_fifo = \<lparr>ff_buffer = replicate 512 0, ff_put_index = 0, ff_get_index = 0,
     ff_is_full = False\<rparr>, bl_c2s_value = [84, 82, 88, 95, 67, 50, 83] @ replicate 14 0, bl_simulate = 1\<rparr>"

theorem ble_write_feeds_fifo_witness:
  "\<exists>b1. write_trx_c2s (- 7) [1, 2] 2 2 fresh_ble = Some (2, b1)
     \<and> fifo_view SDK_BLE_RX_FIFO_LEN (bl_rx_fifo b1) = [84, 82]"
proof -
  have "fifo_inv SDK_BLE_RX_FIFO_LEN (bl_rx_fifo fresh_ble)
      \<and> fifo_view SDK_BLE_RX_FIFO_LEN (bl_rx_fifo fresh_ble) = []"
    using fifo_inv_zero [of 512 "replicate 512 (0 :: u8)"]
    by (simp add: fresh_ble_def SDK_BLE_RX_FIFO_LEN_def)
  moreover have "length (bl_c2s_value fresh_ble) = 21" by (simp add: fresh_ble_def)
  ultimately show ?thesis
    using ble_write_feeds_fifo [of fresh_ble 2 "[1, 2]" 2 "- 7"] by (simp add: fresh_ble_def) blast
qed

text \<open>
  Sending over Bluetooth: with notifications enabled the message goes out as a sequence of
  notifications of 1 to 20 bytes whose concatenation is the message, nothing outside
  the message is read, and the length is returned; with notifications disabled nothing is sent.
\<close>

theorem ble_notify_chunks:
  assumes "0 \<le> sint len" and "nat (sint len) \<le> length pbuff"
  shows "\<exists>chunks. unibus_ble_write notify b pbuff len h = Some (len, fold notify chunks h)
    \<and> concat chunks = (if bl_simulate b \<noteq> 0 then take (nat (sint len)) pbuff else [])
    \<and> (\<forall>c \<in> set chunks. 1 \<le> length c \<and> length c \<le> 20)"
proof (cases "bl_simulate b = 0")
  case True
  then have "trx_notify_loop notify b pbuff i n h = Some h" for i n
    by (induction n arbitrary: i) simp_all
  with True show ?thesis
    by (intro exI [of _ "[]"]) (simp add: unibus_ble_write_def trx_notify_def Let_def)
next
  case False
  let ?l = "nat (sint len)"
  have k: "nat (sint len sdiv 20) = ?l div 20" "nat (sint len smod 20) = ?l mod 20"
    "nat (sint len sdiv 20 * 20) = ?l div 20 * 20"
    "0 < sint len smod 20 \<longleftrightarrow> 0 < ?l mod 20"
  proof -
    obtain m where m: "sint len = int m" using assms(1) by (metis nonneg_int_cases)
    then show "nat (sint len sdiv 20) = ?l div 20" "nat (sint len smod 20) = ?l mod 20"
      "nat (sint len sdiv 20 * 20) = ?l div 20 * 20"
      by (simp_all add: nonneg_sdiv_smod nat_div_distrib nat_mod_distrib nat_mult_distrib)
    from m show "0 < sint len smod 20 \<longleftrightarrow> 0 < ?l mod 20"
      by (simp add: nonneg_sdiv_smod) presburger
  qed
  have len: "?l div 20 * 20 + ?l mod 20 = ?l" by simp
  have "(0 + ?l div 20) * 20 \<le> length pbuff" 
    unfolding add_0 using div_times_less_eq_dividend [of ?l 20] assms(2) by (rule le_trans)
  then obtain cs where cs: "trx_notify_loop notify b pbuff 0 (?l div 20) h = Some (fold notify cs h)"
    "concat cs = take (?l div 20 * 20) pbuff" "\<forall>c \<in> set cs. length c = 20"
    using trx_notify_loop_chunks [OF False, of 0 "?l div 20" pbuff notify h] by auto
  let ?last = "take (?l mod 20) (drop (?l div 20 * 20) pbuff)"
  have all: "take (?l div 20 * 20) pbuff @ ?last = take ?l pbuff"
    using take_add [of "?l div 20 * 20" "?l mod 20" pbuff] by simp
  show ?thesis
  proof (cases "?l mod 20 = 0")
    case True
    with cs all False show ?thesis
      by (intro exI [of _ cs]) (auto simp: unibus_ble_write_def trx_notify_def Let_def k)
  next
    case nz: False
    have rd: "read_bytes pbuff (?l div 20 * 20) (?l mod 20) = Some ?last"
      using len assms(2) by (intro read_bytes_in) simp
    have "?l mod 20 \<le> length pbuff - ?l div 20 * 20"
      using assms(2) len by (metis add.commute add_le_imp_le_diff)
    then have "length ?last = ?l mod 20" by simp
    then have "1 \<le> length ?last" "length ?last \<le> 20" using nz by simp_all
    moreover have "unibus_ble_write notify b pbuff len h = Some (len, fold notify (cs @ [?last]) h)"
      using cs(1) False nz rd by (simp add: unibus_ble_write_def trx_notify_def Let_def k)
    moreover have "concat (cs @ [?last]) = take ?l pbuff" using cs(2) all by simp
    moreover have "\<forall>c \<in> set cs. 1 \<le> length c \<and> length c \<le> 20" using cs(3) by simp
    ultimately show ?thesis using False by (intro exI [of _ "cs @ [?last]"]) simp
  qed
qed

theorem ble_notify_chunks_witness:
  "\<exists>chunks. unibus_ble_write (\<lambda>c h. h + length c) fresh_ble (replicate 45 7) 45 0
     = Some (45, fold (\<lambda>c h. h + length c) chunks 0) \<and> concat chunks = replicate 45 (7 :: u8)"
  using ble_notify_chunks [of 45 "replicate 45 7" "\<lambda>c h. h + length c" fresh_ble 0]
  by (auto simp: fresh_ble_def)

section \<open>The connection\<close>

unbundle bit_operations_syntax

text \<open>
  The Bluetooth stack on a state \<open>'k\<close> of its own: enabling it, finding the attribute of a UUID
  in the service, advertising, and reading an attribute's value, which is handed over with its
  length. An attribute is a number, a null pointer \<open>None\<close>.
\<close>

record bt_uuid_128 =
  uu_32 :: u32
  uu_1 :: u16
  uu_2 :: u16
  uu_3 :: u16
  uu_48 :: "64 word"

definition BT_UUID_TRX_SERVICE_VAL :: bt_uuid_128 where
  "BT_UUID_TRX_SERVICE_VAL = \<lparr>uu_32 = 0x12345678, uu_1 = 0x1234, uu_2 = 0x5678, uu_3 = 0x1234, uu_48 = 0x56789abcdef0\<rparr>"

definition trx_svc_uuid :: bt_uuid_128 where
  "trx_svc_uuid = BT_UUID_TRX_SERVICE_VAL"

definition trx_c2s_uuid :: bt_uuid_128 where
  "trx_c2s_uuid = \<lparr>uu_32 = 0x12345678, uu_1 = 0x1234, uu_2 = 0x5678, uu_3 = 0x1234, uu_48 = 0x56789abcdef1\<rparr>"

definition trx_s2c_uuid :: bt_uuid_128 where
  "trx_s2c_uuid = \<lparr>uu_32 = 0x12345678, uu_1 = 0x1234, uu_2 = 0x5678, uu_3 = 0x1234, uu_48 = 0x56789abcdef2\<rparr>"

text \<open>The two values, of \<open>TRX_MAX_LEN + 1\<close> bytes, begin with the texts TRX_C2S and TRX_S2C.\<close>

definition trx_c2s_value :: "u8 list" where
  "trx_c2s_value = [0x54, 0x52, 0x58, 0x5F, 0x43, 0x32, 0x53] @ replicate (TRX_MAX_LEN + 1 - 7) 0"

definition trx_s2c_value :: "u8 list" where
  "trx_s2c_value = [0x54, 0x52, 0x58, 0x5F, 0x53, 0x32, 0x43] @ replicate (TRX_MAX_LEN + 1 - 7) 0"

text \<open>The advertised data: the flags and the service.\<close>

datatype bt_data = BT_DATA_FLAGS u8 | BT_DATA_UUID128_ALL bt_uuid_128

record 'k bt_stack =
  BT_LE_AD_GENERAL :: u8
  BT_LE_AD_NO_BREDR :: u8
  bt_enable :: "'k \<Rightarrow> s32 \<times> 'k"
  bt_gatt_find_by_uuid :: "bt_uuid_128 \<Rightarrow> nat option"
  bt_le_adv_start :: "bt_data list \<Rightarrow> 'k \<Rightarrow> s32 \<times> 'k"
  bt_gatt_attr_read :: "u8 list \<Rightarrow> u16 \<Rightarrow> u16 \<Rightarrow> u8 list \<Rightarrow> u16 \<Rightarrow> s32 \<times> u8 list"

record 'k bt_state =
  bt_state_stack :: 'k
  trx_ntf_attr :: "nat option"

definition ad :: "'k bt_stack \<Rightarrow> bt_data list" where
  "ad S = [BT_DATA_FLAGS (BT_LE_AD_GENERAL S OR BT_LE_AD_NO_BREDR S), BT_DATA_UUID128_ALL BT_UUID_TRX_SERVICE_VAL]"

text \<open>The length of the value up to its terminator, \<open>None\<close> when it has none.\<close>

fun value_strlen :: "u8 list \<Rightarrow> nat option" where
  "value_strlen [] = None"
| "value_strlen (c # cs) = (if c = 0 then Some 0 else map_option Suc (value_strlen cs))"

definition read_trx_s2c :: "'k bt_stack \<Rightarrow> u8 list \<Rightarrow> u8 list \<Rightarrow> u16 \<Rightarrow> u16 \<Rightarrow> (s32 \<times> u8 list) option" where
  "read_trx_s2c S user_data buf len offset =
     do { n \<leftarrow> value_strlen user_data; Some (bt_gatt_attr_read S buf len offset user_data (word_of_nat n)) }"

definition trx_init :: "'k bt_stack \<Rightarrow> 'k bt_state \<Rightarrow> 'k bt_state" where
  "trx_init S s = s\<lparr>trx_ntf_attr := bt_gatt_find_by_uuid S trx_s2c_uuid\<rparr>"

text \<open>Starting to advertise; the log output is left out, and with it the effect of a failure.\<close>

definition bt_ready :: "'k bt_stack \<Rightarrow> 'k bt_state \<Rightarrow> 'k bt_state" where
  "bt_ready S s = (let (err, k) = bt_le_adv_start S (ad S) (bt_state_stack s) in s\<lparr>bt_state_stack := k\<rparr>)"

definition unibus_ble_connect :: "'k bt_stack \<Rightarrow> 'k bt_state \<Rightarrow> s32 \<times> 'k bt_state" where
  "unibus_ble_connect S s =
     (let (err, k) = bt_enable S (bt_state_stack s);
          s = s\<lparr>bt_state_stack := k\<rparr>;
          s = trx_init S s
      in if err \<noteq> 0 then (err, s)
         else let s = bt_ready S s in (0, s))"

definition unibus_ble_close :: "'k bt_state \<Rightarrow> 'k bt_state" where
  "unibus_ble_close s = s"

text \<open>
  Connecting: the error of the stack is returned and nothing advertised; otherwise the service is
  advertised once, and success reported whatever the stack says about it. Notifications go
  to the attribute of the outgoing characteristic in either case.
\<close>

theorem ble_connect:
  assumes "bt_enable S (bt_state_stack s) = (err, k)"
  shows "unibus_ble_connect S s =
    (if err \<noteq> 0 then (err, \<lparr>bt_state_stack = k, trx_ntf_attr = bt_gatt_find_by_uuid S trx_s2c_uuid\<rparr>)
     else (0, \<lparr>bt_state_stack = snd (bt_le_adv_start S (ad S) k), trx_ntf_attr = bt_gatt_find_by_uuid S trx_s2c_uuid\<rparr>))"
  using assms by (cases s) (simp add: unibus_ble_connect_def trx_init_def bt_ready_def case_prod_unfold Let_def)

text \<open>The value a client reads at first is the text, without the zero bytes behind it.\<close>

lemma read_trx_s2c_initial:
  "read_trx_s2c S trx_s2c_value buf len offset = Some (bt_gatt_attr_read S buf len offset trx_s2c_value 7)"
proof -
  have "value_strlen (replicate n 0) = (if n = 0 then None else Some 0)" for n by (cases n) simp_all
  then show ?thesis by (simp add: read_trx_s2c_def trx_s2c_value_def TRX_MAX_LEN_def)
qed

end
