(* ===== verification/Dlist.thy ===== *)
theory Dlist
  imports Prelude
begin

text \<open>
  src/src/sdk_dlist.c and src/src/event_scheduler.c: the circular doubly linked list of the SDK,
  as pointers in an explicit heap, and the event scheduler built on it. A node is an address; a
  dangling pointer is \<open>None\<close>. The list's links and the payload of an event node are two heaps over
  the same addresses, because the payload is found from its link by \<open>container_of\<close>.
\<close>

section \<open>The list\<close>

type_synonym addr = nat

record dnode =
  dn_prev :: addr
  dn_next :: addr

type_synonym dheap = "addr \<Rightarrow> dnode option"

definition get_prev :: "dheap \<Rightarrow> addr \<Rightarrow> addr option" where
  "get_prev H a = map_option dn_prev (H a)"

definition get_next :: "dheap \<Rightarrow> addr \<Rightarrow> addr option" where
  "get_next H a = map_option dn_next (H a)"

definition set_prev :: "dheap \<Rightarrow> addr \<Rightarrow> addr \<Rightarrow> dheap option" where
  "set_prev H a p = map_option (\<lambda>n. H(a \<mapsto> n\<lparr>dn_prev := p\<rparr>)) (H a)"

definition set_next :: "dheap \<Rightarrow> addr \<Rightarrow> addr \<Rightarrow> dheap option" where
  "set_next H a q = map_option (\<lambda>n. H(a \<mapsto> n\<lparr>dn_next := q\<rparr>)) (H a)"

definition sdk_dlist_init :: "dheap \<Rightarrow> addr \<Rightarrow> dheap option" where
  "sdk_dlist_init H node = do { H1 \<leftarrow> set_prev H node node; set_next H1 node node }"

definition sdk_dlist_insert :: "dheap \<Rightarrow> addr \<Rightarrow> addr \<Rightarrow> addr \<Rightarrow> dheap option" where
  "sdk_dlist_insert H new prv nxt =
     do { H1 \<leftarrow> set_next H prv new; H2 \<leftarrow> set_prev H1 nxt new;
          H3 \<leftarrow> set_prev H2 new prv; set_next H3 new nxt }"

definition sdk_dlist_insert_after :: "dheap \<Rightarrow> addr \<Rightarrow> addr \<Rightarrow> dheap option" where
  "sdk_dlist_insert_after H head new =
     do { nxt \<leftarrow> get_next H head; sdk_dlist_insert H new head nxt }"

definition sdk_dlist_insert_before :: "dheap \<Rightarrow> addr \<Rightarrow> addr \<Rightarrow> dheap option" where
  "sdk_dlist_insert_before H head new =
     do { prv \<leftarrow> get_prev H head; sdk_dlist_insert H new prv head }"

definition sdk_dlist_remove :: "dheap \<Rightarrow> addr \<Rightarrow> dheap option" where
  "sdk_dlist_remove H node =
     do { prv \<leftarrow> get_prev H node; nxt \<leftarrow> get_next H node;
          H1 \<leftarrow> set_next H prv nxt; H2 \<leftarrow> set_prev H1 nxt prv;
          H3 \<leftarrow> set_prev H2 node node; set_next H3 node node }"

definition sdk_dlist_is_empty :: "dheap \<Rightarrow> addr \<Rightarrow> s32 option" where
  "sdk_dlist_is_empty H head = do { nxt \<leftarrow> get_next H head; Some (if nxt = head then 1 else 0) }"

section \<open>The event scheduler\<close>

text \<open>A handler may change the application's state and the scheduler's own lists.\<close>

record 'h event_node =
  en_handler :: "nat \<Rightarrow> u16 \<Rightarrow> dheap \<times> 'h \<Rightarrow> dheap \<times> 'h"
  en_data :: nat
  en_data_size :: u16

type_synonym 'h eheap = "addr \<Rightarrow> 'h event_node option"

definition event_sched_init :: "dheap \<Rightarrow> addr \<Rightarrow> (s32 \<times> dheap) option" where
  "event_sched_init H head = do { H1 \<leftarrow> sdk_dlist_init H head; Some (SDK_OK, H1) }"

definition event_node_put ::
    "dheap \<Rightarrow> 'h eheap \<Rightarrow> addr \<Rightarrow> addr \<Rightarrow> nat \<Rightarrow> u16 \<Rightarrow> (nat \<Rightarrow> u16 \<Rightarrow> dheap \<times> 'h \<Rightarrow> dheap \<times> 'h)
      \<Rightarrow> (s32 \<times> dheap \<times> 'h eheap) option" where
  "event_node_put H E head node data sz handler =
     do { H1 \<leftarrow> sdk_dlist_init H node;
          H2 \<leftarrow> sdk_dlist_insert_after H1 head node;
          Some (0, H2, E(node \<mapsto> \<lparr>en_handler = handler, en_data = data, en_data_size = sz\<rparr>)) }"

text \<open>
  \<open>sdk_dlist_for_each_safe\<close>: the next position is read before the body removes the current one.
  The loop may run forever on a corrupted list; then the value is \<open>None\<close>.
\<close>

partial_function (option) event_sched_loop ::
    "'h eheap \<Rightarrow> addr \<Rightarrow> addr \<Rightarrow> addr \<Rightarrow> dheap \<times> 'h \<Rightarrow> (dheap \<times> 'h) option" where
  "event_sched_loop E head pos nxt \<sigma> =
     (if pos = head then Some \<sigma>
      else (case sdk_dlist_remove (fst \<sigma>) pos of
              None \<Rightarrow> None
            | Some H1 \<Rightarrow> (case E pos of
                None \<Rightarrow> None
              | Some ev \<Rightarrow>
                  let \<sigma>2 = en_handler ev (en_data ev) (en_data_size ev) (H1, snd \<sigma>)
                  in (case get_next (fst \<sigma>2) nxt of
                        None \<Rightarrow> None
                      | Some nn \<Rightarrow> event_sched_loop E head nxt nn \<sigma>2))))"

definition event_sched_execute :: "'h eheap \<Rightarrow> addr \<Rightarrow> dheap \<times> 'h \<Rightarrow> (dheap \<times> 'h) option" where
  "event_sched_execute E head \<sigma> =
     do { empty \<leftarrow> sdk_dlist_is_empty (fst \<sigma>) head;
          if empty = 0
          then do { pos \<leftarrow> get_next (fst \<sigma>) head; nxt \<leftarrow> get_next (fst \<sigma>) pos;
                    event_sched_loop E head pos nxt \<sigma> }
          else Some \<sigma> }"

section \<open>Well-formed rings\<close>

text \<open>
  \<open>links H xs\<close>: neighbours of the list are linked to each other in both directions. A ring is the
  head and the nodes behind it, linked in a circle.
\<close>

definition link :: "dheap \<Rightarrow> addr \<Rightarrow> addr \<Rightarrow> bool" where
  "link H a b \<longleftrightarrow> get_next H a = Some b \<and> get_prev H b = Some a"

fun links :: "dheap \<Rightarrow> addr list \<Rightarrow> bool" where
  "links H (a # b # xs) \<longleftrightarrow> link H a b \<and> links H (b # xs)"
| "links H xs \<longleftrightarrow> True"

definition dring :: "dheap \<Rightarrow> addr \<Rightarrow> addr list \<Rightarrow> bool" where
  "dring H h as \<longleftrightarrow> distinct (h # as) \<and> links H (h # as @ [h])"

lemma links_split: "links H (us @ p # q # vs) \<longleftrightarrow> links H (us @ [p]) \<and> link H p q \<and> links H (q # vs)"
  by (induction H us rule: links.induct) (auto intro: list.exhaust [of vs])

lemma links_frame:
  "links H xs \<Longrightarrow> (\<And>x. x \<in> set (butlast xs) \<Longrightarrow> get_next H1 x = get_next H x) \<Longrightarrow>
     (\<And>x. x \<in> set (tl xs) \<Longrightarrow> get_prev H1 x = get_prev H x) \<Longrightarrow> links H1 xs"
  by (induction H xs rule: links.induct) (auto simp: link_def)

lemma link_nodes: "link H a b \<Longrightarrow> a \<in> dom H \<and> b \<in> dom H"
  by (auto simp: link_def get_next_def get_prev_def)

text \<open>What the assignments do to the links, whatever nodes coincide.\<close>

lemma get_set_links [simp]:
  "H a = Some n \<Longrightarrow> get_next (H(a \<mapsto> n\<lparr>dn_next := q\<rparr>)) x = (if x = a then Some q else get_next H x)"
  "H a = Some n \<Longrightarrow> get_prev (H(a \<mapsto> n\<lparr>dn_next := q\<rparr>)) x = get_prev H x"
  "H a = Some n \<Longrightarrow> get_prev (H(a \<mapsto> n\<lparr>dn_prev := q\<rparr>)) x = (if x = a then Some q else get_prev H x)"
  "H a = Some n \<Longrightarrow> get_next (H(a \<mapsto> n\<lparr>dn_prev := q\<rparr>)) x = get_next H x"
  by (auto simp: get_next_def get_prev_def)

lemma set_next_some:
  assumes "a \<in> dom H"
  shows "\<exists>H1. set_next H a q = Some H1 \<and> dom H1 = dom H
    \<and> (\<forall>x. get_next H1 x = (if x = a then Some q else get_next H x)) \<and> get_prev H1 = get_prev H"
proof -
  obtain n where n: "H a = Some n" using assms by auto
  then show ?thesis
    by (intro exI [of _ "H(a \<mapsto> n\<lparr>dn_next := q\<rparr>)"]) (auto simp: set_next_def fun_eq_iff simp del: fun_upd_apply)
qed

lemma set_prev_some:
  assumes "a \<in> dom H"
  shows "\<exists>H1. set_prev H a q = Some H1 \<and> dom H1 = dom H
    \<and> (\<forall>x. get_prev H1 x = (if x = a then Some q else get_prev H x)) \<and> get_next H1 = get_next H"
proof -
  obtain n where n: "H a = Some n" using assms by auto
  then show ?thesis
    by (intro exI [of _ "H(a \<mapsto> n\<lparr>dn_prev := q\<rparr>)"]) (auto simp: set_prev_def fun_eq_iff simp del: fun_upd_apply)
qed

text \<open>The four assignments that insertion and removal consist of, in their order.\<close>

lemma four_links:
  assumes "{a, c, e} \<subseteq> dom H"
  shows "\<exists>H1. do { H1 \<leftarrow> set_next H a b; H2 \<leftarrow> set_prev H1 c d; H3 \<leftarrow> set_prev H2 e f; set_next H3 e g }
      = Some H1 \<and> dom H1 = dom H
    \<and> (\<forall>x. get_next H1 x = (if x = e then Some g else if x = a then Some b else get_next H x))
    \<and> (\<forall>x. get_prev H1 x = (if x = e then Some f else if x = c then Some d else get_prev H x))"
proof -
  obtain H1 where H1: "set_next H a b = Some H1" "dom H1 = dom H"
    "\<forall>x. get_next H1 x = (if x = a then Some b else get_next H x)" "get_prev H1 = get_prev H"
    using set_next_some [of a H b] assms by blast
  obtain H2 where H2: "set_prev H1 c d = Some H2" "dom H2 = dom H"
    "\<forall>x. get_prev H2 x = (if x = c then Some d else get_prev H x)" "get_next H2 = get_next H1"
    using set_prev_some [of c H1 d] assms H1 by auto
  obtain H3 where H3: "set_prev H2 e f = Some H3" "dom H3 = dom H"
    "\<forall>x. get_prev H3 x = (if x = e then Some f else get_prev H2 x)" "get_next H3 = get_next H1"
    using set_prev_some [of e H2 f] assms H2 by auto
  obtain H4 where H4: "set_next H3 e g = Some H4" "dom H4 = dom H"
    "\<forall>x. get_next H4 x = (if x = e then Some g else get_next H3 x)" "get_prev H4 = get_prev H3"
    using set_next_some [of e H3 g] assms H3 by auto
  show ?thesis using H1 H2 H3 H4 by (intro exI [of _ H4]) simp
qed

lemma init_links:
  assumes "a \<in> dom H"
  shows "\<exists>H1. sdk_dlist_init H a = Some H1 \<and> dom H1 = dom H
    \<and> (\<forall>x. get_next H1 x = (if x = a then Some a else get_next H x))
    \<and> (\<forall>x. get_prev H1 x = (if x = a then Some a else get_prev H x))"
proof -
  obtain H1 where H1: "set_prev H a a = Some H1" "dom H1 = dom H"
    "\<forall>x. get_prev H1 x = (if x = a then Some a else get_prev H x)" "get_next H1 = get_next H"
    using set_prev_some [of a H a] assms by blast
  obtain H2 where "set_next H1 a a = Some H2" "dom H2 = dom H"
    "\<forall>x. get_next H2 x = (if x = a then Some a else get_next H1 x)" "get_prev H2 = get_prev H1"
    using set_next_some [of a H1 a] assms H1 by auto
  with H1 show ?thesis by (intro exI [of _ H2]) (simp add: sdk_dlist_init_def)
qed

section \<open>Insertion and removal in a ring\<close>

text \<open>
  A ring is cut open at its head into the list \<open>h # as @ [h]\<close>; \<open>p\<close> and \<open>q\<close> are neighbours on it.
\<close>

lemma dring_dom: "dring H h as \<Longrightarrow> set (h # as) \<subseteq> dom H"
proof -
  have "links H xs \<Longrightarrow> 2 \<le> length xs \<Longrightarrow> set xs \<subseteq> dom H" for xs
  proof (induction H xs rule: links.induct)
    case (1 H a b xs)
    then show ?case using link_nodes [of H a b] by (cases xs) auto
  qed auto
  from this [of "h # as @ [h]"] show "dring H h as \<Longrightarrow> set (h # as) \<subseteq> dom H"
    by (auto simp: dring_def)
qed

lemma insert_between:
  assumes ring: "dring H h (xs @ ys)" and new: "new \<in> dom H" "new \<notin> set (h # xs @ ys)"
  shows "\<exists>H1. sdk_dlist_insert H new (last (h # xs)) (hd (ys @ [h])) = Some H1
    \<and> dring H1 h (xs @ new # ys) \<and> dom H1 = dom H"
proof -
  define us p q vs where "us = butlast (h # xs)" and "p = last (h # xs)"
    and "q = hd (ys @ [h])" and "vs = tl (ys @ [h])"
  have cut: "h # xs = us @ [p]" "ys @ [h] = q # vs"
    by (simp_all only: us_def p_def q_def vs_def append_butlast_last_id list.distinct
        list.collapse Nil_is_append_conv simp_thms not_Cons_self2) simp_all
  have all: "h # (xs @ ys) @ [h] = us @ p # q # vs" using cut by (metis append.assoc append_Cons append_Nil)
  have all1: "h # (xs @ new # ys) @ [h] = us @ p # new # q # vs"
    using cut by (metis append.assoc append_Cons append_Nil)
  have d: "distinct (h # xs @ ys)" using ring by (simp add: dring_def)
  have l: "links H (us @ [p])" "links H (q # vs)"
    using ring links_split [of H us p q vs] unfolding dring_def all by simp_all
  have mem: "p \<in> set (h # xs)" "q \<in> set (h # ys)" by (auto simp: p_def q_def hd_append split: list.split)
  then have "{p, q, new} \<subseteq> dom H" using dring_dom [OF ring] new by auto
  from four_links [OF this, of new new p q] obtain H1 where H1:
    "sdk_dlist_insert H new p q = Some H1" "dom H1 = dom H"
    "\<forall>x. get_next H1 x = (if x = new then Some q else if x = p then Some new else get_next H x)"
    "\<forall>x. get_prev H1 x = (if x = new then Some p else if x = q then Some new else get_prev H x)"
    by (auto simp: sdk_dlist_insert_def)
  have "links H1 (us @ [p])"
  proof (rule links_frame [OF l(1)])
    fix x assume x: "x \<in> set (butlast (us @ [p]))"
    then have "x \<in> set us" by simp
    moreover have "distinct (us @ [p])" unfolding cut(1) [symmetric] using d by simp
    moreover have "new \<notin> set (us @ [p])" unfolding cut(1) [symmetric] using new(2) by simp
    ultimately have "x \<noteq> p" "x \<noteq> new" by auto
    then show "get_next H1 x = get_next H x" using H1(3) by simp
  next
    fix x assume x: "x \<in> set (tl (us @ [p]))"
    then have "x \<in> set xs" unfolding cut(1) [symmetric] by simp
    then have "x \<noteq> q" "x \<noteq> new" using d new(2) mem(2) by auto
    then show "get_prev H1 x = get_prev H x" using H1(4) by simp
  qed
  moreover have "links H1 (q # vs)"
  proof (rule links_frame [OF l(2)])
    fix x assume "x \<in> set (butlast (q # vs))"
    then have "x \<in> set ys" unfolding cut(2) [symmetric] by simp
    then have "x \<noteq> p" "x \<noteq> new" using d new(2) mem(1) by auto
    then show "get_next H1 x = get_next H x" using H1(3) by simp
  next
    fix x assume "x \<in> set (tl (q # vs))"
    then have "x \<in> set vs" by simp
    moreover have "q \<notin> set vs" "new \<notin> set vs"
      using d new(2) cut(2) by (cases ys; auto)+
    ultimately show "get_prev H1 x = get_prev H x" using H1(4) by auto
  qed
  moreover have "link H1 p new" "link H1 new q"
    using H1(3,4) mem new(2) by (auto simp: link_def)
  ultimately have "links H1 (h # (xs @ new # ys) @ [h])"
    unfolding all1 by (simp add: links_split [of H1 us p new "q # vs"])
  moreover have "distinct (h # xs @ new # ys)" using d new(2) by auto
  ultimately show ?thesis using H1(1,2) by (auto simp: dring_def p_def q_def)
qed

lemma remove_between:
  assumes ring: "dring H h (xs @ n # ys)"
  shows "\<exists>H1. sdk_dlist_remove H n = Some H1 \<and> dring H1 h (xs @ ys) \<and> dom H1 = dom H \<and> link H1 n n"
proof -
  define us p q vs where "us = butlast (h # xs)" and "p = last (h # xs)"
    and "q = hd (ys @ [h])" and "vs = tl (ys @ [h])"
  have cut: "h # xs = us @ [p]" "ys @ [h] = q # vs"
    by (simp_all only: us_def p_def q_def vs_def append_butlast_last_id list.distinct
        list.collapse Nil_is_append_conv simp_thms not_Cons_self2) simp_all
  have all: "h # (xs @ n # ys) @ [h] = us @ p # n # q # vs"
    using cut by (metis append.assoc append_Cons append_Nil)
  have all1: "h # (xs @ ys) @ [h] = us @ p # q # vs" using cut by (metis append.assoc append_Cons append_Nil)
  have d: "distinct (h # xs @ n # ys)" using ring by (simp add: dring_def)
  have "links H (us @ p # n # q # vs)" using ring unfolding dring_def all by simp
  then have l: "links H (us @ [p])" "link H p n" "link H n q" "links H (q # vs)"
    unfolding links_split [of H us p n "q # vs"] by simp_all
  have mem: "p \<in> set (h # xs)" "q \<in> set (h # ys)" by (auto simp: p_def q_def hd_append split: list.split)
  have "{p, q, n} \<subseteq> dom H" using l(2,3) link_nodes by auto
  from four_links [OF this, of q p n n] l(2,3) obtain H1 where H1:
    "sdk_dlist_remove H n = Some H1" "dom H1 = dom H"
    "\<forall>x. get_next H1 x = (if x = n then Some n else if x = p then Some q else get_next H x)"
    "\<forall>x. get_prev H1 x = (if x = n then Some n else if x = q then Some p else get_prev H x)"
    by (auto simp: sdk_dlist_remove_def link_def)
  have "links H1 (us @ [p])"
  proof (rule links_frame [OF l(1)])
    fix x assume "x \<in> set (butlast (us @ [p]))"
    then have "x \<in> set us" by simp
    moreover have "distinct (us @ [p])" unfolding cut(1) [symmetric] using d by simp
    moreover have "n \<notin> set (us @ [p])" unfolding cut(1) [symmetric] using d by auto
    ultimately have "x \<noteq> p" "x \<noteq> n" by auto
    then show "get_next H1 x = get_next H x" using H1(3) by simp
  next
    fix x assume x: "x \<in> set (tl (us @ [p]))"
    then have "x \<in> set xs" unfolding cut(1) [symmetric] by simp
    then have "x \<noteq> q" "x \<noteq> n" using d mem(2) by auto
    then show "get_prev H1 x = get_prev H x" using H1(4) by simp
  qed
  moreover have "links H1 (q # vs)"
  proof (rule links_frame [OF l(4)])
    fix x assume "x \<in> set (butlast (q # vs))"
    then have "x \<in> set ys" unfolding cut(2) [symmetric] by simp
    then have "x \<noteq> p" "x \<noteq> n" using d mem(1) by auto
    then show "get_next H1 x = get_next H x" using H1(3) by simp
  next
    fix x assume "x \<in> set (tl (q # vs))"
    then have "x \<in> set vs" by simp
    moreover have "q \<notin> set vs" "n \<notin> set vs" using d cut(2) by (cases ys; auto)+
    ultimately show "get_prev H1 x = get_prev H x" using H1(4) by auto
  qed
  moreover have "link H1 p q" "link H1 n n"
    using H1(3,4) mem d by (auto simp: link_def)
  ultimately show ?thesis
    using H1(1,2) d unfolding dring_def all1 by (auto simp: links_split)
qed

lemma dring_next:
  assumes "dring H h (n # as)"
  shows "get_next H h = Some n" and "get_next H n = Some (hd (as @ [h]))"
  using assms by (cases as; auto simp: dring_def link_def)+

lemma dring_empty: "dring H h [] \<Longrightarrow> get_next H h = Some h \<and> get_prev H h = Some h"
  by (simp add: dring_def link_def)

lemma dring_prev: "dring H h as \<Longrightarrow> get_prev H h = Some (last (h # as))"
proof -
  assume "dring H h as"
  moreover have "h # as @ [h] = butlast (h # as) @ last (h # as) # h # []"
    by (metis append.assoc append_Cons append_Nil append_butlast_last_id list.discI)
  ultimately show ?thesis
    using links_split [of H "butlast (h # as)" "last (h # as)" h "[]"] by (simp add: dring_def link_def)
qed

lemma insert_after_ring:
  assumes "dring H h as" and "new \<in> dom H" and "new \<notin> set (h # as)"
  shows "\<exists>H1. sdk_dlist_insert_after H h new = Some H1 \<and> dring H1 h (new # as) \<and> dom H1 = dom H"
proof -
  have "get_next H h = Some (hd (as @ [h]))"
    using dring_next(1) dring_empty assms(1) by (cases as) auto
  then show ?thesis
    using insert_between [of H h "[]" as new] assms by (simp add: sdk_dlist_insert_after_def)
qed

lemma insert_before_ring:
  assumes "dring H h as" and "new \<in> dom H" and "new \<notin> set (h # as)"
  shows "\<exists>H1. sdk_dlist_insert_before H h new = Some H1 \<and> dring H1 h (as @ [new]) \<and> dom H1 = dom H"
  using insert_between [of H h as "[]" new] dring_prev [OF assms(1)] assms
  by (simp add: sdk_dlist_insert_before_def)

section \<open>Running the scheduled events\<close>

text \<open>
  Handlers that leave the lists alone: \<open>eff\<close> is what the handler of a node does to the application.
\<close>

definition node_runs :: "'h eheap \<Rightarrow> addr \<Rightarrow> ('h \<Rightarrow> 'h) \<Rightarrow> bool" where
  "node_runs E a g \<longleftrightarrow> (\<exists>ev. E a = Some ev
     \<and> (\<forall>H x. en_handler ev (en_data ev) (en_data_size ev) (H, x) = (H, g x)))"

definition sched_handlers :: "'h eheap \<Rightarrow> (addr \<Rightarrow> 'h \<Rightarrow> 'h) \<Rightarrow> addr list \<Rightarrow> bool" where
  "sched_handlers E eff as \<longleftrightarrow> (\<forall>a \<in> set as. node_runs E a (eff a))"

lemma sched_loop_ring:
  "dring H h (n # as) \<Longrightarrow> sched_handlers E eff (n # as) \<Longrightarrow>
     \<exists>H1. event_sched_loop E h n (hd (as @ [h])) (H, x) = Some (H1, fold eff (n # as) x)
       \<and> dring H1 h [] \<and> dom H1 = dom H"
proof (induction as arbitrary: n H x)
  case Nil
  from remove_between [of H h "[]" n "[]"] Nil.prems(1) obtain H1 where
    H1: "sdk_dlist_remove H n = Some H1" "dring H1 h []" "dom H1 = dom H" by auto
  obtain ev where "E n = Some ev"
    "\<forall>H x. en_handler ev (en_data ev) (en_data_size ev) (H, x) = (H, eff n x)"
    using Nil.prems(2) by (auto simp: sched_handlers_def node_runs_def)
  moreover have "n \<noteq> h" using Nil.prems(1) by (auto simp: dring_def)
  moreover have "event_sched_loop E h h h (H1, eff n x) = Some (H1, eff n x)"
    by (subst event_sched_loop.simps) simp
  ultimately show ?case
    using H1 dring_empty [OF H1(2)] by (subst event_sched_loop.simps) simp
next
  case (Cons m as)
  from remove_between [of H h "[]" n "m # as"] Cons.prems(1) obtain H1 where
    H1: "sdk_dlist_remove H n = Some H1" "dring H1 h (m # as)" "dom H1 = dom H" by auto
  obtain ev where ev: "E n = Some ev"
    "\<forall>H x. en_handler ev (en_data ev) (en_data_size ev) (H, x) = (H, eff n x)"
    using Cons.prems(2) by (auto simp: sched_handlers_def node_runs_def)
  have "sched_handlers E eff (m # as)" using Cons.prems(2) by (simp add: sched_handlers_def)
  from Cons.IH [OF H1(2) this, of "eff n x"] obtain H2 where
    "event_sched_loop E h m (hd (as @ [h])) (H1, eff n x) = Some (H2, fold eff (m # as) (eff n x))"
    "dring H2 h []" "dom H2 = dom H1" by blast
  moreover have "n \<noteq> h" using Cons.prems(1) by (auto simp: dring_def)
  ultimately show ?case
    using H1 ev dring_next(2) [OF H1(2)] by (subst event_sched_loop.simps) simp
qed

lemma sched_execute_ring:
  assumes "dring H h as" and "sched_handlers E eff as"
  shows "\<exists>H1. event_sched_execute E h (H, x) = Some (H1, fold eff as x) \<and> dring H1 h [] \<and> dom H1 = dom H"
proof (cases as)
  case Nil
  then show ?thesis
    using assms dring_empty [of H h]
    by (auto simp: event_sched_execute_def sdk_dlist_is_empty_def)
next
  case (Cons n bs)
  have "n \<noteq> h" using assms(1) Cons by (auto simp: dring_def)
  then show ?thesis
    using sched_loop_ring [of H h n bs E eff x] assms Cons dring_next [of H h n bs]
    by (simp add: event_sched_execute_def sdk_dlist_is_empty_def)
qed

text \<open>Posting a list of events one after the other.\<close>

fun post_events ::
    "dheap \<Rightarrow> 'h eheap \<Rightarrow> addr \<Rightarrow> (addr \<times> nat \<times> u16 \<times> (nat \<Rightarrow> u16 \<Rightarrow> 'h \<Rightarrow> 'h)) list
      \<Rightarrow> (dheap \<times> 'h eheap) option" where
  "post_events H E h [] = Some (H, E)"
| "post_events H E h ((n, data, sz, f) # evs) =
     do { (_, H1, E1) \<leftarrow> event_node_put H E h n data sz (\<lambda>d s (H, x). (H, f d s x));
          post_events H1 E1 h evs }"

text \<open>The node of a posted event and what its handler does to the application.\<close>

definition event_effect :: "addr \<times> nat \<times> u16 \<times> (nat \<Rightarrow> u16 \<Rightarrow> 'h \<Rightarrow> 'h) \<Rightarrow> addr \<times> ('h \<Rightarrow> 'h)" where
  "event_effect e = (case e of (n, data, sz, f) \<Rightarrow> (n, f data sz))"

lemma init_other_ring:
  assumes "dring H h as" and "n \<in> dom H" and "n \<notin> set (h # as)"
  shows "\<exists>H1. sdk_dlist_init H n = Some H1 \<and> dring H1 h as \<and> dom H1 = dom H"
proof -
  obtain H1 where H1: "sdk_dlist_init H n = Some H1" "dom H1 = dom H"
    "\<forall>x. get_next H1 x = (if x = n then Some n else get_next H x)"
    "\<forall>x. get_prev H1 x = (if x = n then Some n else get_prev H x)"
    using init_links [OF assms(2)] by blast
  have l: "links H (h # as @ [h])" using assms(1) by (simp add: dring_def)
  have "links H1 (h # as @ [h])"
  proof (rule links_frame [OF l])
    fix x assume "x \<in> set (butlast (h # as @ [h]))"
    then have "x \<noteq> n" using assms(3) by (auto simp: butlast_append)
    then show "get_next H1 x = get_next H x" using H1(3) by simp
  next
    fix x assume "x \<in> set (tl (h # as @ [h]))"
    then have "x \<noteq> n" using assms(3) by auto
    then show "get_prev H1 x = get_prev H x" using H1(4) by simp
  qed
  with H1(1,2) assms(1) show ?thesis by (auto simp: dring_def)
qed

lemma post_events_ring:
  "dring H h (map fst ps) \<Longrightarrow> distinct (h # map fst evs @ map fst ps) \<Longrightarrow> set (map fst evs) \<subseteq> dom H \<Longrightarrow>
     (\<forall>(a, g) \<in> set ps. node_runs E a g) \<Longrightarrow>
     \<exists>H1 E1. post_events H E h evs = Some (H1, E1) \<and> dom H1 = dom H
       \<and> dring H1 h (map fst (rev (map event_effect evs) @ ps))
       \<and> (\<forall>(a, g) \<in> set (rev (map event_effect evs) @ ps). node_runs E1 a g)"
proof (induction evs arbitrary: H E ps)
  case Nil
  then show ?case by simp
next
  case (Cons e evs)
  obtain n data sz f where e: "e = (n, data, sz, f)" by (cases e)
  have fresh: "n \<in> dom H" "n \<notin> set (h # map fst ps)" using Cons.prems(2,3) e by auto
  obtain H1 where H1: "sdk_dlist_init H n = Some H1" "dring H1 h (map fst ps)" "dom H1 = dom H"
    using init_other_ring [OF Cons.prems(1) fresh] by blast
  obtain H2 where H2: "sdk_dlist_insert_after H1 h n = Some H2" "dring H2 h (n # map fst ps)"
    "dom H2 = dom H"
    using insert_after_ring [OF H1(2) fresh [folded H1(3)]] unfolding H1(3) by blast
  define E1 where "E1 = E(n \<mapsto> \<lparr>en_handler = (\<lambda>d s (H :: dheap, x). (H, f d s x)), en_data = data, en_data_size = sz\<rparr>)"
  have put: "event_node_put H E h n data sz (\<lambda>d s (H, x). (H, f d s x)) = Some (0, H2, E1)"
    using H1 H2 by (simp add: event_node_put_def E1_def)
  let ?ps = "event_effect e # ps"
  have d0: "dring H2 h (map fst ?ps)" using H2(2) by (simp add: event_effect_def e)
  have d1: "distinct (h # map fst evs @ map fst ?ps)" and d2: "set (map fst evs) \<subseteq> dom H2"
    using Cons.prems(2,3) H2(3) by (auto simp: event_effect_def e)
  have h1: "\<forall>(a, g) \<in> set ?ps. node_runs E1 a g"
  proof (clarify)
    fix a g assume "(a, g) \<in> set ?ps"
    then consider "a = n" "g = f data sz" | "(a, g) \<in> set ps"
      by (auto simp: event_effect_def e)
    then show "node_runs E1 a g"
    proof cases
      case 1
      then show ?thesis by (simp add: node_runs_def E1_def)
    next
      case 2
      then have "a \<noteq> n" using fresh(2) by force
      moreover have "node_runs E a g" using 2 Cons.prems(4) by blast
      ultimately show ?thesis by (simp add: node_runs_def E1_def)
    qed
  qed
  from Cons.IH [OF d0 d1 d2 h1] obtain H3 E3 where "post_events H2 E1 h evs = Some (H3, E3)" "dom H3 = dom H"
    "dring H3 h (map fst (rev (map event_effect evs) @ ?ps))"
    "\<forall>(a, g) \<in> set (rev (map event_effect evs) @ ?ps). node_runs E3 a g"
    unfolding H2(3) by blast
  then show ?case using put by (simp add: e)
qed

lemma fold_map_of:
  assumes "distinct (map fst ps)"
  shows "fold (\<lambda>a. the (map_of ps a)) (map fst ps) x = fold snd ps x"
proof -
  have "fold (\<lambda>p. the (map_of ps (fst p))) ps x = fold snd ps x"
  proof (rule fold_cong)
    fix p assume "p \<in> set ps"
    then have "(fst p, snd p) \<in> set ps" by simp
    from map_of_is_SomeI [OF assms this] show "the (map_of ps (fst p)) = snd p" by simp
  qed simp_all
  then show ?thesis by (simp add: fold_map comp_def)
qed

section \<open>Properties\<close>

text \<open>
  On a well-formed ring, inserting a fresh node after the head makes it the first node and
  inserting it before the head the last one; the ring stays well formed, and removing the node again
  restores the ring and leaves the node alone, linked to itself.
\<close>

theorem dlist_insert_remove:
  assumes "dring H h as" and "new \<in> dom H" and "new \<notin> set (h # as)"
  shows "\<exists>H1 H2 H3 H4. sdk_dlist_insert_after H h new = Some H1 \<and> dring H1 h (new # as)
    \<and> sdk_dlist_remove H1 new = Some H2 \<and> dring H2 h as \<and> dring H2 new []
    \<and> sdk_dlist_insert_before H h new = Some H3 \<and> dring H3 h (as @ [new])
    \<and> sdk_dlist_remove H3 new = Some H4 \<and> dring H4 h as \<and> dring H4 new []"
proof -
  obtain H1 where 1: "sdk_dlist_insert_after H h new = Some H1" "dring H1 h (new # as)"
    using insert_after_ring [OF assms] by blast
  obtain H3 where 3: "sdk_dlist_insert_before H h new = Some H3" "dring H3 h (as @ [new])"
    using insert_before_ring [OF assms] by blast
  show ?thesis
    using 1 3 remove_between [of H1 h "[]" new as] remove_between [of H3 h as new "[]"]
    by (auto simp: dring_def)
qed

definition ring_heap :: dheap where
  "ring_heap = [1 \<mapsto> \<lparr>dn_prev = 1, dn_next = 1\<rparr>, 2 \<mapsto> \<lparr>dn_prev = 0, dn_next = 0\<rparr>,
     3 \<mapsto> \<lparr>dn_prev = 0, dn_next = 0\<rparr>]"

lemma ring_heap_ring: "dring ring_heap 1 []"
  by (simp add: ring_heap_def dring_def link_def get_next_def get_prev_def)

theorem dlist_insert_remove_witness:
  "\<exists>H1 H2. sdk_dlist_insert_after ring_heap 1 2 = Some H1 \<and> dring H1 1 [2]
     \<and> sdk_dlist_remove H1 2 = Some H2 \<and> dring H2 1 []"
proof -
  have "2 \<in> dom ring_heap" "2 \<notin> set [1 :: addr]" by (simp_all add: ring_heap_def)
  from dlist_insert_remove [OF ring_heap_ring this] show ?thesis by blast
qed

text \<open>
  The event scheduler: events posted on an empty list are each run exactly once by
  \<open>event_sched_execute\<close>, with their own data and size, the last one posted first; the call returns and
  leaves the list empty.
\<close>

theorem event_sched_runs_posted_events:
  assumes "dring H h []" and "distinct (h # map fst evs)" and "set (map fst evs) \<subseteq> dom H"
  shows "\<exists>H1 E1 H2. post_events H E h evs = Some (H1, E1)
    \<and> event_sched_execute E1 h (H1, x)
        = Some (H2, fold (\<lambda>(n, data, sz, f). f data sz) (rev evs) x)
    \<and> dring H2 h []"
proof -
  let ?ps = "rev (map event_effect evs)"
  obtain H1 E1 where post: "post_events H E h evs = Some (H1, E1)" "dring H1 h (map fst ?ps)"
    "\<forall>(a, g) \<in> set ?ps. node_runs E1 a g"
    using post_events_ring [of H h "[]" evs E] assms by auto
  have d: "distinct (map fst ?ps)" using post(2) by (simp add: dring_def)
  have "sched_handlers E1 (\<lambda>a. the (map_of ?ps a)) (map fst ?ps)"
    unfolding sched_handlers_def
  proof
    fix a assume "a \<in> set (map fst ?ps)"
    then obtain g where "(a, g) \<in> set ?ps" unfolding set_map by (metis imageE prod.collapse)
    with post(3) map_of_is_SomeI [OF d] show "node_runs E1 a (the (map_of ?ps a))"
      by fastforce
  qed
  from sched_execute_ring [OF post(2) this, of x] obtain H2 where
    "event_sched_execute E1 h (H1, x) = Some (H2, fold snd ?ps x)" "dring H2 h []"
    unfolding fold_map_of [OF d] by blast
  moreover have "fold snd ?ps = fold (\<lambda>(n, data, sz, f). f data sz) (rev evs)"
  proof -
    have "snd \<circ> event_effect = (\<lambda>(n, data, sz, f). f data sz)" by (auto simp: event_effect_def)
    then show ?thesis unfolding rev_map fold_map by (rule arg_cong)
  qed
  ultimately show ?thesis using post(1) by metis
qed

theorem event_sched_runs_posted_events_witness:
  "\<exists>H1 E1 H2. post_events ring_heap (\<lambda>_. None) 1
       [(2, 5, 4, \<lambda>d s x. x @ [(d, s)]), (3, 6, 8, \<lambda>d s x. x @ [(d, s)])] = Some (H1, E1)
     \<and> event_sched_execute E1 1 (H1, []) = Some (H2, [(6, 8), (5, 4)])"
proof -
  let ?evs = "[(2, 5, 4, \<lambda>d s x. x @ [(d, s)]), (3, 6, 8, \<lambda>d s x. x @ [(d, s)])]
     :: (addr \<times> nat \<times> u16 \<times> (nat \<Rightarrow> u16 \<Rightarrow> (nat \<times> u16) list \<Rightarrow> (nat \<times> u16) list)) list"
  have "distinct (1 # map fst ?evs)" "set (map fst ?evs) \<subseteq> dom ring_heap"
    by (simp_all add: ring_heap_def)
  from event_sched_runs_posted_events [OF ring_heap_ring this, of "\<lambda>_. None" "[]"]
  show ?thesis by auto
qed

end
