(* ===== verification/App_Sched.thy ===== *)
theory App_Sched
  imports Queue_Interfaces
begin

text \<open>
  src/src/app_scheduler.c: the queue that carries events from interrupts to the main loop. The
  caller's buffer holds an array of headers followed by an array of event data. A handler is a
  function pointer \<open>'f\<close>; what calling it does is the argument \<open>call\<close> of \<open>app_sched_execute\<close>, and it
  may post events itself. \<open>None\<close> stands for an access outside the arrays.
\<close>

section \<open>State and operations\<close>

record 'f app_sched =
  sq_event_headers :: "('f \<times> u16) list"
  sq_event_data :: "u8 list"
  sq_start_index :: u8
  sq_end_index :: u8
  sq_event_size :: u16
  sq_queue_size :: u16

text \<open>
  \<open>event_header_t\<close> takes \<open>APP_SCHED_EVENT_HEADER_SIZE\<close> = 8 bytes. The offset of the data is a 16-bit
  number; when it does not fit the two arrays would overlap, which is outside this model.
\<close>

definition app_sched_init ::
    "u16 \<Rightarrow> u16 \<Rightarrow> ('f \<times> u16) list \<Rightarrow> u8 list \<Rightarrow> (s32 \<times> 'f app_sched) option" where
  "app_sched_init event_size queue_size headers data =
     (let data_start_index = (ucast ((ucast queue_size + 1 :: u32) * 8) :: u16)
      in if unat data_start_index = (unat queue_size + 1) * 8
         then Some (SDK_OK, \<lparr>sq_event_headers = headers, sq_event_data = data, sq_start_index = 0,
                sq_end_index = 0, sq_event_size = event_size, sq_queue_size = queue_size\<rparr>)
         else None)"

text \<open>\<open>next_index\<close>: the sum is computed as an \<open>int\<close> and truncated to the 8-bit index.\<close>

definition next_index :: "'f app_sched \<Rightarrow> u8 \<Rightarrow> u8" where
  "next_index s i = (if unat i < unat (sq_queue_size s) then i + 1 else 0)"

definition app_sched_queue_full :: "'f app_sched \<Rightarrow> bool" where
  "app_sched_queue_full s = (next_index s (sq_end_index s) = sq_start_index s)"

definition app_sched_queue_empty :: "'f app_sched \<Rightarrow> bool" where
  "app_sched_queue_empty s = (sq_end_index s = sq_start_index s)"

definition app_sched_event_put ::
    "u8 list option \<Rightarrow> u16 \<Rightarrow> 'f \<Rightarrow> 'f app_sched \<Rightarrow> (s32 \<times> 'f app_sched) option" where
  "app_sched_event_put p_event_data event_data_size handler s =
     (if event_data_size \<le> sq_event_size s
      then if \<not> app_sched_queue_full s
           then let event_index = sq_end_index s;
                    s1 = s\<lparr>sq_end_index := next_index s (sq_end_index s)\<rparr>
                in do {
                  (_, old_size) \<leftarrow> load (sq_event_headers s1) (unat event_index);
                  hs \<leftarrow> store (sq_event_headers s1) (unat event_index) (handler, old_size);
                  (case p_event_data of
                     Some d \<Rightarrow>
                       if 0 < event_data_size
                       then do {
                         data \<leftarrow> copy_bytes (sq_event_data s1)
                                   (unat event_index * unat (sq_event_size s1)) d 0 (unat event_data_size);
                         hs1 \<leftarrow> store hs (unat event_index) (handler, event_data_size);
                         Some (SDK_OK, s1\<lparr>sq_event_headers := hs1, sq_event_data := data\<rparr>) }
                       else do {
                         hs1 \<leftarrow> store hs (unat event_index) (handler, 0);
                         Some (SDK_OK, s1\<lparr>sq_event_headers := hs1\<rparr>) }
                   | None \<Rightarrow> do {
                         hs1 \<leftarrow> store hs (unat event_index) (handler, 0);
                         Some (SDK_OK, s1\<lparr>sq_event_headers := hs1\<rparr>) }) }
           else Some (SDK_E_MEMORY, s)
      else Some (SDK_E_INVALID, s))"

text \<open>The result is the handler, the event data it is given and its size.\<close>

definition app_sched_event_get ::
    "'f app_sched \<Rightarrow> (('f \<times> u8 list \<times> u16) option \<times> 'f app_sched) option" where
  "app_sched_event_get s =
     (if app_sched_queue_empty s then Some (None, s)
      else let event_index = sq_start_index s;
               s1 = s\<lparr>sq_start_index := next_index s (sq_start_index s)\<rparr>
           in do {
             (handler, sz) \<leftarrow> load (sq_event_headers s1) (unat event_index);
             data \<leftarrow> read_bytes (sq_event_data s1)
                       (unat event_index * unat (sq_event_size s1)) (unat sz);
             Some (Some (handler, data, sz), s1) })"

partial_function (option) app_sched_execute ::
    "('f \<Rightarrow> u8 list \<Rightarrow> u16 \<Rightarrow> 'f app_sched \<times> 'h \<Rightarrow> 'f app_sched \<times> 'h)
      \<Rightarrow> 'f app_sched \<times> 'h \<Rightarrow> ('f app_sched \<times> 'h) option" where
  "app_sched_execute call \<sigma> =
     (case app_sched_event_get (fst \<sigma>) of
        None \<Rightarrow> None
      | Some (r, s1) \<Rightarrow>
          (case r of
             None \<Rightarrow> Some (s1, snd \<sigma>)
           | Some (handler, data, sz) \<Rightarrow>
               app_sched_execute call (call handler data sz (s1, snd \<sigma>))))"

section \<open>Invariant and contents\<close>

text \<open>
  The queue uses one slot more than it can hold events. The indices have 8 bits, so a queue of more
  than 255 entries still holds 255.
\<close>

definition sq_cap :: "'f app_sched \<Rightarrow> nat" where
  "sq_cap s = min (unat (sq_queue_size s)) 255"

abbreviation sq_slots :: "'f app_sched \<Rightarrow> nat" where
  "sq_slots s \<equiv> Suc (sq_cap s)"

definition sq_len :: "'f app_sched \<Rightarrow> nat" where
  "sq_len s = (unat (sq_end_index s) + sq_slots s - unat (sq_start_index s)) mod sq_slots s"

definition slot_event :: "'f app_sched \<Rightarrow> nat \<Rightarrow> 'f \<times> u8 list \<times> u16" where
  "slot_event s i =
     (let (handler, sz) = sq_event_headers s ! i
      in (handler, take (unat sz) (drop (i * unat (sq_event_size s)) (sq_event_data s)), sz))"

definition sq_view :: "'f app_sched \<Rightarrow> ('f \<times> u8 list \<times> u16) list" where
  "sq_view s = map (\<lambda>k. slot_event s ((unat (sq_start_index s) + k) mod sq_slots s)) [0..<sq_len s]"

definition sq_inv :: "'f app_sched \<Rightarrow> bool" where
  "sq_inv s \<longleftrightarrow>
     unat (sq_start_index s) < sq_slots s \<and> unat (sq_end_index s) < sq_slots s
     \<and> sq_slots s \<le> length (sq_event_headers s)
     \<and> sq_slots s * unat (sq_event_size s) \<le> length (sq_event_data s)
     \<and> (\<forall>k < sq_len s. snd (sq_event_headers s ! ((unat (sq_start_index s) + k) mod sq_slots s))
           \<le> sq_event_size s)"

lemma next_index_nat:
  assumes "unat i < sq_slots s"
  shows "unat (next_index s i) = Suc (unat i) mod sq_slots s"
proof (cases "unat i < unat (sq_queue_size s)")
  case True
  have "unat (i + 1) = Suc (unat i) mod 256" by (simp add: unat_word_ariths)
  then show ?thesis
    using True assms unat_u8_less [of i]
    by (cases "unat i = 255") (auto simp: next_index_def sq_cap_def)
next
  case False
  then have "unat i = sq_cap s" using assms by (simp add: sq_cap_def)
  then show ?thesis using False by (simp add: next_index_def)
qed

lemma sq_len_less: "sq_len s < sq_slots s"
  by (simp add: sq_len_def)

lemma length_sq_view [simp]: "length (sq_view s) = sq_len s"
  by (simp add: sq_view_def)

lemma sq_end_index_len:
  assumes "sq_inv s"
  shows "unat (sq_end_index s) = (unat (sq_start_index s) + sq_len s) mod sq_slots s"
proof -
  have "unat (sq_start_index s) < sq_slots s" "unat (sq_end_index s) < sq_slots s"
    using assms by (simp_all add: sq_inv_def)
  from ring_distance_inverse [OF this] show ?thesis by (simp only: sq_len_def)
qed

lemma sq_len_unique:
  assumes "unat (sq_start_index s) < sq_slots s" and "l < sq_slots s"
    and "unat (sq_end_index s) = (unat (sq_start_index s) + l) mod sq_slots s"
  shows "sq_len s = l"
  using assms by (simp only: sq_len_def ring_distance_offset)

lemma sq_empty_iff:
  assumes "sq_inv s"
  shows "app_sched_queue_empty s \<longleftrightarrow> sq_len s = 0"
proof
  assume "app_sched_queue_empty s"
  then show "sq_len s = 0" by (simp add: app_sched_queue_empty_def sq_len_def)
next
  assume "sq_len s = 0"
  then show "app_sched_queue_empty s"
    using sq_end_index_len [OF assms] assms
    by (simp add: app_sched_queue_empty_def word_unat_eq_iff sq_inv_def)
qed

lemma sq_full_iff:
  assumes "sq_inv s"
  shows "app_sched_queue_full s \<longleftrightarrow> sq_len s = sq_cap s"
proof -
  let ?g = "unat (sq_start_index s)"
  have b: "?g < sq_slots s" "unat (sq_end_index s) < sq_slots s" using assms by (simp_all add: sq_inv_def)
  have nx: "unat (next_index s (sq_end_index s)) = (?g + Suc (sq_len s)) mod sq_slots s"
    using next_index_nat [OF b(2)] sq_end_index_len [OF assms] by (simp add: mod_simps)
  show ?thesis
  proof
    assume "app_sched_queue_full s"
    then have "(?g + Suc (sq_len s)) mod sq_slots s = (?g + 0) mod sq_slots s"
      using nx b by (simp add: app_sched_queue_full_def)
    then show "sq_len s = sq_cap s"
      using ring_index_inj [of "Suc (sq_len s)" "sq_slots s" 0 ?g] sq_len_less [of s]
      by (metis Suc_lessI nat.distinct(1) old.nat.inject zero_less_Suc)
  next
    assume "sq_len s = sq_cap s"
    then show "app_sched_queue_full s"
      using nx b mod_add_self2 [of ?g "sq_slots s"]
      by (simp add: app_sched_queue_full_def word_unat_eq_iff)
  qed
qed

text \<open>Slots of the data array do not overlap.\<close>

lemma slot_disjoint:
  fixes i j es n m :: nat
  assumes "i \<noteq> j" and "n \<le> es" and "m \<le> es"
  shows "i * es + n \<le> j * es \<or> j * es + m \<le> i * es"
proof -
  have "i * es + es \<le> j * es" if "i < j" for i j
    using that mult_le_mono1 [of "Suc i" j es] by simp
  then show ?thesis using assms by (meson add_le_mono le_refl le_trans linorder_neqE_nat)
qed

section \<open>Taking an event\<close>

lemma sq_get_Nil: "sq_inv s \<Longrightarrow> sq_view s = [] \<Longrightarrow> app_sched_event_get s = Some (None, s)"
  using sq_empty_iff [of s] length_sq_view [of s] by (simp add: app_sched_event_get_def)

lemma slot_in_bounds:
  assumes "sq_inv s" and "i < sq_slots s" and "n \<le> unat (sq_event_size s)"
  shows "i * unat (sq_event_size s) + n \<le> length (sq_event_data s)"
proof -
  have "i * unat (sq_event_size s) + n \<le> Suc i * unat (sq_event_size s)" using assms(3) by simp
  also have "\<dots> \<le> sq_slots s * unat (sq_event_size s)" using assms(2) by (intro mult_le_mono1) simp
  also have "\<dots> \<le> length (sq_event_data s)" using assms(1) unfolding sq_inv_def by blast
  finally show ?thesis .
qed

lemma sq_slot_size: "sq_inv s \<Longrightarrow> k < sq_len s \<Longrightarrow>
    snd (sq_event_headers s ! ((unat (sq_start_index s) + k) mod sq_slots s)) \<le> sq_event_size s"
  unfolding sq_inv_def by blast

lemma sq_get_Cons:
  assumes inv: "sq_inv s" and v: "sq_view s = x # xs"
  shows "\<exists>s1. app_sched_event_get s = Some (Some x, s1) \<and> sq_inv s1 \<and> sq_view s1 = xs
    \<and> sq_cap s1 = sq_cap s"
proof -
  let ?g = "unat (sq_start_index s)" and ?s1 = "s\<lparr>sq_start_index := next_index s (sq_start_index s)\<rparr>"
  have b: "?g < sq_slots s" "sq_slots s \<le> length (sq_event_headers s)"
    using inv by (simp_all add: sq_inv_def)
  have cap: "sq_cap ?s1 = sq_cap s" by (simp add: sq_cap_def)
  have g1: "unat (sq_start_index ?s1) = Suc ?g mod sq_slots s" using next_index_nat [OF b(1)] by simp
  have len: "sq_len s = Suc (length xs)" using v length_sq_view [of s] by simp
  have sh: "(Suc ?g mod sq_slots s + k) mod sq_slots s = (?g + Suc k) mod sq_slots s" for k
    by (simp add: mod_simps)
  have len1: "sq_len ?s1 = length xs"
  proof (rule sq_len_unique)
    show "unat (sq_start_index ?s1) < sq_slots ?s1" using g1 cap by simp
    show "length xs < sq_slots ?s1" using len sq_len_less [of s] cap by simp
    show "unat (sq_end_index ?s1) = (unat (sq_start_index ?s1) + length xs) mod sq_slots ?s1"
      unfolding g1 cap sh using sq_end_index_len [OF inv] len by simp
  qed
  have slot: "slot_event ?s1 i = slot_event s i" for i by (simp add: slot_event_def)
  have "sq_view s = slot_event s (?g mod sq_slots s)
      # map (\<lambda>k. slot_event s ((?g + Suc k) mod sq_slots s)) [0..<length xs]"
    unfolding sq_view_def len
    by (simp add: upt_conv_Cons map_Suc_upt [symmetric] del: upt_Suc)
  then have x: "x = slot_event s ?g"
    and xs: "xs = map (\<lambda>k. slot_event s ((?g + Suc k) mod sq_slots s)) [0..<length xs]"
    using v b by simp_all
  have "sq_view ?s1 = xs"
    unfolding sq_view_def len1 g1 cap slot sh using xs by simp
  moreover have "sq_inv ?s1"
  proof -
    have "snd (sq_event_headers s ! ((?g + Suc k) mod sq_slots s)) \<le> sq_event_size s"
      if "k < length xs" for k
      using sq_slot_size [OF inv, of "Suc k"] that len by simp
    then show ?thesis using inv len1 g1 cap sh by (simp add: sq_inv_def)
  qed
  moreover have "app_sched_event_get s = Some (Some x, ?s1)"
  proof -
    obtain f sz where hd: "sq_event_headers s ! ?g = (f, sz)" by fastforce
    have "snd (sq_event_headers s ! ((?g + 0) mod sq_slots s)) \<le> sq_event_size s"
      using sq_slot_size [OF inv, of 0] len by simp
    then have "unat sz \<le> unat (sq_event_size s)" using hd b by (simp add: word_le_nat_alt)
    from slot_in_bounds [OF inv b(1) this]
    have "read_bytes (sq_event_data s) (?g * unat (sq_event_size s)) (unat sz)
        = Some (take (unat sz) (drop (?g * unat (sq_event_size s)) (sq_event_data s)))"
      by (rule read_bytes_in)
    moreover have "\<not> app_sched_queue_empty s" using sq_empty_iff [OF inv] len by simp
    ultimately show ?thesis
      using hd b by (simp add: app_sched_event_get_def load_in x slot_event_def Let_def)
  qed
  ultimately show ?thesis using cap by blast
qed

text \<open>The main loop's side of the queue is the drainable queue of the interfaces.\<close>

interpretation schedq: drainable_queue app_sched_event_get sq_view sq_inv sq_cap
proof unfold_locales
  fix q :: "'f app_sched" and x xs
  show "sq_inv q \<Longrightarrow> sq_view q = [] \<Longrightarrow> app_sched_event_get q = Some (None, q)"
    by (rule sq_get_Nil)
  show "sq_inv q \<Longrightarrow> sq_view q = x # xs \<Longrightarrow>
      \<exists>q1. app_sched_event_get q = Some (Some x, q1) \<and> sq_inv q1 \<and> sq_view q1 = xs \<and> sq_cap q1 = sq_cap q"
    by (rule sq_get_Cons)
  show "sq_inv q \<Longrightarrow> length (sq_view q) \<le> sq_cap q"
    using sq_len_less [of q] by simp
qed

section \<open>Posting an event\<close>

text \<open>What a post stores: the handler, the bytes and their number.\<close>

definition posted_event :: "u8 list option \<Rightarrow> u16 \<Rightarrow> 'f \<Rightarrow> 'f \<times> u8 list \<times> u16" where
  "posted_event p sz handler =
     (case p of None \<Rightarrow> (handler, [], 0) | Some d \<Rightarrow> (handler, take (unat sz) d, sz))"

lemma sq_append_step:
  fixes s :: "'f app_sched" and handler :: 'f and n :: u16 and data :: "u8 list"
  assumes inv: "sq_inv s" and room: "sq_len s < sq_cap s" and n: "n \<le> sq_event_size s"
    and data: "length data = length (sq_event_data s)"
      "read_bytes data (unat (sq_end_index s) * unat (sq_event_size s)) (unat n) = Some bs"
      "\<And>i k. i \<noteq> unat (sq_end_index s) \<Longrightarrow> k \<le> unat (sq_event_size s) \<Longrightarrow>
         read_bytes data (i * unat (sq_event_size s)) k
         = read_bytes (sq_event_data s) (i * unat (sq_event_size s)) k"
  defines "s1 \<equiv> s\<lparr>sq_end_index := next_index s (sq_end_index s),
      sq_event_headers := (sq_event_headers s)[unat (sq_end_index s) := (handler, n)],
      sq_event_data := data\<rparr>"
  shows "sq_inv s1" and "sq_view s1 = sq_view s @ [(handler, bs, n)]" and "sq_cap s1 = sq_cap s"
proof -
  let ?g = "unat (sq_start_index s)" and ?e = "unat (sq_end_index s)" and ?es = "unat (sq_event_size s)"
  show cap: "sq_cap s1 = sq_cap s" by (simp add: s1_def sq_cap_def)
  have b: "?g < sq_slots s" "?e < sq_slots s" "sq_slots s \<le> length (sq_event_headers s)"
    using inv by (simp_all add: sq_inv_def)
  have e: "?e = (?g + sq_len s) mod sq_slots s" by (rule sq_end_index_len [OF inv])
  have e1: "unat (sq_end_index s1) = (?g + Suc (sq_len s)) mod sq_slots s"
    using next_index_nat [OF b(2)] e by (simp add: s1_def mod_simps)
  have g1: "sq_start_index s1 = sq_start_index s" by (simp add: s1_def)
  have len: "sq_len s1 = Suc (sq_len s)"
    using b room e1 by (intro sq_len_unique) (simp_all add: cap g1)
  have ne: "(?g + k) mod sq_slots s \<noteq> ?e" if "k < sq_len s" for k
    using ring_index_inj [of k "sq_slots s" "sq_len s" ?g] that room e by auto
  have old: "slot_event s1 ((?g + k) mod sq_slots s) = slot_event s ((?g + k) mod sq_slots s)"
    if k: "k < sq_len s" for k
  proof -
    let ?i = "(?g + k) mod sq_slots s"
    obtain f sz where hd: "sq_event_headers s ! ?i = (f, sz)" by fastforce
    have "snd (sq_event_headers s ! ?i) \<le> sq_event_size s" by (rule sq_slot_size [OF inv k])
    then have sz: "unat sz \<le> ?es" using hd by (simp add: word_le_nat_alt)
    have i: "?i < sq_slots s" by simp
    note bd = slot_in_bounds [OF inv i sz]
    have "take (unat sz) (drop (?i * ?es) data) = take (unat sz) (drop (?i * ?es) (sq_event_data s))"
      using data(3) [OF ne [OF k] sz] bd data(1) by (simp add: read_bytes_in)
    then show ?thesis using hd ne [OF k] by (simp add: slot_event_def s1_def)
  qed
  have new: "slot_event s1 ?e = (handler, bs, n)"
    using data(2) b by (auto simp: slot_event_def s1_def read_bytes_def split: if_splits)
  have "sq_view s1 = map (\<lambda>k. slot_event s1 ((?g + k) mod sq_slots s)) [0..<sq_len s] @ [slot_event s1 ?e]"
    unfolding sq_view_def len g1 cap by (simp add: e)
  also have "map (\<lambda>k. slot_event s1 ((?g + k) mod sq_slots s)) [0..<sq_len s] = sq_view s"
    using old by (simp add: sq_view_def)
  finally show "sq_view s1 = sq_view s @ [(handler, bs, n)]" using new by simp
  have "snd (sq_event_headers s1 ! ((?g + k) mod sq_slots s)) \<le> sq_event_size s" if "k < Suc (sq_len s)" for k
  proof (cases "k = sq_len s")
    case True
    then show ?thesis using b n unfolding True e [symmetric] by (simp add: s1_def)
  next
    case False
    then have k: "k < sq_len s" using that by simp
    then have "snd (sq_event_headers s ! ((?g + k) mod sq_slots s)) \<le> sq_event_size s"
      by (rule sq_slot_size [OF inv])
    then show ?thesis using ne [OF k] by (simp add: s1_def)
  qed
  then show "sq_inv s1"
    using inv len g1 cap e1 data(1) by (simp add: sq_inv_def) (simp add: s1_def)
qed

lemma sq_put_free:
  assumes inv: "sq_inv s" and room: "sq_len s < sq_cap s" and sz: "sz \<le> sq_event_size s"
    and p: "\<And>d. p = Some d \<Longrightarrow> unat sz \<le> length d"
  shows "\<exists>s1. app_sched_event_put p sz handler s = Some (SDK_OK, s1)
    \<and> sq_inv s1 \<and> sq_view s1 = sq_view s @ [posted_event p sz handler] \<and> sq_cap s1 = sq_cap s"
proof -
  let ?e = "unat (sq_end_index s)" and ?es = "unat (sq_event_size s)"
  have b: "?e < sq_slots s" "?e < length (sq_event_headers s)" using inv by (simp_all add: sq_inv_def)
  have nf: "\<not> app_sched_queue_full s" using sq_full_iff [OF inv] room by simp
  obtain f0 sz0 where hd: "sq_event_headers s ! ?e = (f0, sz0)" by fastforce
  have le: "unat sz \<le> ?es" using sz by (simp add: word_le_nat_alt)
  have bd: "?e * ?es + unat sz \<le> length (sq_event_data s)" by (rule slot_in_bounds [OF inv b(1) le])
  show ?thesis
  proof (cases "p = None \<or> sz = 0")
    case True
    let ?s1 = "s\<lparr>sq_end_index := next_index s (sq_end_index s),
      sq_event_headers := (sq_event_headers s)[?e := (handler, 0)], sq_event_data := sq_event_data s\<rparr>"
    have "?e * ?es \<le> length (sq_event_data s)" using bd by simp
    then have rd: "read_bytes (sq_event_data s) (?e * ?es) (unat (0 :: u16)) = Some []"
      by (simp add: read_bytes_def)
    have "app_sched_event_put p sz handler s = Some (SDK_OK, ?s1)"
      using True sz nf hd b by (auto simp: app_sched_event_put_def Let_def mem_simps split: option.split)
    moreover have "posted_event p sz handler = (handler, [], 0)"
      using True by (auto simp: posted_event_def split: option.split)
    ultimately show ?thesis
      using sq_append_step [OF inv room word_zero_le refl rd refl, of handler] by metis
  next
    case False
    then obtain d where d: "p = Some d" "0 < sz" by (auto simp: word_gt_0)
    let ?bs = "take (unat sz) d"
    have lb: "length ?bs = unat sz" using p [OF d(1)] by simp
    obtain data where wr: "write_bytes (sq_event_data s) (?e * ?es) ?bs = Some data"
      using write_bytes_in [of "?e * ?es" ?bs] bd unfolding lb by blast
    have cp: "copy_bytes (sq_event_data s) (?e * ?es) d 0 (unat sz) = Some data"
      using wr p [OF d(1)] by (simp add: copy_bytes_def read_bytes_def)
    let ?s1 = "s\<lparr>sq_end_index := next_index s (sq_end_index s),
      sq_event_headers := (sq_event_headers s)[?e := (handler, sz)], sq_event_data := data\<rparr>"
    have put: "app_sched_event_put p sz handler s = Some (SDK_OK, ?s1)"
      using d sz nf hd b cp by (simp add: app_sched_event_put_def Let_def mem_simps)
    have rd: "read_bytes data (?e * ?es) (unat sz) = Some ?bs"
      using read_write_same [OF wr] unfolding lb .
    have dis: "read_bytes data (i * ?es) k = read_bytes (sq_event_data s) (i * ?es) k"
      if "i \<noteq> ?e" "k \<le> ?es" for i k
      using slot_disjoint [OF that(1,2) le] by (intro read_write_disjoint [OF wr]) (simp only: lb)
    have "posted_event p sz handler = (handler, ?bs, sz)" using d by (simp add: posted_event_def)
    with put show ?thesis
      using sq_append_step [OF inv room sz length_write_bytes [OF wr] rd dis, of handler] by metis
  qed
qed

section \<open>Running the queue\<close>

lemma sched_execute_view:
  assumes "\<And>f d n s h. call f d n (s, h) = (s, eff f d n h)"
  shows "sq_inv s \<Longrightarrow> \<exists>s1. app_sched_execute call (s, h)
      = Some (s1, fold (\<lambda>(f, d, n). eff f d n) (sq_view s) h)
    \<and> sq_inv s1 \<and> sq_view s1 = [] \<and> sq_cap s1 = sq_cap s"
proof (induction "sq_view s" arbitrary: s h)
  case Nil
  then show ?case
    using schedq.deq_Nil [of s] by (subst app_sched_execute.simps) simp
next
  case (Cons x xs)
  obtain f d n where x: "x = (f, d, n)" by (cases x)
  obtain s1 where s1: "app_sched_event_get s = Some (Some x, s1)" "sq_inv s1" "sq_view s1 = xs"
    "sq_cap s1 = sq_cap s"
    using schedq.deq_Cons [OF Cons.prems] Cons.hyps(2) by metis
  from Cons.hyps(1) [OF s1(3) [symmetric] s1(2), of "eff f d n h"] obtain s2 where
    "app_sched_execute call (s1, eff f d n h)
       = Some (s2, fold (\<lambda>(f, d, n). eff f d n) xs (eff f d n h))"
    "sq_inv s2" "sq_view s2 = []" "sq_cap s2 = sq_cap s"
    using s1(3,4) by auto
  then show ?case
    using s1(1) Cons.hyps(2) [symmetric] by (subst app_sched_execute.simps) (simp add: assms x)
qed

text \<open>Posting a list of events; the results are collected.\<close>

fun post_list ::
    "(u8 list option \<times> u16 \<times> 'f) list \<Rightarrow> 'f app_sched \<Rightarrow> (s32 list \<times> 'f app_sched) option" where
  "post_list [] s = Some ([], s)"
| "post_list ((p, sz, f) # evs) s =
     do { (r, s1) \<leftarrow> app_sched_event_put p sz f s; (rs, s2) \<leftarrow> post_list evs s1; Some (r # rs, s2) }"

lemma sq_put_keeps_size:
  "app_sched_event_put p sz f s = Some (r, s1) \<Longrightarrow> sq_event_size s1 = sq_event_size s"
  by (auto simp: app_sched_event_put_def Let_def split: if_splits bind_splits option.splits)

lemma post_list_view:
  "sq_inv s \<Longrightarrow> (\<And>p sz f. (p, sz, f) \<in> set evs \<Longrightarrow> sz \<le> sq_event_size s
       \<and> (\<forall>d. p = Some d \<longrightarrow> unat sz \<le> length d)) \<Longrightarrow>
     sq_len s + length evs \<le> sq_cap s \<Longrightarrow>
     \<exists>s1. post_list evs s = Some (replicate (length evs) SDK_OK, s1) \<and> sq_inv s1
       \<and> sq_view s1 = sq_view s @ map (\<lambda>(p, sz, f). posted_event p sz f) evs"
proof (induction evs arbitrary: s)
  case Nil
  then show ?case by simp
next
  case (Cons e evs)
  obtain p sz f where e: "e = (p, sz, f)" by (cases e)
  have "sq_len s < sq_cap s" "sz \<le> sq_event_size s" "\<And>d. p = Some d \<Longrightarrow> unat sz \<le> length d"
    using Cons.prems(2) [of p sz f] Cons.prems(3) e by auto
  from sq_put_free [OF Cons.prems(1) this] obtain s1 where
    s1: "app_sched_event_put p sz f s = Some (SDK_OK, s1)" "sq_inv s1"
      "sq_view s1 = sq_view s @ [posted_event p sz f]" "sq_cap s1 = sq_cap s" by blast
  have l1: "sq_len s1 = Suc (sq_len s)" using s1(3) length_sq_view [of s1] by simp
  have "sq_len s1 + length evs \<le> sq_cap s1" using l1 s1(4) Cons.prems(3) by simp
  moreover have "\<And>p sz f. (p, sz, f) \<in> set evs \<Longrightarrow> sz \<le> sq_event_size s1
      \<and> (\<forall>d. p = Some d \<longrightarrow> unat sz \<le> length d)"
    using Cons.prems(2) unfolding sq_put_keeps_size [OF s1(1)] by (metis list.set_intros(2))
  ultimately obtain s2 where "post_list evs s1 = Some (replicate (length evs) SDK_OK, s2)" "sq_inv s2"
    "sq_view s2 = sq_view s1 @ map (\<lambda>(p, sz, f). posted_event p sz f) evs"
    using Cons.IH [OF s1(2)] by blast
  then show ?case using s1(1,3) by (simp add: e)
qed

lemma sched_init_inv:
  assumes "unat queue_size < 8191" and "unat queue_size < length headers"
    and "(unat queue_size + 1) * unat event_size \<le> length data"
  shows "\<exists>s. app_sched_init event_size queue_size headers data = Some (SDK_OK, s) \<and> sq_inv s
    \<and> sq_view s = [] \<and> sq_cap s = min (unat queue_size) 255 \<and> sq_event_size s = event_size"
proof -
  have "(unat queue_size + 1) * 8 < 65536" using assms(1) by simp
  then have "unat (ucast ((ucast queue_size + 1 :: u32) * 8) :: u16) = (unat queue_size + 1) * 8"
    by (simp add: unat_ucast_mod unat_word_ariths)
  moreover have "Suc (min (unat queue_size) 255) * unat event_size \<le> length data"
    using assms(3) by (intro le_trans [OF mult_le_mono1 assms(3)]) simp
  ultimately show ?thesis
    using assms by (auto simp: app_sched_init_def Let_def sq_inv_def sq_view_def sq_len_def sq_cap_def)
qed

section \<open>Properties\<close>

text \<open>
  Posting an event never leaves the caller's memory and keeps the queue well formed: an event
  that is too large is refused as invalid, a full queue refuses with a memory error, both without
  any change, and otherwise the handler, the data and the size are appended behind the events that
  are already queued, which stay as they were.
\<close>

theorem app_sched_put_cases:
  assumes "sq_inv s" and "\<And>d. p = Some d \<Longrightarrow> unat sz \<le> length d"
  shows "\<exists>r s1. app_sched_event_put p sz handler s = Some (r, s1) \<and> sq_inv s1
    \<and> (if sq_event_size s < sz then r = SDK_E_INVALID \<and> s1 = s
       else if length (sq_view s) = sq_cap s then r = SDK_E_MEMORY \<and> s1 = s
       else r = SDK_OK \<and> sq_view s1 = sq_view s @ [posted_event p sz handler])"
proof (cases "sq_event_size s < sz")
  case True
  then have "\<not> sz \<le> sq_event_size s" by simp
  then show ?thesis using assms(1) True by (simp add: app_sched_event_put_def)
next
  case False
  then have le: "sz \<le> sq_event_size s" by simp
  show ?thesis
  proof (cases "sq_len s = sq_cap s")
    case True
    then show ?thesis using assms(1) sq_full_iff [OF assms(1)] le False by (simp add: app_sched_event_put_def)
  next
    case nf: False
    then have "sq_len s < sq_cap s" using sq_len_less [of s] by simp
    from sq_put_free [OF assms(1) this le assms(2)] nf False show ?thesis by auto
  qed
qed

definition demo_sched :: "nat app_sched" where
  "demo_sched = \<lparr>sq_event_headers = replicate 3 (0, 0), sq_event_data = replicate 12 0,
     sq_start_index = 0, sq_end_index = 0, sq_event_size = 4, sq_queue_size = 2\<rparr>"

lemma demo_sched_facts:
  "sq_inv demo_sched" "sq_view demo_sched = []" "sq_cap demo_sched = 2" "sq_event_size demo_sched = 4"
  by (simp_all add: sq_inv_def sq_view_def sq_len_def sq_cap_def demo_sched_def)

theorem app_sched_put_cases_witness:
  "\<exists>s1. app_sched_event_put (Some [1, 2, 3]) 2 9 demo_sched = Some (SDK_OK, s1) \<and> sq_view s1 = [(9, [1, 2], 2)]"
proof -
  have "unat (2 :: u16) \<le> length d" if "Some [1, 2, 3 :: u8] = Some d" for d using that by auto
  from app_sched_put_cases [of demo_sched "Some [1, 2, 3]" 2 9, OF demo_sched_facts(1) this]
  show ?thesis unfolding demo_sched_facts by (auto simp: posted_event_def)
qed

text \<open>
  C27. First in, first out: on a freshly initialised queue, with a buffer of the size the macro
  \<open>APP_SCHED_BUF_SIZE\<close> asks for, up to \<open>min queue_size 255\<close> events are all accepted, and
  \<open>app_sched_execute\<close> then runs their handlers once each, in the order they were posted, with the data
  they were posted with, and returns with the queue empty.
\<close>

theorem app_sched_fifo:
  assumes "unat queue_size < 8191" and "unat queue_size < length headers"
    and "(unat queue_size + 1) * unat event_size \<le> length data"
    and "\<And>p sz f. (p, sz, f) \<in> set evs \<Longrightarrow> sz \<le> event_size \<and> (\<forall>d. p = Some d \<longrightarrow> unat sz \<le> length d)"
    and "length evs \<le> min (unat queue_size) 255"
    and "\<And>f d n s h. call f d n (s, h) = (s, eff f d n h)"
  shows "\<exists>s0 s1 s2. app_sched_init event_size queue_size headers data = Some (SDK_OK, s0)
    \<and> post_list evs s0 = Some (replicate (length evs) SDK_OK, s1)
    \<and> app_sched_execute call (s1, h)
        = Some (s2, fold (\<lambda>(p, sz, f). case posted_event p sz f of (f, d, n) \<Rightarrow> eff f d n) evs h)
    \<and> sq_view s2 = []"
proof -
  obtain s0 where s0: "app_sched_init event_size queue_size headers data = Some (SDK_OK, s0)"
    "sq_inv s0" "sq_view s0 = []" "sq_cap s0 = min (unat queue_size) 255" "sq_event_size s0 = event_size"
    using sched_init_inv [OF assms(1-3)] by blast
  have "sq_len s0 = 0" using s0(3) length_sq_view [of s0] by simp
  then have "sq_len s0 + length evs \<le> sq_cap s0" using assms(5) s0(4) by simp
  with post_list_view [OF s0(2), of evs] assms(4) s0(3,5) obtain s1 where
    s1: "post_list evs s0 = Some (replicate (length evs) SDK_OK, s1)" "sq_inv s1"
      "sq_view s1 = map (\<lambda>(p, sz, f). posted_event p sz f) evs" by auto
  obtain s2 where s2: "app_sched_execute call (s1, h)
      = Some (s2, fold (\<lambda>(f, d, n). eff f d n) (sq_view s1) h)" "sq_view s2 = []"
    using sched_execute_view [of call eff, OF assms(6) s1(2)] by blast
  have "fold (\<lambda>(f, d, n). eff f d n) (map (\<lambda>(p, sz, f). posted_event p sz f) evs) h
      = fold (\<lambda>(p, sz, f). case posted_event p sz f of (f, d, n) \<Rightarrow> eff f d n) evs h"
    unfolding fold_map comp_def by (rule fun_cong [OF arg_cong [where f = "\<lambda>g. fold g evs"]]) auto
  then show ?thesis using s0(1) s1(1) s2 unfolding s1(3) by metis
qed

theorem app_sched_fifo_witness:
  "\<exists>s0 s1 s2. app_sched_init 4 2 (replicate 3 (0 :: nat, 0)) (replicate 12 0) = Some (SDK_OK, s0)
     \<and> post_list [(Some [1, 2], 2, 7), (None, 0, 8)] s0 = Some ([SDK_OK, SDK_OK], s1)
     \<and> app_sched_execute (\<lambda>f d n (s, h). (s, h @ [(f, d, n)])) (s1, []) = Some (s2, [(7, [1, 2], 2), (8, [], 0)])"
proof -
  have "\<exists>s0 s1 s2. app_sched_init 4 2 (replicate 3 (0 :: nat, 0)) (replicate 12 0) = Some (SDK_OK, s0)
     \<and> post_list [(Some [1, 2], 2, 7), (None, 0, 8)] s0
         = Some (replicate (length [(Some [1, 2 :: u8], 2 :: u16, 7 :: nat), (None, 0, 8)]) SDK_OK, s1)
     \<and> app_sched_execute (\<lambda>f d n (s, h). (s, h @ [(f, d, n)])) (s1, [])
         = Some (s2, fold (\<lambda>(p, sz, f). case posted_event p sz f of (f, d, n) \<Rightarrow> \<lambda>h. h @ [(f, d, n)])
             [(Some [1, 2], 2, 7), (None, 0, 8)] [])
     \<and> sq_view s2 = []"
    by (rule app_sched_fifo [where eff = "\<lambda>f d n h. h @ [(f, d, n)]"]) auto
  moreover have "replicate (length [(Some [1, 2 :: u8], 2 :: u16, 7 :: nat), (None, 0, 8)]) SDK_OK
      = [SDK_OK, SDK_OK]"
    and "fold (\<lambda>(p, sz, f). case posted_event p sz f of (f, d, n) \<Rightarrow> \<lambda>h. h @ [(f, d, n)])
      [(Some [1, 2], 2, 7 :: nat), (None, 0, 8)] [] = [(7, [1, 2], 2), (8, [], 0)]"
    by (simp_all add: posted_event_def)
  ultimately show ?thesis by metis
qed

end
