(* ===== verification/Bus_Frame.thy ===== *)
theory Bus_Frame
  imports Uart Ble
begin

text \<open>
  The frame layer of the two register buses: src/src/components/unibus/unibus_backend_uart.c,
  src/src/components/unibus/unibus_backend_ble.c (from line 330 on) and
  src/src/components/apbus/apbus_backend_uart.c. The three backends have the same code up to
  the two frame bytes, the pause of the reading loop and the port they read from, so the code is
  defined once over a \<open>bus_backend\<close> record and instantiated per backend.

  A frame is: two marker bytes, body length (low byte first), source, destination, function, index
  (low byte first), body, checksum (low byte first).
\<close>

section \<open>Configuration and messages\<close>

record bus_backend =
  bk_mark0 :: u8
  bk_mark1 :: u8
  bk_loop_delay :: s32
  bk_header_length :: nat
  bk_checksum_length :: nat
  bk_max_data_length :: nat

definition unibus_backend_uart :: bus_backend where
  "unibus_backend_uart = \<lparr>bk_mark0 = 0xAB, bk_mark1 = 0xBA, bk_loop_delay = 1,
     bk_header_length = 9, bk_checksum_length = 2, bk_max_data_length = 256\<rparr>"

definition unibus_backend_ble :: bus_backend where
  "unibus_backend_ble = \<lparr>bk_mark0 = 0xAB, bk_mark1 = 0xBA, bk_loop_delay = 5,
     bk_header_length = 9, bk_checksum_length = 2, bk_max_data_length = 256\<rparr>"

definition apbus_backend_uart :: bus_backend where
  "apbus_backend_uart = \<lparr>bk_mark0 = 0xBC, bk_mark1 = 0xCB, bk_loop_delay = 1,
     bk_header_length = 9, bk_checksum_length = 2, bk_max_data_length = 256\<rparr>"

text \<open>\<open>mm_body\<close> is the 256-byte array of the struct.\<close>

record msg_meta =
  mm_src_id :: u8
  mm_dest_id :: u8
  mm_cmd_func :: u8
  mm_index :: u16
  mm_body :: "u8 list"
  mm_body_len :: u16

definition BUS_MAX_MSG_LEN :: nat where
  "BUS_MAX_MSG_LEN = 280"

definition BUS_MAX_BODY_LEN :: nat where
  "BUS_MAX_BODY_LEN = 256"

definition BUS_ERR_NO :: s32 where
  "BUS_ERR_NO = 0"

definition BUS_ERR_PROTO_BROKEN :: s32 where
  "BUS_ERR_PROTO_BROKEN = - 1"

definition BUS_ERR_PROTO_CHECK :: s32 where
  "BUS_ERR_PROTO_CHECK = - 2"

section \<open>Making and checking frames\<close>

text \<open>\<open>for (i = 0; i < len; i++) sum += data[i]\<close> from index \<open>i\<close> on, \<open>n\<close> rounds.\<close>

fun lrc_loop :: "u8 list \<Rightarrow> nat \<Rightarrow> nat \<Rightarrow> u16 \<Rightarrow> u16 option" where
  "lrc_loop d i 0 s = Some s"
| "lrc_loop d i (Suc n) s = do { b \<leftarrow> load d i; lrc_loop d (Suc i) n (s + ucast b) }"

definition checksumLRC :: "u8 list \<Rightarrow> nat \<Rightarrow> nat \<Rightarrow> u16 option" where
  "checksumLRC d i n = do { s \<leftarrow> lrc_loop d i n 0; Some (- s) }"

text \<open>The bytes are stored from index 0 on; the result is the message array and its length.\<close>

definition bus_make_msg :: "bus_backend \<Rightarrow> msg_meta \<Rightarrow> u8 list \<Rightarrow> (s32 \<times> u8 list \<times> nat) option" where
  "bus_make_msg bk meta msg =
     do { body \<leftarrow> read_bytes (mm_body meta) 0 (unat (mm_body_len meta));
          m1 \<leftarrow> write_bytes msg 0 ([bk_mark0 bk, bk_mark1 bk, lo8 (mm_body_len meta),
                 hi8 (mm_body_len meta), mm_src_id meta, mm_dest_id meta, mm_cmd_func meta,
                 lo8 (mm_index meta), hi8 (mm_index meta)] @ body);
          let offset = 9 + unat (mm_body_len meta);
          checksum \<leftarrow> checksumLRC m1 2 (offset - 2);
          m2 \<leftarrow> write_bytes m1 offset [lo8 checksum, hi8 checksum];
          Some (BUS_ERR_NO, m2, offset + 2) }"

definition bus_check_integrity ::
    "bus_backend \<Rightarrow> u8 list \<Rightarrow> u32 \<Rightarrow> msg_meta \<Rightarrow> (s32 \<times> msg_meta) option" where
  "bus_check_integrity bk msg msg_len meta =
     do { m0 \<leftarrow> load msg 0; m1 \<leftarrow> load msg 1;
          if m0 \<noteq> bk_mark0 bk \<or> m1 \<noteq> bk_mark1 bk then Some (BUS_ERR_PROTO_BROKEN, meta)
          else do {
            m2 \<leftarrow> load msg 2; m3 \<leftarrow> load msg 3;
            let body_len = mk16 m2 m3;
            if unat msg_len < unat body_len + bk_header_length bk + bk_checksum_length bk
               \<or> bk_max_data_length bk + bk_header_length bk + bk_checksum_length bk < unat msg_len
            then Some (BUS_ERR_PROTO_BROKEN, meta)
            else do {
              checksum \<leftarrow> checksumLRC msg 2 (unat body_len + 7);
              c0 \<leftarrow> load msg (unat msg_len - 2);
              c1 \<leftarrow> load msg (unat msg_len - 1);
              if lo8 checksum \<noteq> c0 \<or> hi8 checksum \<noteq> c1 then Some (BUS_ERR_PROTO_CHECK, meta)
              else do {
                m4 \<leftarrow> load msg 4; m5 \<leftarrow> load msg 5; m6 \<leftarrow> load msg 6; m7 \<leftarrow> load msg 7; m8 \<leftarrow> load msg 8;
                body \<leftarrow> copy_bytes (mm_body meta) 0 msg (bk_header_length bk) (unat body_len);
                Some (BUS_ERR_NO, meta\<lparr>mm_src_id := m4, mm_dest_id := m5, mm_cmd_func := m6,
                  mm_index := mk16 m7 m8, mm_body := body, mm_body_len := body_len\<rparr>) } } } }"

text \<open>The functions of the three backends.\<close>

definition unibus_serial_make_msg :: "msg_meta \<Rightarrow> u8 list \<Rightarrow> (s32 \<times> u8 list \<times> nat) option" where
  "unibus_serial_make_msg = bus_make_msg unibus_backend_uart"

definition unibus_ble_make_msg :: "msg_meta \<Rightarrow> u8 list \<Rightarrow> (s32 \<times> u8 list \<times> nat) option" where
  "unibus_ble_make_msg = bus_make_msg unibus_backend_ble"

definition apbus_serial_make_msg :: "msg_meta \<Rightarrow> u8 list \<Rightarrow> (s32 \<times> u8 list \<times> nat) option" where
  "apbus_serial_make_msg = bus_make_msg apbus_backend_uart"

definition unibus_serial_check_integrity :: "u8 list \<Rightarrow> u32 \<Rightarrow> msg_meta \<Rightarrow> (s32 \<times> msg_meta) option" where
  "unibus_serial_check_integrity = bus_check_integrity unibus_backend_uart"

definition unibus_ble_check_integrity :: "u8 list \<Rightarrow> u32 \<Rightarrow> msg_meta \<Rightarrow> (s32 \<times> msg_meta) option" where
  "unibus_ble_check_integrity = bus_check_integrity unibus_backend_ble"

definition apbus_serial_check_integrity :: "u8 list \<Rightarrow> u32 \<Rightarrow> msg_meta \<Rightarrow> (s32 \<times> msg_meta) option" where
  "apbus_serial_check_integrity = bus_check_integrity apbus_backend_uart"

lemmas bus_backends = unibus_backend_uart_def unibus_backend_ble_def apbus_backend_uart_def

section \<open>Reading a frame from a port\<close>

text \<open>
  The reader is a protothread: it runs until it has to wait for more bytes and is resumed behind the
  wait. \<open>br_waiting\<close> is its resumption point, the other fields its static data and its timer. The
  port is read by the argument \<open>rd\<close>: \<open>rd p buf i n\<close> stores up to \<open>n\<close> bytes at index \<open>i\<close>.
\<close>

record bus_reader =
  br_waiting :: bool
  br_timer :: swtimer
  br_sum :: u32
  br_timeout_ms :: s32
  br_remaining_len :: s32
  br_step :: nat
  br_body_len :: u16

datatype pt_result = PT_WAITING | PT_YIELDED | PT_EXITED | PT_ENDED

text \<open>
  The body of the loop up to the decision how to go on: \<open>None\<close> in the first component ends the loop
  (\<open>break\<close>), otherwise it is the number of bytes \<open>rl\<close> read last.
\<close>

definition bus_read_header ::
    "bus_backend \<Rightarrow> u8 list \<Rightarrow> bus_reader \<Rightarrow> (u8 list \<times> bus_reader) option" where
  "bus_read_header bk buf r =
     (if br_sum r = 0 then do {
        b0 \<leftarrow> load buf 0;
        Some (buf, if b0 = bk_mark0 bk then r\<lparr>br_sum := 1\<rparr> else r) }
      else if br_sum r = 1 then do {
        b1 \<leftarrow> load buf 1;
        if b1 = bk_mark1 bk then Some (buf, r\<lparr>br_sum := 2\<rparr>)
        else if b1 = bk_mark0 bk then do { buf1 \<leftarrow> store buf 0 (bk_mark0 bk); Some (buf1, r) }
        else Some (buf, r\<lparr>br_sum := 0\<rparr>) }
      else if br_sum r = 2 then do {
        b2 \<leftarrow> load buf 2;
        Some (buf, r\<lparr>br_body_len := mk16 b2 (hi8 (br_body_len r)), br_sum := 3\<rparr>) }
      else if br_sum r = 3 then do {
        b3 \<leftarrow> load buf 3;
        let bl = mk16 (lo8 (br_body_len r)) b3;
        Some (buf, r\<lparr>br_body_len := bl, br_remaining_len := ucast bl + 7, br_sum := 4, br_step := 1\<rparr>) }
      else Some (buf, r))"

definition bus_read_body ::
    "('p \<Rightarrow> u8 list \<Rightarrow> nat \<Rightarrow> u32 \<Rightarrow> (s32 \<times> u8 list \<times> 'p) option) \<Rightarrow> bus_backend \<Rightarrow> u32 \<Rightarrow> bool
      \<Rightarrow> u8 list \<Rightarrow> bus_reader \<Rightarrow> 'p \<Rightarrow> (u32 option \<times> u8 list \<times> bus_reader \<times> 'p) option" where
  "bus_read_body rd bk len wait buf r p =
     (if len - br_sum r = 0 then Some (None, buf, r, p)
      else do {
        (brk, rl, buf1, r1, p1) \<leftarrow>
          (if br_step r = 0 then do {
             (rl, buf1, p1) \<leftarrow> rd p buf (unat (br_sum r)) 1;
             if rl = 1 then do {
               (buf2, r2) \<leftarrow> bus_read_header bk buf1 r;
               Some (False, rl, buf2, r2, p1) }
             else Some (\<not> wait \<and> br_sum r = 0, rl, buf1, r, p1) }
           else Some (False, 0, buf, r, p));
        if brk then Some (None, buf1, r1, p1)
        else do {
          (brk2, rl2, buf2, r2, p2) \<leftarrow>
            (if br_step r1 = 1 then do {
               (rl, buf2, p2) \<leftarrow> rd p1 buf1 (unat (br_sum r1)) (br_remaining_len r1);
               let r2 = r1\<lparr>br_sum := br_sum r1 + rl, br_remaining_len := br_remaining_len r1 - rl\<rparr>;
               Some (br_sum r2 = ucast (br_body_len r2) + 7 + 4, rl, buf2, r2, p2) }
             else Some (False, rl, buf1, r1, p1));
          Some (if brk2 then None else Some rl2, buf2, r2, p2) } })"

text \<open>
  The loop from its head. \<open>None\<close> stands for an access out of bounds and for a loop that does not end.
\<close>

partial_function (option) bus_read_loop ::
    "('p \<Rightarrow> u8 list \<Rightarrow> nat \<Rightarrow> u32 \<Rightarrow> (s32 \<times> u8 list \<times> 'p) option) \<Rightarrow> bus_backend \<Rightarrow> u32 \<Rightarrow> u32 \<Rightarrow> bool
      \<Rightarrow> u8 list \<Rightarrow> bus_reader \<Rightarrow> 'p \<Rightarrow> (pt_result \<times> u8 list \<times> bus_reader \<times> 'p) option" where
  "bus_read_loop rd bk tick len wait buf r p =
     (case bus_read_body rd bk len wait buf
             (r\<lparr>br_timer := swtimer_set tick (bk_loop_delay bk) (br_timer r)\<rparr>) p of
        None \<Rightarrow> None
      | Some (cont, buf1, r1, p1) \<Rightarrow>
          (case cont of
             None \<Rightarrow> Some (PT_ENDED, buf1, r1\<lparr>br_waiting := False\<rparr>, p1)
           | Some rl \<Rightarrow>
               if br_timeout_ms r1 = 0
               then Some (PT_ENDED, buf1, r1\<lparr>br_sum := 0, br_waiting := False\<rparr>, p1)
               else if rl = 0 then Some (PT_YIELDED, buf1, r1\<lparr>br_waiting := True\<rparr>, p1)
               else if 0 <s br_timeout_ms r1
               then bus_read_loop rd bk tick len wait buf1 r1 p1
               else Some (PT_ENDED, buf1, r1\<lparr>br_waiting := False\<rparr>, p1)))"

text \<open>
  One scheduling of the reader. At its end \<open>*psum\<close> is \<open>br_sum\<close>; while it waits \<open>*psum\<close> is not written.
\<close>

definition bus_read ::
    "('p \<Rightarrow> u8 list \<Rightarrow> nat \<Rightarrow> u32 \<Rightarrow> (s32 \<times> u8 list \<times> 'p) option) \<Rightarrow> bus_backend \<Rightarrow> u32 \<Rightarrow> s32 \<Rightarrow> u32 \<Rightarrow> bool
      \<Rightarrow> u8 list \<Rightarrow> bus_reader \<Rightarrow> 'p \<Rightarrow> (pt_result \<times> u8 list \<times> bus_reader \<times> 'p) option" where
  "bus_read rd bk tick response_timeout len wait buf r p =
     (if \<not> br_waiting r
      then bus_read_loop rd bk tick len wait buf
             (r\<lparr>br_sum := 0, br_timeout_ms := response_timeout, br_remaining_len := 0, br_step := 0,
                br_body_len := 0\<rparr>) p
      else if \<not> swtimer_expired tick (br_timer r) then Some (PT_YIELDED, buf, r, p)
      else let r1 = r\<lparr>br_timeout_ms := br_timeout_ms r - bk_loop_delay bk\<rparr>
           in if 0 <s br_timeout_ms r1 then bus_read_loop rd bk tick len wait buf r1 p
              else Some (PT_ENDED, buf, r1\<lparr>br_waiting := False\<rparr>, p))"

text \<open>The readers of the three backends.\<close>

definition unibus_serial_read ::
    "u32 \<Rightarrow> s32 \<Rightarrow> u32 \<Rightarrow> bool \<Rightarrow> u8 list \<Rightarrow> bus_reader \<Rightarrow> 'h sdk_uart
      \<Rightarrow> (pt_result \<times> u8 list \<times> bus_reader \<times> 'h sdk_uart) option" where
  "unibus_serial_read = bus_read uart_read_at unibus_backend_uart"

definition unibus_ble_read ::
    "u32 \<Rightarrow> s32 \<Rightarrow> u32 \<Rightarrow> bool \<Rightarrow> u8 list \<Rightarrow> bus_reader \<Rightarrow> ble_transport
      \<Rightarrow> (pt_result \<times> u8 list \<times> bus_reader \<times> ble_transport) option" where
  "unibus_ble_read = bus_read ble_read unibus_backend_ble"

definition apbus_serial_read ::
    "u32 \<Rightarrow> s32 \<Rightarrow> u32 \<Rightarrow> bool \<Rightarrow> u8 list \<Rightarrow> bus_reader \<Rightarrow> 'h sdk_uart
      \<Rightarrow> (pt_result \<times> u8 list \<times> bus_reader \<times> 'h sdk_uart) option" where
  "apbus_serial_read = bus_read uart_read_at apbus_backend_uart"

section \<open>Connecting and sending\<close>

definition unibus_serial_connect ::
    "'h sdk_uart_ops \<Rightarrow> ('h uart_st \<Rightarrow> 'h uart_st) \<Rightarrow> 'h uart_st \<Rightarrow> s32 \<times> 'h uart_st" where
  "unibus_serial_connect ops mutex_init \<sigma> =
     (BUS_ERR_NO, snd (sdk_uart_control ops 1 None (sdk_uart_open ops mutex_init 115200 8 78 1 \<sigma>)))"

definition apbus_serial_connect ::
    "'h sdk_uart_ops \<Rightarrow> ('h uart_st \<Rightarrow> 'h uart_st) \<Rightarrow> 'h uart_st \<Rightarrow> s32 \<times> 'h uart_st" where
  "apbus_serial_connect ops mutex_init \<sigma> =
     (BUS_ERR_NO, snd (sdk_uart_control ops 4 None
        (snd (sdk_uart_control ops 2 None (sdk_uart_open ops mutex_init 115200 8 78 1 \<sigma>)))))"

definition bus_serial_close :: "'h sdk_uart_ops \<Rightarrow> 'h uart_st \<Rightarrow> 'h uart_st" where
  "bus_serial_close ops \<sigma> = sdk_uart_close ops \<sigma>"

definition bus_serial_write ::
    "'h sdk_uart_ops \<Rightarrow> (s32 \<Rightarrow> 'h uart_st \<Rightarrow> 'h uart_st) \<Rightarrow> u8 list \<Rightarrow> s32 \<Rightarrow> 'h uart_st \<Rightarrow> s32 \<times> 'h uart_st" where
  "bus_serial_write ops delay_ms data len \<sigma> = sdk_uart_write ops delay_ms data len \<sigma>"

section \<open>The bytes of a frame\<close>

definition lrc_sum :: "u8 list \<Rightarrow> u16" where
  "lrc_sum bs = (\<Sum>b \<leftarrow> bs. ucast b)"

definition frame_payload :: "msg_meta \<Rightarrow> u8 list" where
  "frame_payload m = [lo8 (mm_body_len m), hi8 (mm_body_len m), mm_src_id m, mm_dest_id m,
     mm_cmd_func m, lo8 (mm_index m), hi8 (mm_index m)] @ take (unat (mm_body_len m)) (mm_body m)"

definition bus_frame :: "bus_backend \<Rightarrow> msg_meta \<Rightarrow> u8 list" where
  "bus_frame bk m = [bk_mark0 bk, bk_mark1 bk] @ frame_payload m
     @ [lo8 (- lrc_sum (frame_payload m)), hi8 (- lrc_sum (frame_payload m))]"

text \<open>The backends of the code, and messages whose body fits the array of the struct.\<close>

definition bus_backend_ok :: "bus_backend \<Rightarrow> bool" where
  "bus_backend_ok bk \<longleftrightarrow> bk \<in> {unibus_backend_uart, unibus_backend_ble, apbus_backend_uart}"

definition msg_meta_ok :: "msg_meta \<Rightarrow> bool" where
  "msg_meta_ok m \<longleftrightarrow> length (mm_body m) = 256 \<and> unat (mm_body_len m) \<le> 256"

lemma bus_backend_ok_lengths:
  assumes "bus_backend_ok bk"
  shows "bk_header_length bk = 9" and "bk_checksum_length bk = 2" and "bk_max_data_length bk = 256"
  using assms by (auto simp: bus_backend_ok_def bus_backends)

lemma length_frame_payload: "msg_meta_ok m \<Longrightarrow> length (frame_payload m) = unat (mm_body_len m) + 7"
  by (simp add: frame_payload_def msg_meta_ok_def)

lemma length_bus_frame: "msg_meta_ok m \<Longrightarrow> length (bus_frame bk m) = unat (mm_body_len m) + 11"
  by (simp add: bus_frame_def length_frame_payload)

lemma lrc_sum_append: "lrc_sum (xs @ ys) = lrc_sum xs + lrc_sum ys"
  by (simp add: lrc_sum_def)

lemma lrc_loop_sum: "i + n \<le> length d \<Longrightarrow> lrc_loop d i n s = Some (s + lrc_sum (take n (drop i d)))"
proof (induction n arbitrary: i s)
  case 0
  then show ?case by (simp add: lrc_sum_def)
next
  case (Suc n)
  then have "take (Suc n) (drop i d) = d ! i # take n (drop (Suc i) d)"
    by (simp add: Cons_nth_drop_Suc [symmetric])
  with Suc show ?case by (simp add: load_in lrc_sum_def add.assoc)
qed

lemma checksumLRC_sum: "i + n \<le> length d \<Longrightarrow> checksumLRC d i n = Some (- lrc_sum (take n (drop i d)))"
  by (simp add: checksumLRC_def lrc_loop_sum)

lemma bus_make_msg_frame:
  assumes "msg_meta_ok m" and "length msg = BUS_MAX_MSG_LEN"
  shows "bus_make_msg bk m msg = Some (BUS_ERR_NO,
    bus_frame bk m @ drop (unat (mm_body_len m) + 11) msg, unat (mm_body_len m) + 11)"
proof -
  let ?n = "unat (mm_body_len m)"
  let ?h = "bk_mark0 bk # bk_mark1 bk # frame_payload m"
  let ?m1 = "?h @ drop (?n + 9) msg"
  have n: "?n \<le> 256" "length (mm_body m) = 256" using assms(1) by (simp_all add: msg_meta_ok_def)
  have lp: "length (frame_payload m) = ?n + 7" by (rule length_frame_payload [OF assms(1)])
  have rd: "read_bytes (mm_body m) 0 ?n = Some (take ?n (mm_body m))" using n by (simp add: read_bytes_in)
  have "[bk_mark0 bk, bk_mark1 bk, lo8 (mm_body_len m), hi8 (mm_body_len m), mm_src_id m, mm_dest_id m,
      mm_cmd_func m, lo8 (mm_index m), hi8 (mm_index m)] @ take ?n (mm_body m) = ?h"
    by (simp add: frame_payload_def)
  moreover have "write_bytes msg 0 ?h = Some ?m1"
    using lp n assms(2) by (simp add: write_bytes_in BUS_MAX_MSG_LEN_def add.commute)
  ultimately have w1: "write_bytes msg 0 ([bk_mark0 bk, bk_mark1 bk, lo8 (mm_body_len m),
      hi8 (mm_body_len m), mm_src_id m, mm_dest_id m, mm_cmd_func m, lo8 (mm_index m), hi8 (mm_index m)]
      @ take ?n (mm_body m)) = Some ?m1" by simp
  have lm: "length ?m1 = 280" using lp n assms(2) by (simp add: BUS_MAX_MSG_LEN_def)
  have cs: "checksumLRC ?m1 2 (9 + ?n - 2) = Some (- lrc_sum (frame_payload m))"
    using lm lp n by (subst checksumLRC_sum) simp_all
  let ?c = "- lrc_sum (frame_payload m)"
  have "write_bytes ?m1 (9 + ?n) [lo8 ?c, hi8 ?c] = Some (?h @ [lo8 ?c, hi8 ?c] @ drop (?n + 11) msg)"
    using lm lp n assms(2) by (subst write_bytes_behind) (simp_all add: BUS_MAX_MSG_LEN_def add.commute)
  then show ?thesis
    using rd w1 cs by (simp add: bus_make_msg_def Let_def bus_frame_def add.commute)
qed

text \<open>What the check does with a complete message of \<open>n\<close> body bytes behind correct markers.\<close>

lemma bus_check_payload:
  assumes "bus_backend_ok bk" and "length msg = BUS_MAX_MSG_LEN" and "length (mm_body m0) = 256"
    and "take (n + 11) msg = [bk_mark0 bk, bk_mark1 bk] @ pl @ [c0, c1]" and "length pl = n + 7"
    and "mk16 (pl ! 0) (pl ! 1) = word_of_nat n" and "n \<le> 256"
  shows "bus_check_integrity bk msg (word_of_nat (n + 11)) m0 =
    (if c0 = lo8 (- lrc_sum pl) \<and> c1 = hi8 (- lrc_sum pl)
     then Some (BUS_ERR_NO, m0\<lparr>mm_src_id := pl ! 2, mm_dest_id := pl ! 3, mm_cmd_func := pl ! 4,
       mm_index := mk16 (pl ! 5) (pl ! 6), mm_body := drop 7 pl @ drop n (mm_body m0),
       mm_body_len := word_of_nat n\<rparr>)
     else Some (BUS_ERR_PROTO_CHECK, m0))"
proof -
  note bl = bus_backend_ok_lengths [OF assms(1)]
  have lm: "length msg = 280" using assms(2) by (simp add: BUS_MAX_MSG_LEN_def)
  have nth: "msg ! k = ([bk_mark0 bk, bk_mark1 bk] @ pl @ [c0, c1]) ! k" if "k < n + 11" for k
    using that assms(4) by (metis nth_take)
  have pl: "msg ! (2 + k) = pl ! k" if "k < n + 7" for k
    using nth [of "2 + k"] that assms(5) by (simp add: nth_append)
  have c: "msg ! (n + 9) = c0" "msg ! (n + 10) = c1"
    using nth [of "n + 9"] nth [of "n + 10"] assms(5) by (simp_all add: nth_append)
  have m: "msg ! 0 = bk_mark0 bk" "msg ! 1 = bk_mark1 bk" "msg ! 2 = pl ! 0" "msg ! 3 = pl ! 1"
    "msg ! 4 = pl ! 2" "msg ! 5 = pl ! 3" "msg ! 6 = pl ! 4" "msg ! 7 = pl ! 5" "msg ! 8 = pl ! 6"
    using nth [of 0] nth [of 1] pl [of 0] pl [of 1] pl [of 2] pl [of 3] pl [of 4] pl [of 5] pl [of 6]
    by (simp_all only: add_0_right numeral_plus_numeral add_num_simps one_add_one
        numeral_plus_one nth_Cons_0 nth_Cons_Suc append_Cons One_nat_def, simp_all add: numeral_2_eq_2 numeral_3_eq_3)
  have un: "unat (word_of_nat n :: u16) = n" "unat (word_of_nat (n + 11) :: u32) = n + 11"
    using assms(7) by (simp_all add: unat_of_nat del: of_nat_add)
  have tk: "take (n + 7) (drop 2 msg) = pl"
  proof -
    have "take (n + 7) (drop 2 msg) = take (n + 7) (drop 2 (take (n + 11) msg))"
      by (simp add: drop_take)
    then show ?thesis using assms(4,5) by simp
  qed
  have cs: "checksumLRC msg 2 (n + 7) = Some (- lrc_sum pl)"
    using lm assms(7) tk by (subst checksumLRC_sum) simp_all
  have body: "take n (drop 9 msg) = drop 7 pl"
  proof -
    have "take n (drop 9 msg) = drop 7 (take (n + 7) (drop 2 msg))" by (simp add: drop_take)
    then show ?thesis unfolding tk .
  qed
  have cp: "copy_bytes (mm_body m0) 0 msg 9 n = Some (drop 7 pl @ drop n (mm_body m0))"
    using lm assms(3,7) body by (subst copy_bytes_in) simp_all
  have "unat (word_of_nat (n + 11) :: u32) - 2 = n + 9" "unat (word_of_nat (n + 11) :: u32) - 1 = n + 10"
    using un(2) by simp_all
  then show ?thesis
    using un assms(6,7) bl lm m c cs cp
    by (auto simp: bus_check_integrity_def load_in Let_def add.commute simp del: of_nat_add)
qed

lemma bus_frame_parts:
  assumes "msg_meta_ok m"
  shows "bus_frame bk m = [bk_mark0 bk, bk_mark1 bk] @ frame_payload m
      @ [lo8 (- lrc_sum (frame_payload m)), hi8 (- lrc_sum (frame_payload m))]"
    and "mk16 (frame_payload m ! 0) (frame_payload m ! 1) = word_of_nat (unat (mm_body_len m))"
    and "drop 7 (frame_payload m) = take (unat (mm_body_len m)) (mm_body m)"
  by (simp_all add: bus_frame_def frame_payload_def)

lemma bus_check_own_frame:
  assumes "bus_backend_ok bk" and "msg_meta_ok m" and "length msg = BUS_MAX_MSG_LEN"
    and "length (mm_body m0) = 256"
    and "take (unat (mm_body_len m) + 11) msg = bus_frame bk m"
  shows "bus_check_integrity bk msg (word_of_nat (unat (mm_body_len m) + 11)) m0 = Some (BUS_ERR_NO,
    m0\<lparr>mm_src_id := mm_src_id m, mm_dest_id := mm_dest_id m, mm_cmd_func := mm_cmd_func m,
      mm_index := mm_index m, mm_body_len := mm_body_len m,
      mm_body := take (unat (mm_body_len m)) (mm_body m) @ drop (unat (mm_body_len m)) (mm_body m0)\<rparr>)"
proof -
  let ?pl = "frame_payload m"
  note parts = bus_frame_parts [OF assms(2)]
  have "unat (mm_body_len m) \<le> 256" using assms(2) by (simp add: msg_meta_ok_def)
  from bus_check_payload [OF assms(1,3,4) assms(5) [unfolded parts(1)] length_frame_payload [OF assms(2)]
      parts(2) this]
  show ?thesis unfolding parts(3) by (simp add: frame_payload_def)
qed

text \<open>Changing one byte changes the sum: bytes are smaller than the modulus of the checksum.\<close>

lemma lrc_sum_update:
  assumes "j < length xs" and "b \<noteq> xs ! j"
  shows "lrc_sum (xs[j := b]) \<noteq> lrc_sum xs"
proof -
  have "xs = take j xs @ [xs ! j] @ drop (Suc j) xs" using assms(1) by (simp add: id_take_nth_drop)
  then have 1: "lrc_sum xs = lrc_sum (take j xs) + ucast (xs ! j) + lrc_sum (drop (Suc j) xs)"
    by (metis (no_types) lrc_sum_append add.assoc lrc_sum_def list.map sum_list.Cons sum_list.Nil add.right_neutral)
  have 2: "lrc_sum (xs[j := b]) = lrc_sum (take j xs) + ucast b + lrc_sum (drop (Suc j) xs)"
    using assms(1) by (simp add: upd_conv_take_nth_drop lrc_sum_append) (simp add: lrc_sum_def)
  have "(ucast b :: u16) \<noteq> ucast (xs ! j)"
    using assms(2) by (metis unat_widen_8_16 word_unat_eq_iff)
  then show ?thesis unfolding 1 2 by simp
qed

lemma neg_bytes_differ: "v \<noteq> w \<Longrightarrow> \<not> (lo8 (- v) = lo8 (- w) \<and> hi8 (- v) = hi8 (- w))"
  by (simp add: lo8_hi8_eq_iff)

lemma bus_check_changed_byte:
  assumes "bus_backend_ok bk" and "msg_meta_ok m" and "length msg = BUS_MAX_MSG_LEN"
    and "length (mm_body m0) = 256"
    and "take (unat (mm_body_len m) + 11) msg = (bus_frame bk m)[k := b]"
    and "k < unat (mm_body_len m) + 11" and "k \<noteq> 2" and "k \<noteq> 3" and "b \<noteq> bus_frame bk m ! k"
  shows "\<exists>e. e \<noteq> BUS_ERR_NO
    \<and> bus_check_integrity bk msg (word_of_nat (unat (mm_body_len m) + 11)) m0 = Some (e, m0)"
proof (cases "k < 2")
  case True
  have "msg ! i = ((bus_frame bk m)[k := b]) ! i" if "i < unat (mm_body_len m) + 11" for i
    using that assms(5) by (metis nth_take)
  from this [of 0] this [of 1] True assms(9)
  have "msg ! 0 \<noteq> bk_mark0 bk \<or> msg ! 1 \<noteq> bk_mark1 bk"
    by (cases k) (auto simp: bus_frame_def less_Suc_eq)
  then show ?thesis
    using assms(3) by (intro exI [of _ BUS_ERR_PROTO_BROKEN])
      (auto simp: bus_check_integrity_def load_in BUS_MAX_MSG_LEN_def BUS_ERR_PROTO_BROKEN_def BUS_ERR_NO_def)
next
  case False
  let ?n = "unat (mm_body_len m)" and ?pl = "frame_payload m"
  let ?c = "- lrc_sum ?pl"
  have lp: "length ?pl = ?n + 7" by (rule length_frame_payload [OF assms(2)])
  have n: "?n \<le> 256" using assms(2) by (simp add: msg_meta_ok_def)
  note parts = bus_frame_parts [OF assms(2)]
  show ?thesis
  proof (cases "k < ?n + 9")
    case True
    let ?pl1 = "?pl[k - 2 := b]"
    obtain j where j: "k = Suc (Suc j)" using False by (metis add_2_eq_Suc le_Suc_ex not_less)
    have eq: "take (?n + 11) msg = [bk_mark0 bk, bk_mark1 bk] @ ?pl1 @ [lo8 ?c, hi8 ?c]"
      using assms(5) True lp unfolding parts(1) j by (simp add: list_update_append)
    have idx: "mk16 (?pl1 ! 0) (?pl1 ! 1) = word_of_nat ?n"
      using parts(2) assms(7,8) j by simp
    have "b \<noteq> ?pl ! (k - 2)" using assms(9) True lp unfolding parts(1) j by (simp add: nth_append)
    then have "lrc_sum ?pl1 \<noteq> lrc_sum ?pl" using lrc_sum_update [of "k - 2" ?pl b] lp True by simp
    from neg_bytes_differ [OF this [symmetric]]
      bus_check_payload [OF assms(1,3,4) eq _ idx n] lp
    show ?thesis by (intro exI [of _ BUS_ERR_PROTO_CHECK])
        (auto simp: BUS_ERR_PROTO_CHECK_def BUS_ERR_NO_def)
  next
    case nk: False
    have "length ([lo8 ?c, hi8 ?c][k - (?n + 9) := b]) = 2" by (simp only: length_list_update) simp
    then obtain c0 c1 where c: "[lo8 ?c, hi8 ?c][k - (?n + 9) := b] = [c0, c1]"
      unfolding numeral_2_eq_2 length_Suc_conv length_0_conv by blast
    have la: "length ([bk_mark0 bk, bk_mark1 bk] @ ?pl) = ?n + 9" using lp by simp
    have split: "bus_frame bk m = ([bk_mark0 bk, bk_mark1 bk] @ ?pl) @ [lo8 ?c, hi8 ?c]"
      unfolding parts(1) by simp
    have "(bus_frame bk m)[k := b] = ([bk_mark0 bk, bk_mark1 bk] @ ?pl) @ [c0, c1]"
      unfolding split list_update_append la if_not_P [OF nk] c ..
    then have eq: "take (?n + 11) msg = [bk_mark0 bk, bk_mark1 bk] @ ?pl @ [c0, c1]"
      unfolding assms(5) by simp
    have "b \<noteq> [lo8 ?c, hi8 ?c] ! (k - (?n + 9))"
      using assms(9) unfolding split nth_append la if_not_P [OF nk] .
    then have "\<not> (c0 = lo8 ?c \<and> c1 = hi8 ?c)"
      using c assms(6) nk by (cases "k - (?n + 9)") (auto simp: nth_Cons' less_Suc_eq split: nat.splits)
    with bus_check_payload [OF assms(1,3,4) eq lp parts(2) n]
    show ?thesis by (intro exI [of _ BUS_ERR_PROTO_CHECK])
        (auto simp: BUS_ERR_PROTO_CHECK_def BUS_ERR_NO_def)
  qed
qed

section \<open>Ports the reader can be run on\<close>

text \<open>
  What the reader needs of a port: a read delivers and removes the oldest pending bytes, as
  many as were asked for or are there, at the place it is told; when they do not fit the access is
  out of bounds.
\<close>

locale byte_source =
  fixes rd :: "'p \<Rightarrow> u8 list \<Rightarrow> nat \<Rightarrow> u32 \<Rightarrow> (s32 \<times> u8 list \<times> 'p) option"
    and view :: "'p \<Rightarrow> u8 list"
    and inv :: "'p \<Rightarrow> bool"
  assumes rd_view: "inv p \<Longrightarrow> i + min (unat n) (length (view p)) \<le> length buf \<Longrightarrow>
      \<exists>p1. rd p buf i n = Some (word_of_nat (min (unat n) (length (view p))),
          take i buf @ take (unat n) (view p) @ drop (i + min (unat n) (length (view p))) buf, p1)
        \<and> inv p1 \<and> view p1 = drop (unat n) (view p)"
    and rd_overrun: "inv p \<Longrightarrow> i \<le> length buf \<Longrightarrow>
      length buf < i + min (unat n) (length (view p)) \<Longrightarrow> rd p buf i n = None"
begin

lemma rd_one:
  assumes "inv p" and "view p = b # bs" and "i < length buf"
  shows "\<exists>p1. rd p buf i 1 = Some (1, buf[i := b], p1) \<and> inv p1 \<and> view p1 = bs"
  using rd_view [OF assms(1), of i 1 buf] assms(2,3) by (simp add: upd_conv_take_nth_drop)

text \<open>A round of the loop that reads one byte of the header.\<close>

lemma read_header_round:
  assumes "inv p" and "view p = b # bs" and "br_sum r = word_of_nat i" and "i < 4" and "br_step r = 0"
    and "i < length buf" and "bus_read_header bk (buf[i := b]) r = Some (buf2, r2)" and "br_step r2 = 0"
  shows "\<exists>p1. inv p1 \<and> view p1 = bs \<and> bus_read_body rd bk 267 wait buf r p = Some (Some 1, buf2, r2, p1)"
proof -
  obtain p1 where p1: "rd p buf i 1 = Some (1, buf[i := b], p1)" "inv p1" "view p1 = bs"
    using rd_one [OF assms(1,2,6)] by blast
  have i: "unat (word_of_nat i :: u32) = i" using assms(4) by (simp add: unat_of_nat)
  have "(267 :: u32) - word_of_nat i \<noteq> 0"
  proof
    assume "(267 :: u32) - word_of_nat i = 0"
    then have "unat (267 :: u32) = unat (word_of_nat i :: u32)" by simp
    then show False using i assms(4) by simp
  qed
  then show ?thesis
    using p1 i assms(3,5,7,8) by (intro exI [of _ p1]) (simp add: bus_read_body_def)
qed

text \<open>The round that reads the high byte of the length and then the rest of the frame.\<close>

lemma read_body_round:
  assumes "inv p" and "view p = b # pl @ rest" and "br_sum r = 3" and "br_step r = 0"
    and "mk16 (lo8 (br_body_len r)) b = word_of_nat n" and "n \<le> 256" and "length pl = n + 7"
    and "length buf = 280"
  shows "\<exists>p1 r1. inv p1 \<and> view p1 = rest \<and> br_sum r1 = word_of_nat (n + 11)
    \<and> bus_read_body rd bk 267 wait buf r p = Some (None, take 3 buf @ b # pl @ drop (n + 11) buf, r1, p1)"
proof -
  obtain p1 where p1: "rd p buf 3 1 = Some (1, buf[3 := b], p1)" "inv p1" "view p1 = pl @ rest"
    using rd_one [OF assms(1,2), of 3 buf] assms(8) by auto
  let ?rem = "ucast (word_of_nat n :: u16) + 7 :: s32"
  have n16: "unat (word_of_nat n :: u16) = n" using assms(6) by (simp add: unat_of_nat)
  have rem: "?rem = word_of_nat (n + 7)" using n16 by (simp add: word_unat_eq_iff unat_word_ariths)
      (metis of_nat_unat n16 unat_widen_16_32 unat_of_nat)
  have urem: "unat ?rem = n + 7" unfolding rem using assms(6) by (simp add: unat_of_nat del: of_nat_add)
  have "4 + min (unat ?rem) (length (view p1)) \<le> length (buf[3 := b])"
    unfolding urem using p1(3) assms(6-8) by simp
  from rd_view [OF p1(2) this] obtain p2 where p2:
    "rd p1 (buf[3 := b]) 4 ?rem = Some (?rem, take 4 (buf[3 := b]) @ pl @ drop (n + 11) buf, p2)"
    "inv p2" "view p2 = rest"
    unfolding urem using p1(3) assms(7) rem by (auto simp: drop_update_cancel add.commute [of 11 n])
  have tk: "take 4 (buf[3 := b]) = take 3 buf @ [b]"
    using assms(8) by (simp add: upd_conv_take_nth_drop)
  let ?r1 = "r\<lparr>br_body_len := word_of_nat n, br_remaining_len := ?rem, br_sum := 4, br_step := 1\<rparr>"
  have hd: "bus_read_header bk (buf[3 := b]) r = Some (buf[3 := b], ?r1)"
    using assms(3,5,8) by (simp add: bus_read_header_def load_in Let_def)
  have "bus_read_body rd bk 267 wait buf r p = Some (None, take 3 buf @ b # pl @ drop (n + 11) buf,
      ?r1\<lparr>br_sum := 4 + ?rem, br_remaining_len := 0\<rparr>, p2)"
    using assms(3,4) p1(1) p2(1) hd tk by (simp add: bus_read_body_def Let_def)
  moreover have "4 + ?rem = word_of_nat (n + 11)" unfolding rem by simp
  ultimately show ?thesis using p2(2,3) by (intro exI [of _ p2] exI) auto
qed

lemma loop_header_round:
  assumes "inv p" and "view p = b # bs" and "br_sum r = word_of_nat i" and "i < 4" and "br_step r = 0"
    and "length buf = 280" and "0 <s br_timeout_ms r"
    and hd: "\<And>tm. bus_read_header bk (buf[i := b]) (r\<lparr>br_timer := tm\<rparr>)
      = Some (buf2, r\<lparr>br_timer := tm, br_sum := s2, br_body_len := bl2\<rparr>)"
  shows "\<exists>p1 r1. bus_read_loop rd bk tick 267 wait buf r p = bus_read_loop rd bk tick 267 wait buf2 r1 p1
    \<and> inv p1 \<and> view p1 = bs \<and> br_sum r1 = s2 \<and> br_body_len r1 = bl2 \<and> br_step r1 = 0
    \<and> br_timeout_ms r1 = br_timeout_ms r"
proof -
  let ?tm = "swtimer_set tick (bk_loop_delay bk) (br_timer r)"
  let ?r1 = "r\<lparr>br_timer := ?tm, br_sum := s2, br_body_len := bl2\<rparr>"
  obtain p1 where p1: "inv p1" "view p1 = bs"
    "bus_read_body rd bk 267 wait buf (r\<lparr>br_timer := ?tm\<rparr>) p = Some (Some 1, buf2, ?r1, p1)"
    using read_header_round [OF assms(1,2), of "r\<lparr>br_timer := ?tm\<rparr>" i buf bk buf2 ?r1 wait] assms(3-6) hd
    by auto
  have "br_timeout_ms r \<noteq> 0" using assms(7) by auto
  then have "bus_read_loop rd bk tick 267 wait buf r p = bus_read_loop rd bk tick 267 wait buf2 ?r1 p1"
    using p1(3) assms(7) by (subst bus_read_loop.simps) simp
  then show ?thesis using p1(1,2) assms(5) by (intro exI [of _ p1] exI [of _ ?r1]) simp
qed

text \<open>Bytes that are not the first marker are skipped.\<close>

lemma loop_skip_junk:
  assumes "bk_mark0 bk \<notin> set junk" and "length buf = 280" and "0 <s br_timeout_ms r"
    and "br_sum r = 0" and "br_step r = 0" and "inv p" and "view p = junk @ bs"
  shows "\<exists>buf1 p1 r1. bus_read_loop rd bk tick 267 wait buf r p = bus_read_loop rd bk tick 267 wait buf1 r1 p1
    \<and> length buf1 = 280 \<and> drop 1 buf1 = drop 1 buf \<and> inv p1 \<and> view p1 = bs \<and> br_sum r1 = 0
    \<and> br_step r1 = 0 \<and> br_timeout_ms r1 = br_timeout_ms r"
  using assms
proof (induction junk arbitrary: buf r p)
  case Nil
  then show ?case by (intro exI [of _ buf] exI [of _ p] exI [of _ r]) simp
next
  case (Cons b junk)
  have "bus_read_header bk (buf[0 := b]) (r\<lparr>br_timer := tm\<rparr>)
      = Some (buf[0 := b], r\<lparr>br_timer := tm, br_sum := 0, br_body_len := br_body_len r\<rparr>)" for tm
    using Cons.prems(1,2,4) by (auto simp: bus_read_header_def load_in)
  from loop_header_round [OF Cons.prems(6) _ _ _ Cons.prems(5,2,3) this, of "junk @ bs" tick wait]
  obtain p1 r1 where 1: "bus_read_loop rd bk tick 267 wait buf r p
      = bus_read_loop rd bk tick 267 wait (buf[0 := b]) r1 p1"
    "inv p1" "view p1 = junk @ bs" "br_sum r1 = 0" "br_step r1 = 0" "br_timeout_ms r1 = br_timeout_ms r"
    using Cons.prems(4,7) by auto
  have "bk_mark0 bk \<notin> set junk" "length (buf[0 := b]) = 280" "0 <s br_timeout_ms r1"
    using Cons.prems(1-3) 1(6) by simp_all
  from Cons.IH [OF this 1(4,5,2,3)] show ?case
    unfolding 1(1) using 1(6) by (auto simp: drop_update_cancel)
qed

text \<open>The markers and the low byte of the length are found behind any such bytes.\<close>

lemma loop_reads_header:
  assumes "bk_mark0 bk \<notin> set junk" and "length buf = 280"
    and "0 <s br_timeout_ms r" and "br_sum r = 0" and "br_step r = 0" and "inv p"
    and "view p = junk @ bk_mark0 bk # bk_mark1 bk # lo # bs"
  shows "\<exists>buf3 p3 r3. bus_read_loop rd bk tick 267 wait buf r p = bus_read_loop rd bk tick 267 wait buf3 r3 p3
    \<and> inv p3 \<and> view p3 = bs \<and> br_sum r3 = 3 \<and> br_step r3 = 0 \<and> lo8 (br_body_len r3) = lo
    \<and> length buf3 = 280 \<and> take 3 buf3 = [bk_mark0 bk, bk_mark1 bk, lo] \<and> drop 3 buf3 = drop 3 buf"
proof -
  obtain buf0 p0 r0 where 0: "bus_read_loop rd bk tick 267 wait buf r p = bus_read_loop rd bk tick 267 wait buf0 r0 p0"
    "length buf0 = 280" "drop 1 buf0 = drop 1 buf" "inv p0" "view p0 = bk_mark0 bk # bk_mark1 bk # lo # bs"
    "br_sum r0 = 0" "br_step r0 = 0" "br_timeout_ms r0 = br_timeout_ms r"
    using loop_skip_junk [OF assms] by blast
  have t0: "0 <s br_timeout_ms r0" using assms(3) 0(8) by simp
  let ?b1 = "buf0[0 := bk_mark0 bk]"
  have "bus_read_header bk ?b1 (r0\<lparr>br_timer := tm\<rparr>)
      = Some (?b1, r0\<lparr>br_timer := tm, br_sum := 1, br_body_len := br_body_len r0\<rparr>)" for tm
    using 0 by (simp add: bus_read_header_def load_in)
  from loop_header_round [OF 0(4,5) _ _ 0(7,2) t0 this, of tick wait] 0(6)
  obtain p1 r1 where 1: "bus_read_loop rd bk tick 267 wait buf0 r0 p0 = bus_read_loop rd bk tick 267 wait ?b1 r1 p1"
    "inv p1" "view p1 = bk_mark1 bk # lo # bs"
    "br_sum r1 = 1" "br_step r1 = 0" "br_timeout_ms r1 = br_timeout_ms r0" by auto
  have t1: "0 <s br_timeout_ms r1" and l1: "length ?b1 = 280" using t0 1(6) 0(2) by simp_all
  let ?b2 = "?b1[1 := bk_mark1 bk]"
  have "bus_read_header bk ?b2 (r1\<lparr>br_timer := tm\<rparr>)
      = Some (?b2, r1\<lparr>br_timer := tm, br_sum := 2, br_body_len := br_body_len r1\<rparr>)" for tm
    using 1 l1 by (simp add: bus_read_header_def load_in)
  from loop_header_round [OF 1(2,3) _ _ 1(5) l1 t1 this, of tick wait] 1(4)
  obtain p2 r2 where 2: "bus_read_loop rd bk tick 267 wait ?b1 r1 p1 = bus_read_loop rd bk tick 267 wait ?b2 r2 p2"
    "inv p2" "view p2 = lo # bs" "br_sum r2 = 2" "br_step r2 = 0" "br_timeout_ms r2 = br_timeout_ms r1" by auto
  have t2: "0 <s br_timeout_ms r2" and l2: "length ?b2 = 280" using t1 2(6) 0(2) by simp_all
  let ?b3 = "?b2[2 := lo]"
  have "bus_read_header bk ?b3 (r2\<lparr>br_timer := tm\<rparr>) = Some (?b3, r2\<lparr>br_timer := tm, br_sum := 3,
      br_body_len := mk16 lo (hi8 (br_body_len r2))\<rparr>)" for tm
    using 2 l2 by (simp add: bus_read_header_def load_in)
  from loop_header_round [OF 2(2,3) _ _ 2(5) l2 t2 this, of tick wait] 2(4)
  obtain p3 r3 where 3: "bus_read_loop rd bk tick 267 wait ?b2 r2 p2 = bus_read_loop rd bk tick 267 wait ?b3 r3 p3"
    "inv p3" "view p3 = bs" "br_sum r3 = 3" "br_step r3 = 0"
    "br_body_len r3 = mk16 lo (hi8 (br_body_len r2))" by auto
  have "lo8 (br_body_len r3) = lo"
    unfolding 3(6) by (simp add: word_unat_eq_iff unat_lo8 unat_mk16)
  moreover have "\<exists>x y z xs. buf0 = x # y # z # xs"
    using 0(2) by (cases buf0; cases "tl buf0"; cases "tl (tl buf0)") auto
  then have "take 3 ?b3 = [bk_mark0 bk, bk_mark1 bk, lo]" "drop 3 ?b3 = drop 3 buf0"
    by (auto simp: numeral_3_eq_3 numeral_2_eq_2)
  moreover have "drop 3 buf0 = drop 3 buf"
    using arg_cong [OF 0(3), of "drop 2"] by simp
  ultimately show ?thesis
    unfolding 0(1) 1(1) 2(1) 3(1) using 3(2-5) 0(2)
    by (intro exI [of _ ?b3] exI [of _ p3] exI [of _ r3]) simp
qed

text \<open>A complete frame behind them is read whole, and nothing behind it.\<close>

lemma loop_reads_frame:
  assumes "msg_meta_ok m" and "bk_mark0 bk \<notin> set junk" and "length buf = 280"
    and "0 <s br_timeout_ms r" and "br_sum r = 0" and "br_step r = 0" and "inv p"
    and "view p = junk @ bus_frame bk m @ rest"
  shows "\<exists>r1 p1. bus_read_loop rd bk tick 267 wait buf r p
      = Some (PT_ENDED, bus_frame bk m @ drop (unat (mm_body_len m) + 11) buf, r1, p1)
    \<and> br_sum r1 = word_of_nat (unat (mm_body_len m) + 11) \<and> \<not> br_waiting r1 \<and> inv p1 \<and> view p1 = rest"
proof -
  let ?n = "unat (mm_body_len m)" and ?pl = "frame_payload m"
  let ?tl = "drop 2 ?pl @ [lo8 (- lrc_sum ?pl), hi8 (- lrc_sum ?pl)]"
  have n: "?n \<le> 256" using assms(1) by (simp add: msg_meta_ok_def)
  have fr: "bus_frame bk m = bk_mark0 bk # bk_mark1 bk # lo8 (mm_body_len m) # hi8 (mm_body_len m) # ?tl"
    by (simp add: bus_frame_def frame_payload_def)
  have ltl: "length ?tl = ?n + 7" using length_frame_payload [OF assms(1)] by simp
  have "view p = junk @ bk_mark0 bk # bk_mark1 bk # lo8 (mm_body_len m) # hi8 (mm_body_len m) # ?tl @ rest"
    using assms(8) fr by simp
  from loop_reads_header [OF assms(2-7) this] obtain buf3 p3 r3 where
    3: "bus_read_loop rd bk tick 267 wait buf r p = bus_read_loop rd bk tick 267 wait buf3 r3 p3"
      "inv p3" "view p3 = hi8 (mm_body_len m) # ?tl @ rest" "br_sum r3 = 3" "br_step r3 = 0"
      "lo8 (br_body_len r3) = lo8 (mm_body_len m)" "length buf3 = 280"
      "take 3 buf3 = [bk_mark0 bk, bk_mark1 bk, lo8 (mm_body_len m)]" "drop 3 buf3 = drop 3 buf" by blast
  have bl: "mk16 (lo8 (br_body_len r3)) (hi8 (mm_body_len m)) = word_of_nat ?n" unfolding 3(6) by simp
  let ?r3 = "r3\<lparr>br_timer := swtimer_set tick (bk_loop_delay bk) (br_timer r3)\<rparr>"
  from read_body_round [OF 3(2,3), of ?r3 ?n buf3 bk wait] 3(4,5,7) bl n ltl
  obtain p4 r4 where 4: "inv p4" "view p4 = rest" "br_sum r4 = word_of_nat (?n + 11)"
    "bus_read_body rd bk 267 wait buf3 ?r3 p3
       = Some (None, take 3 buf3 @ hi8 (mm_body_len m) # ?tl @ drop (?n + 11) buf3, r4, p4)" by auto
  have "drop (?n + 11) buf3 = drop (?n + 11) buf"
    using arg_cong [OF 3(9), of "drop (?n + 8)"] by (simp add: add.commute)
  then have "bus_read_loop rd bk tick 267 wait buf3 r3 p3
      = Some (PT_ENDED, bus_frame bk m @ drop (?n + 11) buf, r4\<lparr>br_waiting := False\<rparr>, p4)"
    using 4(4) fr 3(8) by (subst bus_read_loop.simps) simp
  then show ?thesis unfolding 3(1) using 4(1-3) by auto
qed

text \<open>
  The length in the header is not compared with the size of the buffer: when a longer frame is
  announced and the bytes are there, the reader writes behind the end of the message array.
\<close>

lemma loop_overruns:
  assumes "bk_mark0 bk \<notin> set junk" and "length buf = 280"
    and "0 <s br_timeout_ms r" and "br_sum r = 0" and "br_step r = 0" and "inv p"
    and "view p = junk @ bk_mark0 bk # bk_mark1 bk # lo # hi # bs"
    and "269 < unat (mk16 lo hi)" and "276 < length bs"
  shows "bus_read_loop rd bk tick 267 wait buf r p = None"
proof -
  from loop_reads_header [OF assms(1-7)] obtain buf3 p3 r3 where
    3: "bus_read_loop rd bk tick 267 wait buf r p = bus_read_loop rd bk tick 267 wait buf3 r3 p3"
      "inv p3" "view p3 = hi # bs" "br_sum r3 = 3" "br_step r3 = 0" "lo8 (br_body_len r3) = lo"
      "length buf3 = 280" by blast
  obtain p4 where p4: "rd p3 buf3 3 1 = Some (1, buf3[3 := hi], p4)" "inv p4" "view p4 = bs"
    using rd_one [OF 3(2,3), of 3 buf3] 3(7) by auto
  let ?rem = "ucast (mk16 lo hi) + 7 :: s32"
  have rem: "unat ?rem = unat (mk16 lo hi) + 7"
  proof -
    have "unat (mk16 lo hi) + 7 < 4294967296" using unat_u16_less [of "mk16 lo hi"] by linarith
    then show ?thesis by (simp add: unat_word_ariths)
  qed
  have "rd p4 (buf3[3 := hi]) 4 ?rem = None"
    by (rule rd_overrun [OF p4(2)]) (use 3(7) p4(3) assms(8,9) rem in simp_all)
  then show ?thesis
    unfolding 3(1) using 3(4-7) p4(1)
    by (subst bus_read_loop.simps) (simp add: bus_read_body_def bus_read_header_def load_in Let_def)
qed

end

text \<open>The UART and the Bluetooth transport are such ports.\<close>

interpretation uart_port: byte_source uart_read_at uart_rx_view uart_rx_inv
proof unfold_locales
  fix p :: "'h sdk_uart" and i and n :: u32 and buf :: "u8 list"
  show "uart_rx_inv p \<Longrightarrow> i + min (unat n) (length (uart_rx_view p)) \<le> length buf \<Longrightarrow>
      \<exists>p1. uart_read_at p buf i n = Some (word_of_nat (min (unat n) (length (uart_rx_view p))),
          take i buf @ take (unat n) (uart_rx_view p)
            @ drop (i + min (unat n) (length (uart_rx_view p))) buf, p1)
        \<and> uart_rx_inv p1 \<and> uart_rx_view p1 = drop (unat n) (uart_rx_view p)"
    using uart_read_at_view [of p i n buf] by (fastforce simp del: length_fifo_view)
  show "uart_rx_inv p \<Longrightarrow> i \<le> length buf \<Longrightarrow>
      length buf < i + min (unat n) (length (uart_rx_view p)) \<Longrightarrow> uart_read_at p buf i n = None"
    using fifo_read_overrun [of SDK_UART_RX_FIFO_LEN "ua_rx_fifo p" i buf "unat n"]
    by (simp add: uart_read_at_def)
qed

abbreviation ble_rx_inv :: "ble_transport \<Rightarrow> bool" where
  "ble_rx_inv b \<equiv> fifo_inv SDK_BLE_RX_FIFO_LEN (bl_rx_fifo b)"

abbreviation ble_rx_view :: "ble_transport \<Rightarrow> u8 list" where
  "ble_rx_view b \<equiv> fifo_view SDK_BLE_RX_FIFO_LEN (bl_rx_fifo b)"

interpretation ble_port: byte_source ble_read ble_rx_view ble_rx_inv
proof unfold_locales
  fix p :: ble_transport and i and n :: u32 and buf :: "u8 list"
  show "ble_rx_inv p \<Longrightarrow> i + min (unat n) (length (ble_rx_view p)) \<le> length buf \<Longrightarrow>
      \<exists>p1. ble_read p buf i n = Some (word_of_nat (min (unat n) (length (ble_rx_view p))),
          take i buf @ take (unat n) (ble_rx_view p)
            @ drop (i + min (unat n) (length (ble_rx_view p))) buf, p1)
        \<and> ble_rx_inv p1 \<and> ble_rx_view p1 = drop (unat n) (ble_rx_view p)"
    using fifo_read_view [of SDK_BLE_RX_FIFO_LEN "bl_rx_fifo p" i "unat n" buf]
    by (auto simp: ble_read_def)
  show "ble_rx_inv p \<Longrightarrow> i \<le> length buf \<Longrightarrow>
      length buf < i + min (unat n) (length (ble_rx_view p)) \<Longrightarrow> ble_read p buf i n = None"
    using fifo_read_overrun [of SDK_BLE_RX_FIFO_LEN "bl_rx_fifo p" i buf "unat n"]
    by (simp add: ble_read_def)
qed

section \<open>Properties\<close>

text \<open>
  C2. Round trip, on all three backends: the frame made from a message whose body fits is accepted by
  the check of the receiver, which gets back exactly the source, destination, function, index, length
  and body that were sent.
\<close>

theorem bus_frame_roundtrip:
  assumes "bus_backend_ok bk" and "msg_meta_ok m" and "length msg = 280" and "length (mm_body m0) = 256"
  shows "\<exists>frame. bus_make_msg bk m msg = Some (BUS_ERR_NO, frame, unat (mm_body_len m) + 11)
    \<and> (\<exists>m1. bus_check_integrity bk frame (word_of_nat (unat (mm_body_len m) + 11)) m0 = Some (BUS_ERR_NO, m1)
        \<and> mm_src_id m1 = mm_src_id m \<and> mm_dest_id m1 = mm_dest_id m \<and> mm_cmd_func m1 = mm_cmd_func m
        \<and> mm_index m1 = mm_index m \<and> mm_body_len m1 = mm_body_len m
        \<and> take (unat (mm_body_len m)) (mm_body m1) = take (unat (mm_body_len m)) (mm_body m))"
proof -
  let ?n = "unat (mm_body_len m)"
  let ?frame = "bus_frame bk m @ drop (?n + 11) msg"
  have n: "?n \<le> 256" "length (mm_body m) = 256" using assms(2) by (simp_all add: msg_meta_ok_def)
  have len: "length msg = BUS_MAX_MSG_LEN" using assms(3) by (simp add: BUS_MAX_MSG_LEN_def)
  note lf = length_bus_frame [OF assms(2), of bk]
  have "length ?frame = BUS_MAX_MSG_LEN" using lf n assms(3) by (simp add: BUS_MAX_MSG_LEN_def)
  moreover have "take (?n + 11) ?frame = bus_frame bk m" using lf by simp
  ultimately show ?thesis
    using bus_make_msg_frame [OF assms(2) len, of bk] bus_check_own_frame [OF assms(1,2) _ assms(4), of ?frame] n
    by simp
qed

definition demo_meta :: "u16 \<Rightarrow> msg_meta" where
  "demo_meta n = \<lparr>mm_src_id = 1, mm_dest_id = 2, mm_cmd_func = 3, mm_index = 0x1234,
     mm_body = replicate 256 7, mm_body_len = n\<rparr>"

theorem bus_frame_roundtrip_witness:
  "\<exists>frame m1. bus_make_msg apbus_backend_uart (demo_meta 2) (replicate 280 0) = Some (BUS_ERR_NO, frame, 13)
     \<and> bus_check_integrity apbus_backend_uart frame (word_of_nat 13) (demo_meta 0) = Some (BUS_ERR_NO, m1)
     \<and> take 2 (mm_body m1) = [7, 7]"
proof -
  have "bus_backend_ok apbus_backend_uart" "msg_meta_ok (demo_meta 2)" "length (replicate 280 (0 :: u8)) = 280"
    "length (mm_body (demo_meta 0)) = 256"
    by (simp_all add: bus_backend_ok_def msg_meta_ok_def demo_meta_def)
  note roundtrip = bus_frame_roundtrip [OF this]
  have "unat (mm_body_len (demo_meta 2)) = 2" by (simp add: demo_meta_def)
  moreover have "take 2 (replicate 256 7) = [7, 7 :: u8]" by (simp add: numeral_2_eq_2)
  then have "take 2 (mm_body (demo_meta 2)) = [7, 7]" by (simp add: demo_meta_def)
  ultimately show ?thesis using roundtrip by auto
qed



text \<open>
  C5. Resynchronisation and reading: with a positive timeout, a reader that is started when the UART
  has received any bytes without the first marker and then a complete frame ends in this one
  scheduling, with exactly the frame in the message buffer and its length as result, and leaves the
  bytes behind the frame in the UART.
\<close>

theorem unibus_serial_read_frame:
  assumes "msg_meta_ok m" and "0xAB \<notin> set junk" and "length buf = 280" and "0 <s response_timeout"
    and "\<not> br_waiting r" and "fifo_inv SDK_UART_RX_FIFO_LEN (ua_rx_fifo u)"
    and "fifo_view SDK_UART_RX_FIFO_LEN (ua_rx_fifo u) = junk @ bus_frame unibus_backend_uart m @ rest"
  shows "\<exists>r1 u1. unibus_serial_read tick response_timeout 267 wait buf r u
      = Some (PT_ENDED, bus_frame unibus_backend_uart m @ drop (unat (mm_body_len m) + 11) buf, r1, u1)
    \<and> br_sum r1 = word_of_nat (unat (mm_body_len m) + 11) \<and> \<not> br_waiting r1
    \<and> fifo_view SDK_UART_RX_FIFO_LEN (ua_rx_fifo u1) = rest"
proof -
  have "bk_mark0 unibus_backend_uart \<notin> set junk" using assms(2) by (simp add: unibus_backend_uart_def)
  from uart_port.loop_reads_frame [OF assms(1) this assms(3) _ _ _ assms(6,7),
      of "r\<lparr>br_sum := 0, br_timeout_ms := response_timeout, br_remaining_len := 0, br_step := 0,
                br_body_len := 0\<rparr>" tick wait] assms(4,5)
  show ?thesis by (auto simp: unibus_serial_read_def bus_read_def)
qed

definition idle_reader :: bus_reader where
  "idle_reader = \<lparr>br_waiting = False, br_timer = \<lparr>sw_start = 0, sw_timeout_ms = 0, sw_isstop = 0\<rparr>,
     br_sum = 0, br_timeout_ms = 0, br_remaining_len = 0, br_step = 0, br_body_len = 0\<rparr>"

lemma uart_holding:
  "length bs \<le> 511 \<Longrightarrow> \<exists>u :: unit sdk_uart. uart_rx_inv u \<and> uart_rx_view u = bs"
proof -
  assume len: "length bs \<le> 511"
  obtain f where f: "fifo_inv SDK_UART_RX_FIFO_LEN f" "fifo_view SDK_UART_RX_FIFO_LEN f = lastn 511 bs"
    using uartq.push_list_lastn [of "ua_rx_fifo (idle_uart UART_TX_IDLE :: unit sdk_uart)" bs]
    by (auto simp: idle_uart_empty)
  then have "uart_rx_inv ((idle_uart UART_TX_IDLE)\<lparr>ua_rx_fifo := f\<rparr>)"
    "uart_rx_view ((idle_uart UART_TX_IDLE)\<lparr>ua_rx_fifo := f\<rparr>) = bs" using len by simp_all
  then show ?thesis by blast
qed

theorem unibus_serial_read_frame_witness:
  "\<exists>u r1 (u1 :: unit sdk_uart). unibus_serial_read 5 100 267 False (replicate 280 0) idle_reader u
      = Some (PT_ENDED, bus_frame unibus_backend_uart (demo_meta 2) @ drop 13 (replicate 280 0), r1, u1)
    \<and> uart_rx_view u = [1, 2] @ bus_frame unibus_backend_uart (demo_meta 2) @ [9]
    \<and> uart_rx_view u1 = [9]"
proof -
  have ok: "msg_meta_ok (demo_meta 2)" "0xAB \<notin> set [1, 2 :: u8]" "length (replicate 280 (0 :: u8)) = 280"
    "0 <s (100 :: s32)" "\<not> br_waiting idle_reader"
    by (simp_all add: msg_meta_ok_def demo_meta_def idle_reader_def word_sless_alt)
  have n: "unat (mm_body_len (demo_meta 2)) = 2" by (simp add: demo_meta_def)
  have "length ([1, 2] @ bus_frame unibus_backend_uart (demo_meta 2) @ [9]) \<le> 511"
    using length_bus_frame [OF ok(1)] n by simp
  from uart_holding [OF this] obtain u :: "unit sdk_uart" where
    "uart_rx_inv u" "uart_rx_view u = [1, 2] @ bus_frame unibus_backend_uart (demo_meta 2) @ [9]" by blast
  with unibus_serial_read_frame [OF ok this, of 5 False] n show ?thesis by auto
qed

text \<open>
  The reader does not compare the announced body length with the size of the message array: a
  header that announces 270 bytes or more, with enough bytes behind it in the Bluetooth FIFO, makes
  it write outside the array.
\<close>

theorem unibus_ble_read_overruns:
  assumes "length buf = 280" and "0 <s response_timeout" and "\<not> br_waiting r"
    and "fifo_inv SDK_BLE_RX_FIFO_LEN (bl_rx_fifo b)"
    and "fifo_view SDK_BLE_RX_FIFO_LEN (bl_rx_fifo b) = 0xAB # 0xBA # lo # hi # bs"
    and "270 \<le> unat (mk16 lo hi)" and "276 < length bs"
  shows "unibus_ble_read tick response_timeout 267 wait buf r b = None"
proof -
  have "bk_mark0 unibus_backend_ble \<notin> set []" "269 < unat (mk16 lo hi)" using assms(6) by simp_all
  from ble_port.loop_overruns [OF this(1) assms(1) _ _ _ assms(4) _ this(2) assms(7),
      of "r\<lparr>br_sum := 0, br_timeout_ms := response_timeout, br_remaining_len := 0, br_step := 0,
                br_body_len := 0\<rparr>" tick wait] assms(2,3,5)
  show ?thesis by (simp add: unibus_ble_read_def bus_read_def) (simp add: unibus_backend_ble_def)
qed

lemma ble_holding: "length bs \<le> 511 \<Longrightarrow> \<exists>b. ble_rx_inv b \<and> ble_rx_view b = bs"
proof -
  assume len: "length bs \<le> 511"
  have "ble_rx_inv fresh_ble \<and> ble_rx_view fresh_ble = []"
    using fifo_inv_zero [of 512 "replicate 512 (0 :: u8)"]
    by (simp add: fresh_ble_def SDK_BLE_RX_FIFO_LEN_def)
  then obtain f where "fifo_inv SDK_BLE_RX_FIFO_LEN f" "fifo_view SDK_BLE_RX_FIFO_LEN f = lastn 511 bs"
    using bleq.push_list_lastn [of "bl_rx_fifo fresh_ble" bs] by auto
  then have "ble_rx_inv (fresh_ble\<lparr>bl_rx_fifo := f\<rparr>) \<and> ble_rx_view (fresh_ble\<lparr>bl_rx_fifo := f\<rparr>) = bs"
    using len by simp
  then show ?thesis by blast
qed

theorem unibus_ble_read_overruns_witness:
  "\<exists>b. ble_rx_view b = 0xAB # 0xBA # 0x0E # 0x01 # replicate 277 0
     \<and> unibus_ble_read 5 100 267 False (replicate 280 0) idle_reader b = None"
proof -
  have "length (0xAB # 0xBA # 0x0E # 0x01 # replicate 277 (0 :: u8)) \<le> 511" by simp
  from ble_holding [OF this] obtain b where b: "ble_rx_inv b"
    "ble_rx_view b = 0xAB # 0xBA # 0x0E # 0x01 # replicate 277 0" by blast
  have "270 \<le> unat (mk16 0x0E 0x01)" by (simp add: unat_mk16)
  moreover have "length (replicate 280 (0 :: u8)) = 280" "0 <s (100 :: s32)" "\<not> br_waiting idle_reader"
    "276 < length (replicate 277 (0 :: u8))"
    by (simp_all add: idle_reader_def word_sless_alt)
  ultimately have "unibus_ble_read 5 100 267 False (replicate 280 0) idle_reader b = None"
    using unibus_ble_read_overruns [of "replicate 280 0" 100 idle_reader b "0x0E" "0x01" "replicate 277 0"] b
    by simp
  with b show ?thesis by blast
qed

end
