(* ===== verification/Bus_Protocol.thy ===== *)
theory Bus_Protocol
  imports Bus_Frame "HOL-Library.Signed_Division"
begin

text \<open>
  The protocol layer of the two register buses: src/src/components/unibus/unibus.c and
  src/src/components/apbus/apbus.c. The two files have the same code up to the command bytes (and
  apbus's writing without acknowledgement), so it is defined once over a \<open>bus_codes\<close> record.

  The context \<open>bus_ctx\<close> is \<open>struct _unibus_t\<close>; its backend is a \<open>bus_io\<close> argument, its parser an
  argument of the polling function. The protothreads are functions from their resumption point.
\<close>

section \<open>Data\<close>

record bus_codes =
  cc_rd :: u8
  cc_wr :: u8
  cc_wr_nr :: u8
  cc_ack_rd :: u8
  cc_ack_wr :: u8

definition unibus_codes :: bus_codes where
  "unibus_codes = \<lparr>cc_rd = 0x01, cc_wr = 0x02, cc_wr_nr = 0x03, cc_ack_rd = 0x04, cc_ack_wr = 0x05\<rparr>"

definition apbus_codes :: bus_codes where
  "apbus_codes = \<lparr>cc_rd = 0x03, cc_wr = 0x10, cc_wr_nr = 0x11, cc_ack_rd = 0x84, cc_ack_wr = 0x91\<rparr>"

definition BUS_ERR_MSG_TIMEOUT :: s32 where
  "BUS_ERR_MSG_TIMEOUT = - 7"

definition BUS_ERR_WRERROR :: s32 where
  "BUS_ERR_WRERROR = - 14"

definition BUS_MAX_SUB_ID :: nat where
  "BUS_MAX_SUB_ID = 4"

definition BUS_CMD_MAX_OP :: nat where
  "BUS_CMD_MAX_OP = 16"

text \<open>The last answer received: \<open>mb_body\<close> is the array of 280 bytes.\<close>

record msg_body =
  mb_body :: "u8 list"
  mb_recv :: u8
  mb_cmd_fun :: u8
  mb_cmd_index :: u16
  mb_body_len :: s32

text \<open>
  \<open>cx_recv_waiting\<close>, \<open>cx_receive_waiting\<close> and \<open>cx_reader\<close> are the protothreads \<open>pt_recv_poll\<close>,
  \<open>pt_receive_msg\<close> and \<open>pt_backend_read\<close>. \<open>cx_app\<close> are the variables of the program around the bus,
  which its command handlers use.
\<close>

record ('p, 'a) bus_ctx =
  cx_port :: 'p
  cx_response_timeout :: s32
  cx_sub_id :: "u8 list"
  cx_msg_body :: msg_body
  cx_msg :: "u8 list"
  cx_recv_waiting :: bool
  cx_receive_waiting :: bool
  cx_reader :: bus_reader
  cx_app :: 'a

text \<open>The backend with its port functions, which read and write \<open>ctx->port\<close>.\<close>

record 'p bus_io =
  io_backend :: bus_backend
  io_read :: "'p \<Rightarrow> u8 list \<Rightarrow> nat \<Rightarrow> u32 \<Rightarrow> (s32 \<times> u8 list \<times> 'p) option"
  io_write :: "u8 list \<Rightarrow> s32 \<Rightarrow> 'p \<Rightarrow> 'p option"

definition serial_io ::
    "bus_backend \<Rightarrow> 'h sdk_uart_ops \<Rightarrow> (s32 \<Rightarrow> 'h uart_st \<Rightarrow> 'h uart_st) \<Rightarrow> 'h uart_st bus_io" where
  "serial_io bk ops delay_ms = \<lparr>io_backend = bk,
     io_read = (\<lambda>(u, h) buf i n. do { (rl, buf1, u1) \<leftarrow> uart_read_at u buf i n; Some (rl, buf1, u1, h) }),
     io_write = (\<lambda>msg len p. Some (snd (bus_serial_write ops delay_ms msg len p)))\<rparr>"

definition ble_io :: "(u8 list \<Rightarrow> 'h \<Rightarrow> 'h) \<Rightarrow> (ble_transport \<times> 'h) bus_io" where
  "ble_io notify = \<lparr>io_backend = unibus_backend_ble,
     io_read = (\<lambda>(b, h) buf i n. do { (rl, buf1, b1) \<leftarrow> ble_read b buf i n; Some (rl, buf1, b1, h) }),
     io_write = (\<lambda>msg len (b, h). do { (_, h1) \<leftarrow> unibus_ble_write notify b msg len h; Some (b, h1) })\<rparr>"

text \<open>A command handler gets the context and the message, and may change both.\<close>

type_synonym ('p, 'a) cmd_handler =
  "('p, 'a) bus_ctx \<Rightarrow> msg_meta \<Rightarrow> (s32 \<times> ('p, 'a) bus_ctx \<times> msg_meta) option"

record ('p, 'a) cmd_parser =
  ps_own_cmd_ops :: "(u8 \<times> ('p, 'a) cmd_handler option) list"
  ps_others_cmd_handler :: "('p, 'a) cmd_handler option"

section \<open>Finding a device, taking an answer\<close>

fun bus_has_sub_id :: "u8 list \<Rightarrow> u8 \<Rightarrow> nat \<Rightarrow> nat \<Rightarrow> bool option" where
  "bus_has_sub_id ids dest j 0 = Some False"
| "bus_has_sub_id ids dest j (Suc n) =
     do { x \<leftarrow> load ids j; if x = dest then Some True else bus_has_sub_id ids dest (Suc j) n }"

fun bus_find_loop :: "u8 \<Rightarrow> ('p, 'a) bus_ctx list \<Rightarrow> nat \<Rightarrow> nat \<Rightarrow> nat option option" where
  "bus_find_loop dest tab i 0 = Some None"
| "bus_find_loop dest tab i (Suc n) =
     do { d \<leftarrow> load tab i;
          found \<leftarrow> bus_has_sub_id (cx_sub_id d) dest 0 BUS_MAX_SUB_ID;
          if found then Some (Some i) else bus_find_loop dest tab (Suc i) n }"

text \<open>The device is returned as its index in the table, \<open>NULL\<close> as \<open>None\<close>.\<close>

definition bus_find_dest_dev :: "u8 \<Rightarrow> ('p, 'a) bus_ctx list \<Rightarrow> s32 \<Rightarrow> nat option option" where
  "bus_find_dest_dev dest_id tab dev_num = bus_find_loop dest_id tab 0 (nat (sint dev_num))"

definition bus_body_get :: "bus_codes \<Rightarrow> u8 \<Rightarrow> u16 \<Rightarrow> ('p, 'a) bus_ctx \<Rightarrow> bool \<times> ('p, 'a) bus_ctx" where
  "bus_body_get cc cmd_fun cmd_index ctx =
     (let mb = cx_msg_body ctx in
      if mb_recv mb = 1 \<and> mb_cmd_fun mb = cmd_fun then
        if cmd_fun = cc_ack_rd cc \<and> mb_cmd_index mb \<noteq> cmd_index then (False, ctx)
        else (True, ctx\<lparr>cx_msg_body := mb\<lparr>mb_recv := 0\<rparr>\<rparr>)
      else (False, ctx))"

section \<open>Requests\<close>

definition zero_meta :: msg_meta where
  "zero_meta = \<lparr>mm_src_id = 0, mm_dest_id = 0, mm_cmd_func = 0, mm_index = 0,
     mm_body = replicate BUS_MAX_BODY_LEN 0, mm_body_len = 0\<rparr>"

text \<open>\<open>make_send_msg\<close> into a zeroed buffer, then \<open>write\<close>: the end of every sending function.\<close>

definition bus_send :: "'p bus_io \<Rightarrow> msg_meta \<Rightarrow> ('p, 'a) bus_ctx \<Rightarrow> ('p, 'a) bus_ctx option" where
  "bus_send io m ctx =
     do { (_, msg, msg_len) \<leftarrow> bus_make_msg (io_backend io) m (replicate BUS_MAX_MSG_LEN 0);
          p \<leftarrow> io_write io msg (word_of_nat msg_len) (cx_port ctx);
          Some (ctx\<lparr>cx_port := p\<rparr>) }"

definition bus_read_reg_send ::
    "bus_codes \<Rightarrow> 'p bus_io \<Rightarrow> u8 \<Rightarrow> u8 \<Rightarrow> u16 \<Rightarrow> s32 \<Rightarrow> ('p, 'a) bus_ctx \<Rightarrow> ('p, 'a) bus_ctx option" where
  "bus_read_reg_send cc io src_id dest_id index read_reg_num ctx =
     (let data16 = ucast (read_reg_num * 2)
      in bus_send io (zero_meta\<lparr>mm_src_id := src_id, mm_dest_id := dest_id, mm_cmd_func := cc_rd cc,
           mm_index := index, mm_body_len := 2,
           mm_body := (mm_body zero_meta)[0 := lo8 data16, 1 := hi8 data16]\<rparr>) ctx)"

text \<open>The protothreads of requests: their resumption point and their timer.\<close>

record reg_pt =
  rp_waiting :: bool
  rp_timer :: swtimer

text \<open>\<open>reg[i] = body[2i] | body[2i+1] << 8\<close> for \<open>n\<close> registers from \<open>i\<close> on.\<close>

fun bus_take_regs :: "u8 list \<Rightarrow> nat \<Rightarrow> nat \<Rightarrow> u16 list \<Rightarrow> u16 list option" where
  "bus_take_regs body i 0 reg = Some reg"
| "bus_take_regs body i (Suc n) reg =
     do { b0 \<leftarrow> load body (i * 2); b1 \<leftarrow> load body (i * 2 + 1); reg1 \<leftarrow> store reg i (mk16 b0 b1);
          bus_take_regs body (Suc i) n reg1 }"

definition bus_read_reg_poll ::
    "bus_codes \<Rightarrow> 'p bus_io \<Rightarrow> u32 \<Rightarrow> u32 \<Rightarrow> u8 \<Rightarrow> u8 \<Rightarrow> u16 \<Rightarrow> s32 \<Rightarrow> reg_pt \<Rightarrow> u16 list \<Rightarrow> s32
      \<Rightarrow> ('p, 'a) bus_ctx \<Rightarrow> (pt_result \<times> reg_pt \<times> u16 list \<times> s32 \<times> ('p, 'a) bus_ctx) option" where
  "bus_read_reg_poll cc io tick response_timeout src_id dest_id index read_reg_num pt reg reg_num ctx =
     (if \<not> rp_waiting pt then do {
        ctx1 \<leftarrow> bus_read_reg_send cc io src_id dest_id index read_reg_num ctx;
        Some (PT_YIELDED, \<lparr>rp_waiting = True, rp_timer = swtimer_set tick response_timeout (rp_timer pt)\<rparr>,
              reg, reg_num, ctx1) }
      else let (got, ctx1) = bus_body_get cc (cc_ack_rd cc) index ctx;
               len = mb_body_len (cx_msg_body ctx1) in
        if got then do {
          reg1 \<leftarrow> bus_take_regs (mb_body (cx_msg_body ctx1)) 0 (nat (sint len sdiv 2)) reg;
          Some (PT_ENDED, pt\<lparr>rp_waiting := False\<rparr>, reg1, word_of_int (sint len sdiv 2), ctx1) }
        else if swtimer_expired tick (rp_timer pt)
        then Some (PT_ENDED, pt\<lparr>rp_waiting := False\<rparr>, reg, BUS_ERR_MSG_TIMEOUT, ctx1)
        else Some (PT_YIELDED, pt, reg, reg_num, ctx1))"

text \<open>\<open>body[2i] = low byte of reg[i]; body[2i+1] = high byte\<close>.\<close>

fun bus_put_regs :: "u16 list \<Rightarrow> nat \<Rightarrow> nat \<Rightarrow> u8 list \<Rightarrow> u8 list option" where
  "bus_put_regs reg i 0 body = Some body"
| "bus_put_regs reg i (Suc n) body =
     do { r \<leftarrow> load reg i; body1 \<leftarrow> store body (i * 2) (lo8 r); body2 \<leftarrow> store body1 (i * 2 + 1) (hi8 r);
          bus_put_regs reg (Suc i) n body2 }"

definition bus_write_reg_send ::
    "bus_codes \<Rightarrow> 'p bus_io \<Rightarrow> u8 \<Rightarrow> u8 \<Rightarrow> u16 \<Rightarrow> s32 \<Rightarrow> u16 list \<Rightarrow> bool \<Rightarrow> ('p, 'a) bus_ctx
      \<Rightarrow> ('p, 'a) bus_ctx option" where
  "bus_write_reg_send cc io src_id dest_id index write_reg_num reg ack ctx =
     do { body \<leftarrow> bus_put_regs reg 0 (nat (sint write_reg_num)) (mm_body zero_meta);
          bus_send io (zero_meta\<lparr>mm_src_id := src_id, mm_dest_id := dest_id,
            mm_cmd_func := (if ack then cc_wr cc else cc_wr_nr cc), mm_index := index,
            mm_body_len := ucast (write_reg_num * 2), mm_body := body\<rparr>) ctx }"

definition apbus_write_NR_reg_poll ::
    "'p bus_io \<Rightarrow> u32 \<Rightarrow> u32 \<Rightarrow> u8 \<Rightarrow> u8 \<Rightarrow> u16 \<Rightarrow> s32 \<Rightarrow> u16 list \<Rightarrow> reg_pt
      \<Rightarrow> ('p, 'a) bus_ctx \<Rightarrow> (pt_result \<times> reg_pt \<times> s32 \<times> ('p, 'a) bus_ctx) option" where
  "apbus_write_NR_reg_poll io tick response_timeout src_id dest_id index write_reg_num reg pt ctx =
     do { ctx1 \<leftarrow> bus_write_reg_send apbus_codes io src_id dest_id index write_reg_num reg False ctx;
          Some (PT_ENDED, \<lparr>rp_waiting = False, rp_timer = swtimer_set tick response_timeout (rp_timer pt)\<rparr>,
                0, ctx1) }"

definition bus_write_reg_poll ::
    "bus_codes \<Rightarrow> 'p bus_io \<Rightarrow> u32 \<Rightarrow> u32 \<Rightarrow> u8 \<Rightarrow> u8 \<Rightarrow> u16 \<Rightarrow> s32 \<Rightarrow> u16 list \<Rightarrow> reg_pt \<Rightarrow> s32
      \<Rightarrow> ('p, 'a) bus_ctx \<Rightarrow> (pt_result \<times> reg_pt \<times> s32 \<times> ('p, 'a) bus_ctx) option" where
  "bus_write_reg_poll cc io tick response_timeout src_id dest_id index write_reg_num reg pt ret_write ctx =
     (if \<not> rp_waiting pt then do {
        ctx1 \<leftarrow> bus_write_reg_send cc io src_id dest_id index write_reg_num reg True ctx;
        Some (PT_YIELDED, \<lparr>rp_waiting = True, rp_timer = swtimer_set tick response_timeout (rp_timer pt)\<rparr>,
              ret_write, ctx1) }
      else let (got, ctx1) = bus_body_get cc (cc_ack_wr cc) index ctx in
        if got then
          if mb_body_len (cx_msg_body ctx1) = 1 then do {
            b \<leftarrow> load (mb_body (cx_msg_body ctx1)) 0;
            Some (PT_ENDED, pt\<lparr>rp_waiting := False\<rparr>, ucast b, ctx1) }
          else Some (PT_ENDED, pt\<lparr>rp_waiting := False\<rparr>, BUS_ERR_WRERROR, ctx1)
        else if swtimer_expired tick (rp_timer pt)
        then Some (PT_ENDED, pt\<lparr>rp_waiting := False\<rparr>, BUS_ERR_MSG_TIMEOUT, ctx1)
        else Some (PT_YIELDED, pt, ret_write, ctx1))"

section \<open>Answers\<close>

definition bus_send_read_ack ::
    "bus_codes \<Rightarrow> 'p bus_io \<Rightarrow> msg_meta \<Rightarrow> s32 \<Rightarrow> u16 list \<Rightarrow> ('p, 'a) bus_ctx
      \<Rightarrow> (s32 \<times> ('p, 'a) bus_ctx) option" where
  "bus_send_read_ack cc io m read_len reg_tab ctx =
     (let body_len = ucast read_len :: u16
      in do { body \<leftarrow> copy_bytes (mm_body zero_meta) 0 (reg_bytes reg_tab) (2 * unat (mm_index m)) (unat body_len);
              ctx1 \<leftarrow> bus_send io (zero_meta\<lparr>mm_src_id := mm_dest_id m, mm_dest_id := mm_src_id m,
                mm_cmd_func := cc_ack_rd cc, mm_index := mm_index m, mm_body_len := body_len,
                mm_body := body\<rparr>) ctx;
              Some (BUS_ERR_NO, ctx1) })"

definition bus_send_write_ack ::
    "bus_codes \<Rightarrow> 'p bus_io \<Rightarrow> msg_meta \<Rightarrow> u8 \<Rightarrow> ('p, 'a) bus_ctx \<Rightarrow> (s32 \<times> ('p, 'a) bus_ctx) option" where
  "bus_send_write_ack cc io m write_ret ctx =
     do { ctx1 \<leftarrow> bus_send io (zero_meta\<lparr>mm_src_id := mm_dest_id m, mm_dest_id := mm_src_id m,
            mm_cmd_func := cc_ack_wr cc, mm_index := mm_index m,
            mm_body := (mm_body zero_meta)[0 := write_ret], mm_body_len := 1\<rparr>) ctx;
          Some (BUS_ERR_NO, ctx1) }"

definition bus_received_ack :: "('p, 'a) cmd_handler" where
  "bus_received_ack ctx m =
     do { body \<leftarrow> copy_bytes (mb_body (cx_msg_body ctx)) 0 (mm_body m) 0 (unat (mm_body_len m));
          Some (0, ctx\<lparr>cx_msg_body := \<lparr>mb_body = body, mb_recv = 1, mb_cmd_fun = mm_cmd_func m,
            mb_cmd_index = mm_index m, mb_body_len = ucast (mm_body_len m)\<rparr>\<rparr>, m) }"

section \<open>Receiving\<close>

text \<open>
  One scheduling of the two receiving protothreads. \<open>rl\<close> is what the caller's \<open>*ret_rl\<close> holds, \<open>m0\<close>
  what is in its \<open>msg_meta\<close>, an uninitialised local variable.
\<close>

definition bus_receive_msg ::
    "'p bus_io \<Rightarrow> u32 \<Rightarrow> msg_meta \<Rightarrow> s32 \<Rightarrow> bool \<Rightarrow> ('p, 'a) bus_ctx
      \<Rightarrow> (pt_result \<times> msg_meta \<times> s32 \<times> ('p, 'a) bus_ctx) option" where
  "bus_receive_msg io tick m0 rl wait ctx =
     (let bk = io_backend io;
          length_to_read = word_of_nat (bk_header_length bk + bk_checksum_length bk + bk_max_data_length bk);
          r = (if cx_receive_waiting ctx then cx_reader ctx else (cx_reader ctx)\<lparr>br_waiting := False\<rparr>)
      in do { (res, msg, r1, p1) \<leftarrow> bus_read (io_read io) bk tick (cx_response_timeout ctx) length_to_read
                wait (cx_msg ctx) r (cx_port ctx);
              let ctx1 = ctx\<lparr>cx_msg := msg, cx_reader := r1, cx_port := p1,
                cx_receive_waiting := (res = PT_YIELDED)\<rparr>;
              if res = PT_YIELDED then Some (PT_WAITING, m0, rl, ctx1)
              else if 0 < br_sum r1 then do {
                (ret, m1) \<leftarrow> bus_check_integrity bk msg (br_sum r1) m0;
                Some (PT_ENDED, m1, if ret = BUS_ERR_NO then br_sum r1 else ret, ctx1) }
              else Some (PT_ENDED, m0, rl, ctx1) })"

fun bus_dispatch ::
    "(u8 \<times> ('p, 'a) cmd_handler option) list \<Rightarrow> ('p, 'a) bus_ctx \<Rightarrow> msg_meta
      \<Rightarrow> (('p, 'a) bus_ctx \<times> msg_meta) option" where
  "bus_dispatch [] ctx m = Some (ctx, m)"
| "bus_dispatch ((f, h) # ops) ctx m =
     (case h of
        Some handler \<Rightarrow>
          if f = mm_cmd_func m then do { (_, ctx1, m1) \<leftarrow> handler ctx m; bus_dispatch ops ctx1 m1 }
          else bus_dispatch ops ctx m
      | None \<Rightarrow> bus_dispatch ops ctx m)"

text \<open>\<open>ctx->parser\<close> is tested for \<open>NULL\<close>, logged, and then used in any case.\<close>

definition bus_recv_poll ::
    "'p bus_io \<Rightarrow> u32 \<Rightarrow> msg_meta \<Rightarrow> ('p, 'a) cmd_parser option \<Rightarrow> s32 \<Rightarrow> ('p, 'a) bus_ctx
      \<Rightarrow> (pt_result \<times> ('p, 'a) bus_ctx) option" where
  "bus_recv_poll io tick m0 parser host_id ctx =
     do { (res, m, rl, ctx1) \<leftarrow> bus_receive_msg io tick m0 0 False
            (if cx_recv_waiting ctx then ctx else ctx\<lparr>cx_receive_waiting := False\<rparr>);
          if res = PT_WAITING then Some (PT_WAITING, ctx1\<lparr>cx_recv_waiting := True\<rparr>)
          else do {
            let ctx2 = ctx1\<lparr>cx_recv_waiting := False\<rparr>;
            ctx3 \<leftarrow>
              (if 0 <s rl then do {
                 ps \<leftarrow> parser;
                 if ucast (mm_dest_id m) = host_id
                 then do { (c, _) \<leftarrow> bus_dispatch (ps_own_cmd_ops ps) ctx2 m; Some c }
                 else case ps_others_cmd_handler ps of
                     Some handler \<Rightarrow> do { (_, c, _) \<leftarrow> handler ctx2 m; Some c }
                   | None \<Rightarrow> Some ctx2 }
               else Some ctx2);
            Some (PT_ENDED, ctx3) } }"


section \<open>The two buses\<close>

definition unibus_read_reg_poll ::
    "'p bus_io \<Rightarrow> u32 \<Rightarrow> u32 \<Rightarrow> u8 \<Rightarrow> u8 \<Rightarrow> u16 \<Rightarrow> s32 \<Rightarrow> reg_pt \<Rightarrow> u16 list \<Rightarrow> s32
      \<Rightarrow> ('p, 'a) bus_ctx \<Rightarrow> (pt_result \<times> reg_pt \<times> u16 list \<times> s32 \<times> ('p, 'a) bus_ctx) option" where
  "unibus_read_reg_poll = bus_read_reg_poll unibus_codes"

definition apbus_read_reg_poll ::
    "'p bus_io \<Rightarrow> u32 \<Rightarrow> u32 \<Rightarrow> u8 \<Rightarrow> u8 \<Rightarrow> u16 \<Rightarrow> s32 \<Rightarrow> reg_pt \<Rightarrow> u16 list \<Rightarrow> s32
      \<Rightarrow> ('p, 'a) bus_ctx \<Rightarrow> (pt_result \<times> reg_pt \<times> u16 list \<times> s32 \<times> ('p, 'a) bus_ctx) option" where
  "apbus_read_reg_poll = bus_read_reg_poll apbus_codes"

definition unibus_write_reg_poll ::
    "'p bus_io \<Rightarrow> u32 \<Rightarrow> u32 \<Rightarrow> u8 \<Rightarrow> u8 \<Rightarrow> u16 \<Rightarrow> s32 \<Rightarrow> u16 list \<Rightarrow> reg_pt \<Rightarrow> s32
      \<Rightarrow> ('p, 'a) bus_ctx \<Rightarrow> (pt_result \<times> reg_pt \<times> s32 \<times> ('p, 'a) bus_ctx) option" where
  "unibus_write_reg_poll = bus_write_reg_poll unibus_codes"

definition apbus_write_reg_poll ::
    "'p bus_io \<Rightarrow> u32 \<Rightarrow> u32 \<Rightarrow> u8 \<Rightarrow> u8 \<Rightarrow> u16 \<Rightarrow> s32 \<Rightarrow> u16 list \<Rightarrow> reg_pt \<Rightarrow> s32
      \<Rightarrow> ('p, 'a) bus_ctx \<Rightarrow> (pt_result \<times> reg_pt \<times> s32 \<times> ('p, 'a) bus_ctx) option" where
  "apbus_write_reg_poll = bus_write_reg_poll apbus_codes"

definition unibus_send_read_ack ::
    "'p bus_io \<Rightarrow> msg_meta \<Rightarrow> s32 \<Rightarrow> u16 list \<Rightarrow> ('p, 'a) bus_ctx \<Rightarrow> (s32 \<times> ('p, 'a) bus_ctx) option" where
  "unibus_send_read_ack = bus_send_read_ack unibus_codes"

definition apbus_send_read_ack ::
    "'p bus_io \<Rightarrow> msg_meta \<Rightarrow> s32 \<Rightarrow> u16 list \<Rightarrow> ('p, 'a) bus_ctx \<Rightarrow> (s32 \<times> ('p, 'a) bus_ctx) option" where
  "apbus_send_read_ack = bus_send_read_ack apbus_codes"

definition unibus_send_write_ack ::
    "'p bus_io \<Rightarrow> msg_meta \<Rightarrow> u8 \<Rightarrow> ('p, 'a) bus_ctx \<Rightarrow> (s32 \<times> ('p, 'a) bus_ctx) option" where
  "unibus_send_write_ack = bus_send_write_ack unibus_codes"

definition apbus_send_write_ack ::
    "'p bus_io \<Rightarrow> msg_meta \<Rightarrow> u8 \<Rightarrow> ('p, 'a) bus_ctx \<Rightarrow> (s32 \<times> ('p, 'a) bus_ctx) option" where
  "apbus_send_write_ack = bus_send_write_ack apbus_codes"

definition apbus_received_ack :: "('p, 'a) cmd_handler" where
  "apbus_received_ack = bus_received_ack"

definition apbus_find_dest_dev :: "u8 \<Rightarrow> ('p, 'a) bus_ctx list \<Rightarrow> s32 \<Rightarrow> nat option option" where
  "apbus_find_dest_dev = bus_find_dest_dev"

definition apbus_recv_poll ::
    "'p bus_io \<Rightarrow> u32 \<Rightarrow> msg_meta \<Rightarrow> ('p, 'a) cmd_parser option \<Rightarrow> s32 \<Rightarrow> ('p, 'a) bus_ctx
      \<Rightarrow> (pt_result \<times> ('p, 'a) bus_ctx) option" where
  "apbus_recv_poll = bus_recv_poll"

lemmas bus_instances = unibus_read_reg_poll_def apbus_read_reg_poll_def unibus_write_reg_poll_def
  apbus_write_reg_poll_def unibus_send_read_ack_def apbus_send_read_ack_def unibus_send_write_ack_def
  apbus_send_write_ack_def apbus_received_ack_def apbus_find_dest_dev_def apbus_recv_poll_def

section \<open>Registers as bytes\<close>

lemma bus_take_regs_bytes:
  assumes "i + length rs \<le> length reg" and "take (2 * length rs) (drop (2 * i) body) = reg_bytes rs"
  shows "bus_take_regs body i (length rs) reg = Some (take i reg @ rs @ drop (i + length rs) reg)"
  using assms
proof (induction rs arbitrary: i reg)
  case (Cons r rs)
  have d: "take (2 + 2 * length rs) (drop (2 * i) body) = lo8 r # hi8 r # reg_bytes rs"
    using Cons.prems(2) by simp
  have "length (take (2 + 2 * length rs) (drop (2 * i) body)) = 2 + 2 * length rs" unfolding d by simp
  then have len: "2 * i + 2 + 2 * length rs \<le> length body" by simp
  have "body ! (2 * i) = lo8 r" "body ! (2 * i + 1) = hi8 r"
    using arg_cong [OF d, of "\<lambda>l. l ! 0"] arg_cong [OF d, of "\<lambda>l. l ! 1"] len by simp_all
  moreover have "take (2 * length rs) (drop (2 * Suc i) body) = reg_bytes rs"
    using arg_cong [OF d, of "drop 2"] len by (simp add: drop_take add.commute)
  ultimately show ?case
    using Cons.IH [of "Suc i" "reg[i := r]"] Cons.prems(1) len
    by (simp add: load_in store_in mult.commute add.commute upd_conv_take_nth_drop take_Suc_conv_app_nth)
qed simp

lemma bus_put_regs_bytes:
  assumes "i + n \<le> length reg" and "2 * (i + n) \<le> length body"
  shows "bus_put_regs reg i n body
    = Some (take (2 * i) body @ reg_bytes (take n (drop i reg)) @ drop (2 * (i + n)) body)"
  using assms
proof (induction n arbitrary: i body)
  case (Suc n)
  let ?b = "body[2 * i := lo8 (reg ! i), 2 * i + 1 := hi8 (reg ! i)]"
  have "take (2 * Suc i) ?b = take (2 * i) body @ [lo8 (reg ! i), hi8 (reg ! i)]"
    using Suc.prems(2) by (simp add: take_Suc_conv_app_nth)
  moreover have "take (Suc n) (drop i reg) = reg ! i # take n (drop (Suc i) reg)"
    using Suc.prems(1) by (simp add: Cons_nth_drop_Suc [symmetric])
  ultimately show ?case
    using Suc.IH [of "Suc i" ?b] Suc.prems by (simp add: load_in store_in mult.commute drop_update_cancel)
qed simp

lemma bus_put_regs_overrun:
  assumes "i + n \<le> length reg" and "length body < 2 * (i + n)" and "2 * i \<le> length body"
  shows "bus_put_regs reg i n body = None"
  using assms
proof (induction n arbitrary: i body)
  case (Suc n)
  show ?case
  proof (cases "2 * i + 2 \<le> length body")
    case True
    with Suc show ?thesis by (simp add: load_in store_in mult.commute)
  next
    case False
    with Suc.prems show ?thesis by (cases "2 * i < length body") (simp_all add: load_in store_def mult.commute)
  qed
qed simp


section \<open>Sending and receiving messages\<close>

abbreviation sent_frame :: "bus_backend \<Rightarrow> msg_meta \<Rightarrow> u8 list" where
  "sent_frame bk m \<equiv> bus_frame bk m @ replicate (269 - unat (mm_body_len m)) 0"

abbreviation frame_len :: "msg_meta \<Rightarrow> 32 word" where
  "frame_len m \<equiv> word_of_nat (unat (mm_body_len m) + 11)"

lemma bus_send_frame:
  assumes "msg_meta_ok m"
  shows "bus_send io m ctx = map_option (\<lambda>p. ctx\<lparr>cx_port := p\<rparr>)
    (io_write io (sent_frame (io_backend io) m) (frame_len m) (cx_port ctx))"
proof -
  have "bus_make_msg (io_backend io) m (replicate BUS_MAX_MSG_LEN 0)
      = Some (BUS_ERR_NO, sent_frame (io_backend io) m, unat (mm_body_len m) + 11)"
    using bus_make_msg_frame [OF assms, of "replicate BUS_MAX_MSG_LEN 0" "io_backend io"]
    by (simp add: BUS_MAX_MSG_LEN_def)
  then show ?thesis by (simp add: bus_send_def bind_return_map del: of_nat_add)
qed

lemma bus_check_sent_frame:
  assumes "bus_backend_ok bk" and "msg_meta_ok m" and "length (mm_body m0) = 256"
  shows "bus_check_integrity bk (sent_frame bk m) (frame_len m) m0 = Some (BUS_ERR_NO,
    m\<lparr>mm_body := take (unat (mm_body_len m)) (mm_body m) @ drop (unat (mm_body_len m)) (mm_body m0)\<rparr>)"
proof -
  have "unat (mm_body_len m) \<le> 256" using assms(2) by (simp add: msg_meta_ok_def)
  then have "length (sent_frame bk m) = BUS_MAX_MSG_LEN"
    "take (unat (mm_body_len m) + 11) (sent_frame bk m) = bus_frame bk m"
    using length_bus_frame [OF assms(2), of bk] by (simp_all add: BUS_MAX_MSG_LEN_def)
  from bus_check_own_frame [OF assms(1,2) this(1) assms(3) this(2)] show ?thesis by simp
qed

text \<open>The messages of the four sending functions.\<close>

definition read_request :: "bus_codes \<Rightarrow> u8 \<Rightarrow> u8 \<Rightarrow> u16 \<Rightarrow> nat \<Rightarrow> msg_meta" where
  "read_request cc s d index n = \<lparr>mm_src_id = s, mm_dest_id = d, mm_cmd_func = cc_rd cc, mm_index = index,
     mm_body = lo8 (word_of_nat (2 * n)) # hi8 (word_of_nat (2 * n)) # replicate 254 0, mm_body_len = 2\<rparr>"

definition write_request :: "bus_codes \<Rightarrow> u8 \<Rightarrow> u8 \<Rightarrow> u16 \<Rightarrow> u16 list \<Rightarrow> bool \<Rightarrow> msg_meta" where
  "write_request cc s d index regs ack = \<lparr>mm_src_id = s, mm_dest_id = d,
     mm_cmd_func = (if ack then cc_wr cc else cc_wr_nr cc), mm_index = index,
     mm_body = reg_bytes regs @ replicate (256 - 2 * length regs) 0,
     mm_body_len = word_of_nat (2 * length regs)\<rparr>"

definition read_answer :: "bus_codes \<Rightarrow> msg_meta \<Rightarrow> u16 list \<Rightarrow> msg_meta" where
  "read_answer cc m regs = \<lparr>mm_src_id = mm_dest_id m, mm_dest_id = mm_src_id m,
     mm_cmd_func = cc_ack_rd cc, mm_index = mm_index m,
     mm_body = reg_bytes regs @ replicate (256 - 2 * length regs) 0,
     mm_body_len = word_of_nat (2 * length regs)\<rparr>"

definition write_answer :: "bus_codes \<Rightarrow> msg_meta \<Rightarrow> u8 \<Rightarrow> msg_meta" where
  "write_answer cc m ret = \<lparr>mm_src_id = mm_dest_id m, mm_dest_id = mm_src_id m,
     mm_cmd_func = cc_ack_wr cc, mm_index = mm_index m, mm_body = ret # replicate 255 0, mm_body_len = 1\<rparr>"

lemma messages_ok:
  "msg_meta_ok (read_request cc s d index n)" "msg_meta_ok (write_answer cc m ret)"
  "length regs \<le> 128 \<Longrightarrow> msg_meta_ok (write_request cc s d index regs ack)"
  "length regs \<le> 128 \<Longrightarrow> msg_meta_ok (read_answer cc m regs)"
  by (simp_all add: msg_meta_ok_def read_request_def write_answer_def write_request_def read_answer_def
      unat_u16_of_nat del: of_nat_mult)

lemma ucast_double: "(ucast (word_of_nat n * 2 :: u32) :: u16) = word_of_nat (2 * n)"
proof -
  have "(word_of_nat n * 2 :: u32) = word_of_nat (2 * n)" by simp
  moreover have "(ucast (word_of_nat (2 * n) :: u32) :: u16) = word_of_nat (2 * n)"
    by (simp add: word_unat_eq_iff unat_ucast_mod unat_of_nat mod_mod_cancel del: of_nat_mult)
  ultimately show ?thesis by (simp only:)
qed

lemma replicate_update_two: "(replicate 256 0)[0 := a, Suc 0 := b] = a # b # replicate 254 (0 :: u8)"
proof -
  have "replicate 256 (0 :: u8) = 0 # 0 # replicate 254 0" by (simp add: numeral_eq_Suc)
  then show ?thesis by simp
qed

lemma bus_read_reg_send_request:
  "bus_read_reg_send cc io s d index (word_of_nat n) ctx = bus_send io (read_request cc s d index n) ctx"
  by (simp add: bus_read_reg_send_def Let_def zero_meta_def read_request_def BUS_MAX_BODY_LEN_def
      ucast_double replicate_update_two del: of_nat_mult)

lemma bus_write_reg_send_request:
  assumes "n \<le> length reg" and "n \<le> 128"
  shows "bus_write_reg_send cc io s d index (word_of_nat n) reg ack ctx
    = bus_send io (write_request cc s d index (take n reg) ack) ctx"
proof -
  have "nat (sint (word_of_nat n :: s32)) = n" using assms(2) by (simp add: sint_of_nat_31)
  moreover have "bus_put_regs reg 0 n (mm_body zero_meta)
      = Some (reg_bytes (take n reg) @ replicate (256 - 2 * n) 0)"
    using bus_put_regs_bytes [of 0 n reg "mm_body zero_meta"] assms
    by (simp add: zero_meta_def BUS_MAX_BODY_LEN_def)
  ultimately show ?thesis
    using assms(1) by (simp add: bus_write_reg_send_def zero_meta_def write_request_def ucast_double
        min_absorb2 del: of_nat_mult)
qed

lemma bus_send_read_ack_answer:
  assumes "unat (mm_index m) + n \<le> length tab" and "n \<le> 128"
  shows "bus_send_read_ack cc io m (word_of_nat (2 * n)) tab ctx
    = map_option (Pair BUS_ERR_NO) (bus_send io (read_answer cc m (take n (drop (unat (mm_index m)) tab))) ctx)"
proof -
  let ?i = "unat (mm_index m)" and ?rs = "take n (drop (unat (mm_index m)) tab)"
  have len: "ucast (word_of_nat (2 * n) :: s32) = (word_of_nat (2 * n) :: u16)"
    "unat (word_of_nat (2 * n) :: u16) = 2 * n"
    using unat_u16_of_nat [of "2 * n"] assms(2) ucast_double [of n] by (simp_all add: mult.commute)
  have "take (2 * n) (drop (2 * ?i) (reg_bytes tab)) = reg_bytes ?rs"
    by (simp only: drop_reg_bytes take_reg_bytes)
  then have "copy_bytes (mm_body zero_meta) 0 (reg_bytes tab) (2 * ?i) (2 * n)
      = Some (reg_bytes ?rs @ replicate (256 - 2 * n) 0)"
    using assms by (simp add: copy_bytes_in zero_meta_def BUS_MAX_BODY_LEN_def)
  moreover have "length ?rs = n" using assms(1) by simp
  ultimately show ?thesis
    by (simp add: bus_send_read_ack_def Let_def len zero_meta_def read_answer_def bind_return_map
        del: of_nat_mult)
qed

lemma bus_send_write_ack_answer:
  "bus_send_write_ack cc io m ret ctx = map_option (Pair BUS_ERR_NO) (bus_send io (write_answer cc m ret) ctx)"
proof -
  have "(mm_body zero_meta)[0 := ret] = ret # replicate 255 0"
    by (simp add: zero_meta_def BUS_MAX_BODY_LEN_def numeral_eq_Suc)
  then show ?thesis
    by (simp add: bus_send_write_ack_def write_answer_def bind_return_map) (simp add: zero_meta_def)
qed


section \<open>Taking an answer\<close>

lemma bus_received_ack_stores:
  assumes "length (mm_body m) = 256" and "unat (mm_body_len m) \<le> 256"
    and "length (mb_body (cx_msg_body ctx)) = 280"
  shows "bus_received_ack ctx m = Some (0, ctx\<lparr>cx_msg_body := \<lparr>
    mb_body = take (unat (mm_body_len m)) (mm_body m) @ drop (unat (mm_body_len m)) (mb_body (cx_msg_body ctx)),
    mb_recv = 1, mb_cmd_fun = mm_cmd_func m, mb_cmd_index = mm_index m, mb_body_len = ucast (mm_body_len m)\<rparr>\<rparr>, m)"
  using assms by (simp add: bus_received_ack_def copy_bytes_in)

lemma sint_widen_16_32: "sint (ucast (w :: u16) :: s32) = int (unat w)"
proof -
  have "unat w < 2 ^ 31" by (rule less_trans [OF unat_u16_less]) simp
  then show ?thesis using sint_of_nat_31 [of "unat w"] by (simp add: unsigned_ucast_eq take_bit_eq_mod)
qed

lemma sdiv_double: "int (2 * n) sdiv 2 = int n"
  by (cases "n = 0") (simp_all add: signed_divide_int_def)

text \<open>A resumed reading protothread with the answer to its request.\<close>

lemma bus_read_reg_poll_answer:
  assumes "rp_waiting pt" and "mb_recv (cx_msg_body ctx) = 1" and "mb_cmd_fun (cx_msg_body ctx) = cc_ack_rd cc"
    and "mb_cmd_index (cx_msg_body ctx) = index" and "mb_body_len (cx_msg_body ctx) = word_of_nat (2 * length rs)"
    and "take (2 * length rs) (mb_body (cx_msg_body ctx)) = reg_bytes rs"
    and "length rs \<le> length reg" and "length rs \<le> 140"
  shows "bus_read_reg_poll cc io tick timeout s d index num pt reg rn ctx
    = Some (PT_ENDED, pt\<lparr>rp_waiting := False\<rparr>, rs @ drop (length rs) reg, word_of_nat (length rs),
        ctx\<lparr>cx_msg_body := (cx_msg_body ctx)\<lparr>mb_recv := 0\<rparr>\<rparr>)"
proof -
  have "sint (word_of_nat (2 * length rs) :: s32) sdiv 2 = int (length rs)"
    using assms(8) sdiv_double [of "length rs"] sint_of_nat_31 [of "2 * length rs"]
    by (simp del: of_nat_mult)
  moreover have "bus_take_regs (mb_body (cx_msg_body ctx)) 0 (length rs) reg = Some (rs @ drop (length rs) reg)"
    using bus_take_regs_bytes [of 0 rs reg] assms(6,7) by simp
  ultimately show ?thesis
    using assms(1-5) by (simp add: bus_read_reg_poll_def bus_body_get_def Let_def del: of_nat_mult)
qed

section \<open>Properties of register accesses\<close>

text \<open>
  A register read over the bus returns the registers of the other side: the request the client
  sends is accepted by the check of the server, where it names the client, the index and the
  number of bytes; the answer the server makes of it with its register table is accepted by the
  check of the client; and the client's protothread, resumed after its handler has taken the
  answer, ends with exactly the registers asked for, whatever its timer says.
\<close>

theorem bus_register_read_transaction:
  assumes "bus_backend_ok (io_backend io)" and "io_write io = (\<lambda>msg len p. Some (send msg len p))"
    and "n \<le> 128" and "unat index + n \<le> length tab" and "n \<le> length reg" and "\<not> rp_waiting pt"
    and "length (mm_body g1) = 256" and "length (mm_body g2) = 256"
    and "length (mb_body (cx_msg_body cl1)) = 280"
  shows "\<exists>req rsp pt1 q a cl2 cl3.
      bus_read_reg_poll cc io now timeout src dest index (word_of_nat n) pt reg rn cl
        = Some (PT_YIELDED, pt1, reg, rn, cl\<lparr>cx_port := send req 13 (cx_port cl)\<rparr>)
    \<and> bus_check_integrity (io_backend io) req 13 g1 = Some (BUS_ERR_NO, q)
    \<and> mm_src_id q = src \<and> mm_dest_id q = dest \<and> mm_cmd_func q = cc_rd cc \<and> mm_index q = index
    \<and> mk16 (mm_body q ! 0) (mm_body q ! 1) = word_of_nat (2 * n)
    \<and> bus_send_read_ack cc io q (word_of_nat (2 * n)) tab sv
        = Some (BUS_ERR_NO, sv\<lparr>cx_port := send rsp (word_of_nat (2 * n + 11)) (cx_port sv)\<rparr>)
    \<and> bus_check_integrity (io_backend io) rsp (word_of_nat (2 * n + 11)) g2 = Some (BUS_ERR_NO, a)
    \<and> mm_src_id a = dest \<and> mm_dest_id a = src
    \<and> bus_received_ack cl1 a = Some (0, cl2, a)
    \<and> bus_read_reg_poll cc io later timeout src dest index (word_of_nat n) pt1 reg rn cl2
        = Some (PT_ENDED, pt1\<lparr>rp_waiting := False\<rparr>, take n (drop (unat index) tab) @ drop n reg,
            word_of_nat n, cl3)"
proof -
  let ?bk = "io_backend io" and ?rs = "take n (drop (unat index) tab)"
  let ?rq = "read_request cc src dest index n"
  define q where "q = ?rq\<lparr>mm_body := take 2 (mm_body ?rq) @ drop 2 (mm_body g1)\<rparr>"
  define an where "an = read_answer cc q ?rs"
  define a where "a = an\<lparr>mm_body := take (2 * n) (mm_body an) @ drop (2 * n) (mm_body g2)\<rparr>"
  have rs: "length ?rs = n" using assms(4) by simp
  have q: "mm_index q = index" "mm_src_id q = src" "mm_dest_id q = dest" "mm_cmd_func q = cc_rd cc"
    "mk16 (mm_body q ! 0) (mm_body q ! 1) = word_of_nat (2 * n)"
    by (simp_all add: q_def read_request_def del: of_nat_mult)
  have an: "msg_meta_ok an" "unat (mm_body_len an) = 2 * n" "mm_body_len an = word_of_nat (2 * n)"
    using messages_ok(4) [of ?rs cc q] assms(3) rs unat_u16_of_nat [of "2 * n"]
    by (simp_all add: an_def read_answer_def del: of_nat_mult)
  have rq: "msg_meta_ok ?rq" "unat (mm_body_len ?rq) = 2"
    by (rule messages_ok) (simp add: read_request_def)
  have poll: "bus_read_reg_poll cc io now timeout src dest index (word_of_nat n) pt reg rn cl
      = Some (PT_YIELDED, \<lparr>rp_waiting = True, rp_timer = swtimer_set now timeout (rp_timer pt)\<rparr>, reg, rn,
          cl\<lparr>cx_port := send (sent_frame ?bk ?rq) 13 (cx_port cl)\<rparr>)"
    using assms(2,6) bus_send_frame [OF rq(1), of io cl] rq(2)
    by (simp add: bus_read_reg_poll_def bus_read_reg_send_request)
  have chk1: "bus_check_integrity ?bk (sent_frame ?bk ?rq) 13 g1 = Some (BUS_ERR_NO, q)"
    using bus_check_sent_frame [OF assms(1) rq(1) assms(7)] rq(2) by (simp add: q_def)
  have ack: "bus_send_read_ack cc io q (word_of_nat (2 * n)) tab sv
      = Some (BUS_ERR_NO, sv\<lparr>cx_port := send (sent_frame ?bk an) (word_of_nat (2 * n + 11)) (cx_port sv)\<rparr>)"
    using bus_send_read_ack_answer [of q n tab cc io sv] assms(2,3,4) q(1) an(2)
      bus_send_frame [OF an(1), of io sv] by (simp add: an_def del: of_nat_mult of_nat_add)
  have chk2: "bus_check_integrity ?bk (sent_frame ?bk an) (word_of_nat (2 * n + 11)) g2 = Some (BUS_ERR_NO, a)"
    using bus_check_sent_frame [OF assms(1) an(1) assms(8)] an(2) by (simp add: a_def del: of_nat_mult of_nat_add)
  have a: "mm_src_id a = dest" "mm_dest_id a = src" "mm_index a = index" "mm_cmd_func a = cc_ack_rd cc"
    "mm_body_len a = word_of_nat (2 * n)" "length (mm_body a) = 256" "take (2 * n) (mm_body a) = reg_bytes ?rs"
    using an rs assms(3,8) q by (simp_all add: a_def msg_meta_ok_def del: of_nat_mult)
      (simp_all add: an_def read_answer_def q)
  let ?mb = "\<lparr>mb_body = reg_bytes ?rs @ drop (2 * n) (mb_body (cx_msg_body cl1)), mb_recv = 1,
    mb_cmd_fun = cc_ack_rd cc, mb_cmd_index = index, mb_body_len = word_of_nat (2 * n)\<rparr>"
  have ua: "unat (mm_body_len a) = 2 * n" "ucast (mm_body_len a) = (word_of_nat (2 * n) :: s32)"
    using an(2,3) a(5) of_nat_unat [of "mm_body_len an", where ?'a = s32] by (simp_all del: of_nat_mult)
  have rcv: "bus_received_ack cl1 a = Some (0, cl1\<lparr>cx_msg_body := ?mb\<rparr>, a)"
    using bus_received_ack_stores [OF a(6) _ assms(9)] ua assms(3) a by simp
  have fin: "bus_read_reg_poll cc io later timeout src dest index (word_of_nat n)
      \<lparr>rp_waiting = True, rp_timer = swtimer_set now timeout (rp_timer pt)\<rparr> reg rn (cl1\<lparr>cx_msg_body := ?mb\<rparr>)
    = Some (PT_ENDED, \<lparr>rp_waiting = False, rp_timer = swtimer_set now timeout (rp_timer pt)\<rparr>, ?rs @ drop n reg,
        word_of_nat n, cl1\<lparr>cx_msg_body := ?mb\<lparr>mb_recv := 0\<rparr>\<rparr>)"
    using bus_read_reg_poll_answer [of "\<lparr>rp_waiting = True, rp_timer = swtimer_set now timeout (rp_timer pt)\<rparr>"
      "cl1\<lparr>cx_msg_body := ?mb\<rparr>" cc index ?rs reg] rs assms(3,5) by (simp del: of_nat_mult)
  show ?thesis
    using poll chk1 q ack chk2 a(1,2) rcv fin by (intro exI conjI) (assumption | simp)+
qed


text \<open>A port that keeps the last message written to it.\<close>

definition wire_io :: "u8 list bus_io" where
  "wire_io = \<lparr>io_backend = apbus_backend_uart, io_read = (\<lambda>p buf i n. Some (0, buf, p)),
     io_write = (\<lambda>msg len p. Some (take (unat len) msg))\<rparr>"

definition fresh_ctx :: "'p \<Rightarrow> 'a \<Rightarrow> ('p, 'a) bus_ctx" where
  "fresh_ctx p app = \<lparr>cx_port = p, cx_response_timeout = 100, cx_sub_id = [1, 0, 0, 0],
     cx_msg_body = \<lparr>mb_body = replicate 280 0, mb_recv = 0, mb_cmd_fun = 0, mb_cmd_index = 0, mb_body_len = 0\<rparr>,
     cx_msg = replicate 280 0, cx_recv_waiting = False, cx_receive_waiting = False, cx_reader = idle_reader,
     cx_app = app\<rparr>"

definition wire_ctx :: "(u8 list, unit) bus_ctx" where
  "wire_ctx = fresh_ctx [] ()"

definition idle_reg_pt :: reg_pt where
  "idle_reg_pt = \<lparr>rp_waiting = False, rp_timer = \<lparr>sw_start = 0, sw_timeout_ms = 0, sw_isstop = 0\<rparr>\<rparr>"

lemma wire_facts:
  "bus_backend_ok (io_backend wire_io)" "io_write wire_io = (\<lambda>msg len p. Some (take (unat len) msg))"
  "\<not> rp_waiting idle_reg_pt" "length (mm_body zero_meta) = 256"
  "length (mb_body (cx_msg_body wire_ctx)) = 280" "mb_recv (cx_msg_body wire_ctx) = 0"
  by (simp_all add: wire_io_def bus_backend_ok_def idle_reg_pt_def zero_meta_def BUS_MAX_BODY_LEN_def
      wire_ctx_def fresh_ctx_def)

theorem bus_register_read_transaction_witness:
  "\<exists>rsp q a cl2 cl3 pt1.
     bus_send_read_ack apbus_codes wire_io q 4 [10, 20, 30, 40] wire_ctx
       = Some (BUS_ERR_NO, wire_ctx\<lparr>cx_port := take 15 rsp\<rparr>)
   \<and> bus_check_integrity apbus_backend_uart rsp 15 zero_meta = Some (BUS_ERR_NO, a)
   \<and> bus_received_ack wire_ctx a = Some (0, cl2, a)
   \<and> bus_read_reg_poll apbus_codes wire_io 9 50 1 2 1 2 pt1 [0, 0, 0] 0 cl2
       = Some (PT_ENDED, pt1\<lparr>rp_waiting := False\<rparr>, [20, 30, 0], 2, cl3)"
proof -
  have n: "(2 :: nat) \<le> 128" "unat (1 :: u16) + 2 \<le> length [10, 20, 30, 40 :: u16]" "2 \<le> length [0, 0, 0 :: u16]"
    by simp_all
  show ?thesis
    using bus_register_read_transaction [OF wire_facts(1,2) n wire_facts(3,4,4,5), where now = 7 and timeout = 50
        and src = 1 and dest = 2 and rn = 0 and cl = wire_ctx and cc = apbus_codes
        and sv = wire_ctx and later = 9]
    by (simp add: wire_io_def) blast
qed

lemma bus_write_reg_poll_answer:
  assumes "rp_waiting pt" and "mb_recv (cx_msg_body ctx) = 1" and "mb_cmd_fun (cx_msg_body ctx) = cc_ack_wr cc"
    and "cc_ack_wr cc \<noteq> cc_ack_rd cc"
    and "mb_body_len (cx_msg_body ctx) = 1" and "mb_body (cx_msg_body ctx) = ret # bs"
  shows "bus_write_reg_poll cc io tick timeout s d index num reg pt rw ctx
    = Some (PT_ENDED, pt\<lparr>rp_waiting := False\<rparr>, ucast ret,
        ctx\<lparr>cx_msg_body := (cx_msg_body ctx)\<lparr>mb_recv := 0\<rparr>\<rparr>)"
  using assms by (simp add: bus_write_reg_poll_def bus_body_get_def Let_def load_in)



text \<open>
  Writing more than 128 registers at once writes outside the body of the message, on both buses.
\<close>

theorem bus_write_reg_overruns:
  assumes "128 < n" and "n < 2 ^ 31" and "n \<le> length reg" and "\<not> rp_waiting pt"
  shows "bus_write_reg_poll cc io now timeout src dest index (word_of_nat n) reg pt rw cl = None"
proof -
  have "nat (sint (word_of_nat n :: s32)) = n" using assms(2) by (simp add: sint_of_nat_31)
  moreover have "bus_put_regs reg 0 n (mm_body zero_meta) = None"
    using assms(1,3) by (intro bus_put_regs_overrun) (simp_all add: zero_meta_def BUS_MAX_BODY_LEN_def)
  ultimately show ?thesis using assms(4) by (simp add: bus_write_reg_poll_def bus_write_reg_send_def)
qed

theorem bus_write_reg_overruns_witness:
  "bus_write_reg_poll unibus_codes wire_io 7 50 1 2 0 129 (replicate 200 5) idle_reg_pt 0 wire_ctx = None"
  using bus_write_reg_overruns [of 129 "replicate 200 5", OF _ _ _ wire_facts(3)] by simp

text \<open>
  A request without answer: as long as no answer with the function and the index of a read
  request has come, its protothread goes on waiting until the timeout has passed since the
  request was sent, then ends with the timeout error and leaves the registers alone; a foreign answer is left
  for its own request. When the request was sent at tick 0 the timeout never comes.
\<close>

theorem bus_read_reg_poll_no_answer:
  assumes "\<not> rp_waiting pt" and "elapsed < 2 ^ 31" and "timeout < 2 ^ 31"
    and "bus_read_reg_poll cc io now (word_of_nat timeout) src dest index n pt reg rn cl
      = Some (PT_YIELDED, pt1, reg, rn, cl0)"
    and "mb_recv (cx_msg_body cl1) \<noteq> 1 \<or> mb_cmd_fun (cx_msg_body cl1) \<noteq> cc_ack_rd cc
      \<or> mb_cmd_index (cx_msg_body cl1) \<noteq> index"
  shows "bus_read_reg_poll cc io (now + word_of_nat elapsed) (word_of_nat timeout) src dest index n pt1 reg rn cl1
    = (if now \<noteq> 0 \<and> timeout \<le> elapsed
       then Some (PT_ENDED, pt1\<lparr>rp_waiting := False\<rparr>, reg, BUS_ERR_MSG_TIMEOUT, cl1)
       else Some (PT_YIELDED, pt1, reg, rn, cl1))"
proof -
  have pt1: "pt1 = \<lparr>rp_waiting = True, rp_timer = swtimer_set now (word_of_nat timeout) (rp_timer pt)\<rparr>"
    using assms(1,4) by (auto simp: bus_read_reg_poll_def bind_eq_Some_conv)
  have "bus_body_get cc (cc_ack_rd cc) index cl1 = (False, cl1)"
    using assms(5) by (auto simp: bus_body_get_def Let_def)
  moreover have "swtimer_expired (now + word_of_nat elapsed) (swtimer_set now (word_of_nat timeout) (rp_timer pt))
      = (now \<noteq> 0 \<and> timeout \<le> elapsed)"
    using swtimer_set_elapsed [OF _ assms(3,2)] swtimer_set_zero_tick by (cases "now = 0") simp_all
  ultimately show ?thesis by (simp add: bus_read_reg_poll_def pt1)
qed

theorem bus_read_reg_poll_no_answer_witness:
  "\<exists>pt1. bus_read_reg_poll unibus_codes wire_io (7 + word_of_nat 50) (word_of_nat 50) 1 2 3 4 pt1 [0] 0
      wire_ctx = Some (PT_ENDED, pt1\<lparr>rp_waiting := False\<rparr>, [0], - 7, wire_ctx)"
proof -
  have "\<exists>pt1 cl0. bus_read_reg_poll unibus_codes wire_io 7 (word_of_nat 50) 1 2 3 (word_of_nat 4) idle_reg_pt
      [0] 0 wire_ctx = Some (PT_YIELDED, pt1, [0], 0, cl0)"
    using bus_send_frame [OF messages_ok(1) [of unibus_codes 1 2 3 4], of wire_io wire_ctx]
    by (simp add: bus_read_reg_poll_def bus_read_reg_send_request wire_facts del: of_nat_numeral of_nat_add)
  then obtain pt1 cl0 where "bus_read_reg_poll unibus_codes wire_io 7 (word_of_nat 50) 1 2 3 (word_of_nat 4)
      idle_reg_pt [0] 0 wire_ctx = Some (PT_YIELDED, pt1, [0], 0, cl0)" by blast
  then have "bus_read_reg_poll unibus_codes wire_io (7 + word_of_nat 50) (word_of_nat 50) 1 2 3
      (word_of_nat 4) pt1 [0] 0 wire_ctx
    = (if (7 :: u32) \<noteq> 0 \<and> (50 :: nat) \<le> 50
       then Some (PT_ENDED, pt1\<lparr>rp_waiting := False\<rparr>, [0], BUS_ERR_MSG_TIMEOUT, wire_ctx)
       else Some (PT_YIELDED, pt1, [0], 0, wire_ctx))"
    by (intro bus_read_reg_poll_no_answer [OF wire_facts(3)]) (assumption | simp add: wire_facts(6))+
  then show ?thesis by (intro exI [of _ pt1]) (simp add: BUS_ERR_MSG_TIMEOUT_def)
qed


section \<open>Receiving over a UART\<close>

text \<open>A UART together with the state of the hardware around it is a port of the reader, too.\<close>

abbreviation port_inv :: "'h uart_st \<Rightarrow> bool" where
  "port_inv p \<equiv> uart_rx_inv (fst p)"

abbreviation port_view :: "'h uart_st \<Rightarrow> u8 list" where
  "port_view p \<equiv> uart_rx_view (fst p)"

text \<open>Reading it changes nothing but the receive FIFO.\<close>

definition port_like :: "'h uart_st \<Rightarrow> 'h uart_st \<Rightarrow> bool" where
  "port_like p0 p \<longleftrightarrow> port_inv p \<and> snd p = snd p0
     \<and> (fst p)\<lparr>ua_rx_fifo := ua_rx_fifo (fst p0)\<rparr> = fst p0"

interpretation serial_port: byte_source "io_read (serial_io bk ops delay_ms)" port_view "port_like p0"
  for bk and ops :: "'h sdk_uart_ops" and delay_ms p0
proof unfold_locales
  fix p :: "'h uart_st" and i and n :: u32 and buf :: "u8 list"
  assume "port_like p0 p"
  then have inv: "port_inv p" and like: "snd p = snd p0" "(fst p)\<lparr>ua_rx_fifo := ua_rx_fifo (fst p0)\<rparr> = fst p0"
    by (simp_all add: port_like_def)
  show "\<exists>p1. io_read (serial_io bk ops delay_ms) p buf i n
      = Some (word_of_nat (min (unat n) (length (port_view p))),
          take i buf @ take (unat n) (port_view p) @ drop (i + min (unat n) (length (port_view p))) buf, p1)
        \<and> port_like p0 p1 \<and> port_view p1 = drop (unat n) (port_view p)"
    if fits: "i + min (unat n) (length (port_view p)) \<le> length buf"
  proof -
    obtain u1 where u1: "uart_read_at (fst p) buf i n = Some (word_of_nat (min (unat n) (length (port_view p))),
          take i buf @ take (unat n) (port_view p) @ drop (i + min (unat n) (length (port_view p))) buf, u1)"
        "uart_rx_inv u1" "uart_rx_view u1 = drop (unat n) (port_view p)"
      using uart_port.rd_view [OF inv fits] by blast
    moreover have "\<exists>f. u1 = (fst p)\<lparr>ua_rx_fifo := f\<rparr>"
      using u1(1) by (auto simp: uart_read_at_def split: Option.bind_splits)
    ultimately show ?thesis using like by (cases p) (auto simp: serial_io_def port_like_def)
  qed
  show "io_read (serial_io bk ops delay_ms) p buf i n = None"
    if "i \<le> length buf" "length buf < i + min (unat n) (length (port_view p))"
    using uart_port.rd_overrun [OF inv that] by (cases p) (simp add: serial_io_def)
qed

text \<open>The message a receiver gets out of a frame of \<open>m\<close> when \<open>m0\<close> is in its variable.\<close>

definition received_meta :: "msg_meta \<Rightarrow> msg_meta \<Rightarrow> msg_meta" where
  "received_meta m m0 = m\<lparr>mm_body := take (unat (mm_body_len m)) (mm_body m)
     @ drop (unat (mm_body_len m)) (mm_body m0)\<rparr>"

text \<open>The receiving protothread of a device whose port holds a frame behind other bytes.\<close>

context byte_source
begin

lemma recv_poll_frame:
  fixes ctx :: "('p, 'a) bus_ctx"
  assumes "bus_backend_ok bk" and "msg_meta_ok m" and "length (mm_body m0) = 256"
    and "bk_mark0 bk \<notin> set junk" and "length (cx_msg ctx) = 280" and "0 <s cx_response_timeout ctx"
    and "\<not> cx_recv_waiting ctx" and "inv (cx_port ctx)"
    and "view (cx_port ctx) = junk @ bus_frame bk m @ rest"
    and io: "io_read io = rd" "io_backend io = bk"
  shows "\<exists>ctx1. cx_app ctx1 = cx_app ctx \<and> inv (cx_port ctx1)
    \<and> view (cx_port ctx1) = rest
    \<and> cx_msg ctx1 = bus_frame bk m @ drop (unat (mm_body_len m) + 11) (cx_msg ctx)
    \<and> \<not> cx_recv_waiting ctx1 \<and> cx_msg_body ctx1 = cx_msg_body ctx
    \<and> cx_response_timeout ctx1 = cx_response_timeout ctx
    \<and> bus_recv_poll io tick m0 parser host_id ctx =
      (case parser of None \<Rightarrow> None
       | Some ps \<Rightarrow>
          if ucast (mm_dest_id m) = host_id
          then do { (c, _) \<leftarrow> bus_dispatch (ps_own_cmd_ops ps) ctx1 (received_meta m m0); Some (PT_ENDED, c) }
          else case ps_others_cmd_handler ps of
              Some handler \<Rightarrow> do { (_, c, _) \<leftarrow> handler ctx1 (received_meta m m0); Some (PT_ENDED, c) }
            | None \<Rightarrow> Some (PT_ENDED, ctx1))"
proof -
  let ?n = "unat (mm_body_len m)"
  let ?msg = "bus_frame bk m @ drop (?n + 11) (cx_msg ctx)"
  have n: "?n \<le> 256" using assms(2) by (simp add: msg_meta_ok_def)
  let ?r = "(cx_reader ctx)\<lparr>br_waiting := False\<rparr>"
  obtain r1 p1 where 1: "bus_read rd bk tick (cx_response_timeout ctx) 267 False (cx_msg ctx) ?r
      (cx_port ctx) = Some (PT_ENDED, ?msg, r1, p1)"
    "br_sum r1 = word_of_nat (?n + 11)" "view p1 = rest" "inv p1"
    using loop_reads_frame [OF assms(2,4,5) _ _ _ assms(8,9),
        of "?r\<lparr>br_sum := 0, br_timeout_ms := cx_response_timeout ctx, br_remaining_len := 0, br_step := 0,
            br_body_len := 0\<rparr>" tick False] assms(6)
    by (auto simp: bus_read_def)
  have len: "length ?msg = BUS_MAX_MSG_LEN" "take (?n + 11) ?msg = bus_frame bk m"
    using length_bus_frame [OF assms(2), of bk] n assms(5) by (simp_all add: BUS_MAX_MSG_LEN_def)
  have chk: "bus_check_integrity bk ?msg (br_sum r1) m0 = Some (BUS_ERR_NO, received_meta m m0)"
    using bus_check_own_frame [OF assms(1,2) len(1) assms(3) len(2)] 1(2) by (simp add: received_meta_def)
  have sm: "unat (br_sum r1) = ?n + 11" unfolding 1(2) using n by (simp add: unat_of_nat del: of_nat_add)
  have pos: "0 < br_sum r1" "0 <s br_sum r1"
    using sm n by (simp_all add: word_less_nat_alt word_sless_alt)
      (simp add: 1(2) sint_of_nat_31 del: of_nat_add)
  have lens: "(word_of_nat (bk_header_length bk + bk_checksum_length bk + bk_max_data_length bk) :: u32) = 267"
    by (simp add: bus_backend_ok_lengths [OF assms(1)])
  define ctx1 where "ctx1 = ctx\<lparr>cx_msg := ?msg, cx_reader := r1, cx_port := p1, cx_receive_waiting := False,
    cx_recv_waiting := False\<rparr>"
  have rcv: "bus_receive_msg io tick m0 0 False (ctx\<lparr>cx_receive_waiting := False\<rparr>)
      = Some (PT_ENDED, received_meta m m0, br_sum r1, ctx\<lparr>cx_msg := ?msg, cx_reader := r1, cx_port := p1,
          cx_receive_waiting := False\<rparr>)"
    unfolding bus_receive_msg_def Let_def io lens using 1(1) chk pos(1) by simp
  have fields: "mm_dest_id (received_meta m m0) = mm_dest_id m" by (simp add: received_meta_def)
  have "bus_recv_poll io tick m0 parser host_id ctx =
      (case parser of None \<Rightarrow> None
       | Some ps \<Rightarrow>
          if ucast (mm_dest_id m) = host_id
          then do { (c, _) \<leftarrow> bus_dispatch (ps_own_cmd_ops ps) ctx1 (received_meta m m0); Some (PT_ENDED, c) }
          else case ps_others_cmd_handler ps of
              Some handler \<Rightarrow> do { (_, c, _) \<leftarrow> handler ctx1 (received_meta m m0); Some (PT_ENDED, c) }
            | None \<Rightarrow> Some (PT_ENDED, ctx1))"
    using assms(7) rcv pos(2) fields
    by (cases parser)
      (auto simp: bus_recv_poll_def Let_def ctx1_def case_prod_beta split: option.splits Option.bind_splits)
  then show ?thesis
    using 1(3,4) by (intro exI [of _ ctx1]) (simp add: ctx1_def)
qed

end

lemma serial_io_backend [simp]: "io_backend (serial_io bk ops delay_ms) = bk"
  by (simp add: serial_io_def)

lemma bus_recv_poll_frame:
  fixes ctx :: "('h uart_st, 'a) bus_ctx"
  assumes "bus_backend_ok bk" and "msg_meta_ok m" and "length (mm_body m0) = 256"
    and "bk_mark0 bk \<notin> set junk" and "length (cx_msg ctx) = 280" and "0 <s cx_response_timeout ctx"
    and "\<not> cx_recv_waiting ctx" and "port_inv (cx_port ctx)"
    and "port_view (cx_port ctx) = junk @ bus_frame bk m @ rest"
  shows "\<exists>ctx1. cx_app ctx1 = cx_app ctx \<and> port_like (cx_port ctx) (cx_port ctx1)
    \<and> port_view (cx_port ctx1) = rest
    \<and> cx_msg ctx1 = bus_frame bk m @ drop (unat (mm_body_len m) + 11) (cx_msg ctx)
    \<and> \<not> cx_recv_waiting ctx1 \<and> cx_msg_body ctx1 = cx_msg_body ctx
    \<and> cx_response_timeout ctx1 = cx_response_timeout ctx
    \<and> bus_recv_poll (serial_io bk ops delay_ms) tick m0 parser host_id ctx =
      (case parser of None \<Rightarrow> None
       | Some ps \<Rightarrow>
          if ucast (mm_dest_id m) = host_id
          then do { (c, _) \<leftarrow> bus_dispatch (ps_own_cmd_ops ps) ctx1 (received_meta m m0); Some (PT_ENDED, c) }
          else case ps_others_cmd_handler ps of
              Some handler \<Rightarrow> do { (_, c, _) \<leftarrow> handler ctx1 (received_meta m m0); Some (PT_ENDED, c) }
            | None \<Rightarrow> Some (PT_ENDED, ctx1))"
proof -
  have like: "port_like (cx_port ctx) (cx_port ctx)" using assms(8) by (simp add: port_like_def)
  show ?thesis
    by (rule serial_port.recv_poll_frame [OF assms(1-7) like assms(9)]) simp_all
qed

lemma bus_dispatch_none:
  assumes "\<forall>(f, h) \<in> set ops. f = mm_cmd_func m \<longrightarrow> h = None"
  shows "bus_dispatch ops ctx m = Some (ctx, m)"
  using assms by (induction ops) (auto split: option.splits)

lemma bus_dispatch_skip:
  assumes "\<forall>(f, h) \<in> set ops1. f = mm_cmd_func m \<longrightarrow> h = None"
  shows "bus_dispatch (ops1 @ ops2) ctx m = bus_dispatch ops2 ctx m"
  using assms by (induction ops1) (auto split: option.splits)


section \<open>Properties of receiving\<close>

text \<open>
  Dispatch of a received message: a scheduling of the receiving protothread that finds a frame for
  this device in the UART, behind any bytes without the first marker, runs the handler registered for its
  function, once, with the message of the frame, and leaves the bytes behind the frame in the UART.
\<close>

theorem bus_recv_poll_runs_handler:
  fixes ctx :: "('h uart_st, 'a) bus_ctx"
  assumes "bus_backend_ok bk" and "msg_meta_ok m" and "length (mm_body m0) = 256"
    and "bk_mark0 bk \<notin> set junk" and "length (cx_msg ctx) = 280" and "0 <s cx_response_timeout ctx"
    and "\<not> cx_recv_waiting ctx" and "port_inv (cx_port ctx)"
    and "port_view (cx_port ctx) = junk @ bus_frame bk m @ rest"
    and "ps_own_cmd_ops ps = ops1 @ (mm_cmd_func m, Some (\<lambda>c x. Some (ret c x, eff c x, x))) # ops2"
    and "\<forall>(f, h) \<in> set (ops1 @ ops2). f = mm_cmd_func m \<longrightarrow> h = None"
  shows "\<exists>ctx1. cx_app ctx1 = cx_app ctx \<and> port_view (cx_port ctx1) = rest
    \<and> bus_recv_poll (serial_io bk ops delay_ms) tick m0 (Some ps) (ucast (mm_dest_id m)) ctx
      = Some (PT_ENDED, eff ctx1 (received_meta m m0))"
proof -
  have f: "mm_cmd_func (received_meta m m0) = mm_cmd_func m" by (simp add: received_meta_def)
  have none: "\<forall>(f, h) \<in> set ops1. f = mm_cmd_func (received_meta m m0) \<longrightarrow> h = None"
    "\<forall>(f, h) \<in> set ops2. f = mm_cmd_func (received_meta m m0) \<longrightarrow> h = None"
    using assms(11) unfolding f by simp_all
  have "bus_dispatch (ps_own_cmd_ops ps) c (received_meta m m0)
      = Some (eff c (received_meta m m0), received_meta m m0)" for c
    unfolding assms(10) bus_dispatch_skip [OF none(1)] using bus_dispatch_none [OF none(2)] f by simp
  then show ?thesis
    using bus_recv_poll_frame [OF assms(1-9), of ops delay_ms tick "Some ps" "ucast (mm_dest_id m)"] by auto
qed

text \<open>
  A bus without parser: the check for \<open>NULL\<close> only logs, so the first frame that arrives makes the
  receiving protothread read through the null pointer.
\<close>

theorem bus_recv_poll_null_parser:
  fixes ctx :: "('h uart_st, 'a) bus_ctx"
  assumes "bus_backend_ok bk" and "msg_meta_ok m" and "length (mm_body m0) = 256"
    and "bk_mark0 bk \<notin> set junk" and "length (cx_msg ctx) = 280" and "0 <s cx_response_timeout ctx"
    and "\<not> cx_recv_waiting ctx" and "port_inv (cx_port ctx)"
    and "port_view (cx_port ctx) = junk @ bus_frame bk m @ rest"
  shows "bus_recv_poll (serial_io bk ops delay_ms) tick m0 None host_id ctx = None"
  using bus_recv_poll_frame [OF assms, of ops delay_ms tick None host_id] by auto

text \<open>A context on an idle UART board that has received some bytes.\<close>

lemma ctx_holding:
  assumes "length bs \<le> 511"
  shows "\<exists>ctx :: (('h :: type) uart_st, 'a) bus_ctx. port_inv (cx_port ctx) \<and> port_view (cx_port ctx) = bs
    \<and> length (cx_msg ctx) = 280 \<and> 0 <s cx_response_timeout ctx \<and> \<not> cx_recv_waiting ctx \<and> cx_app ctx = app"
proof -
  obtain u :: "unit sdk_uart" where "uart_rx_inv u" "uart_rx_view u = bs" using uart_holding [OF assms] by blast
  then have "port_inv ((idle_uart UART_TX_IDLE :: 'h sdk_uart)\<lparr>ua_rx_fifo := ua_rx_fifo u\<rparr>, h)"
    "port_view ((idle_uart UART_TX_IDLE :: 'h sdk_uart)\<lparr>ua_rx_fifo := ua_rx_fifo u\<rparr>, h) = bs" for h
    by simp_all
  then show ?thesis
    by (intro exI [of _ "fresh_ctx ((idle_uart UART_TX_IDLE)\<lparr>ua_rx_fifo := ua_rx_fifo u\<rparr>, undefined) app"])
      (simp add: fresh_ctx_def word_sless_alt)
qed

lemma demo_frame_ctx:
  "\<exists>ctx :: (u8 list uart_st, nat) bus_ctx. port_inv (cx_port ctx)
    \<and> port_view (cx_port ctx) = [1] @ bus_frame unibus_backend_uart (demo_meta 2) @ [9]
    \<and> length (cx_msg ctx) = 280 \<and> 0 <s cx_response_timeout ctx \<and> \<not> cx_recv_waiting ctx \<and> cx_app ctx = 5"
proof -
  have "msg_meta_ok (demo_meta 2)" "unat (mm_body_len (demo_meta 2)) = 2"
    by (simp_all add: msg_meta_ok_def demo_meta_def)
  then have "length ([1] @ bus_frame unibus_backend_uart (demo_meta 2) @ [9]) \<le> 511"
    using length_bus_frame [of "demo_meta 2" unibus_backend_uart] by simp
  from ctx_holding [OF this] show ?thesis .
qed

lemma demo_frame_facts:
  "bus_backend_ok unibus_backend_uart" "msg_meta_ok (demo_meta 2)" "length (mm_body zero_meta) = 256"
  "bk_mark0 unibus_backend_uart \<notin> set [1]" "mm_dest_id (demo_meta 2) = 2" "mm_cmd_func (demo_meta 2) = 3"
  "mm_index (received_meta (demo_meta 2) m0) = 0x1234"
  by (simp_all add: bus_backend_ok_def msg_meta_ok_def demo_meta_def zero_meta_def BUS_MAX_BODY_LEN_def
      unibus_backend_uart_def received_meta_def)

theorem bus_recv_poll_runs_handler_witness:
  "\<exists>(ctx :: (u8 list uart_st, nat) bus_ctx) ctx1.
     bus_recv_poll (serial_io unibus_backend_uart list_board (\<lambda>_ s. s)) 3 zero_meta
       (Some \<lparr>ps_own_cmd_ops = [(3, Some (\<lambda>c x. Some (0, c\<lparr>cx_app := cx_app c + unat (mm_index x)\<rparr>, x)))],
              ps_others_cmd_handler = None\<rparr>) 2 ctx = Some (PT_ENDED, ctx1)
   \<and> cx_app ctx = 5 \<and> cx_app ctx1 = 5 + 0x1234"
proof -
  obtain ctx :: "(u8 list uart_st, nat) bus_ctx" where ctx: "port_inv (cx_port ctx)"
    "port_view (cx_port ctx) = [1] @ bus_frame unibus_backend_uart (demo_meta 2) @ [9]"
    "length (cx_msg ctx) = 280" "0 <s cx_response_timeout ctx" "\<not> cx_recv_waiting ctx" "cx_app ctx = 5"
    using demo_frame_ctx by blast
  define eff :: "(u8 list uart_st, nat) bus_ctx \<Rightarrow> msg_meta \<Rightarrow> (u8 list uart_st, nat) bus_ctx" where
    "eff = (\<lambda>c x. c\<lparr>cx_app := cx_app c + unat (mm_index x)\<rparr>)"
  let ?ps = "\<lparr>ps_own_cmd_ops = [(3, Some (\<lambda>c x. Some (0, eff c x, x)))], ps_others_cmd_handler = None\<rparr>"
  have ops: "ps_own_cmd_ops ?ps = [] @ (mm_cmd_func (demo_meta 2), Some (\<lambda>c x. Some (0, eff c x, x))) # []"
    "\<forall>(f, h) \<in> set ([] @ []). f = mm_cmd_func (demo_meta 2) \<longrightarrow> h = None"
    by (simp_all add: demo_frame_facts)
  from bus_recv_poll_runs_handler [OF demo_frame_facts(1-4) ctx(3-5,1,2) ops, of list_board "\<lambda>_ s. s" 3]
  obtain ctx1 where "cx_app ctx1 = 5" "bus_recv_poll (serial_io unibus_backend_uart list_board (\<lambda>_ s. s)) 3
      zero_meta (Some ?ps) 2 ctx = Some (PT_ENDED, eff ctx1 (received_meta (demo_meta 2) zero_meta))"
    using ctx(6) by (auto simp: demo_frame_facts)
  then show ?thesis
    unfolding eff_def using ctx(6)
    by (intro exI [of _ ctx] exI [of _ "ctx1\<lparr>cx_app := 5 + 0x1234\<rparr>"]) (simp add: demo_frame_facts)
qed

theorem bus_recv_poll_null_parser_witness:
  "\<exists>ctx :: (u8 list uart_st, nat) bus_ctx.
     bus_recv_poll (serial_io unibus_backend_uart list_board (\<lambda>_ s. s)) 3 zero_meta None 2 ctx = None"
proof -
  obtain ctx :: "(u8 list uart_st, nat) bus_ctx" where ctx: "port_inv (cx_port ctx)"
    "port_view (cx_port ctx) = [1] @ bus_frame unibus_backend_uart (demo_meta 2) @ [9]"
    "length (cx_msg ctx) = 280" "0 <s cx_response_timeout ctx" "\<not> cx_recv_waiting ctx"
    using demo_frame_ctx by blast
  from bus_recv_poll_null_parser [OF demo_frame_facts(1-4) ctx(3-5,1,2)] show ?thesis by blast
qed

end
