(* ===== verification/Utils.thy ===== *)
theory Utils
  imports Soft_Timer "HOL-Library.Signed_Division"
begin

text \<open>
  src/src/sdk_utils.c: byte order and hexadecimal text. The conversions between register values and
  physical quantities and the statistics of that file compute with \<open>double\<close>; they are in Utils_Double.
  Characters are bytes; \<open>char\<close> constants are written as their codes.
\<close>

unbundle bit_operations_syntax

section \<open>Byte order\<close>

definition utils_htons :: "u16 \<Rightarrow> u16" where
  "utils_htons n = push_bit 8 (n AND 0xff) OR drop_bit 8 (n AND 0xff00)"

definition utils_ntohs :: "u16 \<Rightarrow> u16" where
  "utils_ntohs n = utils_htons n"

definition utils_htonl :: "u32 \<Rightarrow> u32" where
  "utils_htonl n = push_bit 24 (n AND 0xff) OR push_bit 8 (n AND 0xff00)
     OR drop_bit 8 (n AND 0xff0000) OR drop_bit 24 (n AND 0xff000000)"

definition utils_ntohl :: "u32 \<Rightarrow> u32" where
  "utils_ntohl n = utils_htonl n"

lemma utils_htons_bytes: "utils_htons n = mk16 (hi8 n) (lo8 n)"
proof -
  have m: "(0xff :: u16) = mask 8" "(0xff00 :: u16) = push_bit 8 (mask 8)" by (simp_all add: mask_eq_exp_minus_1)
  have "mk16 (hi8 n) (lo8 n) = ucast (hi8 n) OR push_bit 8 (ucast (lo8 n))"
    unfolding mk16_def by (rule disjunctive_add) (auto simp: bit_simps dest: bit_imp_le_length)
  then show ?thesis
    unfolding utils_htons_def m by (simp add: lo8_def hi8_def bit_eq_iff bit_simps) (auto simp: bit_simps)
qed

definition mk32 :: "u8 \<Rightarrow> u8 \<Rightarrow> u8 \<Rightarrow> u8 \<Rightarrow> u32" where
  "mk32 a b c d = ucast a OR push_bit 8 (ucast b) OR push_bit 16 (ucast c) OR push_bit 24 (ucast d)"

definition byte32 :: "nat \<Rightarrow> u32 \<Rightarrow> u8" where
  "byte32 k n = ucast (drop_bit (8 * k) n)"

lemma utils_htonl_bytes: "utils_htonl n = mk32 (byte32 3 n) (byte32 2 n) (byte32 1 n) (byte32 0 n)"
proof (rule bit_word_eqI)
  fix i assume "i < LENGTH(32)"
  have m: "(0xff :: u32) = mask 8" "(0xff00 :: u32) = push_bit 8 (mask 8)"
    "(0xff0000 :: u32) = push_bit 16 (mask 8)" "(0xff000000 :: u32) = push_bit 24 (mask 8)"
    by (simp_all add: mask_eq_exp_minus_1)
  have lt: "bit (utils_htonl n) i \<longleftrightarrow> (24 \<le> i \<and> bit n (i - 24) \<and> i - 24 < 8)
      \<or> (8 \<le> i \<and> bit n (i - 8) \<and> 8 \<le> i - 8 \<and> i - 8 < 16)
      \<or> (bit n (8 + i) \<and> 16 \<le> 8 + i \<and> 8 + i < 24) \<or> (bit n (24 + i) \<and> 24 \<le> 24 + i \<and> 24 + i < 32)"
    using \<open>i < LENGTH(32)\<close> unfolding utils_htonl_def m by (simp add: bit_simps) linarith
  have "bit (mk32 (byte32 3 n) (byte32 2 n) (byte32 1 n) (byte32 0 n)) i \<longleftrightarrow>
      (i < 8 \<and> bit n (24 + i)) \<or> (8 \<le> i \<and> i - 8 < 8 \<and> bit n (16 + (i - 8)))
      \<or> (16 \<le> i \<and> i - 16 < 8 \<and> bit n (8 + (i - 16))) \<or> (24 \<le> i \<and> i - 24 < 8 \<and> bit n (i - 24))"
    using \<open>i < LENGTH(32)\<close> unfolding mk32_def byte32_def by (auto simp: bit_simps)
  moreover have "i < 8 \<or> (\<exists>k<8. i = 8 + k) \<or> (\<exists>k<8. i = 16 + k) \<or> (\<exists>k<8. i = 24 + k)"
    using \<open>i < LENGTH(32)\<close> by simp presburger
  ultimately show "bit (utils_htonl n) i \<longleftrightarrow> bit (mk32 (byte32 3 n) (byte32 2 n) (byte32 1 n) (byte32 0 n)) i"
    unfolding lt by (elim disjE exE conjE) (auto simp: add.commute)
qed


section \<open>Hexadecimal text\<close>

text \<open>A digit; the last branch of the source returns \<open>-1\<close>.\<close>

definition hex_digit :: "u8 \<Rightarrow> u8 option" where
  "hex_digit tmp = (if tmp \<le> 9 then Some (tmp + 48)
     else if 10 \<le> tmp \<and> tmp \<le> 15 then Some (tmp - 10 + 65) else None)"

text \<open>
  The loops from index \<open>i\<close> on with \<open>n\<close> rounds left. The result is the value returned and the output array;
  \<open>None\<close> is an access outside an array.
\<close>

fun hex2str_loop :: "u8 list \<Rightarrow> nat \<Rightarrow> nat \<Rightarrow> u8 list \<Rightarrow> nat \<Rightarrow> (s32 \<times> u8 list) option" where
  "hex2str_loop input i 0 out j = do { out1 \<leftarrow> store out j 0; Some (0, out1) }"
| "hex2str_loop input i (Suc n) out j =
     do { x \<leftarrow> load input i;
          case hex_digit (drop_bit 4 x) of
            None \<Rightarrow> Some (- 1, out)
          | Some c1 \<Rightarrow> do {
              out1 \<leftarrow> store out j c1;
              case hex_digit (x AND 0x0f) of
                None \<Rightarrow> Some (- 1, out1)
              | Some c2 \<Rightarrow> do {
                  out2 \<leftarrow> store out1 (Suc j) c2;
                  hex2str_loop input (Suc i) n out2 (Suc (Suc j)) } } }"

definition utils_hex2str :: "u8 list \<Rightarrow> s32 \<Rightarrow> u8 list \<Rightarrow> s32 \<Rightarrow> (s32 \<times> u8 list) option" where
  "utils_hex2str input input_len output output_len =
     (if output_len <s input_len * 2 + 1 then Some (- 1, output)
      else hex2str_loop input 0 (nat (sint input_len)) output 0)"

definition hex_value :: "u8 \<Rightarrow> u8 option" where
  "hex_value c = (if 48 \<le> c \<and> c \<le> 57 then Some (c - 48)
     else if 65 \<le> c \<and> c \<le> 70 then Some (c - 65 + 10)
     else if 97 \<le> c \<and> c \<le> 102 then Some (c - 97 + 10) else None)"

fun str2hex_loop :: "u8 list \<Rightarrow> nat \<Rightarrow> nat \<Rightarrow> u8 list \<Rightarrow> nat \<Rightarrow> (s32 \<times> u8 list) option" where
  "str2hex_loop input i 0 out j = Some (0, out)"
| "str2hex_loop input i (Suc n) out j =
     do { c \<leftarrow> load input i;
          case hex_value c of
            None \<Rightarrow> Some (- 1, out)
          | Some tmp \<Rightarrow>
              if i mod 2 = 0 then do {
                out1 \<leftarrow> store out j (push_bit 4 tmp);
                str2hex_loop input (Suc i) n out1 j }
              else do {
                x \<leftarrow> load out j;
                out1 \<leftarrow> store out j (x OR tmp);
                str2hex_loop input (Suc i) n out1 (Suc j) } }"

text \<open>\<open>input_len / 2\<close> rounds towards zero.\<close>

definition utils_str2hex :: "u8 list \<Rightarrow> s32 \<Rightarrow> u8 list \<Rightarrow> s32 \<Rightarrow> (s32 \<times> u8 list) option" where
  "utils_str2hex input input_len output output_len =
     (if sint output_len < sint input_len sdiv 2 then Some (- 1, output)
      else str2hex_loop input 0 (nat (sint input_len)) output 0)"

section \<open>Digits\<close>

text \<open>The text of a byte: two capital hexadecimal digits.\<close>

definition hex_text :: "u8 \<Rightarrow> u8 list" where
  "hex_text x = [the (hex_digit (drop_bit 4 x)), the (hex_digit (x AND 0x0f))]"

lemma nibble_cases:
  assumes "unat (t :: u8) < 16"
  shows "\<exists>c. hex_digit t = Some c \<and> hex_value c = Some t \<and> c \<noteq> 0"
proof -
  have "\<forall>k \<in> set [0..<16]. \<exists>c. hex_digit (word_of_nat k) = Some c \<and> hex_value c = Some (word_of_nat k) \<and> c \<noteq> 0"
    by (simp add: upt_rec hex_digit_def hex_value_def)
  then have "\<exists>c. hex_digit (word_of_nat (unat t)) = Some c \<and> hex_value c = Some (word_of_nat (unat t)) \<and> c \<noteq> 0"
    by (rule bspec) (use assms in simp)
  then show ?thesis by simp
qed

lemma unat_nibbles: "unat (drop_bit 4 (x :: u8)) < 16" "unat (x AND 0x0f) < 16"
proof -
  have "unat (drop_bit 4 x) = unat x div 16" by (simp only: unat_drop_bit_eq) (simp add: drop_bit_eq_div)
  then show "unat (drop_bit 4 x) < 16"
    by (simp only:) (rule less_mult_imp_div_less, rule less_le_trans [OF unat_u8_less], simp)
  have "x AND 0x0f = take_bit 4 x" by (simp add: take_bit_eq_mask mask_eq_exp_minus_1)
  then have "unat (x AND 0x0f) = take_bit 4 (unat x)" by (simp only: unsigned_take_bit_eq)
  then show "unat (x AND 0x0f) < 16" by (simp only:) (simp add: take_bit_eq_mod)
qed

lemma nibbles_join: "push_bit 4 (drop_bit 4 x) OR (x AND 0x0f) = (x :: u8)"
proof -
  have "(0x0f :: u8) = mask 4" by (simp add: mask_eq_exp_minus_1)
  then show ?thesis by (auto simp: bit_eq_iff bit_simps)
qed

lemma hex_text_digits:
  obtains c1 c2 where "hex_digit (drop_bit 4 x) = Some c1" "hex_digit (x AND 0x0f) = Some c2"
    "hex_text x = [c1, c2]" "hex_value c1 = Some (drop_bit 4 x)" "hex_value c2 = Some (x AND 0x0f)"
  using nibble_cases [OF unat_nibbles(1), of x] nibble_cases [OF unat_nibbles(2), of x]
  by (auto simp: hex_text_def)

lemma drop_two: "Suc i < length xs \<Longrightarrow> drop i xs = xs ! i # xs ! Suc i # drop (Suc (Suc i)) xs"
  by (simp add: Cons_nth_drop_Suc)

lemma hex2str_loop_text:
  assumes "i + length bs \<le> length input" and "take (length bs) (drop i input) = bs"
    and "j + 2 * length bs < length out"
  shows "hex2str_loop input i (length bs) out j
    = Some (0, take j out @ concat (map hex_text bs) @ [0] @ drop (j + 2 * length bs + 1) out)"
  using assms
proof (induction bs arbitrary: i j out)
  case Nil
  then show ?case by (simp add: store_in upd_conv_take_nth_drop)
next
  case (Cons x bs)
  have x: "input ! i = x" "take (length bs) (drop (Suc i) input) = bs"
    using Cons.prems(1,2) by (simp_all add: Cons_nth_drop_Suc [symmetric])
  obtain c1 c2 where c: "hex_digit (drop_bit 4 x) = Some c1" "hex_digit (x AND 0x0f) = Some c2"
    "hex_text x = [c1, c2]" by (rule hex_text_digits)
  have "take (Suc (Suc j)) (out[j := c1, Suc j := c2]) = take j out @ [c1, c2]"
    using Cons.prems(3) by (simp add: take_Suc_conv_app_nth)
  then show ?case
    using Cons.IH [of "Suc i" "Suc (Suc j)" "out[j := c1, Suc j := c2]"] Cons.prems x c
    by (simp add: load_in store_in drop_update_cancel)
qed

lemma str2hex_loop_text:
  assumes "2 * j + 2 * length bs \<le> length input"
    and "take (2 * length bs) (drop (2 * j) input) = concat (map hex_text bs)"
    and "j + length bs \<le> length out"
  shows "str2hex_loop input (2 * j) (2 * length bs) out j = Some (0, take j out @ bs @ drop (j + length bs) out)"
  using assms
proof (induction bs arbitrary: j out)
  case (Cons x bs)
  obtain c1 c2 where c: "hex_text x = [c1, c2]" "hex_value c1 = Some (drop_bit 4 x)"
    "hex_value c2 = Some (x AND 0x0f)" by (rule hex_text_digits)
  have "drop (2 * j) input = input ! (2 * j) # input ! Suc (2 * j) # drop (2 * Suc j) input"
    using Cons.prems(1) by (simp add: Cons_nth_drop_Suc)
  then have i: "input ! (2 * j) = c1" "input ! Suc (2 * j) = c2"
    "take (2 * length bs) (drop (2 * Suc j) input) = concat (map hex_text bs)"
    using Cons.prems(2) c(1) by simp_all
  have out: "out[j := push_bit 4 (drop_bit 4 x), j := push_bit 4 (drop_bit 4 x) OR (x AND 0x0f)] = out[j := x]"
    by (simp add: nibbles_join)
  show ?case
    using Cons.IH [of "Suc j" "out[j := x]"] Cons.prems i c(2,3) out
    by (simp add: load_in store_in take_Suc_conv_app_nth drop_update_cancel)
qed simp


section \<open>Properties\<close>

text \<open>
  Network byte order: both conversions reverse the bytes of their argument, so they are their own
  inverses.
\<close>

theorem utils_byte_order:
  "utils_htons (mk16 a b) = mk16 b a \<and> utils_ntohs (utils_htons v) = v
   \<and> utils_htonl (mk32 a b c d) = mk32 d c b a \<and> utils_ntohl (utils_htonl w) = w"
proof -
  have m: "byte32 0 (mk32 a b c d) = a \<and> byte32 1 (mk32 a b c d) = b \<and> byte32 2 (mk32 a b c d) = c
      \<and> byte32 3 (mk32 a b c d) = d" for a b c d
    unfolding byte32_def mk32_def
    by (auto simp: bit_eq_iff bit_simps dest: bit_imp_le_length)
  have w: "mk32 (byte32 0 w) (byte32 1 w) (byte32 2 w) (byte32 3 w) = w"
  proof (rule bit_word_eqI)
    fix i assume "i < LENGTH(32)"
    then have "i < 8 \<or> (\<exists>k<8. i = 8 + k) \<or> (\<exists>k<8. i = 16 + k) \<or> (\<exists>k<8. i = 24 + k)"
      by simp presburger
    then show "bit (mk32 (byte32 0 w) (byte32 1 w) (byte32 2 w) (byte32 3 w)) i \<longleftrightarrow> bit w i"
      unfolding mk32_def byte32_def by (elim disjE exE conjE) (auto simp: bit_simps add.commute)
  qed
  show ?thesis
    unfolding utils_ntohs_def utils_ntohl_def utils_htons_bytes utils_htonl_bytes using m w by simp
qed

text \<open>
  Hexadecimal round trip: bytes are turned into two digits each and a terminating zero, and reading that
  text gives the bytes back; the memory behind the text and behind the bytes is untouched.
\<close>

theorem utils_hex_roundtrip:
  assumes "length bs < 2 ^ 29" and "2 * length bs < length str" and "length bs \<le> length out"
    and "length str < 2 ^ 31" and "length out < 2 ^ 31"
  shows "\<exists>str1. utils_hex2str bs (word_of_nat (length bs)) str (word_of_nat (length str)) = Some (0, str1)
    \<and> take (2 * length bs + 1) str1 = concat (map hex_text bs) @ [0]
    \<and> drop (2 * length bs + 1) str1 = drop (2 * length bs + 1) str
    \<and> utils_str2hex str1 (word_of_nat (2 * length bs)) out (word_of_nat (length out))
      = Some (0, bs @ drop (length bs) out)"
proof -
  let ?n = "length bs"
  have len: "length (concat (map hex_text xs)) = 2 * length xs" for xs
    by (induction xs) (simp_all add: hex_text_def)
  define str1 where "str1 = concat (map hex_text bs) @ [0] @ drop (2 * ?n + 1) str"
  have n: "sint (word_of_nat ?n :: s32) = int ?n" "sint (word_of_nat (2 * ?n) :: s32) = int (2 * ?n)"
    "sint (word_of_nat (length out) :: s32) = int (length out)"
    "sint (word_of_nat (length str) :: s32) = int (length str)"
    "sint (word_of_nat (2 * ?n + 1) :: s32) = int (2 * ?n + 1)"
    using assms by (intro sint_of_nat_31; simp)+
  have eq: "(word_of_nat ?n * 2 + 1 :: s32) = word_of_nat (2 * ?n + 1)" by simp
  have "\<not> (word_of_nat (length str) :: s32) <s word_of_nat ?n * 2 + 1"
    unfolding word_sless_alt eq n(4,5) using assms(2) by simp
  then have 1: "utils_hex2str bs (word_of_nat ?n) str (word_of_nat (length str)) = Some (0, str1)"
    using hex2str_loop_text [of 0 bs bs 0 str] n(1) assms(2) by (simp add: utils_hex2str_def str1_def)
  have "\<not> sint (word_of_nat (length out) :: s32) < sint (word_of_nat (2 * ?n) :: s32) sdiv 2"
    using assms(3) unfolding n(2,3) by (simp add: signed_divide_int_def sgn_if)
  moreover have "str2hex_loop str1 0 (2 * ?n) out 0 = Some (0, bs @ drop ?n out)"
    using str2hex_loop_text [of 0 bs str1 out] assms(3) len [of bs] by (simp add: str1_def)
  ultimately have 2: "utils_str2hex str1 (word_of_nat (2 * ?n)) out (word_of_nat (length out))
      = Some (0, bs @ drop ?n out)"
    unfolding utils_str2hex_def n(2) nat_int by simp
  show ?thesis
    using 1 2 len [of bs] by (intro exI [of _ str1]) (simp add: str1_def)
qed

theorem utils_hex_roundtrip_witness:
  "\<exists>str1. utils_hex2str [0x4A, 0x07] 2 [1, 1, 1, 1, 1, 1] 6 = Some (0, str1) \<and> take 5 str1 = [52, 65, 48, 55, 0]
     \<and> utils_str2hex str1 4 [9, 9, 9] 3 = Some (0, [0x4A, 0x07, 9])"
proof -
  have "concat (map hex_text [0x4A, 0x07]) = [52, 65, 48, 55]"
    by (simp add: hex_text_def hex_digit_def)
  then show ?thesis
    using utils_hex_roundtrip [of "[0x4A, 0x07]" "[1, 1, 1, 1, 1, 1]" "[9, 9, 9]"] by (simp, blast)
qed

text \<open>
  A text of an odd number of digits writes one byte more than the check of the output length provides
  for: an output of exactly \<open>input_len / 2\<close> bytes passes the check and is overrun.
\<close>

theorem utils_str2hex_odd_overruns:
  assumes "length bs < 2 ^ 29" and "hex_value c = Some v" and "length out = length bs"
  shows "utils_str2hex (concat (map hex_text bs) @ [c]) (word_of_nat (2 * length bs + 1)) out
    (word_of_nat (length out)) = None"
proof -
  let ?n = "length bs" and ?str = "concat (map hex_text bs) @ [c]"
  have len: "length (concat (map hex_text xs)) = 2 * length xs" for xs
    by (induction xs) (simp_all add: hex_text_def)
  have run: "str2hex_loop ?str (2 * j) (2 * (?n - j) + 1) o1 j = None"
    if "j \<le> ?n" "length o1 = ?n" for j o1
    using that
  proof (induction "?n - j" arbitrary: j o1)
    case 0
    then show ?case using len [of bs] assms(2) by (simp add: load_in store_out nth_append)
  next
    case (Suc k)
    then have j: "j < ?n" "?n - j = Suc (?n - Suc j)" by simp_all
    have "drop (2 * i) (concat (map hex_text xs)) = concat (map hex_text (drop i xs))" for i xs
    proof (induction xs arbitrary: i)
      case (Cons x xs)
      then show ?case by (cases i) (simp_all add: hex_text_def)
    qed simp
    then have "drop (2 * j) ?str = hex_text (bs ! j) @ concat (map hex_text (drop (Suc j) bs)) @ [c]"
      using j(1) len [of bs] by (simp add: Cons_nth_drop_Suc [symmetric])
    moreover have "drop (2 * j) ?str = ?str ! (2 * j) # ?str ! Suc (2 * j) # drop (Suc (Suc (2 * j))) ?str"
      by (rule drop_two) (use j(1) len [of bs] in simp)
    ultimately have str: "?str ! (2 * j) # ?str ! Suc (2 * j) # drop (Suc (Suc (2 * j))) ?str
        = hex_text (bs ! j) @ concat (map hex_text (drop (Suc j) bs)) @ [c]" by (simp only:)
    obtain c1 c2 where "hex_text (bs ! j) = [c1, c2]" "hex_value c1 = Some (drop_bit 4 (bs ! j))"
      "hex_value c2 = Some ((bs ! j) AND 0x0f)" by (rule hex_text_digits)
    then have "hex_value (?str ! (2 * j)) = Some (drop_bit 4 (bs ! j))"
      "hex_value (?str ! Suc (2 * j)) = Some ((bs ! j) AND 0x0f)" using str
      by (simp_all del: drop_append)
    then show ?case
      using Suc.hyps(1) [of "Suc j" "o1[j := push_bit 4 (drop_bit 4 (bs ! j)), j := push_bit 4 (drop_bit 4 (bs ! j))
          OR ((bs ! j) AND 0x0f)]"] Suc.hyps(2) Suc.prems j len [of bs]
      by (simp add: load_in store_in)
  qed
  have n: "sint (word_of_nat (2 * ?n + 1) :: s32) = int (2 * ?n + 1)"
    "sint (word_of_nat (length out) :: s32) = int (length out)"
    using assms by (intro sint_of_nat_31; simp)+
  have "int (2 * ?n + 1) sdiv 2 = int ?n" by (simp add: signed_divide_int_def sgn_if)
  moreover have "nat (int (2 * ?n + 1)) = 2 * (?n - 0) + 1" by simp
  ultimately show ?thesis
    using run [of 0 out] assms(3) unfolding utils_str2hex_def n by (simp only:) simp
qed

theorem utils_str2hex_odd_overruns_witness: "utils_str2hex [65] 1 [] 0 = None"
  using utils_str2hex_odd_overruns [of "[]" 65 10 "[]"] by (simp add: hex_value_def)

end
