(* ===== verification/Modbus.thy ===== *)
theory Modbus
  imports Prelude
begin

text \<open>
  src/src/components/modbus/modbus.c: a Modbus RTU master. The functions of the instance
  (\<open>f\<close> sends a frame, \<open>cb\<close> delivers an answer) act on the state of the program around it; pointers
  that may be \<open>NULL\<close> are options. The packed structs are the bytes they occupy.
\<close>

unbundle bit_operations_syntax

section \<open>The checksum\<close>

definition aucCRCHi :: "u8 list" where
  "aucCRCHi = [
    0x00, 0xC1, 0x81, 0x40, 0x01, 0xC0, 0x80, 0x41, 0x01, 0xC0, 0x80, 0x41, 0x00, 0xC1, 0x81, 0x40,
    0x01, 0xC0, 0x80, 0x41, 0x00, 0xC1, 0x81, 0x40, 0x00, 0xC1, 0x81, 0x40, 0x01, 0xC0, 0x80, 0x41,
    0x01, 0xC0, 0x80, 0x41, 0x00, 0xC1, 0x81, 0x40, 0x00, 0xC1, 0x81, 0x40, 0x01, 0xC0, 0x80, 0x41,
    0x00, 0xC1, 0x81, 0x40, 0x01, 0xC0, 0x80, 0x41, 0x01, 0xC0, 0x80, 0x41, 0x00, 0xC1, 0x81, 0x40,
    0x01, 0xC0, 0x80, 0x41, 0x00, 0xC1, 0x81, 0x40, 0x00, 0xC1, 0x81, 0x40, 0x01, 0xC0, 0x80, 0x41,
    0x00, 0xC1, 0x81, 0x40, 0x01, 0xC0, 0x80, 0x41, 0x01, 0xC0, 0x80, 0x41, 0x00, 0xC1, 0x81, 0x40,
    0x00, 0xC1, 0x81, 0x40, 0x01, 0xC0, 0x80, 0x41, 0x01, 0xC0, 0x80, 0x41, 0x00, 0xC1, 0x81, 0x40,
    0x01, 0xC0, 0x80, 0x41, 0x00, 0xC1, 0x81, 0x40, 0x00, 0xC1, 0x81, 0x40, 0x01, 0xC0, 0x80, 0x41,
    0x01, 0xC0, 0x80, 0x41, 0x00, 0xC1, 0x81, 0x40, 0x00, 0xC1, 0x81, 0x40, 0x01, 0xC0, 0x80, 0x41,
    0x00, 0xC1, 0x81, 0x40, 0x01, 0xC0, 0x80, 0x41, 0x01, 0xC0, 0x80, 0x41, 0x00, 0xC1, 0x81, 0x40,
    0x00, 0xC1, 0x81, 0x40, 0x01, 0xC0, 0x80, 0x41, 0x01, 0xC0, 0x80, 0x41, 0x00, 0xC1, 0x81, 0x40,
    0x01, 0xC0, 0x80, 0x41, 0x00, 0xC1, 0x81, 0x40, 0x00, 0xC1, 0x81, 0x40, 0x01, 0xC0, 0x80, 0x41,
    0x00, 0xC1, 0x81, 0x40, 0x01, 0xC0, 0x80, 0x41, 0x01, 0xC0, 0x80, 0x41, 0x00, 0xC1, 0x81, 0x40,
    0x01, 0xC0, 0x80, 0x41, 0x00, 0xC1, 0x81, 0x40, 0x00, 0xC1, 0x81, 0x40, 0x01, 0xC0, 0x80, 0x41,
    0x01, 0xC0, 0x80, 0x41, 0x00, 0xC1, 0x81, 0x40, 0x00, 0xC1, 0x81, 0x40, 0x01, 0xC0, 0x80, 0x41,
    0x00, 0xC1, 0x81, 0x40, 0x01, 0xC0, 0x80, 0x41, 0x01, 0xC0, 0x80, 0x41, 0x00, 0xC1, 0x81, 0x40]"

definition aucCRCLo :: "u8 list" where
  "aucCRCLo = [
    0x00, 0xC0, 0xC1, 0x01, 0xC3, 0x03, 0x02, 0xC2, 0xC6, 0x06, 0x07, 0xC7, 0x05, 0xC5, 0xC4, 0x04,
    0xCC, 0x0C, 0x0D, 0xCD, 0x0F, 0xCF, 0xCE, 0x0E, 0x0A, 0xCA, 0xCB, 0x0B, 0xC9, 0x09, 0x08, 0xC8,
    0xD8, 0x18, 0x19, 0xD9, 0x1B, 0xDB, 0xDA, 0x1A, 0x1E, 0xDE, 0xDF, 0x1F, 0xDD, 0x1D, 0x1C, 0xDC,
    0x14, 0xD4, 0xD5, 0x15, 0xD7, 0x17, 0x16, 0xD6, 0xD2, 0x12, 0x13, 0xD3, 0x11, 0xD1, 0xD0, 0x10,
    0xF0, 0x30, 0x31, 0xF1, 0x33, 0xF3, 0xF2, 0x32, 0x36, 0xF6, 0xF7, 0x37, 0xF5, 0x35, 0x34, 0xF4,
    0x3C, 0xFC, 0xFD, 0x3D, 0xFF, 0x3F, 0x3E, 0xFE, 0xFA, 0x3A, 0x3B, 0xFB, 0x39, 0xF9, 0xF8, 0x38,
    0x28, 0xE8, 0xE9, 0x29, 0xEB, 0x2B, 0x2A, 0xEA, 0xEE, 0x2E, 0x2F, 0xEF, 0x2D, 0xED, 0xEC, 0x2C,
    0xE4, 0x24, 0x25, 0xE5, 0x27, 0xE7, 0xE6, 0x26, 0x22, 0xE2, 0xE3, 0x23, 0xE1, 0x21, 0x20, 0xE0,
    0xA0, 0x60, 0x61, 0xA1, 0x63, 0xA3, 0xA2, 0x62, 0x66, 0xA6, 0xA7, 0x67, 0xA5, 0x65, 0x64, 0xA4,
    0x6C, 0xAC, 0xAD, 0x6D, 0xAF, 0x6F, 0x6E, 0xAE, 0xAA, 0x6A, 0x6B, 0xAB, 0x69, 0xA9, 0xA8, 0x68,
    0x78, 0xB8, 0xB9, 0x79, 0xBB, 0x7B, 0x7A, 0xBA, 0xBE, 0x7E, 0x7F, 0xBF, 0x7D, 0xBD, 0xBC, 0x7C,
    0xB4, 0x74, 0x75, 0xB5, 0x77, 0xB7, 0xB6, 0x76, 0x72, 0xB2, 0xB3, 0x73, 0xB1, 0x71, 0x70, 0xB0,
    0x50, 0x90, 0x91, 0x51, 0x93, 0x53, 0x52, 0x92, 0x96, 0x56, 0x57, 0x97, 0x55, 0x95, 0x94, 0x54,
    0x9C, 0x5C, 0x5D, 0x9D, 0x5F, 0x9F, 0x9E, 0x5E, 0x5A, 0x9A, 0x9B, 0x5B, 0x99, 0x59, 0x58, 0x98,
    0x88, 0x48, 0x49, 0x89, 0x4B, 0x8B, 0x8A, 0x4A, 0x4E, 0x8E, 0x8F, 0x4F, 0x8D, 0x4D, 0x4C, 0x8C,
    0x44, 0x84, 0x85, 0x45, 0x87, 0x47, 0x46, 0x86, 0x82, 0x42, 0x43, 0x83, 0x41, 0x81, 0x80, 0x40]"

fun crc_loop :: "u8 list \<Rightarrow> nat \<Rightarrow> nat \<Rightarrow> u8 \<Rightarrow> u8 \<Rightarrow> (u8 \<times> u8) option" where
  "crc_loop frame i 0 hi lo = Some (hi, lo)"
| "crc_loop frame i (Suc n) hi lo =
     do { b \<leftarrow> load frame i;
          let iIndex = unat (lo XOR b);
          h \<leftarrow> load aucCRCHi iIndex;
          l \<leftarrow> load aucCRCLo iIndex;
          crc_loop frame (Suc i) n l (hi XOR h) }"

definition bMBCRC16 :: "u8 list \<Rightarrow> u16 \<Rightarrow> u16 option" where
  "bMBCRC16 frame len = do { (hi, lo) \<leftarrow> crc_loop frame 0 (unat len) 0xFF 0xFF; Some (mk16 lo hi) }"

text \<open>The checksum as Modbus defines it, bit by bit.\<close>

definition crc_bit :: "u16 \<Rightarrow> u16" where
  "crc_bit x = (if bit x 0 then drop_bit 1 x XOR 0xA001 else drop_bit 1 x)"

definition crc_byte :: "u8 \<Rightarrow> u16 \<Rightarrow> u16" where
  "crc_byte b c = (crc_bit ^^ 8) (c XOR ucast b)"

definition crc16 :: "u8 list \<Rightarrow> u16" where
  "crc16 bs = fold crc_byte bs 0xFFFF"

lemma crc_bit_xor: "crc_bit (x XOR y) = crc_bit x XOR crc_bit y"
  by (rule bit_eqI) (auto simp: crc_bit_def bit_simps)

lemma crc_bits_xor: "(crc_bit ^^ n) (x XOR y) = (crc_bit ^^ n) x XOR (crc_bit ^^ n) y"
  by (induction n) (simp_all add: crc_bit_xor)

text \<open>The tables are the images of the 256 bytes under a linear map, given by the images of the 8 bits.\<close>

definition xor_table :: "'a::len word list \<Rightarrow> 'a word list" where
  "xor_table bs = foldl (\<lambda>t b. t @ map (\<lambda>x. x XOR b) t) [0] bs"

lemma xor_table_snoc: "xor_table (bs @ [b]) = xor_table bs @ map (\<lambda>x. x XOR b) (xor_table bs)"
  by (simp add: xor_table_def)

lemma length_xor_table [simp]: "length (xor_table bs) = 2 ^ length bs"
  by (induction bs rule: rev_induct) (simp_all add: xor_table_snoc, simp add: xor_table_def)

lemma xor_table_linear:
  fixes f :: "u16 \<Rightarrow> 'b::len word"
  assumes "f 0 = 0" and "\<And>x y. f (x XOR y) = f x XOR f y"
    and "length bs \<le> 8" and "\<And>k. k < length bs \<Longrightarrow> bs ! k = f (2 ^ k)" and "i < 2 ^ length bs"
  shows "xor_table bs ! i = f (word_of_nat i)"
  using assms(3-5)
proof (induction bs arbitrary: i rule: rev_induct)
  case Nil
  then show ?case using assms(1) by (simp add: xor_table_def)
next
  case (snoc b bs)
  let ?n = "length bs"
  have IH: "xor_table bs ! j = f (word_of_nat j)" if "j < 2 ^ ?n" for j
    using snoc.IH [of j] that snoc.prems(1) snoc.prems(2)
    by (metis (no_types, lifting) length_append less_SucI Suc_leD length_Cons list.size(3) nth_append add_Suc_right add.right_neutral)
  show ?case
  proof (cases "i < 2 ^ ?n")
    case True
    then show ?thesis using IH by (simp add: xor_table_snoc nth_append)
  next
    case False
    define j where "j = i - 2 ^ ?n"
    have j: "i = 2 ^ ?n + j" "j < 2 ^ ?n" using False snoc.prems(3) by (simp_all add: j_def)
    have "\<not> bit j ?n" using j(2) by (simp add: bit_iff_odd)
    then have jb: "\<not> bit (word_of_nat j :: u16) ?n" by (simp add: bit_of_nat_iff)
    have "(word_of_nat i :: u16) = word_of_nat j + 2 ^ ?n" unfolding j(1) by simp
    also have "\<dots> = word_of_nat j OR 2 ^ ?n"
      by (rule disjunctive_add) (use jb in \<open>auto simp: bit_simps\<close>)
    also have "\<dots> = word_of_nat j XOR 2 ^ ?n"
      by (rule bit_eqI) (use jb in \<open>auto simp: bit_simps\<close>)
    finally have "f (word_of_nat i) = f (word_of_nat j) XOR b"
      using assms(2) snoc.prems(2) [of ?n] by simp
    moreover have "xor_table (bs @ [b]) ! i = xor_table bs ! j XOR b"
      unfolding xor_table_snoc j(1) using j(2) by (simp add: nth_append)
    ultimately show ?thesis using IH [OF j(2)] by simp
  qed
qed

lemma crc_tables_linear:
  "aucCRCHi = xor_table [0xC1, 0x81, 0x01, 0x01, 0x01, 0x01, 0x01, 0x01]"
  "aucCRCLo = xor_table [0xC0, 0xC1, 0xC3, 0xC6, 0xCC, 0xD8, 0xF0, 0xA0]"
  by (simp_all add: aucCRCHi_def aucCRCLo_def xor_table_def)

definition crc_powers :: "u16 list" where
  "crc_powers = [0xC0C1, 0xC181, 0xC301, 0xC601, 0xCC01, 0xD801, 0xF001, 0xA001]"

lemma crc_basis:
  "map (\<lambda>k. (crc_bit ^^ 8) (2 ^ k)) [0, 1, 2, 3, 4, 5, 6, 7] = crc_powers"
  "map lo8 crc_powers = [0xC1, 0x81, 0x01, 0x01, 0x01, 0x01, 0x01, 0x01]"
  "map hi8 crc_powers = [0xC0, 0xC1, 0xC3, 0xC6, 0xCC, 0xD8, 0xF0, 0xA0]"
  by code_simp+

lemma length_crc_powers [simp]: "length crc_powers = 8"
  by (simp add: crc_powers_def)

lemma crc_bit_zero: "(crc_bit ^^ n) 0 = 0"
  by (induction n) (simp_all add: crc_bit_def)

lemma crc_tables:
  assumes "i < 256"
  shows "aucCRCHi ! i = lo8 ((crc_bit ^^ 8) (word_of_nat i))"
    and "aucCRCLo ! i = hi8 ((crc_bit ^^ 8) (word_of_nat i))"
proof -
  have b: "crc_powers ! k = (crc_bit ^^ 8) (2 ^ k)" if "k < 8" for k
  proof -
    have "[0, 1, 2, 3, 4, 5, 6, 7] ! k = k" using that by (auto simp: less_Suc_eq numeral_eq_Suc)
    then show ?thesis
      using arg_cong [OF crc_basis(1), of "\<lambda>l. l ! k"] that by (simp only: nth_map list.size)
  qed
  have i: "i < 2 ^ length crc_powers" using assms by simp
  show "aucCRCHi ! i = lo8 ((crc_bit ^^ 8) (word_of_nat i))"
    unfolding crc_tables_linear crc_basis(2) [symmetric]
    by (rule xor_table_linear [where f = "\<lambda>x. lo8 ((crc_bit ^^ 8) x)"])
      (use i b in \<open>simp_all add: crc_bit_zero crc_bits_xor lo8_xor lo8_def [of 0]\<close>)
  show "aucCRCLo ! i = hi8 ((crc_bit ^^ 8) (word_of_nat i))"
    unfolding crc_tables_linear crc_basis(3) [symmetric]
    by (rule xor_table_linear [where f = "\<lambda>x. hi8 ((crc_bit ^^ 8) x)"])
      (use i b in \<open>simp_all add: crc_bit_zero crc_bits_xor hi8_xor hi8_def [of 0]\<close>)
qed

lemma length_crc_tables [simp]: "length aucCRCHi = 256" "length aucCRCLo = 256"
  by (simp_all add: crc_tables_linear)

text \<open>Eight steps shift the high byte down and reduce the low byte.\<close>

lemma crc_bits_shift: "(\<And>k. k < n \<Longrightarrow> \<not> bit x k) \<Longrightarrow> (crc_bit ^^ n) x = drop_bit n x"
proof (induction n)
  case (Suc n)
  then have "(crc_bit ^^ Suc n) x = crc_bit (drop_bit n x)" by simp
  also have "\<dots> = drop_bit (Suc n) x" using Suc.prems [of n] by (simp add: crc_bit_def bit_simps)
  finally show ?case .
qed simp

lemma mk16_or: "mk16 lo hi = ucast lo OR push_bit 8 (ucast hi)"
  unfolding mk16_def by (rule disjunctive_add) (auto simp: bit_simps dest: bit_imp_le_length)

lemma crc_byte_step:
  "crc_byte b (mk16 lo hi) = ucast hi XOR (crc_bit ^^ 8) (word_of_nat (unat (lo XOR b)))"
proof -
  have "mk16 lo hi XOR ucast b = push_bit 8 (ucast hi) XOR ucast (lo XOR b)"
    unfolding mk16_or by (rule bit_eqI) (auto simp: bit_simps dest: bit_imp_le_length)
  moreover have "(crc_bit ^^ 8) (push_bit 8 (ucast hi)) = drop_bit 8 (push_bit 8 (ucast hi))"
    by (rule crc_bits_shift) (simp add: bit_simps)
  moreover have "drop_bit 8 (push_bit 8 (ucast hi)) = (ucast hi :: u16)"
    by (rule bit_eqI) (auto simp: bit_simps dest: bit_imp_le_length)
  ultimately show ?thesis by (simp add: crc_byte_def crc_bits_xor)
qed

lemma crc_loop_crc16:
  assumes "i + n \<le> length frame"
  shows "\<exists>h l. crc_loop frame i n hi lo = Some (h, l)
    \<and> mk16 l h = fold crc_byte (take n (drop i frame)) (mk16 lo hi)"
  using assms
proof (induction n arbitrary: i hi lo)
  case (Suc n)
  let ?b = "frame ! i" and ?t = "(crc_bit ^^ 8) (word_of_nat (unat (lo XOR frame ! i))) :: u16"
  have "unat (lo XOR ?b) < 256" by (rule unat_u8_less)
  then have t: "aucCRCHi ! unat (lo XOR ?b) = lo8 ?t" "aucCRCLo ! unat (lo XOR ?b) = hi8 ?t"
    by (simp_all only: crc_tables)
  have "mk16 (hi XOR lo8 ?t) (hi8 ?t) = ucast hi XOR mk16 (lo8 ?t) (hi8 ?t)"
    unfolding mk16_or by (rule bit_eqI) (auto simp: bit_simps dest: bit_imp_le_length)
  then have step: "mk16 (hi XOR lo8 ?t) (hi8 ?t) = crc_byte ?b (mk16 lo hi)"
    by (simp only: mk16_lo8_hi8 crc_byte_step)
  have "take (Suc n) (drop i frame) = ?b # take n (drop (Suc i) frame)"
    using Suc.prems by (simp add: Cons_nth_drop_Suc [symmetric])
  then show ?case
    using Suc.IH [of "Suc i" "hi8 ?t" "hi XOR lo8 ?t"] Suc.prems step t unat_u8_less [of "lo XOR ?b"]
    by (simp add: load_in Let_def)
qed simp

lemma bMBCRC16_crc16: "unat n \<le> length frame \<Longrightarrow> bMBCRC16 frame n = Some (crc16 (take (unat n) frame))"
  using crc_loop_crc16 [of 0 "unat n" frame "0xFF" "0xFF"]
  by (auto simp: bMBCRC16_def crc16_def mk16_def)

text \<open>The checksum tells two frames apart that differ in one byte.\<close>

lemma xor_cancel: "(x :: 'a::len word) XOR z = y XOR z \<longleftrightarrow> x = y" "z XOR x = z XOR y \<longleftrightarrow> x = y"
  by (metis xor.assoc xor_self_eq xor.right_neutral, metis xor.assoc xor_self_eq xor.left_neutral)

lemma crc_bit_inj: "crc_bit x = crc_bit y \<Longrightarrow> x = y"
proof -
  assume eq: "crc_bit x = crc_bit y"
  have top: "bit (crc_bit z) 15 \<longleftrightarrow> bit z 0" for z
    using bit_imp_le_length [of z 16] by (auto simp: crc_bit_def bit_simps bit_numeral_rec)
  then have b0: "bit x 0 \<longleftrightarrow> bit y 0" using eq by metis
  have d: "drop_bit 1 x = drop_bit 1 y"
    using b0 eq by (cases "bit x 0") (simp_all add: crc_bit_def xor_cancel)
  have "bit z (Suc n) = bit (drop_bit 1 z) n" for z :: u16 and n by (simp add: bit_simps)
  then have "bit x n \<longleftrightarrow> bit y n" for n using b0 d by (cases n) simp_all
  then show "x = y" by (intro bit_eqI)
qed

lemma crc_byte_inj: "crc_byte b c = crc_byte b' c' \<Longrightarrow> c XOR ucast b = c' XOR ucast b'"
proof -
  have "inj (crc_bit ^^ 8)" by (rule inj_fn) (auto intro: injI crc_bit_inj)
  then show "crc_byte b c = crc_byte b' c' \<Longrightarrow> ?thesis" by (auto simp: crc_byte_def dest: injD)
qed

lemma fold_crc_byte_inj: "fold crc_byte bs c = fold crc_byte bs c' \<Longrightarrow> c = c'"
proof (induction bs arbitrary: c c')
  case (Cons b bs)
  then have "crc_byte b c = crc_byte b c'" by simp
  from crc_byte_inj [OF this] show ?case by (simp add: xor_cancel)
qed simp

lemma crc16_update:
  assumes "j < length bs" and "b \<noteq> bs ! j"
  shows "crc16 (bs[j := b]) \<noteq> crc16 bs"
proof
  assume eq: "crc16 (bs[j := b]) = crc16 bs"
  let ?c = "fold crc_byte (take j bs) 0xFFFF"
  have bs: "bs = take j bs @ bs ! j # drop (Suc j) bs" using assms(1) by (simp add: id_take_nth_drop)
  have 1: "crc16 (bs[j := b]) = fold crc_byte (drop (Suc j) bs) (crc_byte b ?c)"
    using assms(1) by (simp add: crc16_def upd_conv_take_nth_drop)
  have "crc16 (take j bs @ bs ! j # drop (Suc j) bs)
      = fold crc_byte (drop (Suc j) bs) (crc_byte (bs ! j) ?c)" by (simp add: crc16_def)
  with arg_cong [OF bs, of crc16] have 2: "crc16 bs = fold crc_byte (drop (Suc j) bs) (crc_byte (bs ! j) ?c)"
    by (rule trans)
  have "crc_byte b ?c = crc_byte (bs ! j) ?c"
    by (rule fold_crc_byte_inj [OF trans [OF 1 [symmetric] trans [OF eq 2]]])
  from crc_byte_inj [OF this] have "(ucast b :: u16) = ucast (bs ! j)" by (simp add: xor_cancel)
  from arg_cong [OF this, of unat] have "unat b = unat (bs ! j)" by (simp only: unat_widen_8_16)
  then show False using assms(2) by (simp add: word_unat_eq_iff)
qed


section \<open>Frames\<close>

definition MODBUS_BUF_SIZE :: nat where
  "MODBUS_BUF_SIZE = 200"

definition L2B_B2L_16b :: "u16 \<Rightarrow> u16" where
  "L2B_B2L_16b n = push_bit 8 (n AND 0xff) OR drop_bit 8 (n AND 0xff00)"

text \<open>What an answer delivers: \<open>type\<close> and the union of the two results.\<close>

datatype slave_data = MB_READ u8 u8 "u16 list" | MB_WRITE u8 u16 u16

record 'w modbus_instance =
  mb_f :: "(u8 list \<Rightarrow> u16 \<Rightarrow> 'w \<Rightarrow> 'w) option"
  mb_cb :: "(slave_data \<Rightarrow> 'w \<Rightarrow> 'w) option"

definition bMB_CheckRTUReadACK :: "u8 list option \<Rightarrow> u16 \<Rightarrow> s32 option" where
  "bMB_CheckRTUReadACK psrc len =
     (case psrc of
        None \<Rightarrow> Some (- 1)
      | Some p \<Rightarrow> do {
          l \<leftarrow> load p 2;
          if unat len < 3 + unat l + 2 then Some (- 1)
          else do {
            crc \<leftarrow> bMBCRC16 p (word_of_nat (3 + unat l));
            c0 \<leftarrow> load p (3 + unat l);
            c1 \<leftarrow> load p (3 + unat l + 1);
            Some (if crc \<noteq> mk16 c0 c1 then - 1 else 0) } })"

definition bMB_CheckRTUWriteACK :: "u8 list option \<Rightarrow> u16 \<Rightarrow> s32 option" where
  "bMB_CheckRTUWriteACK psrc len =
     (case psrc of
        None \<Rightarrow> Some (- 1)
      | Some p \<Rightarrow>
          if unat len < 8 then Some (- 1)
          else do {
            crc \<leftarrow> bMBCRC16 p 6;
            c0 \<leftarrow> load p 6;
            c1 \<leftarrow> load p 7;
            Some (if crc \<noteq> mk16 c0 c1 then - 1 else 0) })"

definition bMB_ReadRegs ::
    "'w modbus_instance option \<Rightarrow> u8 \<Rightarrow> u8 \<Rightarrow> u16 \<Rightarrow> u16 \<Rightarrow> 'w \<Rightarrow> (s32 \<times> 'w) option" where
  "bMB_ReadRegs inst addr func reg num w =
     (case inst of
        None \<Rightarrow> Some (- 1, w)
      | Some m \<Rightarrow>
          (case mb_f m of
             None \<Rightarrow> Some (- 1, w)
           | Some f \<Rightarrow> do {
               let wd = [addr, func, lo8 (L2B_B2L_16b reg), hi8 (L2B_B2L_16b reg),
                         lo8 (L2B_B2L_16b num), hi8 (L2B_B2L_16b num)];
               crc \<leftarrow> bMBCRC16 wd 6;
               Some (0, f (wd @ [lo8 crc, hi8 crc]) 8 w) }))"

text \<open>The loop that swaps the bytes of \<open>n\<close> 16-bit values of an array in place, the first at index \<open>i\<close>.\<close>

fun swap_loop :: "u8 list \<Rightarrow> nat \<Rightarrow> nat \<Rightarrow> u8 list option" where
  "swap_loop buf i 0 = Some buf"
| "swap_loop buf i (Suc n) =
     do { a \<leftarrow> load buf i; b \<leftarrow> load buf (i + 1);
          let v = L2B_B2L_16b (mk16 a b);
          buf1 \<leftarrow> store buf i (lo8 v);
          buf2 \<leftarrow> store buf1 (i + 1) (hi8 v);
          swap_loop buf2 (i + 2) n }"

text \<open>\<open>bMB_SendBuff\<close> is the argument \<open>sb\<close>; it is returned with the result.\<close>

definition bMB_WriteRegs ::
    "'w modbus_instance option \<Rightarrow> u8 \<Rightarrow> u8 \<Rightarrow> u16 \<Rightarrow> u16 \<Rightarrow> u16 list option \<Rightarrow> u8 list \<Rightarrow> 'w
      \<Rightarrow> (s32 \<times> u8 list \<times> 'w) option" where
  "bMB_WriteRegs inst addr func reg num reg_value sb w =
     (case (inst, reg_value, Option.bind inst mb_f) of
        (Some _, Some vals, Some f) \<Rightarrow> do {
          let len = (ucast (num * 2) :: u8);
          b1 \<leftarrow> write_bytes sb 0 [addr, func, lo8 (L2B_B2L_16b reg), hi8 (L2B_B2L_16b reg),
                  lo8 (L2B_B2L_16b num), hi8 (L2B_B2L_16b num), len];
          b2 \<leftarrow> copy_bytes b1 7 (reg_bytes vals) 0 (unat len);
          b3 \<leftarrow> swap_loop b2 7 (unat num);
          let tmp_len = 7 + unat len;
          crc \<leftarrow> bMBCRC16 b3 (word_of_nat tmp_len);
          b4 \<leftarrow> write_bytes b3 tmp_len [lo8 crc, hi8 crc];
          Some (0, b4, f b4 (word_of_nat (tmp_len + 2)) w) }
      | _ \<Rightarrow> Some (- 1, sb, w))"

fun reg_values :: "u8 list \<Rightarrow> nat \<Rightarrow> nat \<Rightarrow> u16 list option" where
  "reg_values buf i 0 = Some []"
| "reg_values buf i (Suc n) =
     do { a \<leftarrow> load buf i; b \<leftarrow> load buf (i + 1); vs \<leftarrow> reg_values buf (i + 2) n; Some (mk16 a b # vs) }"

text \<open>The callback gets a pointer into the frame: the values it finds there.\<close>

definition bMB_FeedReceivedData ::
    "'w modbus_instance option \<Rightarrow> u8 list option \<Rightarrow> u16 \<Rightarrow> 'w \<Rightarrow> (s32 \<times> u8 list option \<times> 'w) option" where
  "bMB_FeedReceivedData inst pbuf len w =
     (case (pbuf, Option.bind inst mb_cb) of
        (Some buf, Some cb) \<Rightarrow> do {
          rd \<leftarrow> bMB_CheckRTUReadACK pbuf len;
          if rd = 0 then do {
            func \<leftarrow> load buf 1;
            l \<leftarrow> load buf 2;
            let reg_num = l div 2;
            buf1 \<leftarrow> swap_loop buf 3 (unat reg_num);
            vals \<leftarrow> reg_values buf1 3 (unat reg_num);
            Some (0, Some buf1, cb (MB_READ func reg_num vals) w) }
          else do {
            wr \<leftarrow> bMB_CheckRTUWriteACK pbuf len;
            if wr = 0 then do {
              func \<leftarrow> load buf 1;
              r0 \<leftarrow> load buf 2; r1 \<leftarrow> load buf 3; n0 \<leftarrow> load buf 4; n1 \<leftarrow> load buf 5;
              Some (0, pbuf, cb (MB_WRITE func (L2B_B2L_16b (mk16 r0 r1)) (L2B_B2L_16b (mk16 n0 n1))) w) }
            else Some (- 1, pbuf, w) } }
      | _ \<Rightarrow> Some (- 1, pbuf, w))"

section \<open>The bytes of frames\<close>

lemma L2B_bytes: "L2B_B2L_16b n = mk16 (hi8 n) (lo8 n)"
proof -
  have m: "(0xff :: u16) = mask 8" "(0xff00 :: u16) = push_bit 8 (mask 8)" by (simp_all add: mask_eq_exp_minus_1)
  show ?thesis
    unfolding L2B_B2L_16b_def m mk16_or by (simp add: lo8_def hi8_def bit_eq_iff bit_simps) (auto simp: bit_simps)
qed

text \<open>Registers in network order, and a frame with its checksum.\<close>

definition be_bytes :: "u16 list \<Rightarrow> u8 list" where
  "be_bytes regs = concat (map (\<lambda>r. [hi8 r, lo8 r]) regs)"

definition crc_frame :: "u8 list \<Rightarrow> u8 list" where
  "crc_frame bs = bs @ [lo8 (crc16 bs), hi8 (crc16 bs)]"

lemma be_bytes_simps [simp]:
  "be_bytes [] = []" "be_bytes (r # rs) = hi8 r # lo8 r # be_bytes rs"
  by (simp_all add: be_bytes_def)

lemma length_be_bytes [simp]: "length (be_bytes rs) = 2 * length rs"
  by (induction rs) simp_all

text \<open>Swapping turns registers in network order into registers in memory order, and back.\<close>

lemma swap_loop_be:
  "swap_loop (xs @ be_bytes rs @ ys) (length xs) (length rs) = Some (xs @ reg_bytes rs @ ys)"
proof (induction rs arbitrary: xs)
  case (Cons r rs)
  then show ?case
    using Cons.IH [of "xs @ [lo8 r, hi8 r]"]
    by (simp add: load_in store_in Let_def L2B_bytes nth_append list_update_append)
qed simp

lemma swap_loop_reg:
  "swap_loop (xs @ reg_bytes rs @ ys) (length xs) (length rs) = Some (xs @ be_bytes rs @ ys)"
proof (induction rs arbitrary: xs)
  case (Cons r rs)
  then show ?case
    using Cons.IH [of "xs @ [hi8 r, lo8 r]"]
    by (simp add: load_in store_in Let_def L2B_bytes nth_append list_update_append)
qed simp

lemma reg_values_bytes: "reg_values (xs @ reg_bytes rs @ ys) (length xs) (length rs) = Some rs"
proof (induction rs arbitrary: xs)
  case (Cons r rs)
  then show ?case
    using Cons.IH [of "xs @ [lo8 r, hi8 r]"] by (simp add: load_in nth_append)
qed simp

lemma length_swap_loop: "swap_loop buf i n = Some buf1 \<Longrightarrow> length buf1 = length buf"
  by (induction buf i n rule: swap_loop.induct) (auto simp: bind_eq_Some_conv Let_def store_Some_iff)

lemma swap_loop_overrun: "0 < n \<Longrightarrow> length buf < i + 2 * n \<Longrightarrow> swap_loop buf i n = None"
proof (induction buf i n rule: swap_loop.induct)
  case (2 buf i n)
  show ?case
  proof (cases "i + 1 < length buf")
    case True
    then have "0 < n" using 2(3) by (cases n) simp_all
    then show ?thesis using 2 True by (simp add: load_in store_in Let_def)
  next
    case False
    then show ?thesis by (cases "i < length buf") (simp_all add: load_in load_out)
  qed
qed simp


lemma unat_u16_nat: "n < 65536 \<Longrightarrow> unat (word_of_nat n :: u16) = n"
  by (rule unat_u16_of_nat)

lemma bMBCRC16_prefix:
  "length xs = n \<Longrightarrow> n < 65536 \<Longrightarrow> bMBCRC16 (xs @ ys) (word_of_nat n) = Some (crc16 xs)"
  by (subst bMBCRC16_crc16) (simp_all add: unat_u16_nat)

lemma mk16_eq_bytes: "mk16 a b = v \<longleftrightarrow> a = lo8 v \<and> b = hi8 v"
  by auto

text \<open>What the check of a read answer does with a complete frame.\<close>

lemma check_read_frame:
  assumes "length ds = unat l" and "5 + unat l \<le> unat n"
  shows "bMB_CheckRTUReadACK (Some ([addr, func, l] @ ds @ [c0, c1] @ rest)) n
    = Some (if c0 = lo8 (crc16 ([addr, func, l] @ ds)) \<and> c1 = hi8 (crc16 ([addr, func, l] @ ds)) then 0 else - 1)"
proof -
  let ?p = "[addr, func, l] @ ds @ [c0, c1] @ rest"
  have "unat l < 256" by (rule unat_u8_less)
  then have lt: "3 + unat l < 65536" by linarith
  have "bMBCRC16 ?p (word_of_nat (3 + unat l)) = Some (crc16 ([addr, func, l] @ ds))"
    using bMBCRC16_prefix [OF _ lt, of "[addr, func, l] @ ds" "[c0, c1] @ rest"] assms(1) by simp
  moreover have "load ?p (3 + unat l) = Some c0" "load ?p (3 + unat l + 1) = Some c1"
    using assms(1) by (simp_all add: load_def nth_append)
  moreover have "load ?p 2 = Some l" by (simp add: load_def)
  ultimately show ?thesis
    using assms(2) mk16_eq_bytes [of c0 c1 "crc16 ([addr, func, l] @ ds)"]
    by (auto simp: bMB_CheckRTUReadACK_def simp del: append.simps of_nat_add)
qed

lemma check_write_frame:
  assumes "unat n = 8"
  shows "bMB_CheckRTUWriteACK (Some (crc_frame [a, f, r1, r0, n1, n0])) n = Some 0"
  using assms bMBCRC16_prefix [of "[a, f, r1, r0, n1, n0]" 6]
  by (simp add: bMB_CheckRTUWriteACK_def load_def crc_frame_def)

section \<open>Properties\<close>

text \<open>
  C24. The table-driven checksum is the checksum of the Modbus specification, computed bit by bit with
  the polynomial \<open>0xA001\<close>, for every frame.
\<close>

theorem modbus_crc_bitwise:
  assumes "unat n \<le> length frame"
  shows "bMBCRC16 frame n = Some (crc16 (take (unat n) frame))"
  using assms by (rule bMBCRC16_crc16)

theorem modbus_crc_bitwise_witness: "bMBCRC16 [1, 3, 0, 0, 0, 1, 9] 6 = Some (crc16 [1, 3, 0, 0, 0, 1])"
  using modbus_crc_bitwise [of 6 "[1, 3, 0, 0, 0, 1, 9]"] by simp

text \<open>
  C26. Read answers: the request for registers is the frame of the specification, and the answer with
  up to 125 register values in network order is delivered to the callback of the instance, once, as those
  values.
\<close>

theorem modbus_read_registers:
  assumes "mb_f m = Some f" and "mb_cb m = Some cb" and "length vals \<le> 125"
  shows "bMB_ReadRegs (Some m) addr func reg num w
      = Some (0, f (crc_frame ([addr, func] @ be_bytes [reg, num])) 8 w)
    \<and> (\<exists>buf. bMB_FeedReceivedData (Some m)
          (Some (crc_frame ([addr, func, word_of_nat (2 * length vals)] @ be_bytes vals) @ rest))
          (word_of_nat (2 * length vals + 5)) w
        = Some (0, buf, cb (MB_READ func (word_of_nat (length vals)) vals) w))"
proof -
  let ?n = "length vals" and ?l = "word_of_nat (2 * length vals) :: u8"
  let ?c = "crc16 ([addr, func, ?l] @ be_bytes vals)"
  have l: "unat ?l = 2 * ?n" "unat (?l div 2) = ?n" "?l div 2 = word_of_nat ?n"
  proof -
    show *: "unat ?l = 2 * ?n" using assms(3) by (simp add: unat_of_nat del: of_nat_mult)
    show "unat (?l div 2) = ?n" unfolding unat_div * by simp
    then show "?l div 2 = word_of_nat ?n" using assms(3) by (simp add: word_unat_eq_iff unat_of_nat)
  qed
  let ?buf = "[addr, func, ?l] @ be_bytes vals @ [lo8 ?c, hi8 ?c] @ rest"
  have chk: "bMB_CheckRTUReadACK (Some ?buf) (word_of_nat (2 * ?n + 5)) = Some 0"
    using check_read_frame [of "be_bytes vals" ?l "word_of_nat (2 * ?n + 5)" addr func "lo8 ?c" "hi8 ?c" rest]
      l(1) assms(3) unat_u16_nat [of "2 * ?n + 5"] by (simp del: append.simps of_nat_add of_nat_mult)
  have three: "length [addr, func, ?l] = 3" by simp
  have swap: "swap_loop ?buf 3 ?n = Some ([addr, func, ?l] @ reg_bytes vals @ [lo8 ?c, hi8 ?c] @ rest)"
    by (rule swap_loop_be [of "[addr, func, ?l]" vals "[lo8 ?c, hi8 ?c] @ rest", unfolded three])
  have vals: "reg_values ([addr, func, ?l] @ reg_bytes vals @ [lo8 ?c, hi8 ?c] @ rest) 3 ?n = Some vals"
    by (rule reg_values_bytes [of "[addr, func, ?l]" vals "[lo8 ?c, hi8 ?c] @ rest", unfolded three])
  have ld: "load ?buf 1 = Some func" "load ?buf 2 = Some ?l" by (simp_all add: load_def)
  have "bMB_FeedReceivedData (Some m) (Some ?buf) (word_of_nat (2 * ?n + 5)) w
      = Some (0, Some ([addr, func, ?l] @ reg_bytes vals @ [lo8 ?c, hi8 ?c] @ rest),
          cb (MB_READ func (word_of_nat ?n) vals) w)"
    unfolding bMB_FeedReceivedData_def using assms(2) chk ld swap vals l(2,3)
    by (simp add: Let_def del: append.simps of_nat_add of_nat_mult)
  moreover have "bMBCRC16 [addr, func, hi8 reg, lo8 reg, hi8 num, lo8 num] 6
      = Some (crc16 [addr, func, hi8 reg, lo8 reg, hi8 num, lo8 num])"
    using bMBCRC16_prefix [of "[addr, func, hi8 reg, lo8 reg, hi8 num, lo8 num]" 6 "[]"] by simp
  ultimately show ?thesis
    using assms(1) by (auto simp: bMB_ReadRegs_def L2B_bytes crc_frame_def Let_def)
qed

text \<open>An instance that records what it is given.\<close>

definition log_modbus :: "(u8 list \<times> slave_data list) modbus_instance" where
  "log_modbus = \<lparr>mb_f = Some (\<lambda>msg n w. (fst w @ take (unat n) msg, snd w)),
     mb_cb = Some (\<lambda>d w. (fst w, snd w @ [d]))\<rparr>"

theorem modbus_read_registers_witness:
  "\<exists>buf. bMB_FeedReceivedData (Some log_modbus) (Some (crc_frame ([1, 3, 4] @ be_bytes [258, 772]))) 9 ([], [])
     = Some (0, buf, [], [MB_READ 3 2 [258, 772]])"
  using modbus_read_registers [of log_modbus "\<lambda>msg n w. (fst w @ take (unat n) msg, snd w)"
    "\<lambda>d w. (fst w, snd w @ [d])" "[258, 772]" 1 3 0 2 "([], [])" "[]"]
  by (simp add: log_modbus_def del: append.simps(2))






text \<open>
  Writing registers: up to 95 values go out as the frame of the specification, in network order; with 96 values or
  more the frame does not fit the static buffer and the function writes outside of it.
\<close>

theorem modbus_write_registers:
  assumes "mb_f m = Some f" and "length sb = MODBUS_BUF_SIZE" and "length vals = unat num"
  shows "(unat num \<le> 95 \<longrightarrow>
      (let frame = crc_frame ([addr, func] @ be_bytes [reg, num] @ [word_of_nat (2 * unat num)] @ be_bytes vals);
           sb1 = frame @ drop (2 * unat num + 9) sb
       in bMB_WriteRegs (Some m) addr func reg num (Some vals) sb w
            = Some (0, sb1, f sb1 (word_of_nat (2 * unat num + 9)) w)))
    \<and> (95 < unat num \<longrightarrow> bMB_WriteRegs (Some m) addr func reg num (Some vals) sb w = None)"
proof (intro conjI impI)
  let ?n = "unat num" and ?l = "ucast (num * 2) :: u8"
  let ?h = "[addr, func, hi8 reg, lo8 reg, hi8 num, lo8 num]"
  have sb: "length sb = 200" using assms(2) by (simp add: MODBUS_BUF_SIZE_def)
  have b1: "write_bytes sb 0 (?h @ [?l]) = Some (?h @ [?l] @ drop 7 sb)"
  proof -
    have "length (?h @ [?l]) = 7" by simp
    then show ?thesis using sb by (simp only: write_bytes_def) simp
  qed
  have l2: "unat ?l = 2 * ?n mod 256"
    by (simp add: unat_ucast_mod unat_word_ariths mod_mod_cancel mult.commute)
  {
    assume n: "?n \<le> 95"
    have l: "?l = word_of_nat (2 * ?n)" "unat ?l = 2 * ?n"
      using l2 n by (simp_all add: word_unat_eq_iff unat_of_nat del: of_nat_mult)
    define hd where "hd = ?h @ [?l]"
    have hd: "length hd = 7" by (simp add: hd_def)
    have b1': "write_bytes sb 0 (?h @ [?l]) = Some (hd @ drop 7 sb)" using b1 by (simp add: hd_def)
    have b2: "copy_bytes (hd @ drop 7 sb) 7 (reg_bytes vals) 0 (2 * ?n)
        = Some (hd @ reg_bytes vals @ drop (2 * ?n + 7) sb)"
      using sb n assms(3) hd by (simp add: copy_bytes_in add.commute)
    have b3: "swap_loop (hd @ reg_bytes vals @ drop (2 * ?n + 7) sb) 7 ?n
        = Some (hd @ be_bytes vals @ drop (2 * ?n + 7) sb)"
      using swap_loop_reg [of hd vals "drop (2 * ?n + 7) sb", unfolded hd] assms(3) by simp
    let ?c = "crc16 (hd @ be_bytes vals)"
    have lt: "7 + 2 * ?n < 65536" using n by linarith
    have crc: "bMBCRC16 (hd @ be_bytes vals @ drop (2 * ?n + 7) sb) (word_of_nat (7 + 2 * ?n)) = Some ?c"
      using bMBCRC16_prefix [OF _ lt, of "hd @ be_bytes vals" "drop (2 * ?n + 7) sb"] assms(3) hd by simp
    have b4: "write_bytes (hd @ be_bytes vals @ drop (2 * ?n + 7) sb) (7 + 2 * ?n) [lo8 ?c, hi8 ?c]
        = Some (hd @ be_bytes vals @ [lo8 ?c, hi8 ?c] @ drop (2 * ?n + 9) sb)"
      using sb n assms(3) hd write_bytes_behind [of "7 + 2 * ?n" "hd @ be_bytes vals" "[lo8 ?c, hi8 ?c]"
          "drop (2 * ?n + 7) sb"] by (simp add: add.commute)
    have wl: "(2 + word_of_nat (7 + 2 * ?n) :: u16) = word_of_nat (9 + 2 * ?n)" by simp
    have "bMB_WriteRegs (Some m) addr func reg num (Some vals) sb w
        = (let sb1 = hd @ be_bytes vals @ [lo8 ?c, hi8 ?c] @ drop (2 * ?n + 9) sb
           in Some (0, sb1, f sb1 (word_of_nat (2 * ?n + 9)) w))"
      using assms(1) b1' b2 b3 crc b4 l(2) wl
      by (simp add: bMB_WriteRegs_def Let_def L2B_bytes add.commute del: of_nat_add of_nat_mult)
    then show "let frame = crc_frame ([addr, func] @ be_bytes [reg, num] @ [word_of_nat (2 * ?n)] @ be_bytes vals);
           sb1 = frame @ drop (2 * ?n + 9) sb
       in bMB_WriteRegs (Some m) addr func reg num (Some vals) sb w = Some (0, sb1, f sb1 (word_of_nat (2 * ?n + 9)) w)"
      by (simp add: hd_def crc_frame_def Let_def l(1) del: of_nat_add of_nat_mult)
  next
    assume n: "95 < ?n"
    show "bMB_WriteRegs (Some m) addr func reg num (Some vals) sb w = None"
    proof (rule ccontr)
      assume "bMB_WriteRegs (Some m) addr func reg num (Some vals) sb w \<noteq> None"
      then obtain b2 b3 b4 crc where b: "copy_bytes (?h @ [?l] @ drop 7 sb) 7 (reg_bytes vals) 0 (unat ?l) = Some b2"
        "swap_loop b2 7 ?n = Some b3" "write_bytes b3 (7 + unat ?l) [lo8 crc, hi8 crc] = Some b4"
        using assms(1) b1 by (auto simp: bMB_WriteRegs_def Let_def L2B_bytes bind_eq_Some_conv)
      have "length (?h @ [?l] @ drop 7 sb) = 200" using sb by simp
      then have b2: "length b2 = 200"
        using b(1) by (auto simp: copy_bytes_def bind_eq_Some_conv dest!: length_write_bytes)
      then have "length b3 = 200" using b(2) length_swap_loop by simp
      then have "unat ?l < 192" using b(3) by (auto simp: write_bytes_def split: if_splits)
      then have "?n \<noteq> 96" using l2 by auto
      then have "swap_loop b2 7 ?n = None" using n b2 by (intro swap_loop_overrun) simp_all
      then show False using b(2) by simp
    qed
  }
qed

theorem modbus_write_registers_witness:
  "\<exists>sb1. bMB_WriteRegs (Some log_modbus) 1 16 5 1 (Some [0x1234]) (replicate 200 0) ([], [])
      = Some (0, sb1, take 11 sb1, []) \<and> take 9 sb1 = [1, 16, 0, 5, 0, 1, 2, 0x12, 0x34]"
proof -
  have f: "mb_f log_modbus = Some (\<lambda>msg n w. (fst w @ take (unat n) msg, snd w))" by (simp add: log_modbus_def)
  have "length (replicate 200 (0 :: u8)) = MODBUS_BUF_SIZE" "length [0x1234 :: u16] = unat (1 :: u16)"
    by (simp_all add: MODBUS_BUF_SIZE_def)
  note w = modbus_write_registers [OF f this, of 1 16 5 "([], [])"]
  have "be_bytes [5, 1] = [0, 5, 0, 1]" "be_bytes [0x1234] = [0x12, 0x34]"
    by (simp_all add: lo8_def hi8_def)
  then show ?thesis using w by (simp add: Let_def crc_frame_def)
qed

end
