(* ===== verification/At_Device.thy ===== *)
theory At_Device
  imports Os_Port_None Uart
begin

text \<open>
  src/src/components/device/at_device.c: a client for modems that are controlled by AT commands. The
  client sends a command, a parser that is polled collects the lines of the answer from the UART, and a
  semaphore tells the waiting command that the answer is complete.

  C strings are lists of bytes without the terminating zero; \<open>strlen\<close> is their length. The list of
  unsolicited result codes is the list of its nodes in the order of their \<open>next\<close> pointers; a node is
  known by its address. \<open>size_t\<close> values count bytes of arrays that exist, so they are natural numbers.
\<close>

section \<open>Data\<close>

datatype at_cmd_state = AT_CMD_STAT_START | AT_CMD_STAT_SEND | AT_CMD_STAT_WAIT_REV | AT_CMD_STAT_WAIT_SEND
  | AT_CMD_STAT_RETRY | AT_CMD_STAT_REVOK | AT_CMD_STAT_TIMEOUT

datatype at_resp_rl_state = AT_RESP_RL_STAT_START | AT_RESP_RL_STAT_INIT | AT_RESP_RL_STAT_RECV
  | AT_RESP_RL_STAT_READ_LINE_OK | AT_RESP_RL_STAT_BUFF_FULL

datatype at_resp_parser_state = AT_RESP_PARSER_STAT_START | AT_RESP_PARSER_STAT_READ_LINE
  | AT_RESP_PARSER_STAT_PARSE_LINE | AT_RESP_PARSER_STAT_PARSE_OK

datatype at_resp_status = AT_RESP_OK | AT_RESP_WAITING | AT_RESP_ERROR | AT_RESP_TIMEOUT | AT_RESP_BUFF_FULL

definition AT_CMD_MAX_LEN :: nat where
  "AT_CMD_MAX_LEN = 128"

definition AT_RESP_END_OK :: "u8 list" where
  "AT_RESP_END_OK = [79, 75]"

definition AT_RESP_END_ERROR :: "u8 list" where
  "AT_RESP_END_ERROR = [69, 82, 82, 79, 82]"

definition AT_RESP_END_FAIL :: "u8 list" where
  "AT_RESP_END_FAIL = [70, 65, 73, 76]"

record at_cmd =
  ac_state_common :: at_cmd_state
  ac_state_send :: at_cmd_state
  ac_trycnt_send :: s32
  ac_timer_send_wait :: swtimer

text \<open>\<open>ar_buf\<close> is the array \<open>buf\<close> of \<open>ar_buf_size\<close> bytes.\<close>

record at_resp =
  ar_rl_state :: at_resp_rl_state
  ar_read_len :: nat
  ar_last_ch :: u8
  ar_end_sign :: u8
  ar_parser_state :: at_resp_parser_state
  ar_buf :: "u8 list"
  ar_buf_len :: nat
  ar_buf_size :: nat
  ar_line_num :: nat
  ar_line_len :: nat
  ar_line_counts :: nat
  ar_status :: at_resp_status

text \<open>The function of a result code acts on the program around the driver, which is part of \<open>'h\<close>.\<close>

record 'h at_urc =
  au_address :: nat
  au_cmd_prefix :: "u8 list"
  au_cmd_suffix :: "u8 list"
  au_func :: "(u8 list \<Rightarrow> nat \<Rightarrow> 'h \<Rightarrow> 'h) option"

record 'h at_client =
  at_port :: "'h uart_st"
  at_recv_line_buf :: "u8 list"
  at_recv_line_len :: nat
  at_line_bufsz :: nat
  at_urc_list :: "'h at_urc list"
  at_cmd :: at_cmd
  at_resp :: at_resp
  at_resp_notice :: sdk_os_semaphore

section \<open>Settings\<close>

definition at_resp_set_info :: "at_resp \<Rightarrow> nat \<Rightarrow> nat \<Rightarrow> at_resp" where
  "at_resp_set_info resp line_num line_len = resp\<lparr>ar_line_len := line_len, ar_line_num := line_num\<rparr>"

definition at_obj_set_end_sign :: "'h at_client option \<Rightarrow> u8 \<Rightarrow> 'h at_client option" where
  "at_obj_set_end_sign client ch =
     (case client of None \<Rightarrow> None
      | Some c \<Rightarrow> Some (c\<lparr>at_resp := (at_resp c)\<lparr>ar_end_sign := ch\<rparr>\<rparr>))"

fun at_obj_set_urc_table :: "'h at_client \<Rightarrow> 'h at_urc list \<Rightarrow> 'h at_client" where
  "at_obj_set_urc_table client [] = client"
| "at_obj_set_urc_table client (u # urc_table) =
     at_obj_set_urc_table
       (if au_address u \<in> au_address ` set (at_urc_list client) then client
        else client\<lparr>at_urc_list := at_urc_list client @ [u]\<rparr>) urc_table"

section \<open>Comparing strings\<close>

text \<open>\<open>!strncmp(buffer + i, s, strlen(s))\<close>; the comparison stops at the first difference.\<close>

fun buffer_has :: "u8 list \<Rightarrow> nat \<Rightarrow> u8 list \<Rightarrow> bool option" where
  "buffer_has buf i [] = Some True"
| "buffer_has buf i (c # cs) = do { b \<leftarrow> load buf i; if b = c then buffer_has buf (Suc i) cs else Some False }"

text \<open>The C string at index \<open>i\<close>; reading a string without terminator runs out of the array.\<close>

definition cstring :: "u8 list \<Rightarrow> nat \<Rightarrow> u8 list option" where
  "cstring buf i = (if 0 \<in> set (drop i buf) then Some (takeWhile (\<lambda>c. c \<noteq> 0) (drop i buf)) else None)"

text \<open>\<open>strstr(s, kw) != NULL\<close>.\<close>

fun contains :: "u8 list \<Rightarrow> u8 list \<Rightarrow> bool" where
  "contains kw [] = (kw = [])"
| "contains kw (c # s) = (take (length kw) (c # s) = kw \<or> contains kw s)"

fun find_urc :: "u8 list \<Rightarrow> nat \<Rightarrow> 'h at_urc list \<Rightarrow> 'h at_urc option option" where
  "find_urc buffer bufsz [] = Some None"
| "find_urc buffer bufsz (u # us) =
     (let prefix_len = length (au_cmd_prefix u); suffix_len = length (au_cmd_suffix u)
      in if bufsz < prefix_len + suffix_len then find_urc buffer bufsz us
         else do {
           p \<leftarrow> buffer_has buffer 0 (au_cmd_prefix u);
           s \<leftarrow> (if p then buffer_has buffer (bufsz - suffix_len) (au_cmd_suffix u) else Some False);
           if p \<and> s then Some (Some u) else find_urc buffer bufsz us })"

definition get_urc_obj :: "'h at_client \<Rightarrow> 'h at_urc option option" where
  "get_urc_obj client = find_urc (at_recv_line_buf client) (at_recv_line_len client) (at_urc_list client)"

section \<open>Reading the collected answer\<close>

text \<open>The line is returned as its offset in \<open>buf\<close>, \<open>NULL\<close> as \<open>None\<close>.\<close>

fun at_line_by_kw :: "u8 list \<Rightarrow> u8 list \<Rightarrow> nat \<Rightarrow> nat \<Rightarrow> nat option option" where
  "at_line_by_kw buf kw off 0 = Some None"
| "at_line_by_kw buf kw off (Suc n) =
     do { s \<leftarrow> cstring buf off;
          if contains kw s then Some (Some off) else at_line_by_kw buf kw (off + length s + 1) n }"

definition at_resp_get_line_by_kw :: "at_resp \<Rightarrow> u8 list \<Rightarrow> nat option option" where
  "at_resp_get_line_by_kw resp keyword = at_line_by_kw (ar_buf resp) keyword 0 (ar_line_counts resp)"

text \<open>\<open>vsscanf\<close> with the caller's format and arguments is a parameter.\<close>

definition at_resp_parse_line_args_by_kw :: "(u8 list \<Rightarrow> s32) \<Rightarrow> at_resp \<Rightarrow> u8 list \<Rightarrow> s32 option" where
  "at_resp_parse_line_args_by_kw vsscanf resp keyword =
     do { line \<leftarrow> at_resp_get_line_by_kw resp keyword;
          case line of
            None \<Rightarrow> Some (- 1)
          | Some off \<Rightarrow> do { s \<leftarrow> cstring (ar_buf resp) off; Some (vsscanf s) } }"

section \<open>The parser\<close>

definition at_recv_readline :: "'h at_client \<Rightarrow> (at_resp_rl_state \<times> 'h at_client) option" where
  "at_recv_readline client =
     (let resp = at_resp client;
          done = (\<lambda>c. Some (ar_rl_state (at_resp c), c))
      in case ar_rl_state resp of
        AT_RESP_RL_STAT_START \<Rightarrow> done (client\<lparr>at_resp := resp\<lparr>ar_rl_state := AT_RESP_RL_STAT_INIT\<rparr>\<rparr>)
      | AT_RESP_RL_STAT_INIT \<Rightarrow> do {
          buf \<leftarrow> write_bytes (at_recv_line_buf client) 0 (replicate (at_line_bufsz client) 0);
          done (client\<lparr>at_recv_line_buf := buf, at_recv_line_len := 0,
            at_resp := resp\<lparr>ar_rl_state := AT_RESP_RL_STAT_RECV, ar_read_len := 0\<rparr>\<rparr>) }
      | AT_RESP_RL_STAT_RECV \<Rightarrow> do {
          (rl, chs, u) \<leftarrow> sdk_uart_read (fst (at_port client)) [0] 1;
          let client1 = client\<lparr>at_port := (u, snd (at_port client))\<rparr>;
          if rl = 1 then do {
            ch \<leftarrow> load chs 0;
            (client2, is_full) \<leftarrow>
              (if ar_read_len resp < at_line_bufsz client then do {
                 buf \<leftarrow> store (at_recv_line_buf client) (ar_read_len resp) ch;
                 Some (client1\<lparr>at_recv_line_buf := buf, at_recv_line_len := Suc (ar_read_len resp),
                         at_resp := resp\<lparr>ar_read_len := Suc (ar_read_len resp)\<rparr>\<rparr>, False) }
               else Some (client1, True));
            let resp2 = at_resp client2;
            urc \<leftarrow> (if (ch = 10 \<and> ar_last_ch resp2 = 13 \<and> ar_line_len resp2 \<le> ar_read_len resp2)
                       \<or> (ar_end_sign resp2 \<noteq> 0 \<and> ch = ar_end_sign resp2)
                    then Some True else do { o1 \<leftarrow> get_urc_obj client2; Some (o1 \<noteq> None) });
            if urc then
              if is_full then do {
                buf \<leftarrow> write_bytes (at_recv_line_buf client2) 0 (replicate (at_line_bufsz client) 0);
                done (client2\<lparr>at_recv_line_buf := buf, at_recv_line_len := 0,
                  at_resp := resp2\<lparr>ar_rl_state := AT_RESP_RL_STAT_BUFF_FULL\<rparr>\<rparr>) }
              else done (client2\<lparr>at_resp := resp2\<lparr>ar_rl_state := AT_RESP_RL_STAT_READ_LINE_OK\<rparr>\<rparr>)
            else done (client2\<lparr>at_resp := resp2\<lparr>ar_last_ch := ch\<rparr>\<rparr>) }
          else done client1 }
      | AT_RESP_RL_STAT_READ_LINE_OK \<Rightarrow> done client
      | AT_RESP_RL_STAT_BUFF_FULL \<Rightarrow> done client)"

definition at_parser_start :: "'h at_client \<Rightarrow> 'h at_client" where
  "at_parser_start client =
     client\<lparr>at_resp := (at_resp client)\<lparr>ar_parser_state := AT_RESP_PARSER_STAT_START\<rparr>\<rparr>"

text \<open>A line of the answer: it is kept, and it decides whether the answer is complete.\<close>

definition at_keep_line :: "'h at_client \<Rightarrow> (u8 \<times> 'h at_client) option" where
  "at_keep_line client =
     (if at_recv_line_len client = 0 then None
      else do {
        let last = at_recv_line_len client - 1;
        end_ch \<leftarrow> load (at_recv_line_buf client) last;
        line \<leftarrow> store (at_recv_line_buf client) last 0;
        let resp = at_resp client;
        resp1 \<leftarrow>
          (if ar_buf_len resp + at_recv_line_len client < ar_buf_size resp then do {
             buf \<leftarrow> copy_bytes (ar_buf resp) (ar_buf_len resp) line 0 (at_recv_line_len client);
             Some (resp\<lparr>ar_buf := buf, ar_buf_len := ar_buf_len resp + at_recv_line_len client,
                        ar_line_counts := Suc (ar_line_counts resp)\<rparr>) }
           else do {
             buf \<leftarrow> write_bytes (ar_buf resp) 0 (replicate (ar_buf_size resp) 0);
             Some (resp\<lparr>ar_status := AT_RESP_BUFF_FULL, ar_buf := buf, ar_buf_len := 0, ar_line_counts := 0\<rparr>) });
        Some (end_ch, client\<lparr>at_recv_line_buf := line, at_resp := resp1\<rparr>) })"

definition at_line_result :: "u8 \<Rightarrow> u8 list \<Rightarrow> at_resp \<Rightarrow> at_resp_status option option" where
  "at_line_result end_ch line resp =
     (if ar_end_sign resp \<noteq> 0 \<and> end_ch = ar_end_sign resp \<and> ar_line_num resp = 0 then Some (Some AT_RESP_OK)
      else do {
        ok \<leftarrow> read_bytes line 0 2;
        if ok = AT_RESP_END_OK \<and> ar_line_num resp = 0 then Some (Some AT_RESP_OK)
        else do {
          s \<leftarrow> cstring line 0;
          err \<leftarrow> (if contains AT_RESP_END_ERROR s then Some True
                  else do { f \<leftarrow> read_bytes line 0 4; Some (f = AT_RESP_END_FAIL) });
          if err then Some (Some AT_RESP_ERROR)
          else if ar_line_counts resp = ar_line_num resp \<and> ar_line_num resp \<noteq> 0 then Some (Some AT_RESP_OK)
          else Some None } })"

definition at_parser :: "'h at_client \<Rightarrow> (at_resp_parser_state \<times> 'h at_client) option" where
  "at_parser client =
     (let resp = at_resp client;
          done = (\<lambda>c. Some (ar_parser_state (at_resp c), c))
      in case ar_parser_state resp of
        AT_RESP_PARSER_STAT_START \<Rightarrow>
          done (client\<lparr>at_resp := resp\<lparr>ar_rl_state := AT_RESP_RL_STAT_START,
            ar_parser_state := AT_RESP_PARSER_STAT_READ_LINE, ar_buf_len := 0, ar_line_counts := 0\<rparr>\<rparr>)
      | AT_RESP_PARSER_STAT_READ_LINE \<Rightarrow> do {
          (rl_state, client1) \<leftarrow> at_recv_readline client;
          done (if rl_state = AT_RESP_RL_STAT_READ_LINE_OK
            then client1\<lparr>at_resp := (at_resp client1)\<lparr>ar_parser_state := AT_RESP_PARSER_STAT_PARSE_LINE\<rparr>\<rparr>
            else if rl_state = AT_RESP_RL_STAT_BUFF_FULL
            then client1\<lparr>at_resp := (at_resp client1)\<lparr>ar_status := AT_RESP_BUFF_FULL,
                   ar_parser_state := AT_RESP_PARSER_STAT_PARSE_OK\<rparr>\<rparr>
            else client1) }
      | AT_RESP_PARSER_STAT_PARSE_LINE \<Rightarrow> do {
          urc \<leftarrow> get_urc_obj client;
          case urc of
            Some u \<Rightarrow>
              (let (port, h) = at_port client;
                   h1 = (case au_func u of None \<Rightarrow> h
                         | Some f \<Rightarrow> f (at_recv_line_buf client) (at_recv_line_len client) h)
               in done (client\<lparr>at_port := (port, h1), at_resp := resp\<lparr>ar_status := AT_RESP_OK,
                    ar_parser_state := AT_RESP_PARSER_STAT_START\<rparr>\<rparr>))
          | None \<Rightarrow> do {
              (end_ch, client1) \<leftarrow> at_keep_line client;
              let resp1 = at_resp client1;
              result \<leftarrow> at_line_result end_ch (at_recv_line_buf client1) resp1;
              done (case result of
                Some status \<Rightarrow> client1\<lparr>at_resp_notice := snd (sdk_os_sem_release (at_resp_notice client1)),
                  at_resp := resp1\<lparr>ar_status := status, ar_parser_state := AT_RESP_PARSER_STAT_PARSE_OK\<rparr>\<rparr>
              | None \<Rightarrow> client1\<lparr>at_resp := resp1\<lparr>ar_rl_state := AT_RESP_RL_STAT_START,
                  ar_parser_state := AT_RESP_PARSER_STAT_READ_LINE\<rparr>\<rparr>) } }
      | AT_RESP_PARSER_STAT_PARSE_OK \<Rightarrow>
          done (client\<lparr>at_resp := resp\<lparr>ar_parser_state := AT_RESP_PARSER_STAT_START\<rparr>\<rparr>))"

definition at_parser_poll :: "'h at_client \<Rightarrow> 'h at_client option" where
  "at_parser_poll client =
     do { (parser_state, client1) \<leftarrow> at_parser client;
          Some (if parser_state = AT_RESP_PARSER_STAT_PARSE_OK then at_parser_start client1 else client1) }"

text \<open>The struct as its owner allocated it, with the UART when there is one.\<close>

definition at_client_init ::
    "'h at_client \<Rightarrow> 'h uart_st option \<Rightarrow> u8 list \<Rightarrow> nat \<Rightarrow> s32 \<times> 'h at_client" where
  "at_client_init client uart_port recv_line_buf line_bufsz =
     (let client1 = client\<lparr>at_recv_line_buf := recv_line_buf, at_line_bufsz := line_bufsz,
            at_resp_notice := snd (sdk_os_sem_init (at_resp_notice client) 0)\<rparr>
      in case uart_port of
           Some p \<Rightarrow> (SDK_OK, at_parser_start (client1\<lparr>at_port := p\<rparr>))
         | None \<Rightarrow> (- SDK_ERROR, client1))"

section \<open>Sending commands\<close>

definition at_resp_get_ok :: "u32 \<Rightarrow> 'h at_client \<Rightarrow> s32 \<Rightarrow> at_resp_status \<times> 'h at_client" where
  "at_resp_get_ok tick client timeout_ms =
     (let (result, sem) = sdk_os_sem_take tick (at_resp_notice client) timeout_ms
      in (if result = SDK_OK then ar_status (at_resp client)
          else if result = - SDK_E_TIMEOUT then AT_RESP_TIMEOUT else AT_RESP_WAITING,
          client\<lparr>at_resp_notice := sem\<rparr>))"

text \<open>
  \<open>AT_CMD_SEND\<close>; the loop that logs the command reads each of its bytes.
\<close>

definition at_cmd_send ::
    "'h sdk_uart_ops \<Rightarrow> (s32 \<Rightarrow> 'h uart_st \<Rightarrow> 'h uart_st) \<Rightarrow> u32 \<Rightarrow> 'h at_client \<Rightarrow> s32 \<Rightarrow> u8 list \<Rightarrow> nat
      \<Rightarrow> (at_cmd_state \<times> 'h at_client) option" where
  "at_cmd_send ops delay_ms tick client timeout_ms cmd_str cmd_len =
     (let cmd = at_cmd client;
          goto = (\<lambda>st c. Some (st, c\<lparr>at_cmd := cmd\<lparr>ac_state_send := st\<rparr>\<rparr>))
      in case ac_state_send cmd of
        AT_CMD_STAT_START \<Rightarrow> goto AT_CMD_STAT_SEND client
      | AT_CMD_STAT_SEND \<Rightarrow> do {
          _ \<leftarrow> read_bytes cmd_str 0 cmd_len;
          goto AT_CMD_STAT_WAIT_REV
            (client\<lparr>at_resp_notice := snd (sdk_os_sem_init (at_resp_notice client) 0),
                    at_port := snd (sdk_uart_write ops delay_ms cmd_str (word_of_nat cmd_len) (at_port client))\<rparr>) }
      | AT_CMD_STAT_WAIT_REV \<Rightarrow>
          (let (status, sem) = sdk_os_sem_take tick (at_resp_notice client) timeout_ms
           in goto (if status = SDK_OK then AT_CMD_STAT_REVOK
                    else if status = - SDK_E_TIMEOUT then AT_CMD_STAT_TIMEOUT
                    else AT_CMD_STAT_WAIT_REV) (client\<lparr>at_resp_notice := sem\<rparr>))
      | AT_CMD_STAT_REVOK \<Rightarrow> goto AT_CMD_STAT_START client
      | AT_CMD_STAT_TIMEOUT \<Rightarrow> goto AT_CMD_STAT_START client
      | st \<Rightarrow> goto st client)"

text \<open>
  \<open>vsnprintf(cmd_str, sizeof(cmd_str) - 1, format, va)\<close> into the zeroed array of \<open>AT_CMD_MAX_LEN + 1\<close>
  bytes: \<open>full\<close> is the complete formatted text, of which 127 bytes and a zero fit.
\<close>

definition at_format :: "u8 list \<Rightarrow> u8 list" where
  "at_format full = take (AT_CMD_MAX_LEN - 1) full
     @ replicate (AT_CMD_MAX_LEN + 1 - length (take (AT_CMD_MAX_LEN - 1) full)) 0"

definition at_cmd_common ::
    "'h sdk_uart_ops \<Rightarrow> (s32 \<Rightarrow> 'h uart_st \<Rightarrow> 'h uart_st) \<Rightarrow> u32 \<Rightarrow> 'h at_client \<Rightarrow> u8 list
      \<Rightarrow> (at_resp_status \<times> 'h at_client) option" where
  "at_cmd_common ops delay_ms tick client full =
     do { (state_send, client1) \<leftarrow> at_cmd_send ops delay_ms tick client 5000 (at_format full) (length full);
          Some (if state_send = AT_CMD_STAT_REVOK then ar_status (at_resp client1) else AT_RESP_WAITING,
                client1) }"

definition at_cmd_common_ex ::
    "'h sdk_uart_ops \<Rightarrow> (s32 \<Rightarrow> 'h uart_st \<Rightarrow> 'h uart_st) \<Rightarrow> u32 \<Rightarrow> 'h at_client \<Rightarrow> s32 \<Rightarrow> s32
      \<Rightarrow> (at_resp \<Rightarrow> at_resp_status) option \<Rightarrow> u8 list \<Rightarrow> (at_resp_status \<times> 'h at_client) option" where
  "at_cmd_common_ex ops delay_ms tick client retry timeout_ms parse_func full =
     (let cmd = at_cmd client;
          goto = (\<lambda>status st c. Some (status, c\<lparr>at_cmd := (at_cmd c)\<lparr>ac_state_common := st\<rparr>\<rparr>))
      in case ac_state_common cmd of
        AT_CMD_STAT_START \<Rightarrow>
          goto AT_RESP_WAITING AT_CMD_STAT_SEND (client\<lparr>at_cmd := cmd\<lparr>ac_trycnt_send := 0\<rparr>\<rparr>)
      | AT_CMD_STAT_SEND \<Rightarrow> do {
          (state_send, client1) \<leftarrow>
            at_cmd_send ops delay_ms tick client timeout_ms (at_format full) (length full);
          if state_send = AT_CMD_STAT_REVOK then
            (let status = ar_status (at_resp client1)
             in if status = AT_RESP_OK then
                  (case parse_func of
                     Some parse \<Rightarrow>
                       if parse (at_resp client1) = AT_RESP_OK then goto AT_RESP_OK AT_CMD_STAT_START client1
                       else goto AT_RESP_WAITING AT_CMD_STAT_RETRY client1
                   | None \<Rightarrow> goto status AT_CMD_STAT_START client1)
                else if status = AT_RESP_ERROR then goto AT_RESP_WAITING AT_CMD_STAT_RETRY client1
                else Some (status, client1))
          else if state_send = AT_CMD_STAT_TIMEOUT then goto AT_RESP_WAITING AT_CMD_STAT_RETRY client1
          else Some (AT_RESP_WAITING, client1) }
      | AT_CMD_STAT_RETRY \<Rightarrow>
          (if retry \<le>s ac_trycnt_send cmd then goto AT_RESP_WAITING AT_CMD_STAT_TIMEOUT client
           else goto AT_RESP_WAITING AT_CMD_STAT_WAIT_SEND
                  (client\<lparr>at_cmd := cmd\<lparr>ac_trycnt_send := ac_trycnt_send cmd + 1,
                     ac_timer_send_wait := swtimer_set tick 1000 (ac_timer_send_wait cmd)\<rparr>\<rparr>))
      | AT_CMD_STAT_WAIT_SEND \<Rightarrow>
          (if swtimer_expired tick (ac_timer_send_wait cmd) then goto AT_RESP_WAITING AT_CMD_STAT_SEND client
           else Some (AT_RESP_WAITING, client))
      | AT_CMD_STAT_TIMEOUT \<Rightarrow> goto AT_RESP_TIMEOUT AT_CMD_STAT_START client
      | _ \<Rightarrow> Some (AT_RESP_WAITING, client))"


section \<open>Polling the parser\<close>

fun at_polls :: "nat \<Rightarrow> 'h at_client \<Rightarrow> 'h at_client option" where
  "at_polls 0 c = Some c"
| "at_polls (Suc n) c = do { c1 \<leftarrow> at_parser_poll c; at_polls n c1 }"

lemma at_polls_add: "at_polls (m + n) c = Option.bind (at_polls m c) (at_polls n)"
  by (induction m arbitrary: c) (simp_all split: Option.bind_splits)

lemma at_polls_then: "at_polls m c = Some c1 \<Longrightarrow> at_polls n c1 = r \<Longrightarrow> at_polls (m + n) c = r"
  by (simp add: at_polls_add)

text \<open>A client that reads whole lines: no result codes, no end sign, and room for a verdict in its line buffer.\<close>

definition at_plain :: "'h at_client \<Rightarrow> bool" where
  "at_plain c \<longleftrightarrow> at_urc_list c = [] \<and> ar_end_sign (at_resp c) = 0 \<and> ar_line_num (at_resp c) = 0
     \<and> length (at_recv_line_buf c) = at_line_bufsz c \<and> 4 \<le> at_line_bufsz c
     \<and> uart_rx_inv (fst (at_port c))"

lemma uart_read_one:
  assumes "uart_rx_inv u" and "uart_rx_view u = ch # bs"
  shows "\<exists>u1. sdk_uart_read u [0] 1 = Some (1, [ch], u1) \<and> uart_rx_inv u1 \<and> uart_rx_view u1 = bs"
  using uart_read_at_view [OF assms(1), of 0 1 "[0]"] assms(2) by (auto simp: sdk_uart_read_def)

text \<open>One character of a line.\<close>

lemma at_poll_char:
  assumes "at_plain c" and "ar_parser_state (at_resp c) = AT_RESP_PARSER_STAT_READ_LINE"
    and "ar_rl_state (at_resp c) = AT_RESP_RL_STAT_RECV" and "ar_read_len (at_resp c) = k"
    and "k < at_line_bufsz c" and "uart_rx_view (fst (at_port c)) = ch # bs"
  shows "\<exists>u1. uart_rx_inv u1 \<and> uart_rx_view u1 = bs \<and> at_parser_poll c
    = Some (c\<lparr>at_port := (u1, snd (at_port c)), at_recv_line_buf := (at_recv_line_buf c)[k := ch],
        at_recv_line_len := Suc k,
        at_resp := (if ch = 10 \<and> ar_last_ch (at_resp c) = 13 \<and> ar_line_len (at_resp c) \<le> Suc k
          then (at_resp c)\<lparr>ar_read_len := Suc k, ar_rl_state := AT_RESP_RL_STAT_READ_LINE_OK,
            ar_parser_state := AT_RESP_PARSER_STAT_PARSE_LINE\<rparr>
          else (at_resp c)\<lparr>ar_read_len := Suc k, ar_last_ch := ch\<rparr>)\<rparr>)"
proof -
  obtain u1 where u1: "sdk_uart_read (fst (at_port c)) [0] 1 = Some (1, [ch], u1)" "uart_rx_inv u1"
    "uart_rx_view u1 = bs"
    using uart_read_one assms(1,6) unfolding at_plain_def by blast
  show ?thesis
    using u1 assms
    by (intro exI [of _ u1]) (auto simp: at_parser_poll_def at_parser_def at_recv_readline_def at_plain_def
        get_urc_obj_def Let_def load_def store_in)
qed

lemma at_polls_chars:
  assumes "at_plain c" and "ar_parser_state (at_resp c) = AT_RESP_PARSER_STAT_READ_LINE"
    and "ar_rl_state (at_resp c) = AT_RESP_RL_STAT_RECV" and "ar_read_len (at_resp c) = k"
    and "k + length cs \<le> at_line_bufsz c" and "uart_rx_view (fst (at_port c)) = cs @ bs" and "10 \<notin> set cs"
    and "at_recv_line_len c = k"
  shows "\<exists>u1. uart_rx_inv u1 \<and> uart_rx_view u1 = bs \<and> at_polls (length cs) c
    = Some (c\<lparr>at_port := (u1, snd (at_port c)),
        at_recv_line_buf := take k (at_recv_line_buf c) @ cs @ drop (k + length cs) (at_recv_line_buf c),
        at_recv_line_len := k + length cs,
        at_resp := (at_resp c)\<lparr>ar_read_len := k + length cs, ar_last_ch := last (ar_last_ch (at_resp c) # cs)\<rparr>\<rparr>)"
  using assms
proof (induction cs arbitrary: c k)
  case Nil
  then show ?case by (intro exI [of _ "fst (at_port c)"]) (simp add: at_plain_def)
next
  case (Cons ch cs)
  let ?buf = "at_recv_line_buf c"
  have view: "uart_rx_view (fst (at_port c)) = ch # (cs @ bs)" and k: "k < at_line_bufsz c"
    using Cons.prems(5,6) by simp_all
  obtain u1 where u1: "uart_rx_inv u1" "uart_rx_view u1 = cs @ bs" "at_parser_poll c
    = Some (c\<lparr>at_port := (u1, snd (at_port c)), at_recv_line_buf := ?buf[k := ch],
        at_recv_line_len := Suc k, at_resp := (at_resp c)\<lparr>ar_read_len := Suc k, ar_last_ch := ch\<rparr>\<rparr>)"
    using at_poll_char [OF Cons.prems(1-4) k view] Cons.prems(7) by auto
  let ?c = "c\<lparr>at_port := (u1, snd (at_port c)), at_recv_line_buf := ?buf[k := ch],
        at_recv_line_len := Suc k, at_resp := (at_resp c)\<lparr>ar_read_len := Suc k, ar_last_ch := ch\<rparr>\<rparr>"
  have "at_plain ?c" using Cons.prems(1) u1(1) by (simp add: at_plain_def)
  moreover have "take (Suc k) (?buf[k := ch]) = take k ?buf @ [ch]" "length ?buf = at_line_bufsz c"
    using k Cons.prems(1) by (simp_all add: take_Suc_conv_app_nth at_plain_def)
  ultimately show ?case
    using Cons.IH [of ?c "Suc k"] Cons.prems(2-7) u1 k by (auto simp: drop_update_cancel)
qed


text \<open>A whole line: it is read into the line buffer and handed to the parser.\<close>

lemma at_polls_line:
  assumes "at_plain c" and "ar_parser_state (at_resp c) = AT_RESP_PARSER_STAT_READ_LINE"
    and "ar_rl_state (at_resp c) = AT_RESP_RL_STAT_START" and "length body + 2 \<le> at_line_bufsz c"
    and "uart_rx_view (fst (at_port c)) = body @ [13, 10] @ bs" and "10 \<notin> set body"
    and "ar_line_len (at_resp c) \<le> length body + 2"
  shows "\<exists>u1. uart_rx_inv u1 \<and> uart_rx_view u1 = bs \<and> at_polls (length body + 4) c
    = Some (c\<lparr>at_port := (u1, snd (at_port c)),
        at_recv_line_buf := body @ [13, 10] @ replicate (at_line_bufsz c - (length body + 2)) 0,
        at_recv_line_len := length body + 2,
        at_resp := (at_resp c)\<lparr>ar_read_len := length body + 2, ar_last_ch := 13,
          ar_rl_state := AT_RESP_RL_STAT_READ_LINE_OK, ar_parser_state := AT_RESP_PARSER_STAT_PARSE_LINE\<rparr>\<rparr>)"
proof -
  let ?n = "length body" and ?z = "replicate (at_line_bufsz c) (0 :: u8)"
  let ?c2 = "c\<lparr>at_recv_line_buf := ?z, at_recv_line_len := 0,
      at_resp := (at_resp c)\<lparr>ar_rl_state := AT_RESP_RL_STAT_RECV, ar_read_len := 0\<rparr>\<rparr>"
  have "write_bytes (at_recv_line_buf c) 0 ?z = Some ?z"
    using assms(1) by (simp add: write_bytes_def at_plain_def)
  then have 2: "at_polls 2 c = Some ?c2"
    using assms(1-3)
    by (simp add: numeral_2_eq_2 at_parser_poll_def at_parser_def at_recv_readline_def Let_def at_plain_def)
  have c2: "at_plain ?c2" "ar_parser_state (at_resp ?c2) = AT_RESP_PARSER_STAT_READ_LINE"
    "ar_rl_state (at_resp ?c2) = AT_RESP_RL_STAT_RECV" "ar_read_len (at_resp ?c2) = 0"
    "0 + length (body @ [13]) \<le> at_line_bufsz ?c2"
    "uart_rx_view (fst (at_port ?c2)) = (body @ [13]) @ 10 # bs" "10 \<notin> set (body @ [13 :: u8])"
    "at_recv_line_len ?c2 = 0"
    using assms by (simp_all add: at_plain_def)
  obtain u3 where u3: "uart_rx_inv u3" "uart_rx_view u3 = 10 # bs" "at_polls (?n + 1) ?c2
    = Some (?c2\<lparr>at_port := (u3, snd (at_port c)),
        at_recv_line_buf := body @ [13] @ replicate (at_line_bufsz c - (?n + 1)) 0,
        at_recv_line_len := ?n + 1,
        at_resp := (at_resp ?c2)\<lparr>ar_read_len := ?n + 1, ar_last_ch := 13\<rparr>\<rparr>)"
    using at_polls_chars [OF c2] by auto
  let ?c3 = "?c2\<lparr>at_port := (u3, snd (at_port c)),
        at_recv_line_buf := body @ [13] @ replicate (at_line_bufsz c - (?n + 1)) 0,
        at_recv_line_len := ?n + 1,
        at_resp := (at_resp ?c2)\<lparr>ar_read_len := ?n + 1, ar_last_ch := 13\<rparr>\<rparr>"
  have c3: "at_plain ?c3" "ar_parser_state (at_resp ?c3) = AT_RESP_PARSER_STAT_READ_LINE"
    "ar_rl_state (at_resp ?c3) = AT_RESP_RL_STAT_RECV" "ar_read_len (at_resp ?c3) = ?n + 1"
    "?n + 1 < at_line_bufsz ?c3" "uart_rx_view (fst (at_port ?c3)) = 10 # bs"
    using assms u3(1,2) by (simp_all add: at_plain_def)
  have buf: "(body @ [13] @ replicate (at_line_bufsz c - (?n + 1)) 0)[?n + 1 := 10]
      = body @ [13, 10] @ replicate (at_line_bufsz c - (?n + 2)) (0 :: u8)"
  proof -
    have "at_line_bufsz c - (?n + 1) = Suc (at_line_bufsz c - (?n + 2))" using assms(4) by simp
    then show ?thesis by (simp add: list_update_append)
  qed
  obtain u4 where u4: "uart_rx_inv u4" "uart_rx_view u4 = bs" "at_polls 1 ?c3
    = Some (?c3\<lparr>at_port := (u4, snd (at_port c)),
        at_recv_line_buf := body @ [13, 10] @ replicate (at_line_bufsz c - (?n + 2)) 0,
        at_recv_line_len := ?n + 2,
        at_resp := (at_resp ?c3)\<lparr>ar_read_len := ?n + 2, ar_rl_state := AT_RESP_RL_STAT_READ_LINE_OK,
            ar_parser_state := AT_RESP_PARSER_STAT_PARSE_LINE\<rparr>\<rparr>)"
    using at_poll_char [OF c3] assms(7) buf by auto
  have four: "?n + 4 = 2 + (?n + 1 + 1)" by simp
  show ?thesis
    unfolding four at_polls_then [OF 2 at_polls_then [OF u3(3) u4(3)]]
    using u4(1,2) by (intro exI [of _ u4]) simp
qed

text \<open>What a line says about the answer it belongs to.\<close>

definition at_final :: "u8 list \<Rightarrow> at_resp_status option" where
  "at_final body = (if take 2 body = AT_RESP_END_OK then Some AT_RESP_OK
     else if contains AT_RESP_END_ERROR (body @ [13]) \<or> take 4 body = AT_RESP_END_FAIL then Some AT_RESP_ERROR
     else None)"

lemma take_prefix_text:
  assumes "13 \<notin> set s" and "length s = k"
  shows "take k (body @ 13 # rest) = s \<longleftrightarrow> take k body = (s :: u8 list)"
proof (cases "k \<le> length body")
  case False
  then have "13 \<in> set (take k (body @ 13 # rest))"
    by (cases "k - length body") simp_all
  then have "take k (body @ 13 # rest) \<noteq> s" using assms(1) by auto
  moreover have "take k body \<noteq> s" using assms(2) False by auto
  ultimately show ?thesis by simp
qed simp

lemma at_line_result_text:
  assumes "0 \<notin> set body" and "ar_end_sign resp = 0" and "ar_line_num resp = 0" and "2 \<le> length zs + length body"
  shows "at_line_result ch (body @ [13, 0] @ zs) resp = Some (at_final body)"
proof -
  let ?l = "body @ [13, 0] @ zs"
  have "take 2 ?l = AT_RESP_END_OK \<longleftrightarrow> take 2 body = AT_RESP_END_OK"
    "take 4 ?l = AT_RESP_END_FAIL \<longleftrightarrow> take 4 body = AT_RESP_END_FAIL"
    using take_prefix_text [of AT_RESP_END_OK 2 body "0 # zs"] take_prefix_text [of AT_RESP_END_FAIL 4 body "0 # zs"]
    by (simp_all add: AT_RESP_END_OK_def AT_RESP_END_FAIL_def)
  moreover have "read_bytes ?l 0 2 = Some (take 2 ?l)" "read_bytes ?l 0 4 = Some (take 4 ?l)"
    using assms(4) by (simp_all add: read_bytes_def)
  moreover have "cstring ?l 0 = Some (body @ [13])"
  proof -
    have "takeWhile (\<lambda>c. c \<noteq> 0) (body @ 13 # 0 # zs) = body @ [13]"
      using assms(1) by (subst takeWhile_append2) auto
    then show ?thesis by (simp add: cstring_def)
  qed
  ultimately show ?thesis
    using assms(2,3) unfolding at_line_result_def by (simp add: at_final_def del: take_append)
qed

text \<open>The poll that takes a line into the answer.\<close>

definition at_kept :: "u8 list \<Rightarrow> at_resp \<Rightarrow> at_resp" where
  "at_kept body r = r\<lparr>ar_buf := take (ar_buf_len r) (ar_buf r) @ body @ [13, 0]
      @ drop (ar_buf_len r + length body + 2) (ar_buf r),
    ar_buf_len := ar_buf_len r + length body + 2, ar_line_counts := Suc (ar_line_counts r)\<rparr>"

lemma at_poll_parse_line:
  assumes "at_plain c" and "ar_parser_state (at_resp c) = AT_RESP_PARSER_STAT_PARSE_LINE"
    and "at_recv_line_buf c = body @ [13, 10] @ zs" and "at_recv_line_len c = length body + 2"
    and "0 \<notin> set body" and "length (ar_buf (at_resp c)) = ar_buf_size (at_resp c)"
    and "ar_buf_len (at_resp c) + length body + 2 < ar_buf_size (at_resp c)"
  shows "at_parser_poll c = Some (c\<lparr>at_recv_line_buf := body @ [13, 0] @ zs,
    at_resp := (case at_final body of
        Some st \<Rightarrow> (at_kept body (at_resp c))\<lparr>ar_status := st, ar_parser_state := AT_RESP_PARSER_STAT_START\<rparr>
      | None \<Rightarrow> (at_kept body (at_resp c))\<lparr>ar_rl_state := AT_RESP_RL_STAT_START,
          ar_parser_state := AT_RESP_PARSER_STAT_READ_LINE\<rparr>),
    at_resp_notice := (case at_final body of Some st \<Rightarrow> snd (sdk_os_sem_release (at_resp_notice c))
      | None \<Rightarrow> at_resp_notice c)\<rparr>)"
proof -
  let ?l = "body @ [13, 0] @ zs"
  have st: "store (at_recv_line_buf c) (length body + 1) 0 = Some ?l"
    unfolding assms(3) by (simp add: store_in list_update_append)
  have ld: "load (at_recv_line_buf c) (length body + 1) = Some 10"
    unfolding assms(3) by (simp add: load_in nth_append)
  have cp: "copy_bytes (ar_buf (at_resp c)) (ar_buf_len (at_resp c)) ?l 0 (length body + 2)
      = Some (ar_buf (at_kept body (at_resp c)))"
    using assms(6,7) by (simp add: copy_bytes_in at_kept_def add.assoc)
  have "ar_end_sign (at_kept body (at_resp c)) = 0" "ar_line_num (at_kept body (at_resp c)) = 0"
    "2 \<le> length zs + length body"
    using assms(1) arg_cong [OF assms(3), of length] by (simp_all add: at_plain_def at_kept_def)
  note res = at_line_result_text [OF assms(5) this]
  have kl: "at_keep_line c = Some (10, c\<lparr>at_recv_line_buf := ?l, at_resp := at_kept body (at_resp c)\<rparr>)"
    unfolding at_keep_line_def assms(4) using ld st cp assms(7)
    by (simp add: Let_def at_kept_def add.assoc)
  have urc: "get_urc_obj c = Some None" using assms(1) by (simp add: get_urc_obj_def at_plain_def)
  show ?thesis
    unfolding at_parser_poll_def at_parser_def using assms(2) urc kl res
    by (simp add: Let_def at_parser_start_def split: option.splits)
qed


section \<open>A whole answer\<close>

definition at_stored :: "u8 list list \<Rightarrow> u8 list" where
  "at_stored bodies = concat (map (\<lambda>b. b @ [13, 0]) bodies)"

definition at_wire :: "u8 list list \<Rightarrow> u8 list" where
  "at_wire bodies = concat (map (\<lambda>b. b @ [13, 10]) bodies)"

text \<open>Lines a modem sends and the client can keep: text that fits the line buffer and is not too short.\<close>

definition at_line_ok :: "'h at_client \<Rightarrow> u8 list \<Rightarrow> bool" where
  "at_line_ok c body \<longleftrightarrow> 0 \<notin> set body \<and> 10 \<notin> set body \<and> length body + 2 \<le> at_line_bufsz c
     \<and> ar_line_len (at_resp c) \<le> length body + 2"

definition at_reading :: "'h at_client \<Rightarrow> bool" where
  "at_reading c \<longleftrightarrow> at_plain c \<and> ar_parser_state (at_resp c) = AT_RESP_PARSER_STAT_READ_LINE
     \<and> ar_rl_state (at_resp c) = AT_RESP_RL_STAT_START \<and> length (ar_buf (at_resp c)) = ar_buf_size (at_resp c)"

text \<open>The parts of the client that an answer leaves alone.\<close>

definition at_same_setup :: "'h at_client \<Rightarrow> 'h at_client \<Rightarrow> bool" where
  "at_same_setup c c1 \<longleftrightarrow> at_line_bufsz c1 = at_line_bufsz c \<and> at_urc_list c1 = at_urc_list c
     \<and> at_cmd c1 = at_cmd c \<and> snd (at_port c1) = snd (at_port c)
     \<and> ar_line_len (at_resp c1) = ar_line_len (at_resp c) \<and> ar_buf_size (at_resp c1) = ar_buf_size (at_resp c)"

lemma at_polls_one_line:
  assumes "at_reading c" and "at_line_ok c body" and "uart_rx_view (fst (at_port c)) = body @ [13, 10] @ bs"
    and "ar_buf_len (at_resp c) + length body + 2 < ar_buf_size (at_resp c)"
  shows "\<exists>c1. at_polls (length body + 5) c = Some c1 \<and> at_same_setup c c1 \<and> at_plain c1
    \<and> uart_rx_view (fst (at_port c1)) = bs \<and> length (ar_buf (at_resp c1)) = ar_buf_size (at_resp c)
    \<and> ar_buf (at_resp c1) = ar_buf (at_kept body (at_resp c))
    \<and> ar_buf_len (at_resp c1) = ar_buf_len (at_resp c) + length body + 2
    \<and> ar_line_counts (at_resp c1) = Suc (ar_line_counts (at_resp c))
    \<and> (case at_final body of
         None \<Rightarrow> at_reading c1 \<and> at_resp_notice c1 = at_resp_notice c
       | Some st \<Rightarrow> ar_status (at_resp c1) = st
           \<and> ar_parser_state (at_resp c1) = AT_RESP_PARSER_STAT_START
           \<and> at_resp_notice c1 = snd (sdk_os_sem_release (at_resp_notice c)))"
proof -
  have c: "at_plain c" "ar_parser_state (at_resp c) = AT_RESP_PARSER_STAT_READ_LINE"
    "ar_rl_state (at_resp c) = AT_RESP_RL_STAT_START" "length (ar_buf (at_resp c)) = ar_buf_size (at_resp c)"
    using assms(1) by (simp_all add: at_reading_def)
  have b: "0 \<notin> set body" "10 \<notin> set body" "length body + 2 \<le> at_line_bufsz c"
    "ar_line_len (at_resp c) \<le> length body + 2" using assms(2) by (simp_all add: at_line_ok_def)
  let ?z = "replicate (at_line_bufsz c - (length body + 2)) (0 :: u8)"
  obtain u1 where u1: "uart_rx_inv u1" "uart_rx_view u1 = bs" "at_polls (length body + 4) c
    = Some (c\<lparr>at_port := (u1, snd (at_port c)), at_recv_line_buf := body @ [13, 10] @ ?z,
        at_recv_line_len := length body + 2,
        at_resp := (at_resp c)\<lparr>ar_read_len := length body + 2, ar_last_ch := 13,
          ar_rl_state := AT_RESP_RL_STAT_READ_LINE_OK, ar_parser_state := AT_RESP_PARSER_STAT_PARSE_LINE\<rparr>\<rparr>)"
    using at_polls_line [OF c(1-3) b(3) assms(3) b(2,4)] by blast
  then obtain c1 where "at_polls (length body + 4) c = Some c1" and c1: "c1 =
      c\<lparr>at_port := (u1, snd (at_port c)), at_recv_line_buf := body @ [13, 10] @ ?z,
        at_recv_line_len := length body + 2,
        at_resp := (at_resp c)\<lparr>ar_read_len := length body + 2, ar_last_ch := 13,
          ar_rl_state := AT_RESP_RL_STAT_READ_LINE_OK, ar_parser_state := AT_RESP_PARSER_STAT_PARSE_LINE\<rparr>\<rparr>"
    by blast
  note run1 = this(1)
  have p1: "at_plain c1" "ar_parser_state (at_resp c1) = AT_RESP_PARSER_STAT_PARSE_LINE"
    "at_recv_line_buf c1 = body @ [13, 10] @ ?z" "at_recv_line_len c1 = length body + 2"
    "length (ar_buf (at_resp c1)) = ar_buf_size (at_resp c1)"
    "ar_buf_len (at_resp c1) + length body + 2 < ar_buf_size (at_resp c1)"
    using c b(3) u1(1) assms(4) by (simp_all add: c1 at_plain_def)
  obtain c2 where c2: "at_parser_poll c1 = Some c2"
    and c2_eq: "c2 = c1\<lparr>at_recv_line_buf := body @ [13, 0] @ ?z,
      at_resp := (case at_final body of
          Some st \<Rightarrow> (at_kept body (at_resp c1))\<lparr>ar_status := st, ar_parser_state := AT_RESP_PARSER_STAT_START\<rparr>
        | None \<Rightarrow> (at_kept body (at_resp c1))\<lparr>ar_rl_state := AT_RESP_RL_STAT_START,
            ar_parser_state := AT_RESP_PARSER_STAT_READ_LINE\<rparr>),
      at_resp_notice := (case at_final body of Some st \<Rightarrow> snd (sdk_os_sem_release (at_resp_notice c1))
        | None \<Rightarrow> at_resp_notice c1)\<rparr>"
    using at_poll_parse_line [OF p1(1-4) b(1) p1(5,6)] by blast
  have five: "length body + 5 = (length body + 4) + 1" by simp
  have "at_polls (length body + 5) c = Some c2"
    unfolding five by (rule at_polls_then [OF run1]) (simp add: c2)
  then show ?thesis
    using u1(1,2) c b(3) assms(4)
    by (intro exI [of _ c2]) (auto simp: c2_eq c1 at_same_setup_def at_plain_def at_reading_def at_kept_def
        split: option.splits)
qed


definition at_poll_count :: "u8 list list \<Rightarrow> nat" where
  "at_poll_count bodies = (\<Sum>b \<leftarrow> bodies. length b + 5)"

lemma at_stored_simps [simp]:
  "at_stored [] = []" "at_stored (b # bs) = b @ [13, 0] @ at_stored bs" "at_stored (as @ bs) = at_stored as @ at_stored bs"
  and at_wire_simps [simp]:
  "at_wire [] = []" "at_wire (b # bs) = b @ [13, 10] @ at_wire bs" "at_wire (as @ bs) = at_wire as @ at_wire bs"
  and at_poll_count_simps [simp]:
  "at_poll_count [] = 0" "at_poll_count (b # bs) = length b + 5 + at_poll_count bs"
  "at_poll_count (as @ bs) = at_poll_count as + at_poll_count bs"
  by (simp_all add: at_stored_def at_wire_def at_poll_count_def)

lemma at_line_ok_same: "at_same_setup c c1 \<Longrightarrow> at_line_ok c1 b \<longleftrightarrow> at_line_ok c b"
  by (simp add: at_same_setup_def at_line_ok_def)

lemma at_polls_lines:
  assumes "at_reading c" and "\<forall>b \<in> set ls. at_line_ok c b \<and> at_final b = None"
    and "uart_rx_view (fst (at_port c)) = at_wire ls @ bs"
    and "ar_buf_len (at_resp c) + length (at_stored ls) < ar_buf_size (at_resp c)"
  shows "\<exists>c1. at_polls (at_poll_count ls) c = Some c1 \<and> at_same_setup c c1 \<and> at_reading c1
    \<and> uart_rx_view (fst (at_port c1)) = bs \<and> at_resp_notice c1 = at_resp_notice c
    \<and> ar_buf (at_resp c1) = take (ar_buf_len (at_resp c)) (ar_buf (at_resp c)) @ at_stored ls
        @ drop (ar_buf_len (at_resp c) + length (at_stored ls)) (ar_buf (at_resp c))
    \<and> ar_buf_len (at_resp c1) = ar_buf_len (at_resp c) + length (at_stored ls)
    \<and> ar_line_counts (at_resp c1) = ar_line_counts (at_resp c) + length ls"
  using assms
proof (induction ls arbitrary: c)
  case Nil
  then show ?case by (simp add: at_same_setup_def)
next
  case (Cons b ls)
  have b: "at_line_ok c b" "at_final b = None" using Cons.prems(2) by simp_all
  obtain c1 where c1: "at_polls (length b + 5) c = Some c1" "at_same_setup c c1" "at_reading c1"
    "uart_rx_view (fst (at_port c1)) = at_wire ls @ bs" "at_resp_notice c1 = at_resp_notice c"
    "ar_buf (at_resp c1) = ar_buf (at_kept b (at_resp c))"
    "ar_buf_len (at_resp c1) = ar_buf_len (at_resp c) + length b + 2"
    "ar_line_counts (at_resp c1) = Suc (ar_line_counts (at_resp c))"
    using at_polls_one_line [OF Cons.prems(1) b(1), of "at_wire ls @ bs"] Cons.prems(3,4) b(2) by auto
  have size: "length (ar_buf (at_resp c)) = ar_buf_size (at_resp c)" "ar_buf_size (at_resp c1) = ar_buf_size (at_resp c)"
    using Cons.prems(1) c1(2) by (simp_all add: at_reading_def at_same_setup_def)
  obtain c2 where c2: "at_polls (at_poll_count ls) c1 = Some c2" "at_same_setup c1 c2" "at_reading c2"
    "uart_rx_view (fst (at_port c2)) = bs" "at_resp_notice c2 = at_resp_notice c1"
    "ar_buf (at_resp c2) = take (ar_buf_len (at_resp c1)) (ar_buf (at_resp c1)) @ at_stored ls
        @ drop (ar_buf_len (at_resp c1) + length (at_stored ls)) (ar_buf (at_resp c1))"
    "ar_buf_len (at_resp c2) = ar_buf_len (at_resp c1) + length (at_stored ls)"
    "ar_line_counts (at_resp c2) = ar_line_counts (at_resp c1) + length ls"
    using Cons.IH [OF c1(3)] Cons.prems(2,4) c1(4,7) at_line_ok_same [OF c1(2)] size by auto
  have "at_polls (at_poll_count (b # ls)) c = Some c2" using at_polls_then [OF c1(1) c2(1)] by simp
  moreover have "at_same_setup c c2" using c1(2) c2(2) by (simp add: at_same_setup_def)
  moreover have "ar_buf (at_resp c2) = take (ar_buf_len (at_resp c)) (ar_buf (at_resp c)) @ at_stored (b # ls)
        @ drop (ar_buf_len (at_resp c) + length (at_stored (b # ls))) (ar_buf (at_resp c))"
    using Cons.prems(4) size(1) unfolding c2(6) c1(6,7) by (simp add: at_kept_def ac_simps)
  ultimately show ?case using c1(5,7,8) c2(3-8) by (intro exI [of _ c2]) simp
qed

section \<open>Retrying\<close>

text \<open>What the parser ever writes as the status of an answer.\<close>

definition at_answer_status :: "'h at_client \<Rightarrow> bool" where
  "at_answer_status c \<longleftrightarrow> ar_status (at_resp c) \<in> {AT_RESP_OK, AT_RESP_ERROR, AT_RESP_BUFF_FULL}"

lemma at_keep_line_status:
  assumes "at_keep_line c = Some (e, c1)" and "at_answer_status c"
  shows "at_answer_status c1"
  using assms
  by (auto simp: at_keep_line_def at_answer_status_def Let_def split: if_splits Option.bind_splits)

lemma at_recv_readline_status:
  assumes "at_recv_readline c = Some (e, c1)" and "at_answer_status c"
  shows "at_answer_status c1"
  using assms
  by (cases "ar_rl_state (at_resp c)")
    (auto simp: at_recv_readline_def at_answer_status_def Let_def split: if_splits Option.bind_splits)

lemma at_line_result_status:
  "at_line_result e line r = Some (Some st) \<Longrightarrow> st \<in> {AT_RESP_OK, AT_RESP_ERROR, AT_RESP_BUFF_FULL}"
  by (auto simp: at_line_result_def Let_def split: if_splits Option.bind_splits)

text \<open>The next call of \<open>at_cmd_common_ex\<close> hands the command to the UART; every other call leaves the UART alone.\<close>

definition at_sends :: "'h at_client \<Rightarrow> bool" where
  "at_sends c \<longleftrightarrow> ac_state_common (at_cmd c) = AT_CMD_STAT_SEND \<and> ac_state_send (at_cmd c) = AT_CMD_STAT_SEND"

lemma at_cmd_send_port:
  assumes "at_cmd_send ops delay_ms tick c timeout cmd_str cmd_len = Some (st, c1)"
  shows "at_port c1 = (if ac_state_send (at_cmd c) = AT_CMD_STAT_SEND
      then snd (sdk_uart_write ops delay_ms cmd_str (word_of_nat cmd_len) (at_port c)) else at_port c)"
    and "ac_state_common (at_cmd c1) = ac_state_common (at_cmd c)"
    and "ac_trycnt_send (at_cmd c1) = ac_trycnt_send (at_cmd c)"
    and "at_resp c1 = at_resp c" and "ac_state_send (at_cmd c1) = st"
    and "ac_state_send (at_cmd c) = AT_CMD_STAT_WAIT_REV \<Longrightarrow> st \<in> {AT_CMD_STAT_REVOK, AT_CMD_STAT_TIMEOUT, AT_CMD_STAT_WAIT_REV}"
    and "ac_state_send (at_cmd c) = AT_CMD_STAT_SEND \<Longrightarrow> st = AT_CMD_STAT_WAIT_REV"
    and "ac_state_send (at_cmd c) \<in> {AT_CMD_STAT_REVOK, AT_CMD_STAT_TIMEOUT} \<Longrightarrow> st = AT_CMD_STAT_START"
    and "ac_state_send (at_cmd c) = AT_CMD_STAT_START \<Longrightarrow> st = AT_CMD_STAT_SEND"
    and "ac_state_send (at_cmd c) \<in> {AT_CMD_STAT_WAIT_SEND, AT_CMD_STAT_RETRY} \<Longrightarrow> st = ac_state_send (at_cmd c)"
  using assms
  by (cases "ac_state_send (at_cmd c)"; clarsimp simp: at_cmd_send_def Let_def split: prod.splits if_splits Option.bind_splits)+

lemma at_parser_poll_status:
  assumes "at_parser_poll c = Some c1" and "at_answer_status c"
  shows "at_answer_status c1"
proof (cases "ar_parser_state (at_resp c)")
  case AT_RESP_PARSER_STAT_READ_LINE
  then show ?thesis using assms at_recv_readline_status [of c]
    by (auto simp: at_parser_poll_def at_parser_def at_parser_start_def at_answer_status_def Let_def
        split: if_splits Option.bind_splits)
next
  case AT_RESP_PARSER_STAT_PARSE_LINE
  then show ?thesis using assms at_keep_line_status [of c]
    by (auto simp: at_parser_poll_def at_parser_def at_parser_start_def at_answer_status_def Let_def
        split: if_splits Option.bind_splits option.splits prod.splits dest: at_line_result_status)
qed (use assms in \<open>auto simp: at_parser_poll_def at_parser_def at_parser_start_def at_answer_status_def Let_def\<close>)

lemma at_cmd_common_ex_port:
  assumes "at_cmd_common_ex ops delay_ms tick c retry timeout parse full = Some (st, c1)"
  shows "at_port c1 = (if at_sends c
    then snd (sdk_uart_write ops delay_ms (at_format full) (word_of_nat (length full)) (at_port c)) else at_port c)"
proof (cases "ac_state_common (at_cmd c) = AT_CMD_STAT_SEND")
  case True
  then obtain st1 c2 where send: "at_cmd_send ops delay_ms tick c timeout (at_format full) (length full) = Some (st1, c2)"
    using assms by (auto simp: at_cmd_common_ex_def Let_def split: Option.bind_splits)
  then show ?thesis using assms True at_cmd_send_port(1) [OF send]
    by (auto simp: at_cmd_common_ex_def at_sends_def Let_def split: if_splits option.splits)
next
  case False
  then show ?thesis using assms
    by (auto simp: at_cmd_common_ex_def at_sends_def Let_def split: if_splits at_cmd_state.splits)
qed

text \<open>
  One command, polled by \<open>at_cmd_common_ex\<close> as long as it answers \<open>AT_RESP_WAITING\<close>. Between two polls the
  rest of the program runs: the parser, the interrupts, anything that leaves the command's own state alone.
  The last argument counts the transmissions.
\<close>

inductive at_ex_run ::
    "'h sdk_uart_ops \<Rightarrow> (s32 \<Rightarrow> 'h uart_st \<Rightarrow> 'h uart_st) \<Rightarrow> s32 \<Rightarrow> s32 \<Rightarrow> (at_resp \<Rightarrow> at_resp_status) option
      \<Rightarrow> u8 list \<Rightarrow> 'h at_client \<Rightarrow> 'h at_client \<Rightarrow> nat \<Rightarrow> bool"
  for ops delay_ms retry timeout parse full c0 where
  start: "at_ex_run ops delay_ms retry timeout parse full c0 c0 0"
| rest: "at_ex_run ops delay_ms retry timeout parse full c0 c n \<Longrightarrow> at_cmd c1 = at_cmd c \<Longrightarrow> at_answer_status c1
    \<Longrightarrow> at_ex_run ops delay_ms retry timeout parse full c0 c1 n"
| poll: "at_ex_run ops delay_ms retry timeout parse full c0 c n
    \<Longrightarrow> at_cmd_common_ex ops delay_ms tick c retry timeout parse full = Some (AT_RESP_WAITING, c1)
    \<Longrightarrow> at_ex_run ops delay_ms retry timeout parse full c0 c1 (if at_sends c then Suc n else n)"

text \<open>Between the calls the retry counter and the transmissions agree.\<close>

definition at_ex_inv :: "s32 \<Rightarrow> 'h at_client \<Rightarrow> nat \<Rightarrow> bool" where
  "at_ex_inv retry c n \<longleftrightarrow> at_answer_status c \<and>
     (let k = sint (ac_trycnt_send (at_cmd c)); send = ac_state_send (at_cmd c)
      in case ac_state_common (at_cmd c) of
        AT_CMD_STAT_START \<Rightarrow> n = 0 \<and> send \<noteq> AT_CMD_STAT_WAIT_REV
      | AT_CMD_STAT_SEND \<Rightarrow> 0 \<le> k \<and> k \<le> sint retry \<and> int n = (if send = AT_CMD_STAT_WAIT_REV then k + 1 else k)
      | AT_CMD_STAT_RETRY \<Rightarrow> 0 \<le> k \<and> k \<le> sint retry \<and> int n = k + 1 \<and> send \<noteq> AT_CMD_STAT_WAIT_REV
      | AT_CMD_STAT_WAIT_SEND \<Rightarrow> 0 \<le> k \<and> k \<le> sint retry \<and> int n = k \<and> send \<noteq> AT_CMD_STAT_WAIT_REV
      | AT_CMD_STAT_TIMEOUT \<Rightarrow> int n = sint retry + 1
      | _ \<Rightarrow> False)"

lemma sint_s32_Suc: "(a :: s32) <s b \<Longrightarrow> sint (a + 1) = sint a + 1"
  using sint_lt [of b] sint_ge [of a]
  by (simp add: word_sless_alt sint_word_ariths signed_take_bit_int_eq_self)

lemma at_ex_poll_inv:
  assumes "at_ex_inv retry c n" and "0 \<le>s retry"
    and "at_cmd_common_ex ops delay_ms tick c retry timeout parse full = Some (st, c1)"
  shows "st = AT_RESP_WAITING \<Longrightarrow> at_ex_inv retry c1 (if at_sends c then Suc n else n)"
    and "st = AT_RESP_TIMEOUT \<Longrightarrow> int n = sint retry + 1 \<and> \<not> at_sends c \<and> ac_state_common (at_cmd c1) = AT_CMD_STAT_START"
proof -
  have "(st = AT_RESP_WAITING \<longrightarrow> at_ex_inv retry c1 (if at_sends c then Suc n else n)) \<and> (st = AT_RESP_TIMEOUT
    \<longrightarrow> int n = sint retry + 1 \<and> \<not> at_sends c \<and> ac_state_common (at_cmd c1) = AT_CMD_STAT_START)"
  proof (cases "ac_state_common (at_cmd c)")
    case AT_CMD_STAT_RETRY
    have "sint (ac_trycnt_send (at_cmd c) + 1) = sint (ac_trycnt_send (at_cmd c)) + 1"
      if "\<not> retry \<le>s ac_trycnt_send (at_cmd c)"
      using that by (intro sint_s32_Suc [of _ retry]) (simp add: word_sless_alt word_sle_eq)
    with AT_CMD_STAT_RETRY show ?thesis using assms
      by (auto simp: at_cmd_common_ex_def at_ex_inv_def at_sends_def at_answer_status_def word_sle_eq Let_def
          split: if_splits)
  next
    case AT_CMD_STAT_SEND
    then obtain st1 c2 where send: "at_cmd_send ops delay_ms tick c timeout (at_format full) (length full) = Some (st1, c2)"
      using assms(3) by (auto simp: at_cmd_common_ex_def Let_def split: Option.bind_splits)
    show ?thesis
      using AT_CMD_STAT_SEND assms at_cmd_send_port [OF send]
      by (cases "ac_state_send (at_cmd c)")
        (auto simp: at_cmd_common_ex_def send at_ex_inv_def at_sends_def at_answer_status_def Let_def
          split: if_splits option.splits)
  qed (use assms in \<open>auto simp: at_cmd_common_ex_def at_ex_inv_def at_sends_def at_answer_status_def word_sle_eq Let_def
        split: if_splits\<close>)
  then show "st = AT_RESP_WAITING \<Longrightarrow> at_ex_inv retry c1 (if at_sends c then Suc n else n)"
    and "st = AT_RESP_TIMEOUT \<Longrightarrow> int n = sint retry + 1 \<and> \<not> at_sends c \<and> ac_state_common (at_cmd c1) = AT_CMD_STAT_START"
    by simp_all
qed

lemma at_ex_run_inv:
  assumes "at_ex_run ops delay_ms retry timeout parse full c0 c n" and "at_ex_inv retry c0 0" and "0 \<le>s retry"
  shows "at_ex_inv retry c n"
  using assms
proof (induction rule: at_ex_run.induct)
  case (rest c n c1)
  then show ?case by (simp add: at_ex_inv_def)
next
  case (poll c n tick c1)
  then show ?case using at_ex_poll_inv(1) [OF poll.IH _ poll.hyps(2)] by simp
qed

text \<open>A client on an idle UART board.\<close>

definition demo_at_resp :: at_resp where
  "demo_at_resp = \<lparr>ar_rl_state = AT_RESP_RL_STAT_START, ar_read_len = 0, ar_last_ch = 0, ar_end_sign = 0,
     ar_parser_state = AT_RESP_PARSER_STAT_START, ar_buf = replicate 40 0, ar_buf_len = 0, ar_buf_size = 40,
     ar_line_num = 0, ar_line_len = 0, ar_line_counts = 0, ar_status = AT_RESP_OK\<rparr>"

definition demo_at_client :: "'h uart_st \<Rightarrow> 'h at_client" where
  "demo_at_client p = \<lparr>at_port = p, at_recv_line_buf = replicate 16 0, at_recv_line_len = 0, at_line_bufsz = 16,
     at_urc_list = [],
     at_cmd = \<lparr>ac_state_common = AT_CMD_STAT_START, ac_state_send = AT_CMD_STAT_START, ac_trycnt_send = 0,
       ac_timer_send_wait = \<lparr>sw_start = 0, sw_timeout_ms = 0, sw_isstop = 0\<rparr>\<rparr>,
     at_resp = demo_at_resp,
     at_resp_notice = \<lparr>sem_state = SEM_STATE_START, sem_timer = \<lparr>sw_start = 0, sw_timeout_ms = 0, sw_isstop = 0\<rparr>,
       sem_value = 0\<rparr>\<rparr>"

section \<open>Properties\<close>

text \<open>
  C22. A whole answer: when the modem sends any lines that do not end the answer and then one that does
  (\<open>OK\<close>, \<open>ERROR\<close> or \<open>FAIL\<close>), the polled parser takes exactly these bytes from the UART, stores the
  lines separated by zeros, reports the status of the last one and wakes the waiting command with it.
\<close>

theorem at_answer_collected:
  assumes "at_plain c" and "ar_parser_state (at_resp c) = AT_RESP_PARSER_STAT_START"
    and "length (ar_buf (at_resp c)) = ar_buf_size (at_resp c)" and "sem_value (at_resp_notice c) = 0"
    and "\<forall>b \<in> set (ls @ [f]). at_line_ok c b" and "\<forall>b \<in> set ls. at_final b = None" and "at_final f = Some st"
    and "uart_rx_view (fst (at_port c)) = at_wire (ls @ [f]) @ bs"
    and "length (at_stored (ls @ [f])) < ar_buf_size (at_resp c)"
  shows "\<exists>c1. at_polls (1 + at_poll_count (ls @ [f])) c = Some c1
    \<and> uart_rx_view (fst (at_port c1)) = bs \<and> ar_parser_state (at_resp c1) = AT_RESP_PARSER_STAT_START
    \<and> take (ar_buf_len (at_resp c1)) (ar_buf (at_resp c1)) = at_stored (ls @ [f])
    \<and> ar_line_counts (at_resp c1) = length ls + 1
    \<and> fst (at_resp_get_ok tick c1 timeout) = st"
proof -
  let ?c0 = "c\<lparr>at_resp := (at_resp c)\<lparr>ar_rl_state := AT_RESP_RL_STAT_START,
            ar_parser_state := AT_RESP_PARSER_STAT_READ_LINE, ar_buf_len := 0, ar_line_counts := 0\<rparr>\<rparr>"
  have 0: "at_polls 1 c = Some ?c0"
    using assms(2) by (simp add: at_parser_poll_def at_parser_def Let_def)
  have r0: "at_reading ?c0" "\<forall>b \<in> set ls. at_line_ok ?c0 b \<and> at_final b = None" "at_line_ok ?c0 f"
    using assms(1,3,5,6) by (simp_all add: at_reading_def at_plain_def at_line_ok_def)
  obtain c1 where c1: "at_polls (at_poll_count ls) ?c0 = Some c1" "at_same_setup ?c0 c1" "at_reading c1"
    "uart_rx_view (fst (at_port c1)) = f @ [13, 10] @ bs" "at_resp_notice c1 = at_resp_notice c"
    "ar_buf (at_resp c1) = at_stored ls @ drop (length (at_stored ls)) (ar_buf (at_resp c))"
    "ar_buf_len (at_resp c1) = length (at_stored ls)" "ar_line_counts (at_resp c1) = length ls"
    using at_polls_lines [OF r0(1,2), of "f @ [13, 10] @ bs"] assms(8,9) by auto
  have f: "at_line_ok c1 f" using at_line_ok_same [OF c1(2)] r0(3) by simp
  have size: "ar_buf_size (at_resp c1) = ar_buf_size (at_resp c)" using c1(2) by (simp add: at_same_setup_def)
  obtain c2 where c2: "at_polls (length f + 5) c1 = Some c2" "uart_rx_view (fst (at_port c2)) = bs"
    "ar_buf (at_resp c2) = ar_buf (at_kept f (at_resp c1))"
    "ar_buf_len (at_resp c2) = ar_buf_len (at_resp c1) + length f + 2"
    "ar_line_counts (at_resp c2) = Suc (ar_line_counts (at_resp c1))" "ar_status (at_resp c2) = st"
    "ar_parser_state (at_resp c2) = AT_RESP_PARSER_STAT_START"
    "at_resp_notice c2 = snd (sdk_os_sem_release (at_resp_notice c1))"
    using at_polls_one_line [OF c1(3) f c1(4)] assms(7,9) size c1(7) by auto
  have "at_polls (1 + at_poll_count (ls @ [f])) c = Some c2"
    using at_polls_then [OF 0 at_polls_then [OF c1(1) c2(1)]] by simp
  moreover have "take (ar_buf_len (at_resp c2)) (ar_buf (at_resp c2)) = at_stored (ls @ [f])"
    unfolding c2(3,4) c1(7) by (simp add: at_kept_def c1(6,7))
  moreover have "fst (at_resp_get_ok tick c2 timeout) = st"
    using assms(4) c2(6,8) c1(5)
    by (simp add: at_resp_get_ok_def sdk_os_sem_take_def sdk_os_sem_release_def word_less_nat_alt)
  ultimately show ?thesis using c2(2,5,7) c1(8) by (intro exI [of _ c2]) simp
qed

lemma at_uart_holding:
  assumes "length bs \<le> 511"
  shows "\<exists>u :: u8 list sdk_uart. uart_rx_inv u \<and> uart_rx_view u = bs"
proof -
  obtain f where "fifo_inv SDK_UART_RX_FIFO_LEN f" "fifo_view SDK_UART_RX_FIFO_LEN f = lastn 511 bs"
    using uartq.push_list_lastn [of "ua_rx_fifo (idle_uart UART_TX_IDLE :: u8 list sdk_uart)" bs]
    by (auto simp: idle_uart_empty)
  then show ?thesis using assms by (intro exI [of _ "(idle_uart UART_TX_IDLE)\<lparr>ua_rx_fifo := f\<rparr>"]) simp
qed

text \<open>The answer \<open>"+CSQ", "OK"\<close>.\<close>

theorem at_answer_collected_witness:
  "\<exists>(u :: u8 list sdk_uart) c1. uart_rx_view u = [43, 67, 83, 81, 13, 10, 79, 75, 13, 10, 1]
    \<and> at_polls 17 (demo_at_client (u, [])) = Some c1 \<and> uart_rx_view (fst (at_port c1)) = [1]
    \<and> take (ar_buf_len (at_resp c1)) (ar_buf (at_resp c1)) = [43, 67, 83, 81, 13, 0, 79, 75, 13, 0]
    \<and> fst (at_resp_get_ok 3 c1 100) = AT_RESP_OK"
proof -
  obtain u :: "u8 list sdk_uart" where u: "uart_rx_inv u"
    "uart_rx_view u = [43, 67, 83, 81, 13, 10, 79, 75, 13, 10, 1]"
    using at_uart_holding [of "[43, 67, 83, 81, 13, 10, 79, 75, 13, 10, 1]"] by auto
  let ?c = "demo_at_client (u, [])"
  have fin: "at_final [43, 67, 83, 81] = None" "at_final [79, 75] = Some AT_RESP_OK"
    by (simp_all add: at_final_def AT_RESP_END_OK_def AT_RESP_END_ERROR_def AT_RESP_END_FAIL_def)
  have c: "at_plain ?c" "ar_parser_state (at_resp ?c) = AT_RESP_PARSER_STAT_START"
    "length (ar_buf (at_resp ?c)) = ar_buf_size (at_resp ?c)" "sem_value (at_resp_notice ?c) = 0"
    "\<forall>b \<in> set ([[43, 67, 83, 81]] @ [[79, 75]]). at_line_ok ?c b" "\<forall>b \<in> set [[43, 67, 83, 81]]. at_final b = None"
    "uart_rx_view (fst (at_port ?c)) = at_wire ([[43, 67, 83, 81]] @ [[79, 75]]) @ [1]"
    "length (at_stored ([[43, 67, 83, 81]] @ [[79, 75]])) < ar_buf_size (at_resp ?c)"
    using u fin by (simp_all add: demo_at_client_def demo_at_resp_def at_plain_def at_line_ok_def)
  show ?thesis
    using at_answer_collected [OF c(1-6) fin(2) c(7,8), of 3 100] u(2)
    by (intro exI [of _ u]) (simp, blast)
qed

text \<open>
  C28. A command is never transmitted more than \<open>retry + 1\<close> times, whatever the modem answers and whatever
  runs between the polls, and \<open>AT_RESP_TIMEOUT\<close> is only reported after all of these transmissions.
\<close>

theorem at_command_retries:
  assumes "at_ex_run ops delay_ms retry timeout parse full c0 c n"
    and "ac_state_common (at_cmd c0) = AT_CMD_STAT_START" and "ac_state_send (at_cmd c0) \<noteq> AT_CMD_STAT_WAIT_REV"
    and "at_answer_status c0" and "0 \<le>s retry"
  shows "int n \<le> sint retry + 1
    \<and> (at_cmd_common_ex ops delay_ms tick c retry timeout parse full = Some (AT_RESP_TIMEOUT, c1)
      \<longrightarrow> int n = sint retry + 1 \<and> at_port c1 = at_port c \<and> ac_state_common (at_cmd c1) = AT_CMD_STAT_START)"
proof -
  have "at_ex_inv retry c0 0" using assms(2-4) by (simp add: at_ex_inv_def)
  note inv = at_ex_run_inv [OF assms(1) this assms(5)]
  have "int n \<le> sint retry + 1"
    using inv assms(5) by (auto simp: at_ex_inv_def word_sle_eq Let_def split: at_cmd_state.splits if_splits)
  moreover have "int n = sint retry + 1 \<and> at_port c1 = at_port c \<and> ac_state_common (at_cmd c1) = AT_CMD_STAT_START"
    if "at_cmd_common_ex ops delay_ms tick c retry timeout parse full = Some (AT_RESP_TIMEOUT, c1)"
    using at_ex_poll_inv(2) [OF inv assms(5) that] at_cmd_common_ex_port [OF that] by simp
  ultimately show ?thesis by blast
qed

text \<open>A silent modem: one transmission, then the timeout.\<close>

theorem at_command_retries_witness:
  "\<exists>c n c1. at_ex_run list_board (\<lambda>_ s. s) 0 100 None [65, 84] (demo_at_client (idle_uart UART_TX_IDLE, [])) c n
    \<and> at_cmd_common_ex list_board (\<lambda>_ s. s) 300 c 0 100 None [65, 84] = Some (AT_RESP_TIMEOUT, c1) \<and> n = 1"
proof -
  define port :: "u8 list uart_st" where "port = (idle_uart UART_TX_IDLE, [])"
  define sent where "sent = snd (sdk_uart_write list_board (\<lambda>_ s. s) (at_format [65, 84]) 2 port)"
  define tm where "tm = swtimer_set 5 100 \<lparr>sw_start = 0, sw_timeout_ms = 0, sw_isstop = 0\<rparr>"
  define cl where "cl = (\<lambda>com snd p sem. (demo_at_client p)\<lparr>at_cmd := \<lparr>ac_state_common = com, ac_state_send = snd,
      ac_trycnt_send = 0, ac_timer_send_wait = \<lparr>sw_start = 0, sw_timeout_ms = 0, sw_isstop = 0\<rparr>\<rparr>,
      at_resp_notice := sem\<rparr> :: u8 list at_client)"
  define s0 s1 s2 where sem: "s0 = \<lparr>sem_state = SEM_STATE_START, sem_timer = \<lparr>sw_start = 0, sw_timeout_ms = 0, sw_isstop = 0\<rparr>,
      sem_value = 0\<rparr>" "s1 = s0\<lparr>sem_timer := tm, sem_state := SEM_STATE_WAITING\<rparr>" "s2 = s1\<lparr>sem_state := SEM_STATE_TIMEOUT\<rparr>"
  define ex where "ex = (\<lambda>tick c. at_cmd_common_ex list_board (\<lambda>_ s. s) tick c 0 100 None [65, 84])"
  define run where "run = at_ex_run list_board (\<lambda>_ s. s) 0 100 None [65, 84] (demo_at_client port)"
  have c0: "demo_at_client port = cl AT_CMD_STAT_START AT_CMD_STAT_START port s0"
    by (simp add: cl_def demo_at_client_def sem(1))
  have fits: "read_bytes (at_format [65, 84]) 0 (Suc (Suc 0)) \<noteq> None" "0 <s (100 :: s32)" by (simp add: read_bytes_def at_format_def AT_CMD_MAX_LEN_def) code_simp
  have expired: "swtimer_expired 200 tm" by (simp add: tm_def swtimer_expired_def swtimer_set_def clock_time_def)
  note ev = ex_def at_cmd_common_ex_def at_cmd_send_def sdk_os_sem_take_def sdk_os_sem_init_def cl_def sem(1-3) Let_def sdk_codes
  have steps:
    "ex 1 (cl AT_CMD_STAT_START AT_CMD_STAT_START port s0) = Some (AT_RESP_WAITING, cl AT_CMD_STAT_SEND AT_CMD_STAT_START port s0)"
    "ex 2 (cl AT_CMD_STAT_SEND AT_CMD_STAT_START port s0) = Some (AT_RESP_WAITING, cl AT_CMD_STAT_SEND AT_CMD_STAT_SEND port s0)"
    "ex 3 (cl AT_CMD_STAT_SEND AT_CMD_STAT_SEND port s0) = Some (AT_RESP_WAITING, cl AT_CMD_STAT_SEND AT_CMD_STAT_WAIT_REV sent s0)"
    "ex 5 (cl AT_CMD_STAT_SEND AT_CMD_STAT_WAIT_REV sent s0) = Some (AT_RESP_WAITING, cl AT_CMD_STAT_SEND AT_CMD_STAT_WAIT_REV sent s1)"
    "ex 200 (cl AT_CMD_STAT_SEND AT_CMD_STAT_WAIT_REV sent s1) = Some (AT_RESP_WAITING, cl AT_CMD_STAT_SEND AT_CMD_STAT_WAIT_REV sent s2)"
    "ex 201 (cl AT_CMD_STAT_SEND AT_CMD_STAT_WAIT_REV sent s2) = Some (AT_RESP_WAITING, cl AT_CMD_STAT_RETRY AT_CMD_STAT_TIMEOUT sent (s2\<lparr>sem_state := SEM_STATE_START\<rparr>))"
    "ex 202 (cl AT_CMD_STAT_RETRY AT_CMD_STAT_TIMEOUT sent (s2\<lparr>sem_state := SEM_STATE_START\<rparr>)) =
       Some (AT_RESP_WAITING, cl AT_CMD_STAT_TIMEOUT AT_CMD_STAT_TIMEOUT sent (s2\<lparr>sem_state := SEM_STATE_START\<rparr>))"
    "ex 300 (cl AT_CMD_STAT_TIMEOUT AT_CMD_STAT_TIMEOUT sent (s2\<lparr>sem_state := SEM_STATE_START\<rparr>)) =
       Some (AT_RESP_TIMEOUT, cl AT_CMD_STAT_START AT_CMD_STAT_TIMEOUT sent (s2\<lparr>sem_state := SEM_STATE_START\<rparr>))"
    using fits expired by (auto simp: ev sent_def tm_def demo_at_client_def)
  have go: "run c n \<Longrightarrow> ex t c = Some (AT_RESP_WAITING, c1) \<Longrightarrow> run c1 (if at_sends c then Suc n else n)" for c n t c1
    unfolding run_def ex_def by (rule at_ex_run.poll)
  have r0: "run (cl AT_CMD_STAT_START AT_CMD_STAT_START port s0) 0" unfolding run_def c0 by (rule at_ex_run.start)
  have "\<exists>n. run (cl AT_CMD_STAT_TIMEOUT AT_CMD_STAT_TIMEOUT sent (s2\<lparr>sem_state := SEM_STATE_START\<rparr>)) n"
    using go [OF go [OF go [OF go [OF go [OF go [OF go [OF r0 steps(1)] steps(2)] steps(3)] steps(4)] steps(5)] steps(6)] steps(7)]
    by blast
  then obtain n where n: "run (cl AT_CMD_STAT_TIMEOUT AT_CMD_STAT_TIMEOUT sent (s2\<lparr>sem_state := SEM_STATE_START\<rparr>)) n" by blast
  have start: "ac_state_common (at_cmd (demo_at_client port)) = AT_CMD_STAT_START"
    "ac_state_send (at_cmd (demo_at_client port)) \<noteq> AT_CMD_STAT_WAIT_REV" "at_answer_status (demo_at_client port)" "0 \<le>s (0 :: s32)"
    by (simp_all add: demo_at_client_def demo_at_resp_def at_answer_status_def)
  have "n = 1" using at_command_retries [OF n [unfolded run_def] start] steps(8) [unfolded ex_def] by fastforce
  then show ?thesis using n steps(8) unfolding run_def ex_def port_def by blast
qed

text \<open>
  A command of at most 127 bytes is handed to the UART whole. Of a longer one the UART is told the full
  length, but only 127 bytes were formatted: at 128 and 129 the rest is zeros, from 130 on the driver reads
  behind the buffer.
\<close>

theorem at_command_length:
  assumes "ac_state_send (at_cmd c) = AT_CMD_STAT_SEND"
  shows "(at_cmd_common ops delay_ms tick c full = None) = (129 < length full)
    \<and> read_bytes (at_format full) 0 (length full)
      = (if 129 < length full then None else Some (take 127 full @ replicate (length full - 127) 0))"
proof -
  have "take (min (length full) 127) full = take 127 full" by (simp add: min_def)
  then show ?thesis
    using assms by (auto simp: at_cmd_common_def at_cmd_send_def at_format_def AT_CMD_MAX_LEN_def read_bytes_def Let_def)
qed

theorem at_command_length_witness:
  "at_cmd_common list_board (\<lambda>_ s. s) 1 ((demo_at_client (idle_uart UART_TX_IDLE, []))
       \<lparr>at_cmd := \<lparr>ac_state_common = AT_CMD_STAT_START, ac_state_send = AT_CMD_STAT_SEND, ac_trycnt_send = 0,
         ac_timer_send_wait = \<lparr>sw_start = 0, sw_timeout_ms = 0, sw_isstop = 0\<rparr>\<rparr>\<rparr>) (replicate 130 65) = None"
proof -
  let ?c = "(demo_at_client (idle_uart UART_TX_IDLE, []))\<lparr>at_cmd := \<lparr>ac_state_common = AT_CMD_STAT_START,
    ac_state_send = AT_CMD_STAT_SEND, ac_trycnt_send = 0, ac_timer_send_wait = \<lparr>sw_start = 0, sw_timeout_ms = 0, sw_isstop = 0\<rparr>\<rparr>\<rparr>"
  have "ac_state_send (at_cmd ?c) = AT_CMD_STAT_SEND" by simp
  then show ?thesis using at_command_length [of ?c list_board "\<lambda>_ s. s" 1 "replicate 130 65"] by simp
qed

text \<open>
  A line that is an unsolicited result code calls the function of the code and ends the answer the parser
  was collecting: the lines it had so far are dropped, and no waiting command is told.
\<close>

theorem at_urc_drops_answer:
  assumes "ar_parser_state (at_resp c) = AT_RESP_PARSER_STAT_PARSE_LINE" and "get_urc_obj c = Some (Some u)"
    and "au_func u = Some f"
  shows "\<exists>c1. at_polls 2 c = Some c1 \<and> ar_buf_len (at_resp c1) = 0 \<and> ar_line_counts (at_resp c1) = 0
    \<and> ar_parser_state (at_resp c1) = AT_RESP_PARSER_STAT_READ_LINE \<and> at_resp_notice c1 = at_resp_notice c
    \<and> at_port c1 = (fst (at_port c), f (at_recv_line_buf c) (at_recv_line_len c) (snd (at_port c)))"
  using assms
  by (simp add: numeral_2_eq_2 at_parser_poll_def at_parser_def Let_def split: prod.splits)

text \<open>The code \<open>"RING"\<close> between the lines of an answer.\<close>

theorem at_urc_drops_answer_witness:
  "\<exists>c c1. get_urc_obj c = Some (Some \<lparr>au_address = 1, au_cmd_prefix = [82, 73, 78, 71], au_cmd_suffix = [13, 10],
      au_func = Some (\<lambda>bs n h. take n bs @ h)\<rparr>) \<and> ar_line_counts (at_resp c) = 1
    \<and> at_polls 2 c = Some c1 \<and> ar_line_counts (at_resp c1) = 0 \<and> snd (at_port c1) = [82, 73, 78, 71, 13, 10]"
proof -
  let ?u = "\<lparr>au_address = 1, au_cmd_prefix = [82, 73, 78, 71], au_cmd_suffix = [13, 10],
      au_func = Some (\<lambda>bs n h. take n bs @ h)\<rparr> :: u8 list at_urc"
  let ?c = "(demo_at_client (idle_uart UART_TX_IDLE, []))\<lparr>at_recv_line_buf := [82, 73, 78, 71, 13, 10, 0, 0],
      at_recv_line_len := 6, at_urc_list := [?u], at_resp := demo_at_resp\<lparr>ar_line_counts := 1, ar_buf_len := 6,
      ar_parser_state := AT_RESP_PARSER_STAT_PARSE_LINE\<rparr>\<rparr>"
  have c: "ar_parser_state (at_resp ?c) = AT_RESP_PARSER_STAT_PARSE_LINE" "get_urc_obj ?c = Some (Some ?u)"
    by (simp_all add: get_urc_obj_def load_def Let_def)
  have f: "au_func ?u = Some (\<lambda>bs n h. take n bs @ h)" by simp
  have parts: "at_port ?c = (idle_uart UART_TX_IDLE, [])" "ar_line_counts (at_resp ?c) = 1"
    "take (at_recv_line_len ?c) (at_recv_line_buf ?c) = [82, 73, 78, 71, 13, 10]"
    by (simp_all add: demo_at_client_def)
  obtain c1 where c1: "at_polls 2 ?c = Some c1" "ar_line_counts (at_resp c1) = 0"
    "at_port c1 = (fst (at_port ?c), take (at_recv_line_len ?c) (at_recv_line_buf ?c) @ snd (at_port ?c))"
    using at_urc_drops_answer [OF c f] by blast
  then have "snd (at_port c1) = [82, 73, 78, 71, 13, 10]" unfolding parts by simp
  then show ?thesis using c1(1,2) c(2) parts(2) by blast
qed

end
