(* ===== verification/Base64.thy ===== *)
theory Base64
  imports Prelude
begin

unbundle bit_operations_syntax

text \<open>
  src/src/components/cloud/onenet/authorization/onenet_base64.c: Base64. \<open>size_t\<close> has 32 bits on the SDK's
  targets; the sizes are natural numbers, with the wrap-around written out where it could matter. A source
  pointer that the code advances is the list of the bytes that are left; a destination is its array and the
  index of the next byte. \<open>None\<close> is an access outside an array.
\<close>

section \<open>Tables\<close>

definition BASE64_SIZE_T_MAX :: nat where
  "BASE64_SIZE_T_MAX = 2 ^ 32 - 1"

definition MBEDTLS_ERR_BASE64_BUFFER_TOO_SMALL :: s32 where
  "MBEDTLS_ERR_BASE64_BUFFER_TOO_SMALL = - 0x2A"

definition MBEDTLS_ERR_BASE64_INVALID_CHARACTER :: s32 where
  "MBEDTLS_ERR_BASE64_INVALID_CHARACTER = - 0x2C"

definition base64_enc_map :: "u8 list" where
  "base64_enc_map = [
    65, 66, 67, 68, 69, 70, 71, 72, 73, 74, 75, 76, 77, 78, 79, 80, 81, 82, 83, 84, 85, 86,
    87, 88, 89, 90, 97, 98, 99, 100, 101, 102, 103, 104, 105, 106, 107, 108, 109, 110, 111, 112, 113, 114,
    115, 116, 117, 118, 119, 120, 121, 122, 48, 49, 50, 51, 52, 53, 54, 55, 56, 57, 43, 47]"

definition base64_dec_map :: "u8 list" where
  "base64_dec_map = [
    127, 127, 127, 127, 127, 127, 127, 127, 127, 127, 127, 127, 127, 127, 127, 127, 127, 127, 127, 127, 127, 127,
    127, 127, 127, 127, 127, 127, 127, 127, 127, 127, 127, 127, 127, 127, 127, 127, 127, 127, 127, 127, 127, 62,
    127, 127, 127, 63,  52,  53,  54,  55,  56,  57,  58,  59,  60,  61,  127, 127, 127, 64,  127, 127, 127, 0,
    1,   2,   3,   4,   5,   6,   7,   8,   9,   10,  11,  12,  13,  14,  15,  16,  17,  18,  19,  20,  21,  22,
    23,  24,  25,  127, 127, 127, 127, 127, 127, 26,  27,  28,  29,  30,  31,  32,  33,  34,  35,  36,  37,  38,
    39,  40,  41,  42,  43,  44,  45,  46,  47,  48,  49,  50,  51,  127, 127, 127, 127, 127]"

text \<open>\<open>*p++ = v\<close> and \<open>*src++\<close>.\<close>

definition put :: "u8 list \<times> nat \<Rightarrow> u8 \<Rightarrow> (u8 list \<times> nat) option" where
  "put o1 v = do { d \<leftarrow> store (fst o1) (snd o1) v; Some (d, Suc (snd o1)) }"

fun get :: "u8 list \<Rightarrow> (s32 \<times> u8 list) option" where
  "get [] = None"
| "get (c # src) = Some (ucast c, src)"

definition enc_char :: "s32 \<Rightarrow> u8 option" where
  "enc_char v = load base64_enc_map (unat (v AND 0x3F))"

section \<open>Encoding\<close>

function encode_loop :: "u8 list \<times> nat \<Rightarrow> u8 list \<Rightarrow> nat \<Rightarrow> nat \<Rightarrow> ((u8 list \<times> nat) \<times> u8 list \<times> nat) option" where
  "encode_loop o1 src i n =
     (if i < n then do {
        (C1, src) \<leftarrow> get src;
        (C2, src) \<leftarrow> get src;
        (C3, src) \<leftarrow> get src;
        c \<leftarrow> enc_char (drop_bit 2 C1);
        o1 \<leftarrow> put o1 c;
        c \<leftarrow> enc_char (push_bit 4 (C1 AND 3) + drop_bit 4 C2);
        o1 \<leftarrow> put o1 c;
        c \<leftarrow> enc_char (push_bit 2 (C2 AND 15) + drop_bit 6 C3);
        o1 \<leftarrow> put o1 c;
        c \<leftarrow> enc_char C3;
        o1 \<leftarrow> put o1 c;
        encode_loop o1 src (i + 3) n }
      else Some (o1, src, i))"
  by pat_completeness auto
termination
  by (relation "measure (\<lambda>(o1, src, i, n). n - i)") auto

declare encode_loop.simps [simp del]

text \<open>The result code, \<open>*olen\<close> and the destination.\<close>

definition BASE64_Encode :: "u8 list option \<Rightarrow> nat \<Rightarrow> u8 list \<Rightarrow> nat \<Rightarrow> (s32 \<times> nat \<times> u8 list option) option" where
  "BASE64_Encode dst dlen src slen =
     (if slen = 0 then Some (0, 0, dst)
      else let n = slen div 3 + (if slen mod 3 \<noteq> 0 then 1 else 0)
      in if (BASE64_SIZE_T_MAX - 1) div 4 < n
         then Some (MBEDTLS_ERR_BASE64_BUFFER_TOO_SMALL, BASE64_SIZE_T_MAX, dst)
      else case dst of
        None \<Rightarrow> Some (MBEDTLS_ERR_BASE64_BUFFER_TOO_SMALL, n * 4 + 1, dst)
      | Some d \<Rightarrow>
          if dlen < n * 4 + 1 then Some (MBEDTLS_ERR_BASE64_BUFFER_TOO_SMALL, n * 4 + 1, dst)
          else do {
            (o1, src, i) \<leftarrow> encode_loop (d, 0) src 0 (slen div 3 * 3);
            o1 \<leftarrow>
              (if i < slen then do {
                 (C1, src) \<leftarrow> get src;
                 (C2, src) \<leftarrow> (if i + 1 < slen then get src else Some (0, src));
                 c \<leftarrow> enc_char (drop_bit 2 C1);
                 o1 \<leftarrow> put o1 c;
                 c \<leftarrow> enc_char (push_bit 4 (C1 AND 3) + drop_bit 4 C2);
                 o1 \<leftarrow> put o1 c;
                 c \<leftarrow> (if i + 1 < slen then enc_char (push_bit 2 (C2 AND 15)) else Some 61);
                 o1 \<leftarrow> put o1 c;
                 put o1 61 }
               else Some o1);
            d \<leftarrow> store (fst o1) (snd o1) 0;
            Some (0, snd o1, Some d) })"

section \<open>Decoding\<close>

function skip_spaces :: "u8 list \<Rightarrow> nat \<Rightarrow> nat \<Rightarrow> nat option" where
  "skip_spaces src slen i =
     (if i < slen then do { c \<leftarrow> load src i; if c = 32 then skip_spaces src slen (Suc i) else Some i }
      else Some i)"
  by pat_completeness auto
termination
  by (relation "measure (\<lambda>(src, slen, i). slen - i)") auto

declare skip_spaces.simps [simp del]

text \<open>
  The body of the first pass at index \<open>i\<close>, behind the spaces: an error, or the next index with the counts
  \<open>n\<close> of characters and \<open>j\<close> of padding. The result \<open>Inr None\<close> is the \<open>break\<close> at the end of the input.
\<close>

definition check_char ::
    "u8 list \<Rightarrow> nat \<Rightarrow> bool \<Rightarrow> nat \<Rightarrow> nat \<Rightarrow> u32 \<Rightarrow> (s32 + (nat \<times> u32)) option" where
  "check_char src slen spaces i n j = do {
     c \<leftarrow> load src i;
     crlf \<leftarrow> (if 2 \<le> slen - i \<and> c = 13 then do { d \<leftarrow> load src (Suc i); Some (d = 10) } else Some False);
     if crlf \<or> c = 10 then Some (Inr (n, j))
     else if spaces then Some (Inl MBEDTLS_ERR_BASE64_INVALID_CHARACTER)
     else do {
       let j1 = (if c = 61 then j + 1 else j);
       if c = 61 \<and> 2 < j1 then Some (Inl MBEDTLS_ERR_BASE64_INVALID_CHARACTER)
       else if 127 < c then Some (Inl MBEDTLS_ERR_BASE64_INVALID_CHARACTER)
       else do {
         v \<leftarrow> load base64_dec_map (unat c);
         if v = 127 \<or> (v < 64 \<and> j1 \<noteq> 0) then Some (Inl MBEDTLS_ERR_BASE64_INVALID_CHARACTER)
         else Some (Inr (Suc n, j1)) } } }"

lemma skip_spaces_ge: "skip_spaces src slen i = Some k \<Longrightarrow> i \<le> k"
proof (induction src slen i rule: skip_spaces.induct)
  case (1 src slen i)
  then show ?case
    by (auto simp: skip_spaces.simps [of src slen i] split: if_splits Option.bind_splits intro: le_trans [of i "Suc i"])
qed

function check_loop :: "u8 list \<Rightarrow> nat \<Rightarrow> nat \<Rightarrow> nat \<Rightarrow> u32 \<Rightarrow> (s32 + (nat \<times> u32)) option" where
  "check_loop src slen i n j =
     (if i < slen then
        case skip_spaces src slen i of
          None \<Rightarrow> None
        | Some k \<Rightarrow>
            if slen \<le> k then Some (Inr (n, j))
            else (case check_char src slen (i < k) k n j of
                None \<Rightarrow> None
              | Some (Inl e) \<Rightarrow> Some (Inl e)
              | Some (Inr (n1, j1)) \<Rightarrow> check_loop src slen (Suc k) n1 j1)
      else Some (Inr (n, j)))"
  by pat_completeness auto
termination
  by (relation "measure (\<lambda>(src, slen, i, n, j). slen - i)") (auto dest!: skip_spaces_ge)

declare check_loop.simps [simp del]

text \<open>The second pass, with \<open>i\<close> characters left; six more bits come into \<open>x\<close> from the right.\<close>

definition add_digit :: "u32 \<Rightarrow> u8 \<Rightarrow> u32" where
  "add_digit x v = push_bit 6 x OR (ucast v AND 0x3F)"

fun decode_loop :: "u8 list \<times> nat \<Rightarrow> u8 list \<Rightarrow> nat \<Rightarrow> u32 \<Rightarrow> nat \<Rightarrow> u32 \<Rightarrow> (u8 list \<times> nat) option" where
  "decode_loop o1 src 0 j n x = Some o1"
| "decode_loop o1 [] (Suc i) j n x = None"
| "decode_loop o1 (c # src) (Suc i) j n x =
     (if c = 13 \<or> c = 10 \<or> c = 32 then decode_loop o1 src i j n x
      else do {
        v \<leftarrow> load base64_dec_map (unat c);
        let j = (if v = 64 then j - 1 else j);
        let x = add_digit x v;
        if Suc n = 4 then do {
          o1 \<leftarrow> (if 0 < j then put o1 (ucast (drop_bit 16 x)) else Some o1);
          o1 \<leftarrow> (if 1 < j then put o1 (ucast (drop_bit 8 x)) else Some o1);
          o1 \<leftarrow> (if 2 < j then put o1 (ucast x) else Some o1);
          decode_loop o1 src i j 0 x }
        else decode_loop o1 src i j (Suc n) x })"

definition BASE64_Decode :: "u8 list option \<Rightarrow> nat \<Rightarrow> u8 list \<Rightarrow> nat \<Rightarrow> (s32 \<times> nat option \<times> u8 list option) option" where
  "BASE64_Decode dst dlen src slen = do {
     checked \<leftarrow> check_loop src slen 0 0 0;
     case checked of
       Inl e \<Rightarrow> Some (e, None, dst)
     | Inr (n, j) \<Rightarrow>
         if n = 0 then Some (0, Some 0, dst)
         else (let n = (6 * (n div 8) + (6 * (n mod 8) + 7) div 8 + 2 ^ 32 - unat j) mod 2 ^ 32
           in case dst of
             None \<Rightarrow> Some (MBEDTLS_ERR_BASE64_BUFFER_TOO_SMALL, Some n, dst)
           | Some d \<Rightarrow>
               if dlen < n then Some (MBEDTLS_ERR_BASE64_BUFFER_TOO_SMALL, Some n, dst)
               else do { o1 \<leftarrow> decode_loop (d, 0) src slen 3 0 0; Some (0, Some (snd o1), Some (fst o1)) }) }"

section \<open>The text of RFC 4648\<close>

text \<open>Three bytes are a number of 24 bits, written in four digits of the alphabet.\<close>

definition b64_digit :: "nat \<Rightarrow> u8" where
  "b64_digit v = base64_enc_map ! (v mod 64)"

fun b64_text :: "u8 list \<Rightarrow> u8 list" where
  "b64_text [] = []"
| "b64_text [a] = [b64_digit (unat a div 4), b64_digit (unat a * 16), 61, 61]"
| "b64_text [a, b] = (let v = unat a * 256 + unat b
     in [b64_digit (v div 1024), b64_digit (v div 16), b64_digit (v * 4), 61])"
| "b64_text (a # b # c # bs) = (let v = (unat a * 256 + unat b) * 256 + unat c
     in [b64_digit (v div 262144), b64_digit (v div 4096), b64_digit (v div 64), b64_digit v] @ b64_text bs)"

lemma length_b64_text: "length (b64_text bs) = 4 * (length bs div 3 + (if length bs mod 3 \<noteq> 0 then 1 else 0))"
proof (induction bs rule: b64_text.induct)
  case (4 a b c bs)
  have "length (a # b # c # bs) = length bs + 3" by simp
  then show ?case using 4 by (simp only: div_add_self2 mod_add_self2) (simp add: Let_def)
qed (simp_all add: Let_def)

subsection \<open>Digits\<close>

lemma unat_low_bits:
  fixes v :: s32
  shows "unat (v AND 0x3F) = unat v mod 64" and "unat (v AND 15) = unat v mod 16" and "unat (v AND 3) = unat v mod 4"
proof -
  have "v AND 0x3F = take_bit 6 v" "v AND 15 = take_bit 4 v" "v AND 3 = take_bit 2 v"
    by (simp_all only: take_bit_eq_mask mask_eq_exp_minus_1) simp_all
  then show "unat (v AND 0x3F) = unat v mod 64" "unat (v AND 15) = unat v mod 16" "unat (v AND 3) = unat v mod 4"
    by (simp_all only: unsigned_take_bit_eq) (simp_all add: take_bit_eq_mod)
qed

lemma unat_shifts:
  fixes v :: s32
  shows "unat (drop_bit n v) = unat v div 2 ^ n" and "unat v * 2 ^ n < 2 ^ 32 \<Longrightarrow> unat (push_bit n v) = unat v * 2 ^ n"
proof -
  show "unat (drop_bit n v) = unat v div 2 ^ n"
    by (simp only: unat_drop_bit_eq) (simp add: drop_bit_eq_div)
  assume "unat v * 2 ^ n < 2 ^ 32"
  then show "unat (push_bit n v) = unat v * 2 ^ n"
    by (simp only: unsigned_push_bit_eq) (simp add: push_bit_eq_mult take_bit_eq_mod)
qed

lemma enc_char_digit: "enc_char v = Some (b64_digit (unat v))"
  by (simp add: enc_char_def unat_low_bits b64_digit_def load_in base64_enc_map_def)

lemma b64_digit_mod: "v mod 64 = w mod 64 \<Longrightarrow> b64_digit v = b64_digit w"
  by (simp add: b64_digit_def)

lemma enc_chars:
  fixes a b c :: u8
  shows "enc_char (drop_bit 2 (ucast a)) = Some (b64_digit (unat a div 4))"
    and "enc_char (push_bit 4 (ucast a AND 3) + drop_bit 4 (ucast b)) = Some (b64_digit ((unat a * 256 + unat b) div 16))"
    and "enc_char (push_bit 2 (ucast b AND 15) + drop_bit 6 (ucast c)) = Some (b64_digit ((unat b * 256 + unat c) div 64))"
    and "enc_char (ucast c) = Some (b64_digit (unat c))"
    and "enc_char (push_bit 2 (ucast b AND 15)) = Some (b64_digit (unat b * 4))"
proof -
  have p3: "unat (push_bit 4 (ucast x AND 3 :: s32)) = (unat x mod 4) * 16"
    and p15: "unat (push_bit 2 (ucast x AND 15 :: s32)) = (unat x mod 16) * 4" for x :: u8
    using unat_shifts(2) [of "ucast x AND 3" 4] unat_shifts(2) [of "ucast x AND 15" 2] by (simp_all add: unat_low_bits)
  have small: "(unat x mod 4) * 16 + unat y div 16 < 4294967296" "(unat x mod 16) * 4 + unat y div 64 < 4294967296"
    for x y :: u8
    using unat_u8_less [of y] mod_less_divisor [of 4 "unat x"] mod_less_divisor [of 16 "unat x"]
      div_le_dividend [of "unat y" 16] div_le_dividend [of "unat y" 64] by linarith+
  have div16: "(x * 256 + y) div 16 = x * 16 + y div 16" "(x * 256 + y) div 64 = x * 4 + y div 64" for x y :: nat
    using div_mult_self1 [of 16 y "x * 16"] div_mult_self1 [of 64 y "x * 4"] by (simp_all add: mult.commute add.commute)
  have mods: "((x mod 4) * 16 + z) mod 64 = (x * 16 + z) mod 64" "((x mod 16) * 4 + z) mod 64 = (x * 4 + z) mod 64"
    for x z :: nat
    using mod_add_left_eq [of "x * 16" 64 z] mod_add_left_eq [of "x * 4" 64 z]
    by (simp_all add: mult_mod_left)
  show "enc_char (drop_bit 2 (ucast a)) = Some (b64_digit (unat a div 4))"
    by (simp add: enc_char_digit unat_shifts)
  show "enc_char (push_bit 4 (ucast a AND 3) + drop_bit 4 (ucast b)) = Some (b64_digit ((unat a * 256 + unat b) div 16))"
    unfolding enc_char_digit div16 using small(1) [of a b] mods(1)
    by (simp add: unat_word_ariths p3 unat_shifts del: push_bit_and) (rule b64_digit_mod, simp)
  show "enc_char (push_bit 2 (ucast b AND 15) + drop_bit 6 (ucast c)) = Some (b64_digit ((unat b * 256 + unat c) div 64))"
    unfolding enc_char_digit div16 using small(2) [of b c] mods(2)
    by (simp add: unat_word_ariths p15 unat_shifts del: push_bit_and) (rule b64_digit_mod, simp)
  show "enc_char (ucast c) = Some (b64_digit (unat c))" by (simp add: enc_char_digit)
  show "enc_char (push_bit 2 (ucast b AND 15)) = Some (b64_digit (unat b * 4))"
    unfolding enc_char_digit p15 using mods(2) [of "unat b" 0] by (simp add: b64_digit_def)
qed

section \<open>Encoding writes this text\<close>

lemma put_behind: "k = length xs \<Longrightarrow> put (xs @ y # ys, k) v = Some (xs @ v # ys, Suc k)"
  by (simp add: put_def store_in list_update_append)


definition behind :: "u8 list \<Rightarrow> u8 list \<Rightarrow> u8 list \<times> nat" where
  "behind out d = (out @ drop (length out) d, length out)"

lemma put_out: "length out < length d \<Longrightarrow> put (behind out d) v = Some (behind (out @ [v]) d)"
  unfolding behind_def
  by (subst Cons_nth_drop_Suc [symmetric], assumption) (simp add: put_behind)

lemma b64_digits:
  fixes a b c :: u8
  defines "v \<equiv> (unat a * 256 + unat b) * 256 + unat c"
  shows "b64_digit (unat a div 4) = b64_digit (v div 262144)"
    and "b64_digit ((unat a * 256 + unat b) div 16) = b64_digit (v div 4096)"
    and "b64_digit ((unat b * 256 + unat c) div 64) = b64_digit (v div 64)" and "b64_digit (unat c) = b64_digit v"
proof -
  have hi: "v div 256 = unat a * 256 + unat b" "(unat a * 256 + unat b) div 256 = unat a"
    using unat_u8_less [of b] unat_u8_less [of c] unfolding v_def
    by (simp_all only: div_mult_self3 [of 256, simplified] div_less)
  have "v div 4096 = v div 256 div 16" "v div 262144 = v div 256 div 256 div 4"
    by (simp_all add: div_mult2_eq [symmetric])
  then show "b64_digit (unat a div 4) = b64_digit (v div 262144)"
    "b64_digit ((unat a * 256 + unat b) div 16) = b64_digit (v div 4096)"
    by (simp_all add: hi)
  have "v = (unat a * 1024) * 64 + (unat b * 256 + unat c)" by (simp add: v_def)
  then have "v div 64 = unat a * 1024 + (unat b * 256 + unat c) div 64" by simp
  then have "v div 64 mod 64 = (16 * unat a * 64 + (unat b * 256 + unat c) div 64) mod 64" by (simp add: mult.commute)
  also have "\<dots> = (unat b * 256 + unat c) div 64 mod 64" by (rule mod_mult_self3)
  finally show "b64_digit ((unat b * 256 + unat c) div 64) = b64_digit (v div 64)" by (intro b64_digit_mod) simp
  have "v = (unat a * 1024 + unat b * 4) * 64 + unat c" by (simp add: v_def)
  then have "v mod 64 = unat c mod 64" by (simp only: mod_mult_self3)
  then show "b64_digit (unat c) = b64_digit v" by (intro b64_digit_mod) simp
qed

lemma b64_text_group: "b64_text (a # b # c # bs) = [b64_digit (unat a div 4), b64_digit ((unat a * 256 + unat b) div 16),
    b64_digit ((unat b * 256 + unat c) div 64), b64_digit (unat c)] @ b64_text bs"
  by (simp only: b64_text.simps Let_def b64_digits [symmetric])

lemma encode_loop_text:
  assumes "length src = 3 * k" and "i + 3 * k = n" and "length out + 4 * k \<le> length d"
  shows "encode_loop (behind out d) (src @ rest) i n = Some (behind (out @ b64_text src) d, rest, n)"
  using assms
proof (induction k arbitrary: src i out)
  case 0
  then show ?case by (simp add: encode_loop.simps)
next
  case (Suc k)
  have "length src = Suc (Suc (Suc (3 * k)))" using Suc.prems(1) by simp
  then obtain a b c bs where src: "src = a # b # c # bs" by (auto simp: length_Suc_conv)
  let ?v = "(unat a * 256 + unat b) * 256 + unat c"
  define out1 where "out1 = out @ [b64_digit (unat a div 4), b64_digit ((unat a * 256 + unat b) div 16),
      b64_digit ((unat b * 256 + unat c) div 64), b64_digit (unat c)]"
  have "encode_loop (behind out d) (src @ rest) i n = encode_loop (behind out1 d) (bs @ rest) (i + 3) n"
  proof -
    have lt: "i < n" and room: "length out + 4 \<le> length d" using Suc.prems by simp_all
    show ?thesis
      using room unfolding src
      by (subst encode_loop.simps)
        (simp only: lt if_True append_Cons get.simps bind.bind_lunit prod.case enc_chars put_out append_assoc append_Nil
          length_append list.size out1_def)
  qed
  also have "\<dots> = Some (behind (out1 @ b64_text bs) d, rest, n)"
    using Suc.prems by (intro Suc.IH) (simp_all add: src out1_def)
  finally show ?case by (simp only: src out1_def b64_text_group append_assoc)
qed

lemma b64_text_append: "length bs = 3 * k \<Longrightarrow> b64_text (bs @ cs) = b64_text bs @ b64_text cs"
proof (induction k arbitrary: bs)
  case (Suc k)
  have "length bs = Suc (Suc (Suc (3 * k)))" using Suc.prems by simp
  then obtain a b c bs1 where "bs = a # b # c # bs1" by (auto simp: length_Suc_conv)
  with Suc show ?case by (simp add: Let_def)
qed simp

lemma enc_tail:
  shows "b64_text [a] = [b64_digit (unat a div 4), b64_digit (unat a * 256 div 16), 61, 61]"
    and "b64_text [a, b] = [b64_digit (unat a div 4), b64_digit ((unat a * 256 + unat b) div 16), b64_digit (unat b * 4), 61]"
proof -
  show "b64_text [a] = [b64_digit (unat a div 4), b64_digit (unat a * 256 div 16), 61, 61]"
    by (simp add: mult.commute)
  have "b64_digit (unat a div 4) = b64_digit ((unat a * 256 + unat b) div 1024)"
  proof -
    have "(unat a * 256 + unat b) div 1024 = (unat a * 256 + unat b) div 256 div 4"
      by (simp only: div_mult2_eq [symmetric]) simp
    also have "(unat a * 256 + unat b) div 256 = unat a" using unat_u8_less [of b] by (simp add: div_add1_eq)
    finally show ?thesis by (simp only:)
  qed
  moreover have "b64_digit ((unat a * 256 + unat b) * 4) = b64_digit (unat b * 4)"
  proof (rule b64_digit_mod)
    have "(unat a * 256 + unat b) * 4 = (16 * unat a) * 64 + unat b * 4" by simp
    then show "(unat a * 256 + unat b) * 4 mod 64 = unat b * 4 mod 64" by (simp only: mod_mult_self3)
  qed
  ultimately show "b64_text [a, b] = [b64_digit (unat a div 4), b64_digit ((unat a * 256 + unat b) div 16), b64_digit (unat b * 4), 61]"
    by (simp add: Let_def)
qed

text \<open>The groups of three and the rest of a text.\<close>

lemma split_groups:
  obtains g t where "src = g @ t" and "length g = 3 * (length src div 3)" and "length t = length src mod 3"
proof
  let ?n = "3 * (length src div 3)"
  show "src = take ?n src @ drop ?n src" by simp
  show "length (take ?n src) = ?n"
    using times_div_less_eq_dividend [of 3 "length src"] by simp
  show "length (drop ?n src) = length src mod 3" by (simp add: minus_mult_div_eq_mod)
qed

lemma BASE64_Encode_text:
  assumes "src \<noteq> []" and "length (b64_text src) < length d" and "length (b64_text src) < dlen" and "length src < 2 ^ 31"
  shows "BASE64_Encode (Some d) dlen (src @ rest) (length src)
    = Some (0, length (b64_text src), Some (b64_text src @ 0 # drop (Suc (length (b64_text src))) d))"
proof -
  obtain g t where gt: "src = g @ t" "length g = 3 * (length src div 3)" "length t = length src mod 3"
    by (rule split_groups)
  let ?n = "length src div 3 + (if length src mod 3 \<noteq> 0 then 1 else 0)"
  have parts: "b64_text src = b64_text g @ b64_text t" using b64_text_append [OF gt(2)] gt(1) by simp
  have n: "length (b64_text src) = 4 * ?n" "?n \<le> (BASE64_SIZE_T_MAX - 1) div 4" "\<not> dlen < ?n * 4 + 1"
    using assms(3,4) length_b64_text [of src] by (auto simp: BASE64_SIZE_T_MAX_def)
  have "length (b64_text g) + length (b64_text t) < length d" using assms(2) parts by simp
  then have loop: "encode_loop (behind [] d) (g @ t @ rest) 0 (length src div 3 * 3)
      = Some (behind (b64_text g) d, t @ rest, length src div 3 * 3)"
    using encode_loop_text [OF gt(2), of 0 "length src div 3 * 3" "[]" d "t @ rest"] gt(2) length_b64_text [of g] by simp
  let ?st = "behind (b64_text g) d" and ?i = "length src div 3 * 3"
  have i: "?i < length src \<longleftrightarrow> t \<noteq> []" "?i + 1 < length src \<longleftrightarrow> 1 < length t"
    using gt(1,2) arg_cong [OF gt(1), of length] by (auto simp: mult.commute)
  have room: "length (b64_text g @ b64_text t) < length d" using assms(2) parts by simp
  consider "t = []" | a where "t = [a]" | a b where "t = [a, b]"
  proof -
    have "length t < 3" using gt(3) by simp
    then show thesis using that by (cases t; cases "tl t"; cases "tl (tl t)") auto
  qed
  then have "(if ?i < length src then do {
                 (C1, src1) \<leftarrow> get (t @ rest);
                 (C2, src1) \<leftarrow> (if ?i + 1 < length src then get src1 else Some (0, src1));
                 c \<leftarrow> enc_char (drop_bit 2 C1);
                 o1 \<leftarrow> put ?st c;
                 c \<leftarrow> enc_char (push_bit 4 (C1 AND 3) + drop_bit 4 C2);
                 o1 \<leftarrow> put o1 c;
                 c \<leftarrow> (if ?i + 1 < length src then enc_char (push_bit 2 (C2 AND 15)) else Some 61);
                 o1 \<leftarrow> put o1 c;
                 put o1 61 }
               else Some ?st) = Some (behind (b64_text g @ b64_text t) d)"
  proof cases
    case 1
    then show ?thesis using i by simp
  next
    case (2 a)
    have "enc_char (push_bit 4 (ucast a AND 3) + drop_bit 4 0) = Some (b64_digit (unat a * 256 div 16))"
      using enc_chars(2) [of a 0] by (simp only: unsigned_0 drop_bit_of_0 add_0_right)
    then show ?thesis
      using i room unfolding 2
      by (simp only: enc_chars(1) enc_tail append_Cons append_Nil get.simps bind.bind_lunit prod.case put_out append_assoc
          length_append list.size if_True if_False) simp
  next
    case (3 a b)
    then show ?thesis
      using i room unfolding 3
      by (simp only: enc_chars enc_tail append_Cons append_Nil get.simps bind.bind_lunit prod.case put_out append_assoc
          length_append list.size if_True if_False) (simp add: enc_chars put_out del: push_bit_and)
  qed
  note tail = this
  have loop1: "encode_loop (d, 0) (src @ rest) 0 ?i = Some (?st, t @ rest, ?i)"
    using loop gt(1) by (simp add: behind_def)
  have c: "(length src = 0) = False" "((BASE64_SIZE_T_MAX - 1) div 4 < ?n) = False" "(dlen < ?n * 4 + 1) = False"
    using assms(1) n by auto
  have last: "store (fst (behind (b64_text src) d)) (snd (behind (b64_text src) d)) 0
      = Some (b64_text src @ 0 # drop (Suc (length (b64_text src))) d)"
    unfolding behind_def using assms(2)
    by (subst Cons_nth_drop_Suc [symmetric], assumption) (simp add: store_in list_update_append)
  show ?thesis
    unfolding BASE64_Encode_def Let_def c if_False option.case loop1 bind.bind_lunit prod.case tail
      parts [symmetric] last
    by (simp add: behind_def)
qed

section \<open>Decoding\<close>

text \<open>The decoder's table inverts the encoder's.\<close>

lemma dec_table: "map (\<lambda>c. base64_dec_map ! unat c) base64_enc_map = map word_of_nat [0..<64]"
  by code_simp

lemma enc_alphabet:
  assumes "c \<in> set base64_enc_map"
  shows "unat c < 128" and "base64_dec_map ! unat c < 64" and "c \<notin> {10, 13, 32, 61}"
proof -
  have "\<forall>c \<in> set base64_enc_map. unat c < 128 \<and> base64_dec_map ! unat c < 64 \<and> c \<notin> {10, 13, 32, 61}"
    unfolding base64_enc_map_def base64_dec_map_def by simp
  then show "unat c < 128" "base64_dec_map ! unat c < 64" "c \<notin> {10, 13, 32, 61}" using assms by simp_all
qed

lemma length_tables [simp]: "length base64_enc_map = 64" "length base64_dec_map = 128"
  by (simp_all add: base64_enc_map_def base64_dec_map_def)

lemma b64_digit_alphabet: "b64_digit v \<in> set base64_enc_map"
  by (simp add: b64_digit_def)

lemma dec_digit: "load base64_dec_map (unat (b64_digit v)) = Some (word_of_nat (v mod 64))"
proof -
  have "base64_dec_map ! unat (base64_enc_map ! (v mod 64)) = word_of_nat (v mod 64)"
    using arg_cong [OF dec_table, of "\<lambda>l. l ! (v mod 64)"] by simp
  then show ?thesis using enc_alphabet(1) [OF b64_digit_alphabet [of v]] by (simp add: load_in b64_digit_def)
qed

subsection \<open>The second pass ignores blanks\<close>

definition blank :: "u8 \<Rightarrow> bool" where
  "blank c \<longleftrightarrow> c = 13 \<or> c = 10 \<or> c = 32"

lemma decode_loop_blanks:
  "slen \<le> length src \<Longrightarrow> decode_loop o1 src slen j n x
    = decode_loop o1 (filter (\<lambda>c. \<not> blank c) (take slen src)) (length (filter (\<lambda>c. \<not> blank c) (take slen src))) j n x"
proof (induction slen arbitrary: o1 src j n x)
  case (Suc i)
  then obtain c cs where src: "src = c # cs" by (cases src) auto
  have IH: "decode_loop o1 cs i j n x
    = decode_loop o1 (filter (\<lambda>c. \<not> blank c) (take i cs)) (length (filter (\<lambda>c. \<not> blank c) (take i cs))) j n x" for o1 j n x
    using Suc.IH [of cs] Suc.prems src by simp
  show ?case
    unfolding src by (cases "n = 3") (auto simp: blank_def Let_def IH [unfolded blank_def])
qed simp

subsection \<open>One group of four characters\<close>

lemma shift_in:
  fixes x :: u32 and v :: u8
  shows "unat (add_digit x v) = (unat x * 64 + unat v mod 64) mod 2 ^ 32"
proof -
  have m: "(ucast v AND 0x3F :: u32) = take_bit 6 (ucast v)"
    by (simp only: take_bit_eq_mask mask_eq_exp_minus_1) simp
  have "push_bit 6 x AND take_bit 6 (ucast v) = 0"
    by (rule bit_eqI) (auto simp: bit_simps)
  then have "push_bit 6 x OR take_bit 6 (ucast v) = push_bit 6 x + take_bit 6 (ucast v)"
    by (simp add: disjunctive_add_eq_or)
  moreover have "unat (take_bit 6 (ucast v :: u32)) = unat v mod 64"
    by (simp only: unsigned_take_bit_eq) (simp add: take_bit_eq_mod)
  moreover have "unat (push_bit 6 x) = unat x * 64 mod 2 ^ 32"
    by (simp only: unsigned_push_bit_eq) (simp add: push_bit_eq_mult take_bit_eq_mod)
  ultimately show ?thesis unfolding add_digit_def m by (simp add: unat_word_ariths mod_simps)
qed

lemma quad_value:
  shows "unat (add_digit (add_digit (add_digit (add_digit x v1) v2) v3) v4) mod 2 ^ 24
    = ((unat v1 mod 64 * 64 + unat v2 mod 64) * 64 + unat v3 mod 64) * 64 + unat v4 mod 64"
proof -
  have "(m mod 2 ^ 32 * 64 + v) mod 2 ^ 32 = (m * 64 + v) mod 2 ^ 32" for m v :: nat
    by (metis mod_add_left_eq mod_mult_left_eq)
  then have "unat (add_digit (add_digit (add_digit (add_digit x v1) v2) v3) v4)
      = ((((unat x * 64 + unat v1 mod 64) * 64 + unat v2 mod 64) * 64 + unat v3 mod 64) * 64 + unat v4 mod 64) mod 2 ^ 32"
    unfolding shift_in by simp
  then have "unat (add_digit (add_digit (add_digit (add_digit x v1) v2) v3) v4) mod 2 ^ 24
      = ((((unat x * 64 + unat v1 mod 64) * 64 + unat v2 mod 64) * 64 + unat v3 mod 64) * 64 + unat v4 mod 64) mod 2 ^ 24"
    by (simp add: mod_mod_cancel)
  also have "\<dots> = (((unat v1 mod 64 * 64 + unat v2 mod 64) * 64 + unat v3 mod 64) * 64 + unat v4 mod 64) mod 2 ^ 24"
  proof -
    have "((((unat x * 64 + unat v1 mod 64) * 64 + unat v2 mod 64) * 64 + unat v3 mod 64) * 64 + unat v4 mod 64)
      = unat x * 2 ^ 24 + (((unat v1 mod 64 * 64 + unat v2 mod 64) * 64 + unat v3 mod 64) * 64 + unat v4 mod 64)" by simp
    then show ?thesis by (simp only: mod_mult_self3)
  qed
  also have "\<dots> = ((unat v1 mod 64 * 64 + unat v2 mod 64) * 64 + unat v3 mod 64) * 64 + unat v4 mod 64"
  proof (rule mod_less)
    have "((p * 64 + q) * 64 + r) * 64 + s < 16777216" if "p < 64" "q < 64" "r < 64" "s < 64" for p q r s :: nat
    proof -
      have "p * 64 + q \<le> 4095" using that by simp
      then have "(p * 64 + q) * 64 + r \<le> 262143" using that by simp
      then show ?thesis using that by simp
    qed
    then have "((unat v1 mod 64 * 64 + unat v2 mod 64) * 64 + unat v3 mod 64) * 64 + unat v4 mod 64 < 16777216" by simp
    then show "((unat v1 mod 64 * 64 + unat v2 mod 64) * 64 + unat v3 mod 64) * 64 + unat v4 mod 64 < 2 ^ 24" by simp
  qed
  finally show ?thesis .
qed

text \<open>The three bytes of a 24-bit group.\<close>

lemma group_bytes:
  assumes "unat (x :: u32) mod 2 ^ 24 = V"
  shows "unat (ucast (drop_bit 16 x) :: u8) = V div 65536" and "unat (ucast (drop_bit 8 x) :: u8) = V div 256 mod 256"
    and "unat (ucast x :: u8) = V mod 256"
proof -
  have "unat (ucast (drop_bit k x) :: u8) = (unat x mod 2 ^ 24) div 2 ^ k mod 256" if "k \<le> 16" for k
  proof -
    have "unat (ucast (drop_bit k x) :: u8) = unat x div 2 ^ k mod 2 ^ 8"
      by (simp only: unat_ucast_mod unat_drop_bit_eq) (simp add: drop_bit_eq_div)
    also have "\<dots> = (unat x mod 2 ^ (24 - k + k)) div 2 ^ k mod 2 ^ 8"
    proof -
      have "unat x mod 2 ^ (24 - k + k) div 2 ^ k = unat x div 2 ^ k mod 2 ^ (24 - k)"
        by (simp add: power_add mod_mult2_eq mult.commute)
      moreover have "unat x div 2 ^ k mod 2 ^ (24 - k) mod 2 ^ 8 = unat x div 2 ^ k mod 2 ^ 8"
        using that by (intro mod_mod_cancel le_imp_power_dvd) simp
      ultimately show ?thesis by simp
    qed
    finally show ?thesis using that by simp
  qed
  from this [of 16] this [of 8] this [of 0] assms
  show "unat (ucast (drop_bit 16 x) :: u8) = V div 65536" "unat (ucast (drop_bit 8 x) :: u8) = V div 256 mod 256"
    "unat (ucast x :: u8) = V mod 256"
    by (auto simp: less_mult_imp_div_less)
qed

lemma decode_step:
  assumes "\<not> blank c" and "load base64_dec_map (unat c) = Some v" and "n \<noteq> 3"
  shows "decode_loop o1 (c # src) (Suc i) j n x = decode_loop o1 src i (j - (if v = 64 then 1 else 0)) (Suc n) (add_digit x v)"
  using assms by (simp add: blank_def Let_def)

lemma decode_quad:
  assumes "\<not> blank c1" "\<not> blank c2" "\<not> blank c3" "\<not> blank c4" "load base64_dec_map (unat c1) = Some v1"
    "load base64_dec_map (unat c2) = Some v2" "load base64_dec_map (unat c3) = Some v3" "load base64_dec_map (unat c4) = Some v4"
    and "v1 \<noteq> 64" and "v2 \<noteq> 64"
  obtains x1 where "unat x1 mod 2 ^ 24 = ((unat v1 mod 64 * 64 + unat v2 mod 64) * 64 + unat v3 mod 64) * 64 + unat v4 mod 64"
    and "decode_loop o1 (c1 # c2 # c3 # c4 # src) (Suc (Suc (Suc (Suc i)))) j 0 x =
      (let j = j - (if v3 = 64 then 1 else 0) - (if v4 = 64 then 1 else 0)
       in do { o1 \<leftarrow> (if 0 < j then put o1 (ucast (drop_bit 16 x1)) else Some o1);
               o1 \<leftarrow> (if 1 < j then put o1 (ucast (drop_bit 8 x1)) else Some o1);
               o1 \<leftarrow> (if 2 < j then put o1 (ucast x1) else Some o1);
               decode_loop o1 src i j 0 x1 })"
proof (rule that [OF quad_value])
  let ?x = "add_digit (add_digit (add_digit x v1) v2) v3" and ?j = "j - (if v3 = 64 then 1 else 0)"
  have "decode_loop o1 (c1 # c2 # c3 # c4 # src) (Suc (Suc (Suc (Suc i)))) j 0 x
      = decode_loop o1 (c4 # src) (Suc i) ?j (Suc (Suc (Suc 0))) ?x"
    using assms(9,10) by (simp only: decode_step [OF assms(1,5)] decode_step [OF assms(2,6)] decode_step [OF assms(3,7)] zero_neq_numeral
        if_False diff_zero numeral_3_eq_3 nat.distinct nat.inject not_False_eq_True)
  then show "decode_loop o1 (c1 # c2 # c3 # c4 # src) (Suc (Suc (Suc (Suc i)))) j 0 x =
      (let j = j - (if v3 = 64 then 1 else 0) - (if v4 = 64 then 1 else 0)
       in do { o1 \<leftarrow> (if 0 < j then put o1 (ucast (drop_bit 16 (add_digit ?x v4))) else Some o1);
               o1 \<leftarrow> (if 1 < j then put o1 (ucast (drop_bit 8 (add_digit ?x v4))) else Some o1);
               o1 \<leftarrow> (if 2 < j then put o1 (ucast (add_digit ?x v4)) else Some o1);
               decode_loop o1 src i j 0 (add_digit ?x v4) })"
    using assms(4,8) by (simp add: blank_def Let_def)
qed

subsection \<open>What the first pass accepts\<close>

definition b64_char :: "u8 \<Rightarrow> bool" where
  "b64_char c \<longleftrightarrow> unat c < 128 \<and> base64_dec_map ! unat c < 64 \<and> \<not> blank c \<and> c \<noteq> 61"

text \<open>The characters that count: digits, then at most two signs of padding.\<close>

definition b64_sig :: "u8 list \<Rightarrow> nat \<Rightarrow> u32 \<Rightarrow> bool" where
  "b64_sig s n j \<longleftrightarrow> n = length s \<and> unat j \<le> 2 \<and> (\<exists>cs. s = cs @ replicate (unat j) 61 \<and> list_all b64_char cs)"

definition sig :: "u8 list \<Rightarrow> nat \<Rightarrow> u8 list" where
  "sig src i = filter (\<lambda>c. \<not> blank c) (take i src)"

lemma sig_0 [simp]: "sig src 0 = []"
  by (simp add: sig_def)

lemma sig_Suc: "i < length src \<Longrightarrow> sig src (Suc i) = sig src i @ (if blank (src ! i) then [] else [src ! i])"
  by (simp add: sig_def take_Suc_conv_app_nth)

lemma dec_table_values: "list_all (\<lambda>i. base64_dec_map ! i = 127 \<or> base64_dec_map ! i < 64 \<or> i = 61) [0..<128]"
  by code_simp

lemma dec_value:
  assumes "unat c < 128" and "base64_dec_map ! unat c \<noteq> 127" and "c \<noteq> 61" and "\<not> blank c"
  shows "b64_char c"
proof -
  have "unat c \<noteq> 61" using assms(3) by (auto simp: word_unat_eq_iff)
  then show ?thesis using dec_table_values assms by (auto simp: list_all_iff b64_char_def)
qed

lemma skip_spaces_some:
  assumes "slen \<le> length src" and "i \<le> slen"
  shows "\<exists>k. skip_spaces src slen i = Some k \<and> i \<le> k \<and> k \<le> slen \<and> sig src k = sig src i"
  using assms
proof (induction "slen - i" arbitrary: i)
  case 0
  then show ?case by (simp add: skip_spaces.simps)
next
  case (Suc n)
  then have i: "i < slen" "i < length src" by simp_all
  show ?case
  proof (cases "src ! i = 32")
    case True
    have "\<exists>k. skip_spaces src slen (Suc i) = Some k \<and> Suc i \<le> k \<and> k \<le> slen \<and> sig src k = sig src (Suc i)"
      using Suc by simp
    then show ?thesis using True i by (subst skip_spaces.simps) (auto simp: load_in sig_Suc blank_def)
  next
    case False
    then show ?thesis using i by (subst skip_spaces.simps) (simp add: load_in)
  qed
qed

lemma check_char_sig:
  assumes "slen \<le> length src" and "k < slen" and "b64_sig (sig src k) n j"
  shows "\<exists>r. check_char src slen sp k n j = Some r
    \<and> (\<forall>n1 j1. r = Inr (n1, j1) \<longrightarrow> b64_sig (sig src (Suc k)) n1 j1)"
proof -
  let ?c = "src ! k"
  have k: "k < length src" using assms by simp
  obtain cs where j: "unat j \<le> 2" "n = length (sig src k)" "sig src k = cs @ replicate (unat j) 61" "list_all b64_char cs"
    using assms(3) by (auto simp: b64_sig_def)
  have j1: "unat (j + 1) = Suc (unat j)" using j(1) by (simp add: unat_word_ariths)
  have two: "2 < j + 1 \<longleftrightarrow> 2 < Suc (unat j)" by (simp add: word_less_nat_alt j1)
  have crlf: "\<exists>b. (if 2 \<le> slen - k \<and> ?c = 13 then do { d \<leftarrow> load src (Suc k); Some (d = 10) } else Some False) = Some b
      \<and> (b \<longrightarrow> ?c = 13)"
    using assms(1) by (auto simp: load_in)
  then obtain b where b: "(if 2 \<le> slen - k \<and> ?c = 13 then do { d \<leftarrow> load src (Suc k); Some (d = 10) } else Some False) = Some b"
    "b \<longrightarrow> ?c = 13" by blast
  show ?thesis
  proof (cases "b \<or> ?c = 10")
    case True
    then have "blank ?c" using b(2) by (auto simp: blank_def)
    then show ?thesis using True assms(3) k
      by (simp add: check_char_def load_in b(1) [simplified] sig_Suc del: One_nat_def)
  next
    case False
    then have chk: "check_char src slen sp k n j = (if sp then Some (Inl MBEDTLS_ERR_BASE64_INVALID_CHARACTER)
      else let j1 = if ?c = 61 then j + 1 else j
        in if ?c = 61 \<and> 2 < j1 \<or> 127 < ?c then Some (Inl MBEDTLS_ERR_BASE64_INVALID_CHARACTER)
        else do { v \<leftarrow> load base64_dec_map (unat ?c);
          if v = 127 \<or> (v < 64 \<and> j1 \<noteq> 0) then Some (Inl MBEDTLS_ERR_BASE64_INVALID_CHARACTER)
          else Some (Inr (Suc n, j1)) })"
      using k by (simp add: check_char_def load_in b(1) [simplified] Let_def)
    consider "sp" | "127 < ?c" | "\<not> sp" "unat ?c < 128" "?c = 61" | "\<not> sp" "unat ?c < 128" "?c \<noteq> 61"
      by (cases "127 < ?c"; cases sp; cases "?c = 61") (simp_all add: word_less_nat_alt)
    then show ?thesis
    proof cases
      case 3
      moreover have "base64_dec_map ! 61 = 64" by (simp add: base64_dec_map_def)
      moreover have "replicate (unat j) (61 :: u8) @ [61] = replicate (Suc (unat j)) 61"
        by (simp add: replicate_append_same)
      ultimately show ?thesis
        using chk j k by (auto simp: Let_def load_in two b64_sig_def j1 sig_Suc blank_def)
    next
      case 4
      then have ld: "load base64_dec_map (unat ?c) = Some (base64_dec_map ! unat ?c)" "\<not> 127 < ?c"
        by (simp_all add: load_in word_less_nat_alt)
      show ?thesis
      proof (cases "base64_dec_map ! unat ?c = 127 \<or> blank ?c")
        case t: True
        then have "base64_dec_map ! unat ?c = 127"
          using False by (auto simp: blank_def base64_dec_map_def)
        then show ?thesis using chk 4 ld by (simp add: Let_def)
      next
        case f: False
        then have c: "b64_char ?c" using dec_value 4 by simp
        then show ?thesis using chk 4 ld f k j
          by (auto simp: Let_def b64_char_def b64_sig_def sig_Suc)
      qed
    qed (use chk in \<open>simp_all add: Let_def\<close>)
  qed
qed

lemma check_loop_sig:
  assumes "slen \<le> length src" and "i \<le> slen" and "b64_sig (sig src i) n j"
  shows "\<exists>r. check_loop src slen i n j = Some r \<and> (\<forall>n1 j1. r = Inr (n1, j1) \<longrightarrow> b64_sig (sig src slen) n1 j1)"
  using assms(2,3)
proof (induction "slen - i" arbitrary: i n j rule: less_induct)
  case less
  obtain k where k: "skip_spaces src slen i = Some k" "i \<le> k" "k \<le> slen" "sig src k = sig src i"
    using skip_spaces_some [OF assms(1) less.prems(1)] by blast
  show ?case
  proof (cases "k < slen")
    case True
    then have i: "i < slen" using k(2) by simp
    have "b64_sig (sig src k) n j" using less.prems(2) k(4) by simp
    then obtain r where r: "check_char src slen (i < k) k n j = Some r"
      "\<forall>n1 j1. r = Inr (n1, j1) \<longrightarrow> b64_sig (sig src (Suc k)) n1 j1"
      using check_char_sig [OF assms(1) True] by blast
    show ?thesis
    proof (cases r)
      case (Inl e)
      then show ?thesis using r(1) k i True by (subst check_loop.simps) simp
    next
      case (Inr nj)
      obtain n1 j1 where nj: "r = Inr (n1, j1)" using Inr by (cases nj) simp
      have loop: "check_loop src slen i n j = check_loop src slen (Suc k) n1 j1"
        using r(1) k i True nj by (subst check_loop.simps) simp
      have "slen - Suc k < slen - i" "Suc k \<le> slen" using True k(2) by simp_all
      from less.hyps [OF this] show ?thesis unfolding loop using r(2) nj by blast
    qed
  next
    case False
    then have ks: "k = slen" using k(3) by simp
    then have "check_loop src slen i n j = Some (Inr (n, j))"
      using k by (subst check_loop.simps) auto
    then show ?thesis using less.prems(2) k(4) ks by simp
  qed
qed

lemma check_char_error: "check_char src slen sp k n j = Some (Inl e) \<Longrightarrow> e = MBEDTLS_ERR_BASE64_INVALID_CHARACTER"
  by (auto simp: check_char_def Let_def split: if_splits Option.bind_splits)

lemma check_loop_error: "check_loop src slen i n j = Some (Inl e) \<Longrightarrow> e = MBEDTLS_ERR_BASE64_INVALID_CHARACTER"
proof (induction src slen i n j rule: check_loop.induct)
  case (1 src slen i n j)
  from 1(2) show ?case
    by (subst (asm) check_loop.simps)
      (auto split: if_splits option.splits sum.splits prod.splits dest: check_char_error intro: 1(1))
qed

subsection \<open>The second pass stays in the destination\<close>

lemma b64_char_load: "b64_char c \<Longrightarrow> \<exists>v. load base64_dec_map (unat c) = Some v \<and> v < 64 \<and> v \<noteq> 64"
  by (auto simp: b64_char_def load_in)

lemma pad_load: "load base64_dec_map (unat (61 :: u8)) = Some 64" "\<not> blank 61"
  by (simp_all add: load_def base64_dec_map_def blank_def)

lemma decode_loop_short:
  assumes "\<forall>c \<in> set s. b64_char c \<or> c = 61" and "n + length s < 4"
  shows "decode_loop o1 s (length s) j n x = Some o1"
  using assms
proof (induction s arbitrary: j n x)
  case (Cons c s)
  have "\<exists>v. load base64_dec_map (unat c) = Some v \<and> \<not> blank c"
  proof (cases "c = 61")
    case False
    then have "b64_char c" using Cons.prems(1) by simp
    then show ?thesis using b64_char_load by (auto simp: b64_char_def)
  qed (use pad_load in auto)
  then obtain v where "load base64_dec_map (unat c) = Some v" "\<not> blank c" by blast
  then show ?case using Cons by (simp add: decode_step)
qed simp

lemma decode_loop_bounds:
  assumes "list_all b64_char cs" and "p \<le> 2" and "length out + ((3 * (length cs + p) + 3) div 4 - p) \<le> length d"
  shows "\<exists>bs. decode_loop (behind out d) (cs @ replicate p 61) (length cs + p) 3 0 x = Some (behind (out @ bs) d)
    \<and> length bs \<le> (3 * (length cs + p) + 3) div 4 - p"
  using assms
proof (induction "length cs" arbitrary: cs out x rule: less_induct)
  case less
  show ?case
  proof (cases "4 \<le> length cs")
    case True
    then obtain c1 c2 c3 c4 cs1 where cs: "cs = c1 # c2 # c3 # c4 # cs1"
      by (auto simp: Suc_le_length_iff numeral_eq_Suc)
    obtain v1 v2 v3 v4 where v: "load base64_dec_map (unat c1) = Some v1" "load base64_dec_map (unat c2) = Some v2"
      "load base64_dec_map (unat c3) = Some v3" "load base64_dec_map (unat c4) = Some v4"
      "v1 \<noteq> 64" "v2 \<noteq> 64" "v3 \<noteq> 64" "v4 \<noteq> 64"
      using less.prems(1) b64_char_load [of c1] b64_char_load [of c2] b64_char_load [of c3] b64_char_load [of c4]
      by (auto simp: cs)
    have nb: "\<not> blank c1" "\<not> blank c2" "\<not> blank c3" "\<not> blank c4"
      using less.prems(1) by (simp_all add: cs b64_char_def)
    obtain x1 where loop: "decode_loop (behind out d) (c1 # c2 # c3 # c4 # cs1 @ replicate p 61)
        (Suc (Suc (Suc (Suc (length cs1 + p))))) 3 0 x =
      (let j = 3 - (if v3 = 64 then 1 else 0) - (if v4 = 64 then 1 else 0)
       in do { o1 \<leftarrow> (if 0 < j then put (behind out d) (ucast (drop_bit 16 x1)) else Some (behind out d));
               o1 \<leftarrow> (if 1 < j then put o1 (ucast (drop_bit 8 x1)) else Some o1);
               o1 \<leftarrow> (if 2 < j then put o1 (ucast x1) else Some o1);
               decode_loop o1 (cs1 @ replicate p 61) (length cs1 + p) j 0 x1 })"
      by (rule decode_quad [OF nb v(1-6)])
    let ?o = "out @ [ucast (drop_bit 16 x1), ucast (drop_bit 8 x1), ucast x1]"
    have room: "length out + 3 + ((3 * (length cs1 + p) + 3) div 4 - p) \<le> length d"
      "(3 * (length cs1 + p) + 3) div 4 - p + 3 = (3 * (length cs + p) + 3) div 4 - p"
      using less.prems(2,3) cs by simp_all
    have "decode_loop (behind out d) (cs @ replicate p 61) (length cs + p) 3 0 x
      = decode_loop (behind ?o d) (cs1 @ replicate p 61) (length cs1 + p) 3 0 x1"
      using loop v(7,8) room(1) by (simp add: cs put_out)
    moreover have "\<exists>bs. decode_loop (behind ?o d) (cs1 @ replicate p 61) (length cs1 + p) 3 0 x1
        = Some (behind (?o @ bs) d) \<and> length bs \<le> (3 * (length cs1 + p) + 3) div 4 - p"
      using less.prems(1,2) room(1) by (intro less.hyps) (simp_all add: cs)
    then obtain bs where bs: "decode_loop (behind ?o d) (cs1 @ replicate p 61) (length cs1 + p) 3 0 x1
        = Some (behind (?o @ bs) d)" "length bs \<le> (3 * (length cs1 + p) + 3) div 4 - p" by blast
    ultimately show ?thesis using room(2)
      by (intro exI [of _ "[ucast (drop_bit 16 x1), ucast (drop_bit 8 x1), ucast x1] @ bs"]) simp
  next
    case False
    show ?thesis
    proof (cases "length cs + p < 4")
      case True
      have "\<forall>c \<in> set (cs @ replicate p 61). b64_char c \<or> c = 61" using less.prems(1) by (auto simp: list_all_iff)
      from decode_loop_short [OF this, of 0 "behind out d" 3 x] True show ?thesis
        by (intro exI [of _ "[]"]) simp
    next
      case long: False
      then obtain c1 c2 cs1 where cs: "cs = c1 # c2 # cs1" and cs1: "length cs1 \<le> 1" "2 \<le> length cs1 + p"
        using False less.prems(2) by (cases cs; cases "tl cs") auto
      obtain v1 v2 where v: "load base64_dec_map (unat c1) = Some v1" "load base64_dec_map (unat c2) = Some v2"
        "v1 \<noteq> 64" "v2 \<noteq> 64" and nb: "\<not> blank c1" "\<not> blank c2"
        using less.prems(1) b64_char_load [of c1] b64_char_load [of c2] by (auto simp: cs b64_char_def)
      show ?thesis
      proof (cases cs1)
        case Nil
        then have p: "p = 2" using cs1 less.prems(2) by simp
        obtain x1 where "decode_loop (behind out d) (c1 # c2 # 61 # 61 # []) (Suc (Suc (Suc (Suc 0)))) 3 0 x =
          (let j = 3 - (if (64 :: u8) = 64 then 1 else 0) - (if (64 :: u8) = 64 then 1 else 0)
           in do { o1 \<leftarrow> (if 0 < j then put (behind out d) (ucast (drop_bit 16 x1)) else Some (behind out d));
               o1 \<leftarrow> (if 1 < j then put o1 (ucast (drop_bit 8 x1)) else Some o1);
               o1 \<leftarrow> (if 2 < j then put o1 (ucast x1) else Some o1);
               decode_loop o1 [] 0 j 0 x1 })"
          by (rule decode_quad [OF nb pad_load(2) pad_load(2) v(1,2) pad_load(1) pad_load(1) v(3,4)])
        moreover have "length out < length d" using less.prems(3) by (simp add: cs Nil p)
        ultimately show ?thesis
          by (intro exI [of _ "[ucast (drop_bit 16 x1)]"]) (simp add: cs Nil p put_out numeral_2_eq_2)
      next
        case (Cons c3 cs2)
        then have [simp]: "cs2 = []" using cs1 by simp
        have p: "p = 1 \<or> p = 2" using cs1 Cons less.prems(2) by auto
        obtain v3 where v3: "load base64_dec_map (unat c3) = Some v3" "v3 \<noteq> 64" "\<not> blank c3"
          using less.prems(1) b64_char_load [of c3] by (auto simp: cs Cons b64_char_def)
        obtain x1 where "decode_loop (behind out d) (c1 # c2 # c3 # 61 # replicate (p - 1) 61) (Suc (Suc (Suc (Suc (p - 1))))) 3 0 x =
          (let j = 3 - (if v3 = 64 then 1 else 0) - (if (64 :: u8) = 64 then 1 else 0)
           in do { o1 \<leftarrow> (if 0 < j then put (behind out d) (ucast (drop_bit 16 x1)) else Some (behind out d));
               o1 \<leftarrow> (if 1 < j then put o1 (ucast (drop_bit 8 x1)) else Some o1);
               o1 \<leftarrow> (if 2 < j then put o1 (ucast x1) else Some o1);
               decode_loop o1 (replicate (p - 1) 61) (p - 1) j 0 x1 })"
          by (rule decode_quad [OF nb v3(3) pad_load(2) v(1,2) v3(1) pad_load(1) v(3,4)])
        moreover have "length out + 1 < length d" using less.prems(3) p by (auto simp: cs Cons)
        moreover have "decode_loop o1 (replicate (p - 1) 61) (p - 1) j 0 x1 = Some o1" for o1 j
          using decode_loop_short [of "replicate (p - 1) 61" 0 o1 j x1] p by auto
        moreover have "cs @ replicate p 61 = c1 # c2 # c3 # 61 # replicate (p - 1) 61" using p by (auto simp: cs Cons numeral_2_eq_2)
        moreover have "length cs + p = Suc (Suc (Suc (Suc (p - 1))))" using p by (auto simp: cs Cons)
        moreover have "2 \<le> (3 * (length cs + p) + 3) div 4 - p" using p by (auto simp: cs Cons)
        ultimately show ?thesis
          using v3(2) by (intro exI [of _ "[ucast (drop_bit 16 x1), ucast (drop_bit 8 x1)]"]) (simp add: put_out)
      qed
    qed
  qed
qed

lemma decoded_size:
  fixes n p :: nat
  assumes "n < 2 ^ 32" and "p \<le> 2" and "p \<le> n"
  shows "(6 * (n div 8) + (6 * (n mod 8) + 7) div 8 + 2 ^ 32 - p) mod 2 ^ 32 = (3 * n + 3) div 4 - p"
proof -
  have "6 * (n div 8) + (6 * (n mod 8) + 7) div 8 = (6 * (n div 8) * 8 + (6 * (n mod 8) + 7)) div 8" by simp
  also have "6 * (n div 8) * 8 + (6 * (n mod 8) + 7) = 6 * n + 7"
    by presburger
  also have "(6 * n + 7) div 8 = (3 * n + 3) div 4" by presburger
  finally have *: "6 * (n div 8) + (6 * (n mod 8) + 7) div 8 = (3 * n + 3) div 4" .
  have "p \<le> (3 * n + 3) div 4" "(3 * n + 3) div 4 < 2 ^ 32" using assms by auto
  then show ?thesis unfolding * by (simp add: mod_if)
qed

subsection \<open>Decoding what the encoder wrote\<close>

lemma check_loop_valid:
  assumes "src = cs @ replicate p 61 @ rest" and "list_all b64_char cs" and "p \<le> 2" and "slen = length cs + p" and "i \<le> slen"
  shows "check_loop src slen i i (word_of_nat (i - length cs)) = Some (Inr (slen, word_of_nat p))"
  using assms(5)
proof (induction "slen - i" arbitrary: i)
  case 0
  then show ?case using assms(4) by (subst check_loop.simps) simp
next
  case (Suc m)
  then have i: "i < slen" by simp
  let ?c = "src ! i"
  have ci: "i < length src" using i assms(1,4) by simp
  have c: "if i < length cs then b64_char ?c else ?c = 61"
    using assms(1,2) i assms(4) by (auto simp: nth_append list_all_iff)
  then have ld: "\<not> blank ?c" "\<not> 127 < ?c" "load base64_dec_map (unat ?c) \<noteq> None"
    using pad_load b64_char_load by (auto simp: b64_char_def word_less_nat_alt split: if_splits)
  have skip: "skip_spaces src slen i = Some i"
    using ld(1) ci i by (subst skip_spaces.simps) (simp add: load_in blank_def)
  have "check_char src slen False i i (word_of_nat (i - length cs)) = Some (Inr (Suc i, word_of_nat (Suc i - length cs)))"
  proof (cases "i < length cs")
    case True
    then have "b64_char ?c" using c by simp
    then show ?thesis using True ld ci
      by (auto simp: check_char_def load_in blank_def b64_char_def Let_def)
  next
    case False
    then have d: "?c = 61" "i - length cs < 2" "Suc i - length cs = Suc (i - length cs)"
      using c i assms(3,4) by auto
    then have "word_of_nat (i - length cs) + 1 = (word_of_nat (Suc i - length cs) :: u32)" by simp
    moreover have "Suc i - length cs = 1 \<or> Suc i - length cs = 2" using d by auto
    then have "\<not> 2 < (word_of_nat (Suc i - length cs) :: u32)" by (elim disjE) (simp_all only:, simp_all)
    ultimately show ?thesis using d(1) pad_load(1) ci by (auto simp: check_char_def load_in blank_def Let_def)
  qed
  then have "check_loop src slen i i (word_of_nat (i - length cs)) = check_loop src slen (Suc i) (Suc i) (word_of_nat (Suc i - length cs))"
    using skip i by (subst check_loop.simps) simp
  then show ?case using Suc by simp
qed

lemma b64_text_shape:
  obtains cs p where "b64_text bs = cs @ replicate p 61" and "list_all b64_char cs" and "p \<le> 2"
    and "(3 * (length cs + p) + 3) div 4 - p = length bs"
proof -
  have dig: "b64_char (b64_digit v)" for v
    using enc_alphabet [OF b64_digit_alphabet [of v]] by (auto simp: b64_char_def blank_def)
  have "\<exists>cs p. b64_text bs = cs @ replicate p 61 \<and> list_all b64_char cs \<and> p \<le> 2 \<and> (3 * (length cs + p) + 3) div 4 - p = length bs"
  proof (induction bs rule: b64_text.induct)
    case 1
    then show ?case by (intro exI [of _ "[]"] exI [of _ 0]) simp
  next
    case (2 a)
    then show ?case
      by (intro exI [of _ "[b64_digit (unat a div 4), b64_digit (unat a * 16)]"] exI [of _ 2]) (simp add: dig numeral_2_eq_2)
  next
    case (3 a b)
    then show ?case
      by (intro exI [of _ "take 3 (b64_text [a, b])"] exI [of _ 1]) (simp add: dig Let_def)
  next
    case (4 a b c bs)
    then obtain cs p where IH: "b64_text bs = cs @ replicate p 61" "list_all b64_char cs" "p \<le> 2"
      "(3 * (length cs + p) + 3) div 4 - p = length bs" by blast
    have "p \<le> (3 * (length cs + p) + 3) div 4" using IH(3) by (cases p; cases "p - 1") auto
    then show ?case using IH
      by (intro exI [of _ "take 4 (b64_text (a # b # c # bs)) @ cs"] exI [of _ p]) (auto simp: dig Let_def)
  qed
  then show thesis using that by blast
qed

text \<open>The bytes a group of digits stands for.\<close>

lemma digit_value: "unat (word_of_nat (v mod 64) :: u8) mod 64 = v mod 64" "(word_of_nat (v mod 64) :: u8) \<noteq> 64"
proof -
  have v: "unat (word_of_nat (v mod 64) :: u8) = v mod 64"
    using mod_less_divisor [of 64 v] by (simp add: unat_of_nat)
  then show "unat (word_of_nat (v mod 64) :: u8) mod 64 = v mod 64" by simp
  show "(word_of_nat (v mod 64) :: u8) \<noteq> 64" using v by (auto simp: word_unat_eq_iff)
qed

lemma digits_of_number:
  fixes V :: nat
  assumes "V < 2 ^ 24"
  shows "((V div 262144 mod 64 * 64 + V div 4096 mod 64) * 64 + V div 64 mod 64) * 64 + V mod 64 = V"
proof -
  have "V div 64 div 64 = V div 4096" "V div 4096 div 64 = V div 262144" by (simp_all add: div_mult2_eq [symmetric])
  then have "V = V div 64 * 64 + V mod 64" "V div 64 = V div 4096 * 64 + V div 64 mod 64"
    "V div 4096 = V div 262144 * 64 + V div 4096 mod 64"
    using div_mult_mod_eq [of V 64] div_mult_mod_eq [of "V div 64" 64] div_mult_mod_eq [of "V div 4096" 64] by simp_all
  moreover have "V div 262144 mod 64 = V div 262144" using assms by simp
  ultimately show ?thesis by simp
qed

lemma u8_number: "(unat (a :: u8) * 256 + unat (b :: u8)) * 256 + unat (c :: u8) < 2 ^ 24"
    "((unat a * 256 + unat b) * 256 + unat c) div 65536 = unat a"
    "((unat a * 256 + unat b) * 256 + unat c) div 256 mod 256 = unat b"
    "((unat a * 256 + unat b) * 256 + unat c) mod 256 = unat c"
proof -
  have n: "unat a < 256" "unat b < 256" "unat c < 256" by simp_all
  have "(p * 256 + q) * 256 + r < 16777216" if "p < 256" "q < 256" "r < 256" for p q r :: nat
  proof -
    have "p * 256 + q \<le> 65535" using that by simp
    then show ?thesis using that by simp
  qed
  from this [OF n] show "(unat a * 256 + unat b) * 256 + unat c < 2 ^ 24" by simp
  have d: "((unat a * 256 + unat b) * 256 + unat c) div 256 = unat a * 256 + unat b"
    using n by (simp only: div_mult_self3 [of 256, simplified] div_less)
  have "((unat a * 256 + unat b) * 256 + unat c) div 65536 = ((unat a * 256 + unat b) * 256 + unat c) div 256 div 256"
    by (simp only: div_mult2_eq [symmetric]) simp
  also have "\<dots> = unat a" unfolding d using n by (simp only: div_mult_self3 [of 256, simplified] div_less)
  finally show "((unat a * 256 + unat b) * 256 + unat c) div 65536 = unat a" .
  show "((unat a * 256 + unat b) * 256 + unat c) div 256 mod 256 = unat b"
    unfolding d using n by (simp only: mod_mult_self3 mod_less)
  show "((unat a * 256 + unat b) * 256 + unat c) mod 256 = unat c"
    using n by (simp only: mod_mult_self3 mod_less)
qed

lemma decode_digits:
  fixes a b c :: u8
  defines "V \<equiv> (unat a * 256 + unat b) * 256 + unat c"
  assumes "load base64_dec_map (unat c3) = Some v3" and "load base64_dec_map (unat c4) = Some v4" and "\<not> blank c3" and "\<not> blank c4"
    and "unat v3 mod 64 = V div 64 mod 64" and "unat v4 mod 64 = V mod 64"
  obtains x1 where "decode_loop o1 (b64_digit (V div 262144) # b64_digit (V div 4096) # c3 # c4 # src) (Suc (Suc (Suc (Suc i)))) 3 0 x =
      (let j = 3 - (if v3 = 64 then 1 else 0) - (if v4 = 64 then 1 else 0)
       in do { o1 \<leftarrow> (if 0 < j then put o1 a else Some o1);
               o1 \<leftarrow> (if 1 < j then put o1 b else Some o1);
               o1 \<leftarrow> (if 2 < j then put o1 c else Some o1);
               decode_loop o1 src i j 0 x1 })"
proof -
  have nb: "\<not> blank (b64_digit v)" for v
    using enc_alphabet(3) [OF b64_digit_alphabet [of v]] by (auto simp: blank_def)
  obtain x1 where x1: "unat x1 mod 2 ^ 24 = ((unat (word_of_nat (V div 262144 mod 64) :: u8) mod 64 * 64
      + unat (word_of_nat (V div 4096 mod 64) :: u8) mod 64) * 64 + unat v3 mod 64) * 64 + unat v4 mod 64"
    and loop: "decode_loop o1 (b64_digit (V div 262144) # b64_digit (V div 4096) # c3 # c4 # src) (Suc (Suc (Suc (Suc i)))) 3 0 x =
      (let j = 3 - (if v3 = 64 then 1 else 0) - (if v4 = 64 then 1 else 0)
       in do { o1 \<leftarrow> (if 0 < j then put o1 (ucast (drop_bit 16 x1)) else Some o1);
               o1 \<leftarrow> (if 1 < j then put o1 (ucast (drop_bit 8 x1)) else Some o1);
               o1 \<leftarrow> (if 2 < j then put o1 (ucast x1) else Some o1);
               decode_loop o1 src i j 0 x1 })"
    by (rule decode_quad [OF nb nb assms(4,5) dec_digit dec_digit assms(2,3) digit_value(2) digit_value(2)])
  have "unat x1 mod 2 ^ 24 = V"
    using digits_of_number [OF u8_number(1) [of a b c]] x1 assms(6,7) by (simp add: digit_value V_def del: power_numeral)
  from group_bytes [OF this] have "ucast (drop_bit 16 x1) = a" "ucast (drop_bit 8 x1) = b" "ucast x1 = c"
    unfolding V_def u8_number by (simp_all add: word_unat_eq_iff)
  then show thesis by (intro that [of x1]) (simp only: loop)
qed

lemma scaled_digits:
  fixes v :: nat
  shows "v * 256 div 64 = v * 4" "v * 256 div 4096 = v div 16" "v * 256 div 262144 = v div 1024" "v * 256 mod 64 = 0"
  using div_mult_self1_is_m [of 64 "v * 4"] div_mult_mult2 [of 256 v 16] div_mult_mult2 [of 256 v 1024]
    mod_mult_self2_is_0 [of "v * 4" 64] by (simp_all add: mult.commute)

lemma decode_loop_text:
  assumes "length out + length bs \<le> length d"
  shows "decode_loop (behind out d) (b64_text bs) (length (b64_text bs)) 3 0 x = Some (behind (out @ bs) d)"
  using assms
proof (induction bs arbitrary: out x rule: b64_text.induct)
  case 1
  then show ?case by simp
next
  case (2 a)
  let ?V = "(unat a * 256 + unat (0 :: u8)) * 256 + unat (0 :: u8)"
  have V: "?V = unat a * 256 * 256" by simp
  have "unat (64 :: u8) mod 64 = ?V div 64 mod 64" "unat (64 :: u8) mod 64 = ?V mod 64"
    unfolding V scaled_digits by simp_all
  from decode_digits [OF pad_load(1) pad_load(1) pad_load(2) pad_load(2) this]
  obtain x1 where "decode_loop (behind out d) (b64_digit (?V div 262144) # b64_digit (?V div 4096) # 61 # 61 # []) (Suc (Suc (Suc (Suc 0)))) 3 0 x =
      (let j = 3 - (if (64 :: u8) = 64 then 1 else 0) - (if (64 :: u8) = 64 then 1 else 0)
       in do { o1 \<leftarrow> (if 0 < j then put (behind out d) a else Some (behind out d));
               o1 \<leftarrow> (if 1 < j then put o1 0 else Some o1);
               o1 \<leftarrow> (if 2 < j then put o1 0 else Some o1);
               decode_loop o1 [] 0 j 0 x1 })" by blast
  moreover have "b64_text [a] = [b64_digit (?V div 262144), b64_digit (?V div 4096), 61, 61]"
    unfolding V scaled_digits by (simp add: mult.commute)
  ultimately show ?case using 2 by (simp only: list.size) (simp add: put_out)
next
  case (3 a b)
  let ?V = "(unat a * 256 + unat b) * 256 + unat (0 :: u8)" and ?v = "unat a * 256 + unat b"
  have V: "?V = ?v * 256" by simp
  have v3: "unat (word_of_nat (?v * 4 mod 64) :: u8) mod 64 = ?V div 64 mod 64" "unat (64 :: u8) mod 64 = ?V mod 64"
    unfolding V scaled_digits digit_value by simp_all
  have nb: "\<not> blank (b64_digit v)" for v
    using enc_alphabet(3) [OF b64_digit_alphabet [of v]] by (auto simp: blank_def)
  from decode_digits [OF dec_digit pad_load(1) nb pad_load(2) v3]
  obtain x1 where "decode_loop (behind out d) (b64_digit (?V div 262144) # b64_digit (?V div 4096) # b64_digit (?v * 4) # 61 # []) (Suc (Suc (Suc (Suc 0)))) 3 0 x =
      (let j = 3 - (if word_of_nat (?v * 4 mod 64) = (64 :: u8) then 1 else 0) - (if (64 :: u8) = 64 then 1 else 0)
       in do { o1 \<leftarrow> (if 0 < j then put (behind out d) a else Some (behind out d));
               o1 \<leftarrow> (if 1 < j then put o1 b else Some o1);
               o1 \<leftarrow> (if 2 < j then put o1 0 else Some o1);
               decode_loop o1 [] 0 j 0 x1 })" by blast
  moreover have "b64_text [a, b] = [b64_digit (?V div 262144), b64_digit (?V div 4096), b64_digit (?v * 4), 61]"
    unfolding V scaled_digits by (simp add: Let_def)
  ultimately show ?case using 3 digit_value(2) [of "?v * 4"] by (simp only: list.size) (simp add: put_out)
next
  case (4 a b c bs)
  let ?V = "(unat a * 256 + unat b) * 256 + unat c"
  have nb: "\<not> blank (b64_digit v)" for v
    using enc_alphabet(3) [OF b64_digit_alphabet [of v]] by (auto simp: blank_def)
  from decode_digits [OF dec_digit dec_digit nb nb digit_value(1) digit_value(1)]
  obtain x1 where "decode_loop (behind out d) (b64_digit (?V div 262144) # b64_digit (?V div 4096) # b64_digit (?V div 64) # b64_digit ?V # b64_text bs)
       (Suc (Suc (Suc (Suc (length (b64_text bs)))))) 3 0 x =
      (let j = 3 - (if word_of_nat (?V div 64 mod 64) = (64 :: u8) then 1 else 0) - (if word_of_nat (?V mod 64) = (64 :: u8) then 1 else 0)
       in do { o1 \<leftarrow> (if 0 < j then put (behind out d) a else Some (behind out d));
               o1 \<leftarrow> (if 1 < j then put o1 b else Some o1);
               o1 \<leftarrow> (if 2 < j then put o1 c else Some o1);
               decode_loop o1 (b64_text bs) (length (b64_text bs)) j 0 x1 })" by blast
  moreover have "b64_text (a # b # c # bs) = b64_digit (?V div 262144) # b64_digit (?V div 4096) # b64_digit (?V div 64) # b64_digit ?V # b64_text bs"
    by (simp add: Let_def)
  moreover have "decode_loop (behind (out @ [a, b, c]) d) (b64_text bs) (length (b64_text bs)) 3 0 x1 = Some (behind ((out @ [a, b, c]) @ bs) d)"
    using 4 by simp
  ultimately show ?case
    using 4(2) digit_value(2) [of "?V div 64"] digit_value(2) [of ?V] by (simp only: list.size) (simp add: put_out)
qed

lemma BASE64_Decode_text:
  assumes "length bs \<le> dlen" and "dlen \<le> length d" and "length (b64_text bs) < 2 ^ 32"
  shows "BASE64_Decode (Some d) dlen (b64_text bs @ rest) (length (b64_text bs))
    = Some (0, Some (length bs), Some (bs @ drop (length bs) d))"
proof -
  obtain cs p where shape: "b64_text bs = cs @ replicate p 61" "list_all b64_char cs" "p \<le> 2"
    "(3 * (length cs + p) + 3) div 4 - p = length bs" by (rule b64_text_shape)
  let ?n = "length (b64_text bs)"
  have n: "?n = length cs + p" using arg_cong [OF shape(1), of length] by simp
  have check: "check_loop (b64_text bs @ rest) ?n 0 0 0 = Some (Inr (?n, word_of_nat p))"
    using check_loop_valid [OF _ shape(2,3) n, of "b64_text bs @ rest" rest 0] shape(1) by simp
  have p: "unat (word_of_nat p :: u32) = p" using shape(3) by (simp add: unat_of_nat)
  have size: "(6 * (?n div 8) + (6 * (?n mod 8) + 7) div 8 + 2 ^ 32 - unat (word_of_nat p :: u32)) mod 2 ^ 32 = length bs"
    unfolding p using decoded_size [OF assms(3) shape(3)] n shape(4) by simp
  have nb: "filter (\<lambda>c. \<not> blank c) (b64_text bs) = b64_text bs"
    using shape(2) by (auto simp: shape(1) filter_id_conv list_all_iff b64_char_def blank_def)
  have loop: "decode_loop (d, 0) (b64_text bs @ rest) ?n 3 0 0 = Some (behind bs d)"
    using decode_loop_blanks [of ?n "b64_text bs @ rest" "(d, 0)" 3 0 0] nb decode_loop_text [of "[]" bs d 0] assms(1,2)
    by (simp add: behind_def)
  have "?n = 0 \<Longrightarrow> bs = []" by (induction bs rule: b64_text.induct) (simp_all add: Let_def)
  then show ?thesis
    using check loop assms(1) size unfolding BASE64_Decode_def
    by (cases "?n = 0") (simp_all add: Let_def behind_def)
qed

section \<open>Properties\<close>



text \<open>
  C13. What the encoder wrote, the decoder turns back into the same bytes, whatever follows the text in memory.
\<close>

theorem base64_roundtrip:
  assumes "length src < 2 ^ 31" and "4 * ((length src + 2) div 3) < length d" and "length src \<le> length e"
  shows "\<exists>n d1. BASE64_Encode (Some d) (length d) (src @ rest) (length src) = Some (0, n, Some d1)
    \<and> BASE64_Decode (Some e) (length e) d1 n = Some (0, Some (length src), Some (src @ drop (length src) e))"
proof (cases "src = []")
  case True
  then show ?thesis by (simp add: BASE64_Encode_def BASE64_Decode_def check_loop.simps)
next
  case False
  have len: "length (b64_text src) = 4 * ((length src + 2) div 3)"
  proof -
    have "length src div 3 + (if length src mod 3 \<noteq> 0 then 1 else 0) = (length src + 2) div 3" by presburger
    then show ?thesis by (simp add: length_b64_text)
  qed
  then have "length (b64_text src) < length d" "length (b64_text src) < 2 ^ 32" using assms(1,2) by auto
  then show ?thesis
    using BASE64_Encode_text [OF False _ _ assms(1), of d "length d" rest] BASE64_Decode_text [OF assms(3) order.refl] by simp
qed

theorem base64_roundtrip_witness:
  "\<exists>n d1. BASE64_Encode (Some (replicate 9 7)) 9 [1, 2, 3, 250] 4 = Some (0, n, Some d1)
    \<and> BASE64_Decode (Some [0, 0, 0, 0, 5]) 5 d1 n = Some (0, Some 4, Some [1, 2, 3, 250, 5])"
proof -
  have len: "length [1, 2, 3, 250 :: u8] = 4" "length (replicate 9 7 :: u8 list) = 9" "length [0, 0, 0, 0, 5 :: u8] = 5"
    and d: "drop 4 [0, 0, 0, 0, 5] = [5 :: u8]" by simp_all
  show ?thesis
    using base64_roundtrip [of "[1, 2, 3, 250]" "replicate 9 7" "[0, 0, 0, 0, 5]" "[]", unfolded len d append_Nil2] by simp
qed

text \<open>
  C14. Decoding is safe for every input, also for text that is not Base64: when the two arrays are as long as
  the sizes say, no byte outside of them is touched, and no more bytes are reported than the destination holds.
\<close>

theorem base64_decode_safe:
  assumes "slen \<le> length src" and "slen < 2 ^ 32" and "dlen \<le> length d"
  shows "\<exists>r olen d1. BASE64_Decode (Some d) dlen src slen = Some (r, olen, Some d1) \<and> length d1 = length d
    \<and> (r = 0 \<longrightarrow> (\<exists>n. olen = Some n \<and> n \<le> dlen \<and> drop n d1 = drop n d))"
proof -
  have "b64_sig (sig src 0) 0 0" by (simp add: b64_sig_def)
  then obtain r where r: "check_loop src slen 0 0 0 = Some r" "\<forall>n j. r = Inr (n, j) \<longrightarrow> b64_sig (sig src slen) n j"
    using check_loop_sig [OF assms(1), of 0 0 0] by auto
  show ?thesis
  proof (cases r)
    case (Inl e)
    have "e \<noteq> 0"
      using check_loop_error [of src slen 0 0 0] r(1) Inl by (simp add: MBEDTLS_ERR_BASE64_INVALID_CHARACTER_def)
    then show ?thesis using r(1) Inl by (simp add: BASE64_Decode_def)
  next
    case (Inr nj)
    obtain n j where nj: "nj = (n, j)" by (cases nj)
    then obtain cs where s: "sig src slen = cs @ replicate (unat j) 61" "list_all b64_char cs" "n = length cs + unat j" "unat j \<le> 2"
      using r(2) Inr by (auto simp: b64_sig_def)
    have n: "n < 2 ^ 32" "unat j \<le> n"
      using assms(2) s(3) arg_cong [OF s(1), of length] length_filter_le [of "\<lambda>c. \<not> blank c" "take slen src"] by (auto simp: sig_def)
    let ?size = "(3 * n + 3) div 4 - unat j"
    have size: "(6 * (n div 8) + (6 * (n mod 8) + 7) div 8 + 2 ^ 32 - unat j) mod 2 ^ 32 = ?size"
      by (rule decoded_size [OF n(1) s(4) n(2)])
    show ?thesis
    proof (cases "n = 0 \<or> dlen < ?size")
      case True
      then show ?thesis using r(1) Inr nj
        by (auto simp: BASE64_Decode_def Let_def size [unfolded power_numeral, simplified] MBEDTLS_ERR_BASE64_BUFFER_TOO_SMALL_def)
    next
      case False
      obtain bs where "decode_loop (behind [] d) (cs @ replicate (unat j) 61) (length cs + unat j) 3 0 0 = Some (behind bs d)"
        "length bs \<le> ?size"
        using decode_loop_bounds [OF s(2,4), of "[]" d 0] False assms(3) s(3) by auto
      moreover have "decode_loop (d, 0) src slen 3 0 0
          = decode_loop (behind [] d) (cs @ replicate (unat j) 61) (length cs + unat j) 3 0 0"
        using decode_loop_blanks [OF assms(1), of "(d, 0)" 3 0 0] s(1) by (simp add: sig_def behind_def)
      ultimately show ?thesis using False r(1) Inr nj size assms(3)
        by (auto simp: BASE64_Decode_def Let_def behind_def)
    qed
  qed
qed

text \<open>Text that is cut off, and text with padding inside.\<close>

theorem base64_decode_safe_witness:
  "(\<exists>r olen d1. BASE64_Decode (Some [1, 2]) 2 [81, 81, 61] 3 = Some (r, olen, Some d1) \<and> length d1 = length [1, 2 :: u8])
    \<and> (\<exists>r olen d1. BASE64_Decode (Some [1, 2]) 2 [81, 61, 81, 81] 4 = Some (r, olen, Some d1) \<and> length d1 = length [1, 2 :: u8])"
  using base64_decode_safe [of 3 "[81, 81, 61]" 2 "[1, 2]"] base64_decode_safe [of 4 "[81, 61, 81, 81]" 2 "[1, 2]"] by auto

end
