(* ===== verification/Hmac_Sha1.thy ===== *)
theory Hmac_Sha1
  imports Prelude
begin

unbundle bit_operations_syntax

text \<open>
  src/src/components/cloud/onenet/authorization/hmac_sha1.c: SHA-1 and HMAC-SHA1. \<open>unsigned long\<close> has 32 bits
  on the SDK's targets, and signed arithmetic wraps there, as the masks of \<open>rotl\<close> and the words of the message
  schedule rely on. The test vectors at the top of the file are not used by the code.

  \<open>sha1\<close> pads the message in place, behind its end: arrays are lists of their cells, and a write outside of
  an array is \<open>None\<close>. Lengths are natural numbers.
\<close>

section \<open>The functions of the rounds\<close>

text \<open>Beyond \<open>t = 79\<close> the functions return an uninitialised variable.\<close>

definition ft :: "nat \<Rightarrow> u32 \<Rightarrow> u32 \<Rightarrow> u32 \<Rightarrow> u32 option" where
  "ft t x y z =
     (if t < 20 then (let a = x AND y; b = NOT x AND z in Some (a XOR b))
      else if t < 40 then Some (x XOR y XOR z)
      else if t < 60 then (let a = x AND y; b = a XOR (x AND z) in Some (b XOR (y AND z)))
      else if t < 80 then Some ((x XOR y) XOR z)
      else None)"

definition k_const :: "nat \<Rightarrow> u32 option" where
  "k_const t = (if t < 20 then Some 0x5a827999 else if t < 40 then Some 0x6ed9eba1
          else if t < 60 then Some 0x8f1bbcdc else if t < 80 then Some 0xca62c1d6 else None)"

definition rotr :: "nat \<Rightarrow> u32 \<Rightarrow> u32" where
  "rotr bits a = (let c = push_bit bits 1 - 1; d = NOT c;
       e = drop_bit bits (a AND d); f = push_bit (32 - bits) (a AND c) in (e OR f) AND 0xffffffff)"

definition rotl :: "nat \<Rightarrow> u32 \<Rightarrow> u32" where
  "rotl bits a = (let c = push_bit (32 - bits) 1 - 1; d = NOT c;
       e = push_bit bits (a AND c); f = drop_bit (32 - bits) (a AND d) in (e OR f) AND 0xffffffff)"

section \<open>SHA-1\<close>

text \<open>\<open>for (i = i; i < i + n; i++) message[i] = 0\<close>\<close>

fun clear_loop :: "u8 list \<Rightarrow> nat \<Rightarrow> nat \<Rightarrow> u8 list option" where
  "clear_loop message i 0 = Some message"
| "clear_loop message i (Suc n) = do { message \<leftarrow> store message i 0; clear_loop message (Suc i) n }"

definition num_blocks :: "nat \<Rightarrow> nat" where
  "num_blocks message_length =
     (let padded_length = message_length + 8 + 1; block_remainder = padded_length mod 64
      in padded_length div 64 + (if 0 < block_remainder then 1 else 0))"

definition pad_message :: "u8 list \<Rightarrow> nat \<Rightarrow> u8 list option" where
  "pad_message message message_length =
     (let l = word_of_nat message_length * 8 :: u32; n = num_blocks message_length * 64
      in do {
        message \<leftarrow> clear_loop message message_length (n - message_length);
        message \<leftarrow> store message message_length 0x80;
        message \<leftarrow> store message (n - 1) (ucast (l AND 0xff));
        message \<leftarrow> store message (n - 2) (ucast (drop_bit 8 l AND 0xff));
        message \<leftarrow> store message (n - 3) (ucast (drop_bit 16 l AND 0xff));
        store message (n - 4) (ucast (drop_bit 24 l AND 0xff)) })"

text \<open>The first \<open>t\<close> cells of \<open>w\<close> have been written; \<open>n\<close> are left.\<close>

fun schedule_loop :: "u8 list \<Rightarrow> nat \<Rightarrow> nat \<Rightarrow> u32 list \<Rightarrow> u32 list option" where
  "schedule_loop message i 0 w = Some w"
| "schedule_loop message i (Suc n) w =
     (let t = length w in do {
        v \<leftarrow> (if t < 16 then do {
                m0 \<leftarrow> load message (i * 64 + t * 4);
                m1 \<leftarrow> load message (i * 64 + t * 4 + 1);
                m2 \<leftarrow> load message (i * 64 + t * 4 + 2);
                m3 \<leftarrow> load message (i * 64 + t * 4 + 3);
                Some (256 * 256 * 256 * ucast m0 + 256 * 256 * ucast m1 + 256 * ucast m2 + ucast m3) }
              else do {
                w3 \<leftarrow> load w (t - 3);
                w8 \<leftarrow> load w (t - 8);
                w14 \<leftarrow> load w (t - 14);
                w16 \<leftarrow> load w (t - 16);
                Some (rotl 1 (w3 XOR w8 XOR w14 XOR w16)) });
        schedule_loop message i n (w @ [v]) })"

type_synonym sha1_state = "u32 \<times> u32 \<times> u32 \<times> u32 \<times> u32"

fun round_loop :: "u32 list \<Rightarrow> nat \<Rightarrow> nat \<Rightarrow> sha1_state \<Rightarrow> sha1_state option" where
  "round_loop w t 0 s = Some s"
| "round_loop w t (Suc n) (a, b, c, d, e) = do {
     f \<leftarrow> ft t b c d;
     kt \<leftarrow> k_const t;
     wt \<leftarrow> load w t;
     let temp = (rotl 5 a + f) AND 0xffffffff;
     let temp = (temp + e) AND 0xffffffff;
     let temp = (temp + kt) AND 0xffffffff;
     let temp = (temp + wt) AND 0xffffffff;
     round_loop w (Suc t) n (temp, a, rotl 30 b, c, d) }"

fun block_loop :: "u8 list \<Rightarrow> nat \<Rightarrow> nat \<Rightarrow> sha1_state \<Rightarrow> sha1_state option" where
  "block_loop message i 0 h = Some h"
| "block_loop message i (Suc n) (h0, h1, h2, h3, h4) = do {
     w \<leftarrow> schedule_loop message i 80 [];
     (a, b, c, d, e) \<leftarrow> round_loop w 0 80 (h0, h1, h2, h3, h4);
     block_loop message (Suc i) n ((a + h0) AND 0xffffffff, (b + h1) AND 0xffffffff, (c + h2) AND 0xffffffff,
       (d + h3) AND 0xffffffff, (e + h4) AND 0xffffffff) }"

text \<open>Four of the assignments at the end.\<close>

definition store_word :: "u8 list \<Rightarrow> nat \<Rightarrow> u32 \<Rightarrow> u8 list option" where
  "store_word digest i h = do {
     digest \<leftarrow> store digest (i + 3) (ucast (h AND 0xff));
     digest \<leftarrow> store digest (i + 2) (ucast (drop_bit 8 h AND 0xff));
     digest \<leftarrow> store digest (i + 1) (ucast (drop_bit 16 h AND 0xff));
     store digest i (ucast (drop_bit 24 h AND 0xff)) }"

text \<open>The message array with its padding, and the digest.\<close>

definition sha1 :: "u8 list \<Rightarrow> nat \<Rightarrow> u8 list \<Rightarrow> (u8 list \<times> u8 list) option" where
  "sha1 message message_length digest = do {
     message \<leftarrow> pad_message message message_length;
     (h0, h1, h2, h3, h4) \<leftarrow> block_loop message 0 (num_blocks message_length)
       (0x67452301, 0xefcdab89, 0x98badcfe, 0x10325476, 0xc3d2e1f0);
     digest \<leftarrow> store_word digest 0 h0;
     digest \<leftarrow> store_word digest 4 h1;
     digest \<leftarrow> store_word digest 8 h2;
     digest \<leftarrow> store_word digest 12 h3;
     digest \<leftarrow> store_word digest 16 h4;
     Some (message, digest) }"

section \<open>HMAC\<close>

definition MAX_MESSAGE_LENGTH :: nat where
  "MAX_MESSAGE_LENGTH = 512"

text \<open>The bytes of the block that holds the key, with the key array and the digest array.\<close>

definition hmac_key :: "u8 list \<Rightarrow> nat \<Rightarrow> u8 list \<Rightarrow> (u8 list \<times> u8 list \<times> u8 list) option" where
  "hmac_key key key_length digest =
     (let k0 = replicate 64 0
      in if key_length \<noteq> 64 then
           if 64 < key_length then do {
             (key, digest) \<leftarrow> sha1 key key_length digest;
             k0 \<leftarrow> copy_bytes k0 0 digest 0 20;
             Some (k0, key, digest) }
           else do { k0 \<leftarrow> copy_bytes k0 0 key 0 key_length; Some (k0, key, digest) }
         else do { k0 \<leftarrow> copy_bytes k0 0 key 0 64; Some (k0, key, digest) })"

text \<open>
  \<open>step8_size\<close> is the length of the local array \<open>step8data\<close>, \<open>any\<close> what the uninitialised local arrays
  contain.
\<close>

definition hmac_sha1_with ::
    "nat \<Rightarrow> (nat \<Rightarrow> u8) \<Rightarrow> u8 list \<Rightarrow> nat \<Rightarrow> u8 list \<Rightarrow> nat \<Rightarrow> u8 list \<Rightarrow> (u8 list \<times> u8 list) option" where
  "hmac_sha1_with step8_size any key key_length data data_length digest = do {
     (k0, key, digest) \<leftarrow> hmac_key key key_length digest;
     let k0xorIpad = map (\<lambda>b. b XOR 0x36) k0;
     step5data \<leftarrow> write_bytes (map any [0..<MAX_MESSAGE_LENGTH + 128]) 0 k0xorIpad;
     step5data \<leftarrow> copy_bytes step5data 64 data 0 data_length;
     (_, digest) \<leftarrow> sha1 step5data (data_length + 64) digest;
     let step7data = map (\<lambda>b. b XOR 0x5c) k0;
     step8data \<leftarrow> write_bytes (map any [0..<step8_size]) 0 step7data;
     step8data \<leftarrow> copy_bytes step8data 64 digest 0 20;
     (_, digest) \<leftarrow> sha1 step8data (64 + 20) digest;
     Some (key, digest) }"

definition hmac_sha1 ::
    "(nat \<Rightarrow> u8) \<Rightarrow> u8 list \<Rightarrow> nat \<Rightarrow> u8 list \<Rightarrow> nat \<Rightarrow> u8 list \<Rightarrow> (u8 list \<times> u8 list) option" where
  "hmac_sha1 = hmac_sha1_with (64 + 20)"

section \<open>The standards\<close>

text \<open>FIPS 180-4: padding, parsing into big-endian words, the schedule, the rounds.\<close>

definition be_word :: "u8 \<Rightarrow> u8 \<Rightarrow> u8 \<Rightarrow> u8 \<Rightarrow> u32" where
  "be_word a b c d = word_of_nat (((unat a * 256 + unat b) * 256 + unat c) * 256 + unat d)"

definition be_bytes :: "nat \<Rightarrow> nat \<Rightarrow> u8 list" where
  "be_bytes n v = map (\<lambda>i. word_of_nat (v div 256 ^ (n - 1 - i))) [0..<n]"

definition sha1_padded :: "u8 list \<Rightarrow> u8 list" where
  "sha1_padded m = m @ [0x80] @ replicate ((55 + 63 * length m) mod 64) 0 @ be_bytes 8 (8 * length m)"

definition sha1_words :: "u8 list \<Rightarrow> nat \<Rightarrow> nat \<Rightarrow> u32" where
  "sha1_words m i t = (let j = i * 64 + t * 4 in be_word (m ! j) (m ! (j + 1)) (m ! (j + 2)) (m ! (j + 3)))"

fun sha1_schedule :: "(nat \<Rightarrow> u32) \<Rightarrow> nat \<Rightarrow> u32" where
  "sha1_schedule M t = (if t < 16 then M t else word_rotl 1
     (sha1_schedule M (t - 3) XOR sha1_schedule M (t - 8) XOR sha1_schedule M (t - 14) XOR sha1_schedule M (t - 16)))"

declare sha1_schedule.simps [simp del]

definition sha1_f :: "nat \<Rightarrow> u32 \<Rightarrow> u32 \<Rightarrow> u32 \<Rightarrow> u32" where
  "sha1_f t x y z = (if t < 20 then (x AND y) XOR (NOT x AND z)
     else if 40 \<le> t \<and> t < 60 then (x AND y) XOR (x AND z) XOR (y AND z) else x XOR y XOR z)"

definition sha1_K :: "nat \<Rightarrow> u32" where
  "sha1_K t = [0x5a827999, 0x6ed9eba1, 0x8f1bbcdc, 0xca62c1d6] ! (t div 20)"

definition sha1_round :: "(nat \<Rightarrow> u32) \<Rightarrow> nat \<Rightarrow> sha1_state \<Rightarrow> sha1_state" where
  "sha1_round W t = (\<lambda>(a, b, c, d, e). (word_rotl 5 a + sha1_f t b c d + e + sha1_K t + W t, a, word_rotl 30 b, c, d))"

definition sha1_block :: "u8 list \<Rightarrow> nat \<Rightarrow> sha1_state \<Rightarrow> sha1_state" where
  "sha1_block m i = (\<lambda>(h0, h1, h2, h3, h4).
     let (a, b, c, d, e) = fold (sha1_round (sha1_schedule (sha1_words m i))) [0..<80] (h0, h1, h2, h3, h4)
     in (a + h0, b + h1, c + h2, d + h3, e + h4))"

definition sha1_hash :: "u8 list \<Rightarrow> u8 list" where
  "sha1_hash msg = (let m = sha1_padded msg;
       (h0, h1, h2, h3, h4) = fold (sha1_block m) [0..<length m div 64]
         (0x67452301, 0xefcdab89, 0x98badcfe, 0x10325476, 0xc3d2e1f0)
     in concat (map (\<lambda>h. be_bytes 4 (unat h)) [h0, h1, h2, h3, h4]))"

text \<open>RFC 2104: the key, padded or hashed to a block, and two nested hashes.\<close>

definition hmac_block :: "u8 list \<Rightarrow> u8 list" where
  "hmac_block key = (let h = if 64 < length key then sha1_hash key else key in h @ replicate (64 - length h) 0)"

definition hmac_hash :: "u8 list \<Rightarrow> u8 list \<Rightarrow> u8 list" where
  "hmac_hash key msg = (let k0 = hmac_block key
     in sha1_hash (map (\<lambda>b. b XOR 0x5c) k0 @ sha1_hash (map (\<lambda>b. b XOR 0x36) k0 @ msg)))"

section \<open>Rotations and rounds\<close>

lemma and_all [simp]: "(a :: u32) AND 0xffffffff = a"
proof -
  have "(0xffffffff :: u32) = - 1" by simp
  then show ?thesis by (simp only: and.right_neutral)
qed

lemma rotl_word_rotl:
  assumes "0 < n" and "n < 32"
  shows "rotl n a = word_rotl n a"
proof -
  have m: "push_bit (32 - n) 1 - 1 = (mask (32 - n) :: u32)" by (simp add: mask_eq_decr_exp push_bit_eq_mult)
  show ?thesis
    unfolding rotl_def Let_def m and_all
  proof (rule bit_eqI)
    fix i assume "possible_bit TYPE(32 word) i"
    then have i: "i < 32" by simp
    show "bit (push_bit n (a AND mask (32 - n)) OR drop_bit (32 - n) (a AND NOT (mask (32 - n)))) i = bit (word_rotl n a) i"
    proof (cases "n \<le> i")
      case True
      then have "(i + (32 - n)) mod 32 = i - n" using assms i by (simp add: mod_if)
      then show ?thesis using True assms i
        by (auto simp: bit_simps bit_word_rotl_iff dest: bit_imp_le_length)
    next
      case False
      then have "(i + (32 - n)) mod 32 = 32 - n + i" using assms i by simp
      then show ?thesis using False assms i by (auto simp: bit_simps bit_word_rotl_iff)
    qed
  qed
qed

lemma ft_f: "t < 80 \<Longrightarrow> ft t x y z = Some (sha1_f t x y z)"
  by (simp add: ft_def sha1_f_def Let_def xor.assoc)

lemma k_const_K: "t < 80 \<Longrightarrow> k_const t = Some (sha1_K t)"
proof -
  assume "t < 80"
  then have "t div 20 = (if t < 20 then 0 else if t < 40 then 1 else if t < 60 then 2 else 3)" by auto
  then show ?thesis using \<open>t < 80\<close> by (simp add: k_const_def sha1_K_def)
qed

lemma round_loop_rounds:
  assumes "t + n = 80" and "\<forall>i < 80. W i = w ! i" and "length w = 80"
  shows "round_loop w t n s = Some (fold (sha1_round W) [t..<80] s)"
  using assms(1)
proof (induction n arbitrary: t s)
  case (Suc n)
  obtain a b c d e where s: "s = (a, b, c, d, e)" by (cases s) auto
  have t: "t < 80" "[t..<80] = t # [Suc t..<80]" using Suc.prems by (simp_all add: upt_rec)
  have "round_loop w t (Suc n) s = round_loop w (Suc t) n (sha1_round W t s)"
    using t(1) assms(2,3) by (simp add: s ft_f k_const_K load_in sha1_round_def Let_def rotl_word_rotl)
  then show ?case using Suc t(2) by simp
qed simp

section \<open>The schedule\<close>

lemma word_of_bytes:
  fixes a b c d :: u8
  shows "(256 * 256 * 256 * ucast a + 256 * 256 * ucast b + 256 * ucast c + ucast d :: u32) = be_word a b c d"
proof -
  have "ucast x = (word_of_nat (unat x) :: u32)" for x :: u8
    by (simp add: word_unat_eq_iff unat_of_nat)
  then show ?thesis by (simp add: be_word_def algebra_simps)
qed

lemma schedule_loop_words:
  assumes "t + n = 80" and "64 * Suc i \<le> length m"
  shows "schedule_loop m i n (map (sha1_schedule (sha1_words m i)) [0..<t]) = Some (map (sha1_schedule (sha1_words m i)) [0..<80])"
  using assms(1)
proof (induction n arbitrary: t)
  case (Suc n)
  let ?W = "sha1_schedule (sha1_words m i)" and ?w = "map (sha1_schedule (sha1_words m i)) [0..<t]"
  have "(if t < 16 then do {
                m0 \<leftarrow> load m (i * 64 + t * 4);
                m1 \<leftarrow> load m (i * 64 + t * 4 + 1);
                m2 \<leftarrow> load m (i * 64 + t * 4 + 2);
                m3 \<leftarrow> load m (i * 64 + t * 4 + 3);
                Some (256 * 256 * 256 * ucast m0 + 256 * 256 * ucast m1 + 256 * ucast m2 + ucast m3) }
              else do {
                w3 \<leftarrow> load ?w (t - 3);
                w8 \<leftarrow> load ?w (t - 8);
                w14 \<leftarrow> load ?w (t - 14);
                w16 \<leftarrow> load ?w (t - 16);
                Some (rotl 1 (w3 XOR w8 XOR w14 XOR w16)) }) = Some (?W t)"
  proof (cases "t < 16")
    case True
    then show ?thesis using assms(2)
      by (subst sha1_schedule.simps) (simp add: load_in word_of_bytes [simplified] sha1_words_def Let_def)
  next
    case False
    then show ?thesis by (subst sha1_schedule.simps) (simp add: load_in rotl_word_rotl)
  qed
  then have step: "schedule_loop m i (Suc n) ?w = schedule_loop m i n (map ?W [0..<Suc t])"
    by (simp add: Let_def)
  show ?case unfolding step by (rule Suc.IH) (use Suc.prems in simp)
qed simp

lemma block_loop_blocks:
  assumes "i + n = N" and "64 * N \<le> length m"
  shows "block_loop m i n h = Some (fold (sha1_block m) [i..<N] h)"
  using assms(1)
proof (induction n arbitrary: i h)
  case (Suc n)
  obtain h0 h1 h2 h3 h4 where h: "h = (h0, h1, h2, h3, h4)" by (cases h) auto
  let ?W = "sha1_schedule (sha1_words m i)"
  obtain a b c d e where s: "fold (sha1_round ?W) [0..<80] h = (a, b, c, d, e)" by (cases "fold (sha1_round ?W) [0..<80] h") auto
  have i: "64 * Suc i \<le> length m" "[i..<N] = i # [Suc i..<N]" using Suc.prems assms(2) by (simp_all add: upt_rec)
  have "schedule_loop m i 80 [] = Some (map ?W [0..<80])"
    using schedule_loop_words [of 0 80 i m] i(1) by simp
  moreover have "round_loop (map ?W [0..<80]) 0 80 h = Some (a, b, c, d, e)"
    using round_loop_rounds [of 0 80 ?W "map ?W [0..<80]" h] s by simp
  ultimately have "block_loop m i (Suc n) h = block_loop m (Suc i) n (sha1_block m i h)"
    using s unfolding h by (simp add: sha1_block_def)
  then show ?case using Suc i(2) by simp
qed simp

section \<open>Padding in place\<close>

lemma clear_loop_zeros:
  "i + n \<le> length m \<Longrightarrow> clear_loop m i n = Some (take i m @ replicate n 0 @ drop (i + n) m)"
proof (induction n arbitrary: i m)
  case (Suc n)
  then have "take (Suc i) (m[i := 0]) = take i m @ [0]" by (simp add: take_Suc_conv_app_nth)
  then show ?case using Suc by (simp add: store_in)
qed simp

lemma num_blocks_room: "len + 9 \<le> 64 * num_blocks len" "64 * num_blocks len < len + 73"
  by (auto simp: num_blocks_def Let_def) presburger+

lemma pad_zeros: "(55 + 63 * n) mod 64 = 64 * num_blocks n - n - 9"
proof -
  have N: "n + 9 \<le> 64 * num_blocks n" "64 * num_blocks n - n - 9 < 64" using num_blocks_room [of n] by simp_all
  then have "64 * num_blocks n - n - 9 + (1 + n) * 64 = 55 + 63 * n + num_blocks n * 64" by simp
  then have "(64 * num_blocks n - n - 9 + (1 + n) * 64) mod 64 = (55 + 63 * n + num_blocks n * 64) mod 64" by (simp only:)
  then show ?thesis using N(2) by (simp only: mod_mult_self1 mod_less)
qed

lemma low_byte: "(ucast (drop_bit s (l :: u32) AND 0xff) :: u8) = word_of_nat (unat l div 2 ^ s)"
proof -
  have "unat (drop_bit s l AND 0xff) = unat l div 2 ^ s mod 256"
  proof -
    have "drop_bit s l AND 0xff = take_bit 8 (drop_bit s l)"
      by (simp only: take_bit_eq_mask mask_eq_exp_minus_1) simp
    then show ?thesis
      by (simp only: unsigned_take_bit_eq unat_drop_bit_eq) (simp only: take_bit_eq_mod drop_bit_eq_div, simp)
  qed
  then show ?thesis by (simp add: word_unat_eq_iff unat_ucast_mod unat_of_nat)
qed

lemma be_bytes_4: "be_bytes 4 (unat (h :: u32)) = [ucast (drop_bit 24 h AND 0xff), ucast (drop_bit 16 h AND 0xff),
    ucast (drop_bit 8 h AND 0xff), ucast (h AND 0xff)]"
proof -
  have "ucast (h AND 0xff) = (word_of_nat (unat h) :: u8)"
    using low_byte [of 0 h] by (simp only: drop_bit_0 id_apply power_0 div_by_1)
  then show ?thesis unfolding low_byte by (simp only:) (simp add: be_bytes_def upt_rec)
qed

lemma length_be_bytes_word [simp]: "length (be_bytes n v) = n"
  by (simp add: be_bytes_def)

lemma list_four: "4 \<le> length l \<Longrightarrow> \<exists>a b c e ys. l = a # b # c # e # ys"
  by (auto simp: Suc_le_length_iff numeral_eq_Suc)

text \<open>Four stores from the last byte to the first write a word.\<close>

lemma four_stores:
  assumes "i + 4 \<le> length d"
  shows "do { d \<leftarrow> store d (i + 3) v3; d \<leftarrow> store d (i + 2) v2; d \<leftarrow> store d (i + 1) v1; store d i v0 }
    = Some (take i d @ [v0, v1, v2, v3] @ drop (i + 4) d)"
proof -
  define xs where "xs = take i d"
  have xs: "length xs = i" using assms by (simp add: xs_def)
  have "4 \<le> length (drop i d)" using assms by simp
  from list_four [OF this] obtain a b c e ys where ys: "drop i d = a # b # c # e # ys" by blast
  have d: "d = xs @ a # b # c # e # ys" unfolding xs_def ys [symmetric] by simp
  have "drop (i + 4) d = drop 4 (drop i d)" by (simp add: add.commute)
  then have "drop (i + 4) d = ys" by (simp add: ys)
  then show ?thesis unfolding xs_def [symmetric] \<open>drop (i + 4) d = ys\<close>
    by (simp add: d store_in list_update_append xs numeral_eq_Suc)
qed

lemma pad_message_padded:
  assumes "length m0 = n" and "64 * num_blocks n \<le> length (m0 @ rest)" and "n < 2 ^ 28"
  shows "pad_message (m0 @ rest) n = Some (sha1_padded m0 @ drop (64 * num_blocks n - n) rest)"
proof -
  let ?N = "64 * num_blocks n" and ?l = "word_of_nat n * 8 :: u32"
  have N: "n + 9 \<le> ?N" "?N < n + 73" using num_blocks_room by simp_all
  define z where "z = ?N - n - 5"
  have z: "?N = n + z + 5" "4 \<le> z" using N by (simp_all add: z_def)
  have k: "z - 4 + 4 = z" using z(2) by simp
  define d where "d = m0 @ 0x80 # replicate z 0 @ replicate 4 0 @ drop (?N - n) rest"
  have clear: "clear_loop (m0 @ rest) n (?N - n) = Some (m0 @ replicate (?N - n) 0 @ drop (?N - n) rest)"
    using clear_loop_zeros [of n "?N - n" "m0 @ rest"] assms(1,2) N(1) by simp
  have first: "store (m0 @ replicate (?N - n) 0 @ drop (?N - n) rest) n 0x80 = Some d"
  proof -
    have "?N - n = Suc (z + 4)" using z(1) by simp
    then have "replicate (?N - n) 0 = 0 # replicate z 0 @ replicate 4 (0 :: u8)"
      by (simp only: replicate_Suc replicate_add)
    then show ?thesis using assms(1) by (simp add: store_in list_update_append d_def)
  qed
  let ?v = "[ucast (drop_bit 24 ?l AND 0xff), ucast (drop_bit 16 ?l AND 0xff), ucast (drop_bit 8 ?l AND 0xff), ucast (?l AND 0xff)] :: u8 list"
  have len: "length m0 + z + 1 + 4 \<le> length d" by (simp add: d_def)
  have pos: "n + z + 1 + 3 = ?N - 1" "n + z + 1 + 2 = ?N - 2" "n + z + 1 + 1 = ?N - 3" "n + z + 1 = ?N - 4" using z by simp_all
  have "do { d \<leftarrow> store d (?N - 1) (ucast (?l AND 0xff)); d \<leftarrow> store d (?N - 2) (ucast (drop_bit 8 ?l AND 0xff));
      d \<leftarrow> store d (?N - 3) (ucast (drop_bit 16 ?l AND 0xff)); store d (?N - 4) (ucast (drop_bit 24 ?l AND 0xff)) }
    = Some (m0 @ 0x80 # replicate z 0 @ ?v @ drop (?N - n) rest)"
  proof -
    define pre where "pre = m0 @ 0x80 # replicate z 0"
    have "d = pre @ replicate 4 0 @ drop (?N - n) rest" "length pre = n + z + 1" using assms(1) by (simp_all add: d_def pre_def)
    then have "take (n + z + 1) d = pre" "drop (n + z + 1 + 4) d = drop (?N - n) rest" by simp_all
    then show ?thesis
      using four_stores [of "n + z + 1" d] len assms(1) unfolding pos [symmetric]
      by (simp only: pre_def append_assoc append_Cons append_Nil)
  qed
  moreover have "sha1_padded m0 = m0 @ 0x80 # replicate z 0 @ ?v"
  proof -
    have "unat ?l = 8 * n" using assms(3) by (simp add: unat_word_ariths unat_of_nat)
    then have v: "?v = be_bytes 4 (8 * n)" using be_bytes_4 [of ?l] by simp
    have "be_bytes 8 (8 * n) = replicate 4 0 @ be_bytes 4 (8 * n)"
    proof -
      have "replicate 4 0 = [0, 0, 0, 0 :: u8]" by (simp add: numeral_eq_Suc)
      then show ?thesis using assms(3) by (simp add: be_bytes_def upt_rec)
    qed
    moreover have "(55 + 63 * n) mod 64 = z - 4"
      using pad_zeros [of n] z(1) by simp
    ultimately show ?thesis using assms(1) unfolding sha1_padded_def v
      by (simp add: append_assoc [symmetric] replicate_add [symmetric] k del: append_assoc)
  qed
  ultimately show ?thesis
    unfolding pad_message_def Let_def using clear first by (simp add: mult.commute)
qed

section \<open>The hash\<close>

lemma length_sha1_padded: "length (sha1_padded m) = 64 * num_blocks (length m)"
  using num_blocks_room [of "length m"] by (simp add: sha1_padded_def pad_zeros)

lemma sha1_words_append:
  assumes "64 * Suc i \<le> length m" and "t < 16"
  shows "sha1_words (m @ r) i t = sha1_words m i t"
proof -
  have "i * 64 + t * 4 + 3 < length m" using assms by simp
  then show ?thesis by (simp add: sha1_words_def Let_def nth_append)
qed

lemma sha1_schedule_cong:
  assumes "\<And>t. t < 16 \<Longrightarrow> M t = M' t"
  shows "sha1_schedule M = sha1_schedule M'"
proof
  fix t
  show "sha1_schedule M t = sha1_schedule M' t"
  proof (induction t rule: less_induct)
    case (less t)
    show ?case
    proof (cases "t < 16")
      case True
      then show ?thesis using assms by (simp add: sha1_schedule.simps)
    next
      case False
      then show ?thesis using less
        by (simp add: sha1_schedule.simps [of M t] sha1_schedule.simps [of M' t])
    qed
  qed
qed

lemma store_word_bytes:
  "i + 4 \<le> length d \<Longrightarrow> store_word d i h = Some (take i d @ be_bytes 4 (unat h) @ drop (i + 4) d)"
  unfolding store_word_def be_bytes_4 by (rule four_stores)

lemma sha1_short_buffer:
  assumes "length message < 64 * num_blocks n" and "n \<le> length message"
  shows "sha1 message n digest = None"
proof -
  have "clear_loop m i k = None" if "length m < i + k" "i \<le> length m" for m :: "u8 list" and i k
    using that by (induction k arbitrary: i m) (auto simp: store_def)
  from this [of message n "64 * num_blocks n - n"] show ?thesis
    using assms num_blocks_room(1) [of n] by (simp add: sha1_def pad_message_def Let_def mult.commute)
qed

lemma sha1_is_hash:
  assumes "length m = n" and "64 * num_blocks n \<le> length (m @ rest)" and "n < 2 ^ 28" and "20 \<le> length digest"
  shows "sha1 (m @ rest) n digest
    = Some (sha1_padded m @ drop (64 * num_blocks n - n) rest, sha1_hash m @ drop 20 digest)"
proof -
  let ?p = "sha1_padded m" and ?r = "drop (64 * num_blocks n - n) rest"
    and ?h = "(0x67452301, 0xefcdab89, 0x98badcfe, 0x10325476, 0xc3d2e1f0) :: sha1_state"
  have len: "length ?p = 64 * num_blocks n" using length_sha1_padded assms(1) by simp
  have words: "sha1_block (?p @ ?r) i = sha1_block ?p i" if "i < num_blocks n" for i
  proof -
    have "sha1_schedule (sha1_words (?p @ ?r) i) = sha1_schedule (sha1_words ?p i)"
      by (rule sha1_schedule_cong, rule sha1_words_append) (use that len in simp_all)
    then show ?thesis by (simp add: sha1_block_def)
  qed
  obtain h0 h1 h2 h3 h4 where h: "fold (sha1_block ?p) [0..<num_blocks n] ?h = (h0, h1, h2, h3, h4)"
    by (cases "fold (sha1_block ?p) [0..<num_blocks n] ?h") auto
  have "fold (sha1_block (?p @ ?r)) [0..<num_blocks n] ?h = (h0, h1, h2, h3, h4)"
    unfolding h [symmetric] by (rule fold_cong) (simp_all add: words)
  then have "block_loop (?p @ ?r) 0 (num_blocks n) ?h = Some (h0, h1, h2, h3, h4)"
    using block_loop_blocks [of 0 "num_blocks n" "num_blocks n" "?p @ ?r" ?h] len by simp
  moreover have "length ?p div 64 = num_blocks n" using len by simp
  ultimately show ?thesis
    using pad_message_padded [OF assms(1,2,3)] assms(4) h
    by (simp add: sha1_def sha1_hash_def Let_def store_word_bytes)
qed

section \<open>HMAC\<close>

lemma length_sha1_hash [simp]: "length (sha1_hash m) = 20"
  by (simp add: sha1_hash_def Let_def split: prod.splits)

lemma sha1_prefix:
  assumes "n \<le> length b" and "64 * num_blocks n \<le> length b" and "n < 2 ^ 28" and "20 \<le> length digest"
  shows "\<exists>b1. sha1 b n digest = Some (b1, sha1_hash (take n b) @ drop 20 digest)"
  using sha1_is_hash [of "take n b" n "drop n b" digest] assms by simp

lemma hmac_key_block:
  assumes "key_length \<le> length key" and "key_length < 2 ^ 28" and "64 < key_length \<longrightarrow> 64 * num_blocks key_length \<le> length key"
    and "20 \<le> length digest"
  shows "\<exists>key1 digest1. hmac_key key key_length digest = Some (hmac_block (take key_length key), key1, digest1)
    \<and> drop 20 digest1 = drop 20 digest \<and> length digest1 = length digest \<and> (key_length \<le> 64 \<longrightarrow> key1 = key)"
proof (cases "64 < key_length")
  case True
  then obtain key1 where "sha1 key key_length digest = Some (key1, sha1_hash (take key_length key) @ drop 20 digest)"
    using sha1_prefix [OF assms(1) _ assms(2,4)] assms(3) by blast
  then show ?thesis
    using True assms(1,4) by (simp add: hmac_key_def copy_bytes_in hmac_block_def Let_def)
next
  case False
  then show ?thesis
    using assms(1) by (cases "key_length = 64") (simp_all add: hmac_key_def copy_bytes_in hmac_block_def Let_def)
qed

lemma length_hmac_block [simp]: "length (hmac_block key) = 64"
  by (simp add: hmac_block_def Let_def)

text \<open>A block and what follows it, copied into an array.\<close>

lemma fill_two:
  assumes "length a = 64" and "n \<le> length b" and "64 + n \<le> length A"
  shows "write_bytes A 0 a = Some (a @ drop 64 A)" and "copy_bytes (a @ drop 64 A) 64 b 0 n = Some ((a @ take n b) @ drop (64 + n) A)"
  using assms by (simp_all add: write_bytes_def copy_bytes_in add.commute)

lemma hmac_sha1_hash:
  assumes "key_length \<le> length key" and "key_length < 2 ^ 28" and "64 < key_length \<longrightarrow> 64 * num_blocks key_length \<le> length key"
    and "20 \<le> length digest" and "data_length \<le> length data" and "data_length \<le> MAX_MESSAGE_LENGTH"
  shows "map_option snd (hmac_sha1_with step8_size any key key_length data data_length digest)
      = (if 128 \<le> step8_size then Some (hmac_hash (take key_length key) (take data_length data) @ drop 20 digest) else None)"
proof -
  let ?k0 = "hmac_block (take key_length key)"
  let ?ipad = "map (\<lambda>b. b XOR 0x36) ?k0" and ?opad = "map (\<lambda>b. b XOR 0x5c) ?k0" and ?text = "take data_length data"
  obtain key1 d1 where key: "hmac_key key key_length digest = Some (?k0, key1, d1)" "drop 20 d1 = drop 20 digest"
    "length d1 = length digest"
    using hmac_key_block [OF assms(1-4)] by blast
  let ?h = "sha1_hash (?ipad @ ?text)"
  have inner: "\<exists>x. sha1 ((?ipad @ ?text) @ drop (64 + data_length) A) (data_length + 64) d1 = Some (x, ?h @ drop 20 digest)"
    if "length A = MAX_MESSAGE_LENGTH + 128" for A
  proof -
    have "length (?ipad @ ?text) = data_length + 64" using assms(5) by simp
    moreover have "num_blocks (data_length + 64) \<le> 10"
      using num_blocks_room(2) [of "data_length + 64"] assms(6) by (simp add: MAX_MESSAGE_LENGTH_def)
    then have "64 * num_blocks (data_length + 64) \<le> length ((?ipad @ ?text) @ drop (64 + data_length) A)"
      using assms(5,6) that by (simp add: MAX_MESSAGE_LENGTH_def)
    ultimately show ?thesis
      using sha1_is_hash [of "?ipad @ ?text" "data_length + 64" "drop (64 + data_length) A" d1] assms(4,6) key(2,3)
      by (auto simp: MAX_MESSAGE_LENGTH_def)
  qed
  have outer: "map_option snd (do { step8data \<leftarrow> write_bytes A 0 ?opad; step8data \<leftarrow> copy_bytes step8data 64 (?h @ drop 20 digest) 0 20;
        (_, digest1) \<leftarrow> sha1 step8data (64 + 20) (?h @ drop 20 digest); Some (key1, digest1) })
      = (if 128 \<le> length A then Some (sha1_hash (?opad @ ?h) @ drop 20 digest) else None)" for A :: "u8 list"
  proof (cases "84 \<le> length A")
    case True
    have two: "write_bytes A 0 ?opad = Some (?opad @ drop 64 A)"
      "copy_bytes (?opad @ drop 64 A) 64 (?h @ drop 20 digest) 0 20 = Some ((?opad @ ?h) @ drop (64 + 20) A)"
      using fill_two [of ?opad 20 "?h @ drop 20 digest" A] True assms(4) by simp_all
    have n: "num_blocks (64 + 20) = 2" "length (?opad @ ?h) = 64 + 20" by (simp_all add: num_blocks_def)
    have "sha1 ((?opad @ ?h) @ drop (64 + 20) A) (64 + 20) (?h @ drop 20 digest) = (if 128 \<le> length A
      then Some (sha1_padded (?opad @ ?h) @ drop (64 * 2 - (64 + 20)) (drop (64 + 20) A), sha1_hash (?opad @ ?h) @ drop 20 digest) else None)"
      using sha1_is_hash [OF n(2), of "drop (64 + 20) A" "?h @ drop 20 digest"] True assms(4)
        sha1_short_buffer [of "(?opad @ ?h) @ drop (64 + 20) A" "64 + 20"] unfolding n(1) by auto
    then show ?thesis unfolding two bind.bind_lunit by simp
  next
    case False
    then show ?thesis by (auto simp: write_bytes_def copy_bytes_def read_bytes_def split: Option.bind_splits)
  qed
  have every: "map_option snd (hmac_sha1_with size any key key_length data data_length digest)
      = (if 128 \<le> size then Some (hmac_hash (take key_length key) ?text @ drop 20 digest) else None)" for size
  proof -
    define A A8 where "A = map any [0..<MAX_MESSAGE_LENGTH + 128]" and "A8 = map any [0..<size]"
    have A: "length A = MAX_MESSAGE_LENGTH + 128" "length A8 = size" by (simp_all add: A_def A8_def)
    have two: "write_bytes A 0 ?ipad = Some (?ipad @ drop 64 A)"
      "copy_bytes (?ipad @ drop 64 A) 64 data 0 data_length = Some ((?ipad @ ?text) @ drop (64 + data_length) A)"
      using fill_two [of ?ipad data_length data A] A assms(5,6) by (simp_all add: MAX_MESSAGE_LENGTH_def)
    obtain x where "sha1 ((?ipad @ ?text) @ drop (64 + data_length) A) (data_length + 64) d1 = Some (x, ?h @ drop 20 digest)"
      using inner [OF A(1)] by blast
    then show ?thesis
      using outer [of A8] unfolding hmac_sha1_with_def Let_def key(1) A_def [symmetric] A8_def [symmetric]
        bind.bind_lunit prod.case two A(2) hmac_hash_def by simp
  qed
  show ?thesis by (rule every)
qed

section \<open>Properties\<close>

text \<open>
  C8. \<open>sha1\<close> computes the hash of FIPS 180-4, the reference \<open>sha1_hash\<close>, when the array has room behind the
  message for the padding, which overwrites it; otherwise it writes behind the array.
\<close>

theorem sha1_fips:
  assumes "n \<le> length b" and "n < 2 ^ 28" and "20 \<le> length digest"
  shows "sha1 b n digest = (if 64 * num_blocks n \<le> length b
    then Some (sha1_padded (take n b) @ drop (64 * num_blocks n) b, sha1_hash (take n b) @ drop 20 digest) else None)"
proof (cases "64 * num_blocks n \<le> length b")
  case True
  moreover have "n + (64 * num_blocks n - n) = 64 * num_blocks n" using num_blocks_room(1) [of n] by simp
  ultimately show ?thesis using sha1_is_hash [of "take n b" n "drop n b" digest] assms by simp
next
  case False
  then show ?thesis using sha1_short_buffer assms(1) by simp
qed

text \<open>A message of 56 bytes does not fit a block of 64 bytes with its length.\<close>

theorem sha1_fips_witness:
  "sha1 (replicate 64 97) 56 (replicate 20 0) = None
   \<and> sha1 (replicate 128 97) 56 (replicate 20 0) = Some (sha1_padded (replicate 56 97), sha1_hash (replicate 56 97))"
  using sha1_fips [of 56 "replicate 64 97" "replicate 20 0"] sha1_fips [of 56 "replicate 128 97" "replicate 20 0"]
  by (simp add: num_blocks_def)

text \<open>
  C9. With an array \<open>step8data\<close> of at least 128 bytes, \<open>hmac_sha1\<close> computes the HMAC of RFC 2104. The array of
  the code has 84 bytes, so every call writes behind it: \<open>sha1\<close> pads its message in place.
\<close>

theorem hmac_sha1_rfc2104:
  assumes "key_length \<le> length key" and "key_length < 2 ^ 28" and "64 < key_length \<longrightarrow> 64 * num_blocks key_length \<le> length key"
    and "20 \<le> length digest" and "data_length \<le> length data" and "data_length \<le> MAX_MESSAGE_LENGTH"
  shows "map_option snd (hmac_sha1_with step8_size any key key_length data data_length digest)
      = (if 128 \<le> step8_size then Some (hmac_hash (take key_length key) (take data_length data) @ drop 20 digest) else None)
    \<and> hmac_sha1 any key key_length data data_length digest = None"
proof -
  note every = hmac_sha1_hash [OF assms, where any = any]
  have "map_option snd (hmac_sha1 any key key_length data data_length digest) = None"
    unfolding hmac_sha1_def every by simp
  then show ?thesis using every by simp
qed

text \<open>The key \<open>"Jefe"\<close> of RFC 2202.\<close>

theorem hmac_sha1_rfc2104_witness:
  "map_option snd (hmac_sha1_with 128 (\<lambda>_. 0) [0x4a, 0x65, 0x66, 0x65] 4 [0x68, 0x69] 2 (replicate 20 0))
      = Some (hmac_hash [0x4a, 0x65, 0x66, 0x65] [0x68, 0x69])
    \<and> hmac_sha1 (\<lambda>_. 0) [0x4a, 0x65, 0x66, 0x65] 4 [0x68, 0x69] 2 (replicate 20 0) = None"
  using hmac_sha1_rfc2104 [of 4 "[0x4a, 0x65, 0x66, 0x65]" "replicate 20 0" 2 "[0x68, 0x69]" 128 "\<lambda>_. 0"]
  by (simp add: MAX_MESSAGE_LENGTH_def)

end
