(* ===== verification/Swi2c.thy ===== *)
theory Swi2c
  imports Prelude
begin

unbundle bit_operations_syntax

text \<open>
  src/src/components/drivers/sdk_swi2c.c: an I2C master that drives the two lines bit by bit. The board gives
  the operations that set and read the lines; they act on the hardware \<open>'h\<close>, as do the delay and the system
  tick. Waiting for the clock line may last for ever: \<open>None\<close> is a transfer that does not return or that
  accesses a buffer out of bounds. Log output is left out. Conversions between \<open>int32_t\<close> and \<open>uint32_t\<close>
  keep the bits.
\<close>

section \<open>Data\<close>

record 'h sdk_swi2c_ops =
  io_init :: "'h \<Rightarrow> s32 \<times> 'h"
  io_deinit :: "'h \<Rightarrow> s32 \<times> 'h"
  io_set_sda :: "s32 \<Rightarrow> 'h \<Rightarrow> 'h"
  io_set_scl :: "s32 \<Rightarrow> 'h \<Rightarrow> 'h"
  io_get_sda :: "'h \<Rightarrow> s32 \<times> 'h"
  io_get_scl :: "('h \<Rightarrow> s32 \<times> 'h) option"
  io_udelay :: "u32 \<Rightarrow> 'h \<Rightarrow> 'h"
  io_delay_us :: u32
  io_timeout :: u32
  io_systick :: "'h \<Rightarrow> u32 \<times> 'h"

record 'h sdk_swi2c =
  i2c_ops :: "'h sdk_swi2c_ops"
  i2c_retries :: s32

record i2c_msg =
  im_addr :: u16
  im_flags :: u16
  im_len :: u16
  im_buf :: "u8 list"

definition I2C_FLAG_WR :: u16 where "I2C_FLAG_WR = 0"

definition I2C_FLAG_RD :: u16 where "I2C_FLAG_RD = 1"

definition I2C_FLAG_ADDR_10BIT :: u16 where "I2C_FLAG_ADDR_10BIT = 4"

definition I2C_FLAG_NO_START :: u16 where "I2C_FLAG_NO_START = 16"

definition I2C_FLAG_IGNORE_NACK :: u16 where "I2C_FLAG_IGNORE_NACK = 32"

definition I2C_FLAG_READ_ACK :: u16 where "I2C_FLAG_READ_ACK = 64"

definition I2C_FLAG_NO_STOP :: u16 where "I2C_FLAG_NO_STOP = 128"

lemmas i2c_flags = I2C_FLAG_WR_def I2C_FLAG_RD_def I2C_FLAG_ADDR_10BIT_def I2C_FLAG_NO_START_def
  I2C_FLAG_IGNORE_NACK_def I2C_FLAG_READ_ACK_def I2C_FLAG_NO_STOP_def

section \<open>The lines\<close>

definition i2c_delay :: "'h sdk_swi2c_ops \<Rightarrow> 'h \<Rightarrow> 'h" where
  "i2c_delay ops h = io_udelay ops (drop_bit 1 (io_delay_us ops + 1)) h"

definition i2c_delay2 :: "'h sdk_swi2c_ops \<Rightarrow> 'h \<Rightarrow> 'h" where
  "i2c_delay2 ops h = io_udelay ops (io_delay_us ops) h"

definition SDA_L :: "'h sdk_swi2c_ops \<Rightarrow> 'h \<Rightarrow> 'h" where
  "SDA_L ops = io_set_sda ops 0"

definition SDA_H :: "'h sdk_swi2c_ops \<Rightarrow> 'h \<Rightarrow> 'h" where
  "SDA_H ops = io_set_sda ops 1"

definition SCL_L :: "'h sdk_swi2c_ops \<Rightarrow> 'h \<Rightarrow> 'h" where
  "SCL_L ops = io_set_scl ops 0"

text \<open>The loop that waits for the line: whether it went high before the timeout.\<close>

partial_function (option) scl_wait ::
    "'h sdk_swi2c_ops \<Rightarrow> ('h \<Rightarrow> s32 \<times> 'h) \<Rightarrow> u32 \<Rightarrow> 'h \<Rightarrow> (bool \<times> 'h) option" where
  "scl_wait ops get_scl start h =
     (let (v, h1) = get_scl h
      in if v \<noteq> 0 then Some (True, h1)
         else let (tick, h2) = io_systick ops h1
              in if io_timeout ops < tick - start then Some (False, h2)
                 else scl_wait ops get_scl start (i2c_delay ops h2))"

definition SCL_H :: "'h sdk_swi2c_ops \<Rightarrow> 'h \<Rightarrow> (s32 \<times> 'h) option" where
  "SCL_H ops h =
     (let h1 = io_set_scl ops 1 h
      in case io_get_scl ops of
        None \<Rightarrow> Some (SDK_OK, i2c_delay ops h1)
      | Some get_scl \<Rightarrow>
          (let (start, h2) = io_systick ops h1
           in do { (high, h3) \<leftarrow> scl_wait ops get_scl start h2;
                   Some (if high then (SDK_OK, i2c_delay ops h3) else (- SDK_E_TIMEOUT, h3)) }))"

definition i2c_start :: "'h sdk_swi2c_ops \<Rightarrow> 'h \<Rightarrow> 'h" where
  "i2c_start ops h = SCL_L ops (i2c_delay ops (SDA_L ops h))"

definition i2c_restart :: "'h sdk_swi2c_ops \<Rightarrow> 'h \<Rightarrow> 'h option" where
  "i2c_restart ops h = do { (_, h1) \<leftarrow> SCL_H ops (SDA_H ops h);
     Some (SCL_L ops (i2c_delay ops (SDA_L ops (i2c_delay ops h1)))) }"

definition i2c_stop :: "'h sdk_swi2c_ops \<Rightarrow> 'h \<Rightarrow> 'h option" where
  "i2c_stop ops h = do { (_, h1) \<leftarrow> SCL_H ops (i2c_delay ops (SDA_L ops h));
     Some (i2c_delay2 ops (SDA_H ops (i2c_delay ops h1))) }"

text \<open>The function returns \<open>bool\<close>: \<open>-SDK_E_TIMEOUT\<close> becomes \<open>true\<close>.\<close>

definition i2c_waitack :: "'h sdk_swi2c_ops \<Rightarrow> 'h \<Rightarrow> (bool \<times> 'h) option" where
  "i2c_waitack ops h = do {
     (r, h1) \<leftarrow> SCL_H ops (i2c_delay ops (SDA_H ops h));
     if r <s 0 then Some (- SDK_E_TIMEOUT \<noteq> 0, h1)
     else let (sda, h2) = io_get_sda ops h1 in Some (\<not> sda \<noteq> 0, SCL_L ops h2) }"

section \<open>Bytes\<close>

text \<open>The bits \<open>n - 1\<close> to 0.\<close>

fun writeb_loop :: "'h sdk_swi2c_ops \<Rightarrow> u8 \<Rightarrow> nat \<Rightarrow> 'h \<Rightarrow> (bool \<times> 'h) option" where
  "writeb_loop ops d 0 h = Some (True, h)"
| "writeb_loop ops d (Suc i) h = do {
     (r, h1) \<leftarrow> SCL_H ops (i2c_delay ops (io_set_sda ops (ucast (drop_bit i d AND 1)) (SCL_L ops h)));
     if r <s 0 then Some (False, h1) else writeb_loop ops d i h1 }"

definition i2c_writeb :: "'h sdk_swi2c_ops \<Rightarrow> u8 \<Rightarrow> 'h \<Rightarrow> (s32 \<times> 'h) option" where
  "i2c_writeb ops d h = do {
     (sent, h1) \<leftarrow> writeb_loop ops d 8 h;
     if sent then do {
       (ack, h2) \<leftarrow> i2c_waitack ops (i2c_delay ops (SCL_L ops h1));
       Some (if ack then 1 else 0, h2) }
     else Some (- SDK_E_TIMEOUT, h1) }"

fun readb_loop :: "'h sdk_swi2c_ops \<Rightarrow> u8 \<Rightarrow> nat \<Rightarrow> 'h \<Rightarrow> (u8 option \<times> 'h) option" where
  "readb_loop ops d 0 h = Some (Some d, h)"
| "readb_loop ops d (Suc n) h = do {
     (r, h1) \<leftarrow> SCL_H ops h;
     if r <s 0 then Some (None, h1)
     else let (sda, h2) = io_get_sda ops h1;
              d1 = (if sda \<noteq> 0 then push_bit 1 d OR 1 else push_bit 1 d)
          in readb_loop ops d1 n (i2c_delay2 ops (SCL_L ops h2)) }"

definition i2c_readb :: "'h sdk_swi2c_ops \<Rightarrow> 'h \<Rightarrow> (s32 \<times> 'h) option" where
  "i2c_readb ops h = do {
     (d, h1) \<leftarrow> readb_loop ops 0 8 (i2c_delay ops (SDA_H ops h));
     Some (case d of Some d \<Rightarrow> ucast d | None \<Rightarrow> - SDK_E_TIMEOUT, h1) }"

text \<open>\<open>count\<close> bytes from index \<open>p\<close> on, after \<open>bytes\<close> that were sent.\<close>

fun send_bytes_loop :: "'h sdk_swi2c_ops \<Rightarrow> bool \<Rightarrow> u8 list \<Rightarrow> nat \<Rightarrow> nat \<Rightarrow> u32 \<Rightarrow> 'h \<Rightarrow> (u32 \<times> 'h) option" where
  "send_bytes_loop ops ignore_nack buf p 0 bytes h = Some (bytes, h)"
| "send_bytes_loop ops ignore_nack buf p (Suc count) bytes h = do {
     b \<leftarrow> load buf p;
     (r, h1) \<leftarrow> i2c_writeb ops b h;
     if 0 <s r \<or> (ignore_nack \<and> r = 0) then send_bytes_loop ops ignore_nack buf (Suc p) count (bytes + 1) h1
     else if r = 0 then Some (0, h1)
     else Some (r, h1) }"

definition i2c_send_bytes :: "'h sdk_swi2c_ops \<Rightarrow> i2c_msg \<Rightarrow> 'h \<Rightarrow> (u32 \<times> 'h) option" where
  "i2c_send_bytes ops msg h =
     send_bytes_loop ops (im_flags msg AND I2C_FLAG_IGNORE_NACK \<noteq> 0) (im_buf msg) 0 (unat (im_len msg)) 0 h"

definition i2c_send_ack_or_nack :: "'h sdk_swi2c_ops \<Rightarrow> nat \<Rightarrow> 'h \<Rightarrow> (s32 \<times> 'h) option" where
  "i2c_send_ack_or_nack ops ack h = do {
     (r, h1) \<leftarrow> SCL_H ops (i2c_delay ops (if ack \<noteq> 0 then io_set_sda ops 0 h else h));
     Some (if r <s 0 then (- SDK_E_TIMEOUT, h1) else (SDK_OK, SCL_L ops h1)) }"

fun recv_bytes_loop ::
    "'h sdk_swi2c_ops \<Rightarrow> bool \<Rightarrow> u8 list \<Rightarrow> nat \<Rightarrow> nat \<Rightarrow> s32 \<Rightarrow> 'h \<Rightarrow> (s32 \<times> u8 list \<times> 'h) option" where
  "recv_bytes_loop ops read_ack buf p 0 bytes h = Some (bytes, buf, h)"
| "recv_bytes_loop ops read_ack buf p (Suc count) bytes h = do {
     (val, h1) \<leftarrow> i2c_readb ops h;
     if 0 \<le>s val then do {
       buf \<leftarrow> store buf p (ucast val);
       if \<not> read_ack then do {
         (val, h2) \<leftarrow> i2c_send_ack_or_nack ops count h1;
         if val <s 0 then Some (val, buf, h2)
         else recv_bytes_loop ops read_ack buf (Suc p) count (bytes + 1) h2 }
       else recv_bytes_loop ops read_ack buf (Suc p) count (bytes + 1) h1 }
     else Some (bytes, buf, h1) }"

definition i2c_recv_bytes :: "'h sdk_swi2c_ops \<Rightarrow> i2c_msg \<Rightarrow> 'h \<Rightarrow> (u32 \<times> i2c_msg \<times> 'h) option" where
  "i2c_recv_bytes ops msg h = do {
     (r, buf, h1) \<leftarrow> recv_bytes_loop ops (im_flags msg AND I2C_FLAG_READ_ACK \<noteq> 0) (im_buf msg) 0 (unat (im_len msg)) 0 h;
     Some (r, msg\<lparr>im_buf := buf\<rparr>, h1) }"

section \<open>Messages\<close>

text \<open>\<open>n\<close> attempts are left.\<close>

fun send_address_loop :: "'h sdk_swi2c_ops \<Rightarrow> u8 \<Rightarrow> nat \<Rightarrow> 'h \<Rightarrow> (s32 \<times> 'h) option" where
  "send_address_loop ops addr 0 h = Some (0, h)"
| "send_address_loop ops addr (Suc n) h = do {
     (r, h1) \<leftarrow> i2c_writeb ops addr h;
     if r = 1 \<or> n = 0 then Some (r, h1)
     else do { h2 \<leftarrow> i2c_stop ops h1; send_address_loop ops addr n (i2c_start ops (i2c_delay2 ops h2)) } }"

definition i2c_send_address :: "'h sdk_swi2c_ops \<Rightarrow> u8 \<Rightarrow> s32 \<Rightarrow> 'h \<Rightarrow> (s32 \<times> 'h) option" where
  "i2c_send_address ops addr retries = send_address_loop ops addr (nat (sint retries + 1))"

definition i2c_bit_send_address :: "'h sdk_swi2c \<Rightarrow> i2c_msg \<Rightarrow> 'h \<Rightarrow> (s32 \<times> 'h) option" where
  "i2c_bit_send_address bus msg h =
     (let flags = im_flags msg;
          ignore_nack = flags AND I2C_FLAG_IGNORE_NACK \<noteq> 0;
          ops = i2c_ops bus;
          retries = (if ignore_nack then 0 else i2c_retries bus)
      in if flags AND I2C_FLAG_ADDR_10BIT \<noteq> 0 then
           (let addr1 = 0xf0 OR (ucast (drop_bit 7 (im_addr msg)) AND 0x06) :: u8;
                addr2 = ucast (im_addr msg AND 0xff) :: u8
            in do {
              (r, h1) \<leftarrow> i2c_send_address ops addr1 retries h;
              if r \<noteq> 1 \<and> \<not> ignore_nack then Some (- SDK_ERROR, h1)
              else do {
                (r, h2) \<leftarrow> i2c_writeb ops addr2 h1;
                if r \<noteq> 1 \<and> \<not> ignore_nack then Some (- SDK_ERROR, h2)
                else if flags AND I2C_FLAG_RD \<noteq> 0 then do {
                  h3 \<leftarrow> i2c_restart ops h2;
                  (r, h4) \<leftarrow> i2c_send_address ops (addr1 OR 0x01) retries h3;
                  Some (if r \<noteq> 1 \<and> \<not> ignore_nack then - SDK_ERROR else SDK_OK, h4) }
                else Some (SDK_OK, h2) } })
         else
           (let addr1 = ucast (push_bit 1 (im_addr msg)) :: u8;
                addr1 = (if flags AND I2C_FLAG_RD \<noteq> 0 then addr1 OR 1 else addr1)
            in do {
              (r, h1) \<leftarrow> i2c_send_address ops addr1 retries h;
              Some (if r \<noteq> 1 \<and> \<not> ignore_nack then - SDK_ERROR else SDK_OK, h1) }))"

text \<open>
  One message: whether the transfer goes on, and the value of \<open>ret\<close>. The last argument tells if it is the
  first message.
\<close>

definition xfer_msg :: "'h sdk_swi2c \<Rightarrow> i2c_msg \<Rightarrow> bool \<Rightarrow> 'h \<Rightarrow> (bool \<times> s32 \<times> i2c_msg \<times> 'h) option" where
  "xfer_msg bus msg first h =
     (let ops = i2c_ops bus; ignore_nack = im_flags msg AND I2C_FLAG_IGNORE_NACK \<noteq> 0
      in do {
        (ok, r, h1) \<leftarrow>
          (if im_flags msg AND I2C_FLAG_NO_START = 0 then do {
             h1 \<leftarrow> (if first then Some (i2c_start ops h) else i2c_restart ops h);
             (r, h2) \<leftarrow> i2c_bit_send_address bus msg h1;
             Some (r = SDK_OK \<or> ignore_nack, r, h2) }
           else Some (True, 0, h));
        if \<not> ok then Some (False, r, msg, h1)
        else do {
          (r, msg1, h2) \<leftarrow>
            (if im_flags msg AND I2C_FLAG_RD \<noteq> 0 then i2c_recv_bytes ops msg h1
             else do { (r, h2) \<leftarrow> i2c_send_bytes ops msg h1; Some (r, msg, h2) });
          if r <s ucast (im_len msg) then Some (False, if 0 \<le>s r then - SDK_ERROR else r, msg1, h2)
          else Some (True, r, msg1, h2) } })"

text \<open>The messages from index \<open>i\<close> on, with those before; the last message that was tried gives its flags.\<close>

fun xfer_loop :: "'h sdk_swi2c \<Rightarrow> i2c_msg list \<Rightarrow> i2c_msg list \<Rightarrow> u16 \<Rightarrow> 'h \<Rightarrow> (s32 \<times> i2c_msg list \<times> u16 \<times> 'h) option" where
  "xfer_loop bus before [] flags h = Some (word_of_nat (length before), before, flags, h)"
| "xfer_loop bus before (msg # msgs) flags h = do {
     (go_on, r, msg1, h1) \<leftarrow> xfer_msg bus msg (before = []) h;
     if go_on then xfer_loop bus (before @ [msg1]) msgs (im_flags msg) h1
     else Some (r, before @ msg1 # msgs, im_flags msg, h1) }"

definition i2c_bit_xfer :: "'h sdk_swi2c \<Rightarrow> i2c_msg list \<Rightarrow> 'h \<Rightarrow> (u32 \<times> i2c_msg list \<times> 'h) option" where
  "i2c_bit_xfer bus msgs h =
     (if msgs = [] then Some (0, msgs, h)
      else do {
        (r, msgs1, flags, h1) \<leftarrow> xfer_loop bus [] msgs 0 h;
        h2 \<leftarrow> (if flags AND I2C_FLAG_NO_STOP = 0 then i2c_stop (i2c_ops bus) h1 else Some h1);
        Some (r, msgs1, h2) })"

text \<open>The count goes into a field of 16 bits.\<close>

definition sdk_swi2c_write :: "'h sdk_swi2c \<Rightarrow> u16 \<Rightarrow> u8 list \<Rightarrow> u32 \<Rightarrow> 'h \<Rightarrow> (u32 \<times> 'h) option" where
  "sdk_swi2c_write bus addr buf count h = do {
     (r, _, h1) \<leftarrow> i2c_bit_xfer bus [\<lparr>im_addr = addr, im_flags = I2C_FLAG_WR, im_len = ucast count, im_buf = buf\<rparr>] h;
     Some (r, h1) }"

definition sdk_swi2c_read :: "'h sdk_swi2c \<Rightarrow> u16 \<Rightarrow> u8 list \<Rightarrow> u32 \<Rightarrow> 'h \<Rightarrow> (u32 \<times> u8 list \<times> 'h) option" where
  "sdk_swi2c_read bus addr buf count h = do {
     (r, msgs, h1) \<leftarrow> i2c_bit_xfer bus [\<lparr>im_addr = addr, im_flags = I2C_FLAG_RD, im_len = ucast count, im_buf = buf\<rparr>] h;
     Some (r, im_buf (hd msgs), h1) }"

definition sdk_swi2c_open :: "'h sdk_swi2c \<Rightarrow> 'h \<Rightarrow> s32 \<times> 'h" where
  "sdk_swi2c_open bus = io_init (i2c_ops bus)"

definition sdk_swi2c_close :: "'h sdk_swi2c \<Rightarrow> 'h \<Rightarrow> s32 \<times> 'h" where
  "sdk_swi2c_close bus = io_deinit (i2c_ops bus)"

section \<open>A bus and what a device sees on it\<close>

text \<open>
  The lines, what a device on the bus observes (start and stop conditions, and the level of the data line at
  each rising edge of the clock), and the levels the device puts on the data line when the master reads it; a
  line nobody pulls down is high.
\<close>

datatype i2c_symbol = Start | Stop | Bit bool

record wire =
  w_sda :: bool
  w_scl :: bool
  w_seen :: "i2c_symbol list"
  w_device :: "bool list"

definition wire_sda :: "s32 \<Rightarrow> wire \<Rightarrow> wire" where
  "wire_sda v w = w\<lparr>w_sda := (v \<noteq> 0),
     w_seen := w_seen w @ (if w_scl w \<and> w_sda w \<noteq> (v \<noteq> 0) then [if v \<noteq> 0 then Stop else Start] else [])\<rparr>"

definition wire_scl :: "s32 \<Rightarrow> wire \<Rightarrow> wire" where
  "wire_scl v w = w\<lparr>w_scl := (v \<noteq> 0), w_seen := w_seen w @ (if \<not> w_scl w \<and> v \<noteq> 0 then [Bit (w_sda w)] else [])\<rparr>"

definition wire_get_sda :: "wire \<Rightarrow> s32 \<times> wire" where
  "wire_get_sda w = (case w_device w of [] \<Rightarrow> (1, w) | b # bs \<Rightarrow> (if b then 1 else 0, w\<lparr>w_device := bs\<rparr>))"

definition wire_ops :: "wire sdk_swi2c_ops" where
  "wire_ops = \<lparr>io_init = \<lambda>w. (0, w), io_deinit = \<lambda>w. (0, w), io_set_sda = wire_sda, io_set_scl = wire_scl,
     io_get_sda = wire_get_sda, io_get_scl = Some (\<lambda>w. (if w_scl w then 1 else 0, w)), io_udelay = \<lambda>_ w. w,
     io_delay_us = 5, io_timeout = 10, io_systick = \<lambda>w. (0, w)\<rparr>"

definition byte_bits :: "u8 \<Rightarrow> bool list" where
  "byte_bits b = map (bit b) (rev [0..<8])"

section \<open>The operations on this bus\<close>

abbreviation wr :: "bool \<Rightarrow> bool \<Rightarrow> i2c_symbol list \<Rightarrow> bool list \<Rightarrow> wire" where
  "wr sda scl seen dev \<equiv> \<lparr>w_sda = sda, w_scl = scl, w_seen = seen, w_device = dev\<rparr>"

lemma wire_ops_simps [simp]:
  "i2c_delay wire_ops w = w" "i2c_delay2 wire_ops w = w" "SDA_L wire_ops w = wire_sda 0 w" "SDA_H wire_ops w = wire_sda 1 w"
  "SCL_L wire_ops w = wire_scl 0 w" "io_set_sda wire_ops = wire_sda" "io_get_sda wire_ops = wire_get_sda"
  by (simp_all add: i2c_delay_def i2c_delay2_def SDA_L_def SDA_H_def SCL_L_def wire_ops_def)

lemma SCL_H_wire [simp]: "SCL_H wire_ops w = Some (SDK_OK, wire_scl 1 w)"
  by (simp add: SCL_H_def scl_wait.simps) (simp add: wire_ops_def wire_scl_def scl_wait.simps i2c_delay_def)

lemma ok_not_negative [simp]: "\<not> SDK_OK <s 0"
  by (simp add: SDK_OK_def)

lemma start_wire: "i2c_start wire_ops (wr True True seen dev) = wr False False (seen @ [Start]) dev"
  by (simp add: i2c_start_def wire_sda_def wire_scl_def)

lemma stop_wire: "i2c_stop wire_ops (wr s False seen dev) = Some (wr True True (seen @ [Bit False, Stop]) dev)"
  by (simp add: i2c_stop_def wire_sda_def wire_scl_def)

lemma writeb_loop_wire:
  "writeb_loop wire_ops d n (wr s c seen dev) = Some (True, wr (if n = 0 then s else bit d 0) (n \<noteq> 0 \<or> c)
     (seen @ map (\<lambda>i. Bit (bit d i)) (rev [0..<n])) dev)"
proof (induction n arbitrary: s c seen)
  case (Suc i)
  have b: "(ucast (drop_bit i d AND 1) :: s32) \<noteq> 0 \<longleftrightarrow> bit d i"
  proof -
    have "drop_bit i d AND 1 = of_bool (bit d i)" by (rule bit_eqI) (auto simp: bit_simps)
    then show ?thesis by simp
  qed
  show ?case
    by (simp add: wire_sda_def wire_scl_def b Suc del: upt_Suc) (simp add: upt_Suc_append)
qed simp

text \<open>A byte as the device sees it, with the clock of the acknowledgement, where the master lets go of the line.\<close>

definition byte_symbols :: "u8 \<Rightarrow> i2c_symbol list" where
  "byte_symbols b = map Bit (byte_bits b) @ [Bit True]"

lemma writeb_wire:
  "i2c_writeb wire_ops d (wr s c seen (a # dev)) = Some (if a then 0 else 1, wr True False (seen @ byte_symbols d) dev)"
proof -
  have "map (\<lambda>i. Bit (bit d i)) (rev [0..<8]) = map Bit (byte_bits d)" by (simp add: byte_bits_def)
  then show ?thesis
    by (simp add: i2c_writeb_def writeb_loop_wire i2c_waitack_def wire_sda_def wire_scl_def wire_get_sda_def
        byte_symbols_def del: upt_Suc)
qed

lemma send_bytes_wire:
  assumes "p + count \<le> length buf" and "n + count < 2 ^ 31"
  shows "send_bytes_loop wire_ops False buf p count (word_of_nat n) (wr s c seen (replicate k False @ True # dev))
    = Some (if count \<le> k
        then (word_of_nat (n + count), wr (if count = 0 then s else True) (count = 0 \<and> c)
          (seen @ concat (map byte_symbols (take count (drop p buf)))) (replicate (k - count) False @ True # dev))
        else (0, wr True False (seen @ concat (map byte_symbols (take (Suc k) (drop p buf)))) dev))"
  using assms
proof (induction count arbitrary: p n s c seen k)
  case (Suc count)
  have p: "load buf p = Some (buf ! p)" "drop p buf = buf ! p # drop (Suc p) buf"
    using Suc.prems(1) by (simp_all add: load_in Cons_nth_drop_Suc)
  show ?case
  proof (cases k)
    case 0
    then show ?thesis by (simp add: p writeb_wire)
  next
    case (Suc k1)
    have "send_bytes_loop wire_ops False buf p (Suc count) (word_of_nat n) (wr s c seen (replicate k False @ True # dev))
      = send_bytes_loop wire_ops False buf (Suc p) count (word_of_nat (Suc n)) (wr True False (seen @ byte_symbols (buf ! p)) (replicate k1 False @ True # dev))"
      by (simp add: p writeb_wire Suc word_sless_alt add.commute)
    then show ?thesis
      using Suc.IH [of "Suc p" "Suc n" True False "seen @ byte_symbols (buf ! p)" k1] Suc.prems Suc
      by (simp add: p(2))
  qed
qed simp

definition addr_byte :: "u16 \<Rightarrow> bool \<Rightarrow> u8" where
  "addr_byte addr rd = (let a = ucast (push_bit 1 addr) in if rd then a OR 1 else a)"

lemma send_address_wire:
  "send_address_loop wire_ops d (Suc 0) (wr s c seen (a # dev)) = Some (if a then 0 else 1, wr True False (seen @ byte_symbols d) dev)"
  by (simp add: writeb_wire)

lemma u16_count:
  assumes "count < 65536"
  shows "unat (ucast (word_of_nat count :: u32) :: u16) = count" and "sint (ucast (ucast (word_of_nat count :: u32) :: u16) :: s32) = int count"
proof -
  show u: "unat (ucast (word_of_nat count :: u32) :: u16) = count"
    using assms by (simp add: unat_ucast_mod unat_of_nat)
  have "ucast (ucast (word_of_nat count :: u32) :: u16) = (word_of_nat count :: s32)"
    using assms by (simp add: word_unat_eq_iff u [simplified] unat_of_nat) 
  then show "sint (ucast (ucast (word_of_nat count :: u32) :: u16) :: s32) = int count"
    using assms by (simp add: signed_of_nat signed_take_bit_int_eq_self)
qed

section \<open>Reading on this bus\<close>

lemma readb_loop_wire:
  "readb_loop wire_ops d (length bs) (wr True c seen (bs @ dev)) = Some (Some (foldl (\<lambda>d b. if b then push_bit 1 d OR 1 else push_bit 1 d) d bs),
     wr True (bs = [] \<and> c) (seen @ (if c then [] else replicate (length bs) (Bit True))) dev)" if "\<not> c"
  using that
proof (induction bs arbitrary: d c seen)
  case (Cons b bs)
  show ?case
    using Cons.IH [of False "if b then push_bit 1 d OR 1 else push_bit 1 d" "seen @ [Bit True]"] Cons.prems
    by (cases b) (simp_all add: wire_sda_def wire_scl_def wire_get_sda_def)
qed simp

lemma shift_in_bit:
  fixes b :: u8
  shows "(if bit b i then push_bit 1 (drop_bit (Suc i) b) OR 1 else push_bit 1 (drop_bit (Suc i) b)) = drop_bit i b"
proof (rule bit_eqI)
  fix n assume "possible_bit TYPE(8 word) n"
  then show "bit (if bit b i then push_bit 1 (drop_bit (Suc i) b) OR 1 else push_bit 1 (drop_bit (Suc i) b)) n = bit (drop_bit i b) n"
    by (cases n) (auto simp: bit_simps simp del: push_bit_Suc One_nat_def)
qed

lemma byte_bits_value: "foldl (\<lambda>d b. if b then push_bit 1 d OR 1 else push_bit 1 d) 0 (byte_bits b) = b"
proof -
  have "foldl (\<lambda>d b. if b then push_bit 1 d OR 1 else push_bit 1 d) 0 (map (bit b) (rev [i..<8])) = drop_bit i b" if "i \<le> 8" for i
    using that
  proof (induction rule: inc_induct)
    case base
    show ?case by (simp add: bit_eq_iff bit_simps)
  next
    case (step i)
    have "rev [i..<8] = rev [Suc i..<8] @ [i]" using step.hyps by (simp add: upt_rec)
    then show ?case using step.IH shift_in_bit [of b i] by (simp only: map_append foldl_append list.map foldl.simps)
  qed
  from this [of 0] show ?thesis by (simp add: byte_bits_def)
qed

lemma readb_wire:
  "i2c_readb wire_ops (wr s False seen (byte_bits b @ dev)) = Some (ucast b, wr True False (seen @ replicate 8 (Bit True)) dev)"
proof -
  have l: "length (byte_bits b) = 8" "byte_bits b \<noteq> []" by (simp_all add: byte_bits_def)
  show ?thesis
    using readb_loop_wire [of False 0 "byte_bits b" seen dev] l by (simp add: i2c_readb_def wire_sda_def byte_bits_value)
qed

lemma ack_wire:
  "i2c_send_ack_or_nack wire_ops n (wr True False seen dev) = Some (SDK_OK, wr (n = 0) False (seen @ [Bit (n = 0)]) dev)"
  by (simp add: i2c_send_ack_or_nack_def wire_sda_def wire_scl_def)

text \<open>The clocks of \<open>n\<close> bytes that are read: eight bits from the device, and an acknowledgement but for the last byte.\<close>

definition read_symbols :: "nat \<Rightarrow> i2c_symbol list" where
  "read_symbols n = concat (map (\<lambda>i. replicate 8 (Bit True) @ [Bit (i = 0)]) (rev [0..<n]))"

lemma recv_bytes_wire:
  assumes "length ds = count" and "p + count \<le> length buf" and "n + count < 2 ^ 31"
  shows "recv_bytes_loop wire_ops False buf p count (word_of_nat n) (wr s False seen (concat (map byte_bits ds) @ dev))
    = Some (word_of_nat (n + count), take p buf @ ds @ drop (p + count) buf,
        wr (s \<or> count \<noteq> 0) False (seen @ read_symbols count) dev)"
  using assms
proof (induction count arbitrary: ds p n buf s seen)
  case (Suc count)
  obtain b bs where ds: "ds = b # bs" "length bs = count" using Suc.prems(1) by (cases ds) auto
  have p: "p < length buf" "take (Suc p) (buf[p := b]) = take p buf @ [b]" using Suc.prems(2) by (simp_all add: take_Suc_conv_app_nth)
  have nn: "0 \<le>s (ucast b :: s32)"
  proof -
    have "(ucast b :: s32) = word_of_nat (unat b)" by (simp add: word_unat_eq_iff unat_of_nat)
    moreover have "sint (word_of_nat m :: s32) = int m" if "m < 256" for m
      using that by (simp add: signed_of_nat signed_take_bit_int_eq_self)
    ultimately show ?thesis using unat_u8_less [of b] unfolding word_sle_eq by (metis of_nat_0_le_iff signed_0)
  qed
  have bk: "(ucast (ucast b :: s32) :: u8) = b" "(count = 0 \<or> 0 < count) = True" by (auto simp: word_unat_eq_iff unat_ucast_mod)
  show ?case
    using Suc.IH [of bs "Suc p" "buf[p := b]" "Suc n" "count = 0" "seen @ replicate 8 (Bit True) @ [Bit (count = 0)]"] Suc.prems p ds
    by (simp add: readb_wire nn store_in ack_wire read_symbols_def add.commute bk)
qed (simp add: read_symbols_def)

definition wire_bus :: "wire sdk_swi2c" where
  "wire_bus = \<lparr>i2c_ops = wire_ops, i2c_retries = 0\<rparr>"

lemma bit_send_address_wire:
  assumes "fl AND I2C_FLAG_IGNORE_NACK = 0" and "fl AND I2C_FLAG_ADDR_10BIT = 0"
  shows "i2c_bit_send_address wire_bus \<lparr>im_addr = addr, im_flags = fl, im_len = n, im_buf = buf\<rparr> (wr s c seen (a # dev))
    = Some (if a then - SDK_ERROR else SDK_OK, wr True False (seen @ byte_symbols (addr_byte addr (fl AND I2C_FLAG_RD \<noteq> 0))) dev)"
  using assms writeb_wire [of "addr_byte addr (fl AND I2C_FLAG_RD \<noteq> 0)" s c seen a dev]
  by (auto simp: i2c_bit_send_address_def wire_bus_def i2c_send_address_def Let_def addr_byte_def)

section \<open>Stretching\<close>

text \<open>A device that holds the clock line low for ever, on a board whose tick advances with each reading.\<close>

definition stuck_ops :: "u32 \<Rightarrow> nat sdk_swi2c_ops" where
  "stuck_ops timeout = \<lparr>io_init = \<lambda>t. (0, t), io_deinit = \<lambda>t. (0, t), io_set_sda = \<lambda>_ t. t, io_set_scl = \<lambda>_ t. t,
     io_get_sda = \<lambda>t. (1, t), io_get_scl = Some (\<lambda>t. (0, t)), io_udelay = \<lambda>_ t. t,
     io_delay_us = 5, io_timeout = timeout, io_systick = \<lambda>t. (word_of_nat t, Suc t)\<rparr>"

lemma scl_wait_stuck_step:
  "scl_wait (stuck_ops timeout) (\<lambda>t. (0, t)) start t
    = (if timeout < word_of_nat t - start then Some (False, Suc t) else scl_wait (stuck_ops timeout) (\<lambda>t. (0, t)) start (Suc t))"
  by (subst scl_wait.simps) (simp add: stuck_ops_def i2c_delay_def)

lemma scl_wait_stuck:
  assumes "unat timeout + 1 < 2 ^ 32" and "k \<le> unat timeout"
  shows "scl_wait (stuck_ops timeout) (\<lambda>t. (0, t)) (word_of_nat start) (start + 1 + k)
    = Some (False, start + 2 + unat timeout)"
  using assms(2)
proof (induction rule: inc_induct)
  case base
  have "(word_of_nat (start + 1 + unat timeout) - word_of_nat start :: u32) = word_of_nat (1 + unat timeout)"
    by (simp add: algebra_simps)
  moreover have "timeout < (word_of_nat (1 + unat timeout) :: u32)"
    using assms(1) by (simp only: word_less_nat_alt) (simp add: unat_of_nat del: of_nat_add of_nat_Suc)
  ultimately show ?case by (subst scl_wait_stuck_step) (simp del: of_nat_add of_nat_Suc)
next
  case (step k)
  have "(word_of_nat (start + 1 + k) - word_of_nat start :: u32) = word_of_nat (1 + k)" by (simp add: algebra_simps)
  moreover have "\<not> timeout < (word_of_nat (1 + k) :: u32)"
    using step.hyps assms(1) by (simp only: word_less_nat_alt) (simp add: unat_of_nat del: of_nat_add of_nat_Suc)
  ultimately have "scl_wait (stuck_ops timeout) (\<lambda>t. (0, t)) (word_of_nat start) (start + 1 + k)
      = scl_wait (stuck_ops timeout) (\<lambda>t. (0, t)) (word_of_nat start) (start + 1 + Suc k)"
    by (subst scl_wait_stuck_step) (simp del: of_nat_add of_nat_Suc)
  then show ?case using step.IH by simp
qed

lemma SCL_H_stuck:
  assumes "unat timeout + 1 < 2 ^ 32"
  shows "SCL_H (stuck_ops timeout) t = Some (- SDK_E_TIMEOUT, t + 2 + unat timeout)"
  using scl_wait_stuck [OF assms, of 0 t] by (simp add: SCL_H_def) (simp add: stuck_ops_def)

text \<open>A count of 65536 or more is cut to 16 bits, and the caller is not told.\<close>

lemma swi2c_count_truncated:
  "ucast count = (ucast count1 :: u16) \<Longrightarrow> sdk_swi2c_write bus addr buf count h = sdk_swi2c_write bus addr buf count1 h"
  by (simp add: sdk_swi2c_write_def)

section \<open>Properties\<close>

text \<open>
  C15. Writing to a device that acknowledges \<open>k\<close> bytes and then refuses one: on the lines the device sees the
  start condition, the address with the write bit and the bytes of the buffer, most significant bit first and
  each with the clock of its acknowledgement, up to the byte that was refused, and the stop condition. The
  result is 1 when all bytes were acknowledged and \<open>-SDK_ERROR\<close> otherwise.
\<close>

theorem swi2c_write_symbols:
  assumes "count < 65536" and "count \<le> length buf"
  shows "sdk_swi2c_write wire_bus addr buf (word_of_nat count) (wr True True seen (replicate k False @ True # dev))
    = Some (if count < k then 1 else - SDK_ERROR,
        wr True True (seen @ [Start] @ concat (map byte_symbols (take (Suc k) (addr_byte addr False # take count buf))) @ [Bit False, Stop])
          (if count < k then replicate (k - Suc count) False @ True # dev else dev))"
proof -
  let ?msg = "\<lparr>im_addr = addr, im_flags = I2C_FLAG_WR, im_len = ucast (word_of_nat count :: u32), im_buf = buf\<rparr>"
  have fl: "I2C_FLAG_WR AND x = 0" for x by (simp add: I2C_FLAG_WR_def)
  show ?thesis
  proof (cases k)
    case 0
    then show ?thesis
      using bit_send_address_wire [of I2C_FLAG_WR addr "ucast (word_of_nat count :: u32)" buf False False "seen @ [Start]" True dev]
      by (simp add: sdk_swi2c_write_def i2c_bit_xfer_def xfer_msg_def fl start_wire stop_wire wire_bus_def SDK_ERROR_def SDK_OK_def)
  next
    case (Suc k1)
    define dev1 where "dev1 = replicate k1 False @ True # dev"
    have addr: "i2c_bit_send_address wire_bus ?msg (wr False False (seen @ [Start]) (False # dev1))
        = Some (SDK_OK, wr True False (seen @ [Start] @ byte_symbols (addr_byte addr False)) dev1)"
      using bit_send_address_wire [of I2C_FLAG_WR addr "ucast (word_of_nat count :: u32)" buf False False "seen @ [Start]" False dev1]
      by (simp add: fl)
    let ?seen = "seen @ [Start] @ byte_symbols (addr_byte addr False)"
    have send: "i2c_send_bytes wire_ops ?msg (wr True False ?seen dev1) = Some (if count \<le> k1
        then (word_of_nat count, wr True False (?seen @ concat (map byte_symbols (take count buf))) (replicate (k1 - count) False @ True # dev))
        else (0, wr True False (?seen @ concat (map byte_symbols (take (Suc k1) buf))) dev))"
      using send_bytes_wire [of 0 count buf 0 True False ?seen k1 dev] assms u16_count(1) [OF assms(1)]
      by (simp add: i2c_send_bytes_def fl dev1_def)
    have less: "(word_of_nat count :: s32) <s ucast (ucast (word_of_nat count :: u32) :: u16) = False"
      "(0 :: s32) <s ucast (ucast (word_of_nat count :: u32) :: u16) \<longleftrightarrow> 0 < count"
      using assms(1) u16_count(2) [OF assms(1)] by (simp_all add: word_sless_alt signed_of_nat signed_take_bit_int_eq_self)
    have neg: "- SDK_ERROR <s 0" by (simp add: SDK_ERROR_def word_sless_alt)
    have msg: "xfer_msg wire_bus ?msg True (wr True True seen (False # dev1)) = Some (if count \<le> k1
        then (True, word_of_nat count, ?msg, wr True False (?seen @ concat (map byte_symbols (take count buf))) (replicate (k1 - count) False @ True # dev))
        else (False, - SDK_ERROR, ?msg, wr True False (?seen @ concat (map byte_symbols (take (Suc k1) buf))) dev))"
      using addr send less by (simp add: xfer_msg_def start_wire fl wire_bus_def Let_def)
    show ?thesis
      unfolding Suc sdk_swi2c_write_def i2c_bit_xfer_def
      using msg by (simp add: dev1_def fl stop_wire wire_bus_def)
  qed
qed

text \<open>Two bytes, of which the second is refused.\<close>

theorem swi2c_write_symbols_witness:
  "sdk_swi2c_write wire_bus 0x50 [1, 2] (word_of_nat 2) (wr True True [] (replicate 2 False @ True # []))
    = Some (- SDK_ERROR, wr True True ([] @ [Start] @ concat (map byte_symbols (take (Suc 2) (addr_byte 0x50 False # take 2 [1, 2]))) @ [Bit False, Stop]) [])"
  using swi2c_write_symbols [of 2 "[1, 2]" "0x50" "[]" 2 "[]"] by simp

text \<open>
  C16. Reading \<open>count\<close> bytes from a device that acknowledges its address and then sends the bits of \<open>ds\<close>
  stores exactly these bytes at the start of the buffer, acknowledges all but the last one, ends with the stop
  condition, and reports one message.
\<close>

theorem swi2c_read_bytes:
  assumes "length ds = count" and "count < 65536" and "count \<le> length buf"
  shows "sdk_swi2c_read wire_bus addr buf (word_of_nat count) (wr True True seen (False # concat (map byte_bits ds) @ dev))
    = Some (1, ds @ drop count buf,
        wr True True (seen @ [Start] @ byte_symbols (addr_byte addr True) @ read_symbols count @ [Bit False, Stop]) dev)"
proof -
  let ?msg = "\<lparr>im_addr = addr, im_flags = I2C_FLAG_RD, im_len = ucast (word_of_nat count :: u32), im_buf = buf\<rparr>"
  have fl: "I2C_FLAG_RD AND I2C_FLAG_IGNORE_NACK = 0" "I2C_FLAG_RD AND I2C_FLAG_ADDR_10BIT = 0" "I2C_FLAG_RD AND I2C_FLAG_RD \<noteq> 0" "I2C_FLAG_RD \<noteq> 0"
    "I2C_FLAG_RD AND I2C_FLAG_NO_START = 0" "I2C_FLAG_RD AND I2C_FLAG_READ_ACK = 0" "I2C_FLAG_RD AND I2C_FLAG_NO_STOP = 0"
    by (simp_all add: i2c_flags)
  let ?dev = "concat (map byte_bits ds) @ dev" and ?seen = "seen @ [Start] @ byte_symbols (addr_byte addr True)"
  have addr: "i2c_bit_send_address wire_bus ?msg (wr False False (seen @ [Start]) (False # ?dev)) = Some (SDK_OK, wr True False ?seen ?dev)"
    using bit_send_address_wire [of I2C_FLAG_RD addr "ucast (word_of_nat count :: u32)" buf False False "seen @ [Start]" False ?dev]
    by (simp add: fl)
  have recv: "i2c_recv_bytes wire_ops ?msg (wr True False ?seen ?dev)
      = Some (word_of_nat count, ?msg\<lparr>im_buf := ds @ drop count buf\<rparr>, wr True False (?seen @ read_symbols count) dev)"
    using recv_bytes_wire [OF assms(1), of 0 buf 0 True ?seen dev] assms(2,3) u16_count(1) [OF assms(2)]
    by (simp add: i2c_recv_bytes_def fl)
  have less: "(word_of_nat count :: s32) <s ucast (ucast (word_of_nat count :: u32) :: u16) = False"
    using assms(2) u16_count(2) [OF assms(2)] by (simp add: word_sless_alt signed_of_nat signed_take_bit_int_eq_self)
  have "xfer_msg wire_bus ?msg True (wr True True seen (False # ?dev))
      = Some (True, word_of_nat count, ?msg\<lparr>im_buf := ds @ drop count buf\<rparr>, wr True False (?seen @ read_symbols count) dev)"
    using addr recv less by (simp add: xfer_msg_def start_wire fl wire_bus_def Let_def)
  then show ?thesis
    unfolding sdk_swi2c_read_def i2c_bit_xfer_def by (simp add: fl stop_wire wire_bus_def)
qed

theorem swi2c_read_bytes_witness:
  "sdk_swi2c_read wire_bus 0x50 [0, 0, 9] (word_of_nat 2) (wr True True [] (False # concat (map byte_bits [0xA5, 7]) @ [])) = Some (1, [0xA5, 7] @ drop 2 [0, 0, 9],
        wr True True ([] @ [Start] @ byte_symbols (addr_byte 0x50 True) @ read_symbols 2 @ [Bit False, Stop]) [])"
  using swi2c_read_bytes [of "[0xA5, 7]" 2 "[0, 0, 9]" "0x50" "[]" "[]"] by simp

text \<open>
  C31. Waiting for a clock line that a device holds low ends: \<open>SCL_H\<close> gives up after \<open>timeout\<close> more ticks.
  But \<open>i2c_waitack\<close> then reports an acknowledgement, because it returns the error code as a \<open>bool\<close>.
\<close>

theorem swi2c_stuck_clock:
  assumes "unat timeout + 1 < 2 ^ 32"
  shows "SCL_H (stuck_ops timeout) t = Some (- SDK_E_TIMEOUT, t + 2 + unat timeout)
    \<and> i2c_writeb (stuck_ops timeout) b t = Some (- SDK_E_TIMEOUT, t + 2 + unat timeout)
    \<and> i2c_waitack (stuck_ops timeout) t = Some (True, t + 2 + unat timeout)"
proof -
  have neg: "- SDK_E_TIMEOUT <s 0" by (simp add: SDK_E_TIMEOUT_def word_sless_alt)
  have id: "i2c_delay (stuck_ops timeout) t = t" "SDA_H (stuck_ops timeout) t = t" "SCL_L (stuck_ops timeout) t = t"
    "io_set_sda (stuck_ops timeout) v t = t" for t v
    by (simp_all add: i2c_delay_def SDA_H_def SCL_L_def stuck_ops_def)
  have "i2c_writeb (stuck_ops timeout) b t = Some (- SDK_E_TIMEOUT, t + 2 + unat timeout)"
    using SCL_H_stuck [OF assms, of t] neg by (simp add: i2c_writeb_def numeral_eq_Suc id)
  moreover have "i2c_waitack (stuck_ops timeout) t = Some (True, t + 2 + unat timeout)"
    using SCL_H_stuck [OF assms, of t] neg by (simp add: i2c_waitack_def id) (simp add: SDK_E_TIMEOUT_def)
  ultimately show ?thesis using SCL_H_stuck [OF assms] by simp
qed

theorem swi2c_stuck_clock_witness:
  "SCL_H (stuck_ops 10) 5 = Some (- SDK_E_TIMEOUT, 17) \<and> i2c_waitack (stuck_ops 10) 5 = Some (True, 17)"
  using swi2c_stuck_clock [of 10 5] by simp

end
