(* ===== verification/Nboot.thy ===== *)
theory Nboot
  imports Prelude
begin

text \<open>
  The boot loader: src/src/components/nboot/nboot.c, nboot.h, nboot_config_template.h
  and the flash interface src/src/components/drivers/sdk_flash.h.

  The flash driver itself belongs to the board: it is the parameter \<open>ops\<close>, a record of
  the three operations the loader calls, over a device state \<open>'f\<close>. What a NOR flash
  promises is the predicate \<open>nor_flash\<close>: a read does not change a cell, a write clears
  bits of the bytes it names and of no other, an erase fills the pages it meets with
  \<open>0xFF\<close> and leaves every other page alone - also when the operation reports a failure,
  where nothing is known of the range itself. An operation that fails half way is the
  model of a supply that breaks down there: the loader stays in its endless loop, and the
  next reset starts \<open>boot_app\<close> again.

  \<^item> \<open>nboot_state_roundtrip\<close>: what \<open>nboot_set_image_down_state\<close> stores is what
    \<open>nboot_get_image_down_state\<close> reads, and the rest of the metadata block is kept.
  \<^item> \<open>nboot_install_resumable\<close>: a boot with a downloaded image either starts the
    application with the whole image in slot A, or stops in a state from which the next
    boot installs the same image, or stops with the image installed.
\<close>

unbundle bit_operations_syntax

section \<open>Configuration\<close>

definition IMAGE_STATE_INVALID :: u8 where "IMAGE_STATE_INVALID = 0"
definition IMAGE_STATE_DOWNLOAD_OK :: u8 where "IMAGE_STATE_DOWNLOAD_OK = 1"
definition IMAGE_DOWN_MAGIC :: u32 where "IMAGE_DOWN_MAGIC = 0xa5389ace"
definition IAP_BUF_SIZE :: nat where "IAP_BUF_SIZE = 128"

lemmas nboot_consts = IMAGE_STATE_INVALID_def IMAGE_STATE_DOWNLOAD_OK_def

text \<open>The macros a project may set in its \<open>nboot_config.h\<close>.\<close>

record nboot_config =
  IMAGE_META_DATA_ADDR :: u32
  IMAGE_META_DATA_MAX_SIZE :: nat
  IMAGE_SLOT_A_START :: u32
  MAX_IMAGE_SIZE :: u32

definition nboot_defaults :: nboot_config where
  "nboot_defaults =
     \<lparr> IMAGE_META_DATA_ADDR = 0x08008000, IMAGE_META_DATA_MAX_SIZE = 0x800,
       IMAGE_SLOT_A_START = 0x08010000, MAX_IMAGE_SIZE = (64 + 128) * 1024 \<rparr>"

definition nboot_template :: nboot_config where
  "nboot_template =
     \<lparr> IMAGE_META_DATA_ADDR = 0x0801F000, IMAGE_META_DATA_MAX_SIZE = 0x80,
       IMAGE_SLOT_A_START = 0x08001000, MAX_IMAGE_SIZE = 60 * 1024 \<rparr>"

definition IMAGE_SLOT_A_END :: "nboot_config \<Rightarrow> u32" where
  "IMAGE_SLOT_A_END cfg = IMAGE_SLOT_A_START cfg + MAX_IMAGE_SIZE cfg - 1"

definition IMAGE_SLOT_B_START :: "nboot_config \<Rightarrow> u32" where
  "IMAGE_SLOT_B_START cfg = IMAGE_SLOT_A_END cfg + 1"

definition IMAGE_SLOT_B_END :: "nboot_config \<Rightarrow> u32" where
  "IMAGE_SLOT_B_END cfg = IMAGE_SLOT_B_START cfg + MAX_IMAGE_SIZE cfg - 1"

record Slot_Range =
  slot_start :: u32
  slot_end :: u32

definition nboot_get_down_slot :: "nboot_config \<Rightarrow> Slot_Range" where
  "nboot_get_down_slot cfg =
     \<lparr> slot_start = IMAGE_SLOT_B_START cfg, slot_end = IMAGE_SLOT_B_END cfg \<rparr>"

text \<open>
  The stored download state. In flash it is twelve bytes: the magic number, the state,
  three bytes of padding that are read and written with the rest, and the size.
\<close>

record IAP_Images_Down_State =
  magic_bytes :: u32
  down_state :: u8
  down_pad :: "u8 list"
  down_size :: u32

definition le32 :: "u8 list \<Rightarrow> u32" where
  "le32 bs = word_of_nat (unat (bs ! 0) + 256 * unat (bs ! 1) + 65536 * unat (bs ! 2)
     + 16777216 * unat (bs ! 3))"

definition le32_bytes :: "u32 \<Rightarrow> u8 list" where
  "le32_bytes w = [ucast w, ucast (drop_bit 8 w), ucast (drop_bit 16 w), ucast (drop_bit 24 w)]"

definition state_of_bytes :: "u8 list \<Rightarrow> IAP_Images_Down_State" where
  "state_of_bytes bs =
     \<lparr> magic_bytes = le32 (take 4 bs), down_state = bs ! 4, down_pad = take 3 (drop 5 bs),
       down_size = le32 (take 4 (drop 8 bs)) \<rparr>"

definition state_bytes :: "IAP_Images_Down_State \<Rightarrow> u8 list" where
  "state_bytes st =
     le32_bytes (magic_bytes st) @ [down_state st] @ down_pad st @ le32_bytes (down_size st)"

definition default_state :: IAP_Images_Down_State where
  "default_state =
     \<lparr> magic_bytes = IMAGE_DOWN_MAGIC, down_state = IMAGE_STATE_INVALID,
       down_pad = [0, 0, 0], down_size = 0 \<rparr>"

section \<open>The flash interface\<close>

text \<open>
  The operations of \<open>struct sdk_flash_ops\<close> the loader calls. A read returns the bytes it
  put into the buffer; a negative return value is a failure.
\<close>

record 'f sdk_flash_ops =
  op_read :: "'f \<Rightarrow> u32 \<Rightarrow> nat \<Rightarrow> s32 \<times> u8 list \<times> 'f"
  op_write :: "'f \<Rightarrow> u32 \<Rightarrow> u8 list \<Rightarrow> s32 \<times> 'f"
  op_erase :: "'f \<Rightarrow> u32 \<Rightarrow> nat \<Rightarrow> s32 \<times> 'f"

text \<open>The bytes of an address range, and the range an erase of \<open>n\<close> bytes at \<open>a\<close> clears.\<close>

definition area :: "(nat \<Rightarrow> u8) \<Rightarrow> nat \<Rightarrow> nat \<Rightarrow> u8 list" where
  "area cells a n = map (\<lambda>k. cells (a + k)) [0..<n]"

definition in_pages :: "nat \<Rightarrow> nat \<Rightarrow> nat \<Rightarrow> nat \<Rightarrow> bool" where
  "in_pages page a n x \<longleftrightarrow>
     0 < n \<and> a div page * page \<le> x \<and> x < ((a + n - 1) div page + 1) * page"

definition nor_flash :: "'f sdk_flash_ops \<Rightarrow> ('f \<Rightarrow> nat \<Rightarrow> u8) \<Rightarrow> nat \<Rightarrow> bool" where
  "nor_flash ops cell page \<longleftrightarrow> 0 < page
     \<and> (\<forall>f a n r bs f'. op_read ops f a n = (r, bs, f') \<longrightarrow>
          cell f' = cell f \<and> (\<not> r <s 0 \<longrightarrow> bs = area (cell f) (unat a) n))
     \<and> (\<forall>f a bs r f'. op_write ops f a bs = (r, f') \<longrightarrow>
          (\<forall>x. x < unat a \<or> unat a + length bs \<le> x \<longrightarrow> cell f' x = cell f x)
          \<and> (\<not> r <s 0 \<longrightarrow>
              (\<forall>k < length bs. cell f' (unat a + k) = cell f (unat a + k) AND bs ! k)))
     \<and> (\<forall>f a n r f'. op_erase ops f a n = (r, f') \<longrightarrow>
          (\<forall>x. \<not> in_pages page (unat a) n x \<longrightarrow> cell f' x = cell f x)
          \<and> (\<not> r <s 0 \<longrightarrow> (\<forall>x. in_pages page (unat a) n x \<longrightarrow> cell f' x = 0xFF)))"

section \<open>The download state\<close>

definition load_image_down_state ::
  "'f sdk_flash_ops \<Rightarrow> nboot_config \<Rightarrow> 'f \<Rightarrow> s32 \<times> IAP_Images_Down_State \<times> 'f" where
  "load_image_down_state ops cfg f =
     (let (ret, bs, f) = op_read ops f (IMAGE_META_DATA_ADDR cfg) 12 in
      if ret <s 0 then (- 1, state_of_bytes bs, f) else (0, state_of_bytes bs, f))"

definition save_image_down_state ::
  "'f sdk_flash_ops \<Rightarrow> nboot_config \<Rightarrow> 'f \<Rightarrow> IAP_Images_Down_State \<Rightarrow> s32 \<times> 'f" where
  "save_image_down_state ops cfg f st =
     (let (ret, buffer, f) = op_read ops f (IMAGE_META_DATA_ADDR cfg) (IMAGE_META_DATA_MAX_SIZE cfg) in
      if ret <s 0 then (- 1, f)
      else let buffer = state_bytes st @ drop 12 buffer;
               (ret, f) = op_erase ops f (IMAGE_META_DATA_ADDR cfg) (IMAGE_META_DATA_MAX_SIZE cfg) in
      if ret <s 0 then (- 1, f)
      else let (ret, f) = op_write ops f (IMAGE_META_DATA_ADDR cfg) buffer in
      if ret <s 0 then (- 1, f) else (0, f))"

text \<open>The two results are stored through the caller's pointers, and only when the read succeeds.\<close>

definition nboot_get_image_down_state ::
  "'f sdk_flash_ops \<Rightarrow> nboot_config \<Rightarrow> 'f \<Rightarrow> u8 \<Rightarrow> u32 \<Rightarrow> s32 \<times> u8 \<times> u32 \<times> 'f" where
  "nboot_get_image_down_state ops cfg f dstate dsize =
     (let (ret, state, f) = load_image_down_state ops cfg f in
      if ret <s 0 then (- 1, dstate, dsize, f)
      else if magic_bytes state = IMAGE_DOWN_MAGIC
      then (0, down_state state, down_size state, f)
      else (0, down_state default_state, down_size default_state, f))"

definition nboot_set_image_down_state ::
  "'f sdk_flash_ops \<Rightarrow> nboot_config \<Rightarrow> 'f \<Rightarrow> u8 \<Rightarrow> u32 \<Rightarrow> s32 \<times> 'f" where
  "nboot_set_image_down_state ops cfg f dstate dsize =
     (let (ret, state, f) = load_image_down_state ops cfg f in
      if ret <s 0 then (- 1, f)
      else let (state, need_update) =
             (if magic_bytes state = IMAGE_DOWN_MAGIC
              then if down_state state \<noteq> dstate \<or> down_size state \<noteq> dsize
                   then (state\<lparr>down_state := dstate, down_size := dsize\<rparr>, True)
                   else (state, False)
              else (state\<lparr>magic_bytes := IMAGE_DOWN_MAGIC, down_state := dstate,
                      down_size := dsize\<rparr>, True)) in
      if need_update
      then let (ret, f) = save_image_down_state ops cfg f state in
           if ret <s 0 then (- 1, f) else (0, f)
      else (0, f))"

section \<open>Starting the application\<close>

text \<open>
  \<open>JumpToApp\<close> is a sequence of writes to the core's registers; the stack pointer and the
  entry point are the first two words of the image, read from the mapped flash by \<open>rd32\<close>.
\<close>

datatype cpu_op =
    SysTick_CTRL u32 | SysTick_LOAD u32 | SysTick_VAL u32
  | PRIMASK u32 | NVIC_ICER nat u32 | NVIC_ICPR nat u32
  | MSP u32 | CONTROL u32 | Branch u32

definition JumpToApp :: "(u32 \<Rightarrow> u32) \<Rightarrow> u32 \<Rightarrow> cpu_op list" where
  "JumpToApp rd32 AppAddr =
     [SysTick_CTRL 0, SysTick_LOAD 0, SysTick_VAL 0, PRIMASK 1]
     @ concat (map (\<lambda>i. [NVIC_ICER i 0xFFFFFFFF, NVIC_ICPR i 0xFFFFFFFF]) [0..<8])
     @ [PRIMASK 0, MSP (rd32 AppAddr), CONTROL 0, Branch (rd32 (AppAddr + 4))]"

text \<open>
  The copy loop. \<open>i\<close> is a C \<open>int\<close>: the addition that passes \<open>INT_MAX\<close> is undefined and
  the value \<open>None\<close>. The result tells whether the loop ran to its end.
\<close>

function copy_image ::
  "'f sdk_flash_ops \<Rightarrow> 'f \<Rightarrow> u32 \<Rightarrow> nat \<Rightarrow> u32 \<Rightarrow> u32 \<Rightarrow> (bool \<times> 'f) option" where
  "copy_image ops f dsize i img_read_addr img_write_addr =
     (if i < unat dsize
      then let (ret, iap_buf, f) = op_read ops f img_read_addr IAP_BUF_SIZE in
           if ret <s 0 then Some (False, f)
           else let (ret, f) = op_write ops f img_write_addr iap_buf in
           if ret <s 0 then Some (False, f)
           else if 2 ^ 31 \<le> i + IAP_BUF_SIZE then None
           else copy_image ops f dsize (i + IAP_BUF_SIZE)
                  (img_read_addr + word_of_nat IAP_BUF_SIZE)
                  (img_write_addr + word_of_nat IAP_BUF_SIZE)
      else Some (True, f))"
  by pat_completeness auto
termination
  by (relation "measure (\<lambda>(ops, f, dsize, i, r, w). unat dsize - i)") (auto simp: IAP_BUF_SIZE_def)

text \<open>How \<open>boot_app\<close> ends: in the application, or in the endless loop behind \<open>err\<close>.\<close>

datatype boot_end = App "cpu_op list" | Err_Loop

definition boot_app ::
  "'f sdk_flash_ops \<Rightarrow> ('f \<Rightarrow> u32 \<Rightarrow> u32) \<Rightarrow> nboot_config \<Rightarrow> u32 \<Rightarrow> 'f \<Rightarrow> (boot_end \<times> 'f) option"
  where
  "boot_app ops rd32 cfg flash_start_addr f =
     (let (ret, dstate, dsize, f) = nboot_get_image_down_state ops cfg f 0 0 in
      if ret <s 0 then Some (Err_Loop, f)
      else if dstate = IMAGE_STATE_DOWNLOAD_OK \<and> 0 < dsize
      then let (ret, f) = op_erase ops f (IMAGE_SLOT_A_START cfg) (unat dsize) in
           if ret <s 0 then Some (Err_Loop, f)
           else do {
             (ok, f) \<leftarrow> copy_image ops f dsize 0 flash_start_addr (IMAGE_SLOT_A_START cfg);
             if \<not> ok then Some (Err_Loop, f)
             else let (ret, f) = nboot_set_image_down_state ops cfg f IMAGE_STATE_INVALID 0 in
             if ret <s 0 then Some (Err_Loop, f)
             else Some (App (JumpToApp (rd32 f) (IMAGE_SLOT_A_START cfg)), f)
           }
      else Some (App (JumpToApp (rd32 f) (IMAGE_SLOT_A_START cfg)), f))"

section \<open>What the flash keeps\<close>

lemma length_area [simp]: "length (area c a n) = n"
  by (simp add: area_def)

lemma nth_area: "k < n \<Longrightarrow> area c a n ! k = c (a + k)"
  by (simp add: area_def)

lemma area_cong: "(\<And>k. k < n \<Longrightarrow> c (a + k) = d (a + k)) \<Longrightarrow> area c a n = area d a n"
  by (simp add: area_def)

lemma area_eq_iff: "area c a n = area d b n \<longleftrightarrow> (\<forall>k < n. c (a + k) = d (b + k))"
  by (auto simp: area_def)

lemma take_area: "m \<le> n \<Longrightarrow> take m (area c a n) = area c a m"
  by (simp add: area_def take_map)

lemma nor_read:
  assumes "nor_flash ops cell page" and "op_read ops f a n = (r, bs, f')"
  shows "cell f' = cell f" and "\<not> r <s 0 \<Longrightarrow> bs = area (cell f) (unat a) n"
  using assms(1) [unfolded nor_flash_def, THEN conjunct2, THEN conjunct1, rule_format, OF assms(2)] by auto

lemma nor_write:
  assumes "nor_flash ops cell page" and "op_write ops f a bs = (r, f')"
  shows "x < unat a \<or> unat a + length bs \<le> x \<Longrightarrow> cell f' x = cell f x"
    and "\<not> r <s 0 \<Longrightarrow> k < length bs \<Longrightarrow> cell f' (unat a + k) = cell f (unat a + k) AND bs ! k"
  using assms(1) [unfolded nor_flash_def, THEN conjunct2, THEN conjunct2, THEN conjunct1, rule_format, OF assms(2)] by auto

lemma nor_erase:
  assumes "nor_flash ops cell page" and "op_erase ops f a n = (r, f')"
  shows "\<not> in_pages page (unat a) n x \<Longrightarrow> cell f' x = cell f x"
    and "\<not> r <s 0 \<Longrightarrow> in_pages page (unat a) n x \<Longrightarrow> cell f' x = 0xFF"
  using assms(1) [unfolded nor_flash_def, THEN conjunct2, THEN conjunct2, THEN conjunct2, rule_format, OF assms(2)] by simp_all

lemma nor_page: "nor_flash ops cell page \<Longrightarrow> 0 < page"
  by (simp add: nor_flash_def)

lemma in_pages_range:
  assumes "0 < page" and "a \<le> x" and "x < a + n"
  shows "in_pages page a n x"
proof -
  have lo: "a div page * page \<le> x"
    using assms(2) div_times_less_eq_dividend [of a page] by linarith
  have "a + n - 1 < ((a + n - 1) div page + 1) * page"
    using dividend_less_div_times [OF assms(1), of "a + n - 1"] by (simp add: algebra_simps)
  then have hi: "x < ((a + n - 1) div page + 1) * page" using assms(3) by linarith
  show ?thesis using lo hi assms(2,3) by (simp add: in_pages_def)
qed

lemma word_and_FF: "(0xFF :: u8) AND b = b"
proof -
  have "(0xFF :: u8) = - 1" by simp
  then show ?thesis by (simp only: and.left_neutral)
qed

section \<open>The stored state\<close>

lemma base256_digits:
  "(n :: nat) < 4294967296 \<Longrightarrow> n mod 256 + 256 * (n div 256 mod 256) + 65536 * (n div 65536 mod 256)
      + 16777216 * (n div 16777216 mod 256) = n"
proof -
  assume n: "n < 4294967296"
  have 1: "n = n mod 256 + 256 * (n div 256)" by simp
  have 2: "n div 256 = n div 256 mod 256 + 256 * (n div 65536)"
    using mod_mult_div_eq [of "n div 256" 256] by (simp add: div_mult2_eq [symmetric])
  have 3: "n div 65536 = n div 65536 mod 256 + 256 * (n div 16777216)"
    using mod_mult_div_eq [of "n div 65536" 256] by (simp add: div_mult2_eq [symmetric])
  have "n div 16777216 < 256" using n by (simp add: less_mult_imp_div_less)
  then have 4: "n div 16777216 mod 256 = n div 16777216" by simp
  show ?thesis unfolding 4 using 1 2 3 by linarith
qed

lemma le32_roundtrip [simp]: "le32 (le32_bytes w) = w"
proof -
  have bytes: "unat (le32_bytes w ! 0) = unat w mod 256" "unat (le32_bytes w ! 1) = unat w div 256 mod 256"
    "unat (le32_bytes w ! 2) = unat w div 65536 mod 256"
    "unat (le32_bytes w ! 3) = unat w div 16777216 mod 256"
    by (simp_all add: le32_bytes_def unat_ucast_mod drop_bit_eq_div unat_div)
  have "unat w < 4294967296" by simp
  then show ?thesis unfolding le32_def bytes by (simp add: base256_digits del: of_nat_add of_nat_mult)
qed

lemma length_le32_bytes [simp]: "length (le32_bytes w) = 4"
  by (simp add: le32_bytes_def)

lemma state_roundtrip:
  "length (down_pad st) = 3 \<Longrightarrow> state_of_bytes (state_bytes st @ rest) = st"
  by (simp add: state_of_bytes_def state_bytes_def nth_append)

lemma length_state_bytes: "length (down_pad st) = 3 \<Longrightarrow> length (state_bytes st) = 12"
  by (simp add: state_bytes_def)

text \<open>The state and size the loader works with, in a flash with these cells.\<close>

definition stored_state :: "nboot_config \<Rightarrow> (nat \<Rightarrow> u8) \<Rightarrow> u8 \<times> u32" where
  "stored_state cfg c =
     (let st = state_of_bytes (area c (unat (IMAGE_META_DATA_ADDR cfg)) 12) in
      if magic_bytes st = IMAGE_DOWN_MAGIC then (down_state st, down_size st)
      else (IMAGE_STATE_INVALID, 0))"

lemma load_state:
  assumes "nor_flash ops cell page" and "load_image_down_state ops cfg f = (r, st, f')"
  shows "cell f' = cell f"
    and "\<not> r <s 0 \<Longrightarrow> st = state_of_bytes (area (cell f) (unat (IMAGE_META_DATA_ADDR cfg)) 12)"
  using assms(2) nor_read [OF assms(1)]
  by (auto simp: load_image_down_state_def split: prod.splits if_splits)

lemma get_state:
  assumes "nor_flash ops cell page"
    and "nboot_get_image_down_state ops cfg f s0 z0 = (r, s, z, f')"
  shows "cell f' = cell f" and "\<not> r <s 0 \<Longrightarrow> stored_state cfg (cell f) = (s, z)"
  using assms(2) load_state [OF assms(1), of cfg f]
  by (auto simp: nboot_get_image_down_state_def stored_state_def default_state_def Let_def
      split: prod.splits if_splits)

abbreviation meta_block :: "nboot_config \<Rightarrow> nat \<Rightarrow> nat \<Rightarrow> bool" where
  "meta_block cfg page \<equiv>
     in_pages page (unat (IMAGE_META_DATA_ADDR cfg)) (IMAGE_META_DATA_MAX_SIZE cfg)"

lemma save_state:
  assumes nor: "nor_flash ops cell page" and size: "12 \<le> IMAGE_META_DATA_MAX_SIZE cfg"
    and pad: "length (down_pad st) = 3"
    and save: "save_image_down_state ops cfg f st = (r, f')"
  shows "\<not> meta_block cfg page x \<Longrightarrow> cell f' x = cell f x"
    and "\<not> r <s 0 \<Longrightarrow> area (cell f') (unat (IMAGE_META_DATA_ADDR cfg)) (IMAGE_META_DATA_MAX_SIZE cfg)
       = state_bytes st @ drop 12
           (area (cell f) (unat (IMAGE_META_DATA_ADDR cfg)) (IMAGE_META_DATA_MAX_SIZE cfg))"
proof -
  define a n where "a = IMAGE_META_DATA_ADDR cfg" and "n = IMAGE_META_DATA_MAX_SIZE cfg"
  obtain r1 buf f1 where rd: "op_read ops f a n = (r1, buf, f1)" by (metis prod_cases3)
  obtain r2 f2 where er: "op_erase ops f1 a n = (r2, f2)" by fastforce
  obtain r3 f3 where wr: "op_write ops f2 a (state_bytes st @ drop 12 buf) = (r3, f3)" by fastforce
  have step: "(r, f') = (if r1 <s 0 then (- 1, f1) else if r2 <s 0 then (- 1, f2)
      else if r3 <s 0 then (- 1, f3) else (0, f3))"
    using save rd er wr
    by (cases "r1 <s 0"; cases "r2 <s 0"; cases "r3 <s 0")
      (simp_all add: save_image_down_state_def a_def n_def)
  note c1 = nor_read [OF nor rd]
  note c2 = nor_erase [OF nor er]
  note c3 = nor_write [OF nor wr]
  have len: "length (state_bytes st @ drop 12 buf) = n" if "\<not> r1 <s 0"
    using c1(2) [OF that] size by (simp add: length_state_bytes [OF pad] n_def)
  have out: "in_pages page (unat a) n x" if "unat a \<le> x" "x < unat a + n" for x
    using in_pages_range [OF nor_page [OF nor] that] .
  show "cell f' x = cell f x" if "\<not> meta_block cfg page x"
  proof -
    have x: "\<not> in_pages page (unat a) n x" using that by (simp add: a_def n_def)
    then have "x < unat a \<or> unat a + n \<le> x" using out not_le by blast
    then show ?thesis
      using step c1(1) c2(1) [OF x] c3(1) [of x] len by (auto split: if_splits)
  qed
  assume "\<not> r <s 0"
  then have ok: "\<not> r1 <s 0" "\<not> r2 <s 0" "\<not> r3 <s 0" "f' = f3"
    using step by (auto split: if_splits)
  have "cell f' (unat a + k) = (state_bytes st @ drop 12 buf) ! k" if "k < n" for k
    using c3(2) [OF ok(3), of k] c2(2) [OF ok(2) out [of "unat a + k"]] that len [OF ok(1)] ok(4)
    by (simp add: word_and_FF)
  then have "area (cell f') (unat a) n = state_bytes st @ drop 12 buf"
    using len [OF ok(1)] by (intro nth_equalityI) (simp_all add: nth_area)
  then show "area (cell f') (unat (IMAGE_META_DATA_ADDR cfg)) (IMAGE_META_DATA_MAX_SIZE cfg)
       = state_bytes st @ drop 12
           (area (cell f) (unat (IMAGE_META_DATA_ADDR cfg)) (IMAGE_META_DATA_MAX_SIZE cfg))"
    using c1(2) [OF ok(1)] by (simp add: a_def n_def)
qed

lemma length_state_pad: "length (down_pad (state_of_bytes (area c a 12))) = 3"
  by (simp add: state_of_bytes_def)

lemma set_state:
  assumes nor: "nor_flash ops cell page" and size: "12 \<le> IMAGE_META_DATA_MAX_SIZE cfg"
    and set: "nboot_set_image_down_state ops cfg f s z = (r, f')"
  shows "\<not> meta_block cfg page x \<Longrightarrow> cell f' x = cell f x"
    and "\<not> r <s 0 \<Longrightarrow> stored_state cfg (cell f') = (s, z)"
    and "\<not> r <s 0 \<Longrightarrow> 12 \<le> k \<Longrightarrow> k < IMAGE_META_DATA_MAX_SIZE cfg \<Longrightarrow>
      cell f' (unat (IMAGE_META_DATA_ADDR cfg) + k) = cell f (unat (IMAGE_META_DATA_ADDR cfg) + k)"
proof -
  define a n where "a = IMAGE_META_DATA_ADDR cfg" and "n = IMAGE_META_DATA_MAX_SIZE cfg"
  obtain r1 st f1 where ld: "load_image_down_state ops cfg f = (r1, st, f1)" by (metis prod_cases3)
  note c1 = load_state [OF nor ld]
  define st' where "st' = (if magic_bytes st = IMAGE_DOWN_MAGIC
      then st\<lparr>down_state := s, down_size := z\<rparr>
      else st\<lparr>magic_bytes := IMAGE_DOWN_MAGIC, down_state := s, down_size := z\<rparr>)"
  have st': "magic_bytes st' = IMAGE_DOWN_MAGIC" "down_state st' = s" "down_size st' = z"
    "down_pad st' = down_pad st" by (simp_all add: st'_def)
  obtain r2 f2 where sv: "save_image_down_state ops cfg f1 st' = (r2, f2)" by fastforce
  have cases: "r1 <s 0 \<and> r = - 1 \<and> f' = f1
      \<or> \<not> r1 <s 0 \<and> f' = f1 \<and> magic_bytes st = IMAGE_DOWN_MAGIC \<and> down_state st = s \<and> down_size st = z
      \<or> \<not> r1 <s 0 \<and> f' = f2 \<and> r = (if r2 <s 0 then - 1 else 0)"
    using set ld sv
    by (auto simp: nboot_set_image_down_state_def st'_def split: prod.splits if_splits)
  note rest = c1 st' sv cases
  have pad: "length (down_pad st') = 3" if "\<not> r1 <s 0"
    using c1(2) [OF that] st'(4) length_state_pad by simp
  note c2 = save_state [OF nor size pad sv]
  show "cell f' x = cell f x" if "\<not> meta_block cfg page x"
    using cases c1(1) c2(1) [OF _ that] by auto
  assume ok: "\<not> r <s 0"
  have minus: "(- 1 :: s32) <s 0" by (simp add: word_sless_alt)
  show "stored_state cfg (cell f') = (s, z)"
  proof (cases "f' = f1 \<and> magic_bytes st = IMAGE_DOWN_MAGIC \<and> down_state st = s \<and> down_size st = z")
    case True
    then show ?thesis using ok cases c1 minus by (auto simp: stored_state_def Let_def split: if_splits)
  next
    case False
    then have b: "\<not> r1 <s 0" "f' = f2" "\<not> r2 <s 0" using cases ok minus by (auto split: if_splits)
    have "area (cell f') (unat a) 12 = take 12 (area (cell f') (unat a) n)"
      using size by (simp add: take_area n_def)
    also have "\<dots> = state_bytes st'"
      using c2(2) [OF b(1,3)] b(2) length_state_bytes [OF pad [OF b(1)]] by (simp add: a_def n_def)
    finally show ?thesis
      using state_roundtrip [OF pad [OF b(1)], of "[]"] st' by (simp add: stored_state_def a_def)
  qed
  assume k: "12 \<le> k" "k < IMAGE_META_DATA_MAX_SIZE cfg"
  show "cell f' (unat (IMAGE_META_DATA_ADDR cfg) + k) = cell f (unat (IMAGE_META_DATA_ADDR cfg) + k)"
  proof (cases "f' = f1")
    case True
    then show ?thesis using c1(1) by simp
  next
    case False
    then have b: "\<not> r1 <s 0" "f' = f2" "\<not> r2 <s 0" using cases ok minus by (auto split: if_splits)
    have "cell f' (unat a + k) = area (cell f') (unat a) n ! k"
      using k by (simp add: nth_area n_def)
    also have "\<dots> = drop 12 (area (cell f1) (unat a) n) ! (k - 12)"
      using c2(2) [OF b(1,3)] b(2) length_state_bytes [OF pad [OF b(1)]] k
      by (simp add: a_def n_def nth_append)
    also have "\<dots> = cell f1 (unat a + k)" using k by (simp add: nth_area n_def)
    finally show ?thesis using c1(1) by (simp add: a_def)
  qed
qed

section \<open>Copying the image\<close>

declare copy_image.simps [simp del]

text \<open>\<open>k\<close> is the number of blocks that are left.\<close>

lemma copy_image_blocks:
  assumes nor: "nor_flash ops cell page" and "unat n < 2 ^ 31 - 128"
    and "unat n - i \<le> 128 * k" and "k \<noteq> 0 \<longrightarrow> 128 * k < unat n - i + 128"
    and "unat r + 128 * k < 2 ^ 32" and "unat w + 128 * k < 2 ^ 32"
    and "\<And>x. unat w \<le> x \<Longrightarrow> x < unat w + 128 * k \<Longrightarrow> cell f x = 0xFF"
    and "unat r + 128 * k \<le> unat w \<or> unat w + 128 * k \<le> unat r"
  shows "\<exists>fin f'. copy_image ops f n i r w = Some (fin, f')
     \<and> (\<forall>x. x < unat w \<or> unat w + 128 * k \<le> x \<longrightarrow> cell f' x = cell f x)
     \<and> (fin \<longrightarrow> (\<forall>j < 128 * k. cell f' (unat w + j) = cell f (unat r + j)))"
  using assms(2-)
proof (induction k arbitrary: f i r w)
  case 0
  then show ?case by (subst copy_image.simps) (auto intro: exI [of _ True])
next
  case (Suc k)
  have i: "i < unat n" using Suc.prems(3) by auto
  have small: "\<not> 2 ^ 31 \<le> i + IAP_BUF_SIZE" using Suc.prems(1) i by (simp add: IAP_BUF_SIZE_def)
  obtain r1 buf f1 where rd: "op_read ops f r IAP_BUF_SIZE = (r1, buf, f1)" by (metis prod_cases3)
  obtain r2 f2 where wr: "op_write ops f1 w buf = (r2, f2)" by fastforce
  note c1 = nor_read [OF nor rd] note c2 = nor_write [OF nor wr]
  consider "r1 <s 0" | "\<not> r1 <s 0" "r2 <s 0" | "\<not> r1 <s 0" "\<not> r2 <s 0" by blast
  then show ?case
  proof cases
    case 1
    then show ?thesis using i rd c1(1) by (subst copy_image.simps) (auto intro: exI [of _ False])
  next
    case 2
    then have "length buf = 128" using c1(2) by (simp add: IAP_BUF_SIZE_def)
    then show ?thesis using 2 i rd wr c1(1) c2(1) by (subst copy_image.simps) auto
  next
    case 3
    then have len: "length buf = 128" and buf: "\<And>j. j < 128 \<Longrightarrow> buf ! j = cell f (unat r + j)"
      using c1(2) by (simp_all add: IAP_BUF_SIZE_def nth_area)
    define r' w' where "r' = r + word_of_nat IAP_BUF_SIZE" and "w' = w + word_of_nat IAP_BUF_SIZE"
    have step: "copy_image ops f n i r w = copy_image ops f2 n (i + IAP_BUF_SIZE) r' w'"
      using 3 i rd wr small by (subst copy_image.simps) (simp add: r'_def w'_def)
    have r': "unat r' = unat r + 128" and w': "unat w' = unat w + 128"
      using Suc.prems(4,5) by (simp_all add: r'_def w'_def IAP_BUF_SIZE_def unat_word_ariths)
    have out2: "cell f2 x = cell f x" if "x < unat w \<or> unat w + 128 \<le> x" for x
      using c2(1) [of x] that len c1(1) by simp
    have in2: "cell f2 (unat w + j) = cell f (unat r + j)" if "j < 128" for j
      using c2(2) [OF 3(2), of j] that len buf Suc.prems(6) [of "unat w + j"] c1(1)
      by (simp add: word_and_FF)
    have "\<exists>fin f'. copy_image ops f2 n (i + IAP_BUF_SIZE) r' w' = Some (fin, f')
       \<and> (\<forall>x. x < unat w' \<or> unat w' + 128 * k \<le> x \<longrightarrow> cell f' x = cell f2 x)
       \<and> (fin \<longrightarrow> (\<forall>j < 128 * k. cell f' (unat w' + j) = cell f2 (unat r' + j)))"
      using Suc.prems(1-5,7) out2 Suc.prems(6)
      by (intro Suc.IH) (auto simp: r' w' IAP_BUF_SIZE_def)
    then obtain fin f' where ih: "copy_image ops f2 n (i + IAP_BUF_SIZE) r' w' = Some (fin, f')"
      "\<And>x. x < unat w + 128 \<or> unat w + 128 + 128 * k \<le> x \<Longrightarrow> cell f' x = cell f2 x"
      "\<And>j. fin \<Longrightarrow> j < 128 * k \<Longrightarrow> cell f' (unat w + 128 + j) = cell f2 (unat r + 128 + j)"
      unfolding r' w' by blast
    have "cell f' x = cell f x" if "x < unat w \<or> unat w + 128 * Suc k \<le> x" for x
      using that ih(2) [of x] out2 [of x] by auto
    moreover have "cell f' (unat w + j) = cell f (unat r + j)" if "fin" "j < 128 * Suc k" for j
    proof (cases "j < 128")
      case True
      then show ?thesis using ih(2) in2 by simp
    next
      case False
      then show ?thesis
        using ih(3) [OF that(1), of "j - 128"] that(2) out2 [of "unat r + j"] Suc.prems(7) by auto
    qed
    ultimately show ?thesis unfolding step ih(1) by auto
  qed
qed

section \<open>Properties\<close>

text \<open>
  How the flash is laid out for an image of \<open>n\<close> bytes whose download starts at \<open>src\<close>: slot A
  starts on a page and pages are whole blocks of 128 bytes; the pages the loader erases in
  slot A hold neither the download nor the metadata, and the pages of the metadata block
  hold no byte of the image. The last block is written whole, so slot and download are
  reserved up to 127 bytes past the image.
\<close>

definition apart :: "nat \<Rightarrow> nat \<Rightarrow> nat \<Rightarrow> nat \<Rightarrow> bool" where
  "apart a m b n \<longleftrightarrow> a + m \<le> b \<or> b + n \<le> a"

definition nboot_layout :: "nboot_config \<Rightarrow> nat \<Rightarrow> u32 \<Rightarrow> nat \<Rightarrow> bool" where
  "nboot_layout cfg page src n \<longleftrightarrow>
     (let a = unat (IMAGE_SLOT_A_START cfg); m = unat (IMAGE_META_DATA_ADDR cfg);
          ms = IMAGE_META_DATA_MAX_SIZE cfg; s = unat src;
          slot_end = ((a + n - 1) div page + 1) * page;
          meta_start = m div page * page; meta_end = ((m + ms - 1) div page + 1) * page
      in page mod 128 = 0 \<and> a mod page = 0 \<and> n < 2 ^ 31 - 128
       \<and> a + n + 128 \<le> 2 ^ 32 \<and> s + n + 128 \<le> 2 ^ 32 \<and> 12 \<le> ms
       \<and> apart a (slot_end - a) s (n + 128) \<and> apart a (slot_end - a) m 12
       \<and> apart meta_start (meta_end - meta_start) a n)"

text \<open>The blocks of the image fit into the pages erased for it.\<close>

lemma multiples_of_128: "128 * a + n \<le> 128 * e \<Longrightarrow> 128 * k < n + 128 \<Longrightarrow> a + k \<le> (e :: nat)"
  by linarith

lemma blocks_in_pages:
  assumes "0 < page" and "page mod 128 = 0" and "a mod page = 0" and "128 * k < n + (128 :: nat)"
    and "0 < n"
  shows "a + 128 * k \<le> ((a + n - 1) div page + 1) * page"
proof -
  define e where "e = ((a + n - 1) div page + 1) * page"
  have "a + n - 1 < e"
    using dividend_less_div_times [OF assms(1), of "a + n - 1"] by (simp add: e_def algebra_simps)
  then have e: "a + n \<le> e" by linarith
  have "128 dvd page" "page dvd a" using assms(2,3) by (simp_all add: mod_eq_0_iff_dvd)
  then have "128 dvd e" "128 dvd a" by (auto simp: e_def intro: dvd_trans)
  then obtain e' a' where *: "e = 128 * e'" "a = 128 * a'" by (auto elim!: dvdE)
  have "a' + k \<le> e'" using multiples_of_128 [of a' n e' k] e assms(4) by (simp add: *)
  then have "a + 128 * k \<le> e" by (simp add: *)
  then show ?thesis by (simp only: e_def)
qed

text \<open>
  C35. What \<open>nboot_set_image_down_state\<close> stored is what \<open>nboot_get_image_down_state\<close> reads on a
  NOR flash, whatever was in the metadata block before; the bytes of the block behind the
  twelve of the state, and every byte outside the pages of the block, are kept.
\<close>

theorem nboot_state_roundtrip:
  assumes "nor_flash ops cell page" and "12 \<le> IMAGE_META_DATA_MAX_SIZE cfg"
    and "nboot_set_image_down_state ops cfg f s z = (0, f1)"
    and "nboot_get_image_down_state ops cfg f1 s0 z0 = (0, s', z', f2)"
  shows "s' = s \<and> z' = z
     \<and> (\<forall>x. \<not> meta_block cfg page x
          \<or> unat (IMAGE_META_DATA_ADDR cfg) + 12 \<le> x
            \<and> x < unat (IMAGE_META_DATA_ADDR cfg) + IMAGE_META_DATA_MAX_SIZE cfg
          \<longrightarrow> cell f2 x = cell f x)"
proof -
  note set = set_state [OF assms(1-3)] and get = get_state [OF assms(1,4)]
  have ok: "\<not> (0 :: s32) <s 0" by simp
  have "cell f1 x = cell f x"
    if "unat (IMAGE_META_DATA_ADDR cfg) + 12 \<le> x"
      "x < unat (IMAGE_META_DATA_ADDR cfg) + IMAGE_META_DATA_MAX_SIZE cfg" for x
    using set(3) [OF ok, of "x - unat (IMAGE_META_DATA_ADDR cfg)"] that by auto
  then show ?thesis using set(1) set(2) [OF ok] get(1) get(2) [OF ok] by auto
qed

text \<open>
  C6. Installing survives a failure. A boot that finds a complete download runs to an end
  (the copy loop does not run forever and no \<open>int\<close> overflows). It ends in the application,
  with the whole image in slot A and the download state cleared; or in the error loop, with
  either the download and its state untouched, so that the next boot starts over, or the
  image already complete in slot A.
\<close>

theorem nboot_install_resumable:
  assumes "nor_flash ops cell page" and "nboot_layout cfg page src (unat n)"
    and "stored_state cfg (cell f) = (IMAGE_STATE_DOWNLOAD_OK, n)" and "0 < n"
  shows "\<exists>how f'. boot_app ops rd32 cfg src f = Some (how, f')
     \<and> (let installed = (area (cell f') (unat (IMAGE_SLOT_A_START cfg)) (unat n)
               = area (cell f) (unat src) (unat n));
            pending = (stored_state cfg (cell f') = (IMAGE_STATE_DOWNLOAD_OK, n)
               \<and> area (cell f') (unat src) (unat n) = area (cell f) (unat src) (unat n))
        in case how of
             App regs \<Rightarrow> installed \<and> stored_state cfg (cell f') = (IMAGE_STATE_INVALID, 0)
               \<and> regs = JumpToApp (rd32 f') (IMAGE_SLOT_A_START cfg)
           | Err_Loop \<Rightarrow> installed \<or> pending)"
proof -
  define a m where "a = unat (IMAGE_SLOT_A_START cfg)" and "m = unat (IMAGE_META_DATA_ADDR cfg)"
  define slot_end where "slot_end = ((a + unat n - 1) div page + 1) * page"
  note nor = assms(1)
  have lay: "page mod 128 = 0" "a mod page = 0" "unat n < 2 ^ 31 - 128" "a + unat n + 128 \<le> 2 ^ 32"
    "unat src + unat n + 128 \<le> 2 ^ 32" "12 \<le> IMAGE_META_DATA_MAX_SIZE cfg"
    "apart a (slot_end - a) (unat src) (unat n + 128)" "apart a (slot_end - a) m 12"
    and meta_a: "\<And>x. a \<le> x \<Longrightarrow> x < a + unat n \<Longrightarrow> \<not> meta_block cfg page x"
    using assms(2) unfolding nboot_layout_def Let_def a_def [symmetric] m_def [symmetric]
      slot_end_def [symmetric]
    by (auto simp: apart_def in_pages_def m_def)
  have n0: "0 < unat n" using assms(4) by (simp add: word_less_nat_alt)
  have pages: "in_pages page a (unat n) x \<longleftrightarrow> a \<le> x \<and> x < slot_end" for x
    using n0 lay(2) by (auto simp: in_pages_def slot_end_def)
  define k where "k = (unat n + 127) div 128"
  have k: "unat n \<le> 128 * k" "128 * k < unat n + 128" by (simp_all add: k_def)
  have fits: "a + 128 * k \<le> slot_end"
    unfolding slot_end_def using blocks_in_pages [OF nor_page [OF nor] lay(1,2) k(2) n0] .
  obtain r0 s0 z0 f0 where get: "nboot_get_image_down_state ops cfg f 0 0 = (r0, s0, z0, f0)"
    by (metis prod_cases4)
  obtain r1 f1 where er: "op_erase ops f0 (IMAGE_SLOT_A_START cfg) (unat n) = (r1, f1)" by fastforce
  note c0 = get_state [OF nor get] and c1 = nor_erase [OF nor er, folded a_def]
  have keep1: "cell f1 x = cell f x" if "x < a \<or> slot_end \<le> x" for x
  proof -
    have "\<not> in_pages page a (unat n) x" using that by (auto simp only: pages)
    then show ?thesis using c1(1) c0(1) by simp
  qed
  have pend: "stored_state cfg (cell g) = (IMAGE_STATE_DOWNLOAD_OK, n)
      \<and> area (cell g) (unat src) (unat n) = area (cell f) (unat src) (unat n)"
    if "\<And>x. x < a \<or> slot_end \<le> x \<Longrightarrow> cell g x = cell f x" for g
  proof -
    have "area (cell g) m 12 = area (cell f) m 12"
      using that lay(8) by (intro area_cong) (auto simp: apart_def)
    moreover have "area (cell g) (unat src) (unat n) = area (cell f) (unat src) (unat n)"
      using that lay(7) by (intro area_cong) (auto simp: apart_def)
    ultimately show ?thesis using assms(3) by (simp add: stored_state_def m_def)
  qed
  consider "r0 <s 0" | "\<not> r0 <s 0" "r1 <s 0" | "\<not> r0 <s 0" "\<not> r1 <s 0" by blast
  then show ?thesis
  proof cases
    case 1
    then show ?thesis using get pend [of f0] c0(1) by (simp add: boot_app_def)
  next
    case 2
    then have "s0 = IMAGE_STATE_DOWNLOAD_OK" "z0 = n" using c0(2) assms(3) by auto
    then show ?thesis using 2 get er pend [OF keep1] assms(4) by (simp add: boot_app_def)
  next
    case 3
    then have sz: "s0 = IMAGE_STATE_DOWNLOAD_OK" "z0 = n" using c0(2) assms(3) by auto
    have "\<exists>fin f2. copy_image ops f1 n 0 src (IMAGE_SLOT_A_START cfg) = Some (fin, f2)
       \<and> (\<forall>x. x < unat (IMAGE_SLOT_A_START cfg) \<or> unat (IMAGE_SLOT_A_START cfg) + 128 * k \<le> x
            \<longrightarrow> cell f2 x = cell f1 x)
       \<and> (fin \<longrightarrow> (\<forall>j < 128 * k. cell f2 (unat (IMAGE_SLOT_A_START cfg) + j) = cell f1 (unat src + j)))"
      using lay k c1(2) [OF 3(2)] pages fits
      by (intro copy_image_blocks [OF nor]) (auto simp: a_def [symmetric] apart_def)
    then obtain fin f2 where cp: "copy_image ops f1 n 0 src (IMAGE_SLOT_A_START cfg) = Some (fin, f2)"
      "\<And>x. x < a \<or> a + 128 * k \<le> x \<Longrightarrow> cell f2 x = cell f1 x"
      "\<And>j. fin \<Longrightarrow> j < 128 * k \<Longrightarrow> cell f2 (a + j) = cell f1 (unat src + j)"
      unfolding a_def by blast
    show ?thesis
    proof (cases fin)
      case False
      have "stored_state cfg (cell f2) = (IMAGE_STATE_DOWNLOAD_OK, n)
          \<and> area (cell f2) (unat src) (unat n) = area (cell f) (unat src) (unat n)"
      proof (rule pend)
        fix x assume "x < a \<or> slot_end \<le> x"
        then show "cell f2 x = cell f x" using cp(2) [of x] keep1 [of x] fits by auto
      qed
      then show ?thesis using False 3 get er cp(1) sz assms(4) by (simp add: boot_app_def)
    next
      case True
      obtain r3 f3 where st: "nboot_set_image_down_state ops cfg f2 IMAGE_STATE_INVALID 0 = (r3, f3)"
        by fastforce
      note c3 = set_state [OF nor lay(6) st]
      have "cell f3 (a + j) = cell f (unat src + j)" if "j < unat n" for j
        using c3(1) [OF meta_a, of "a + j"] cp(3) [OF True, of j] that k(1) lay(7)
          keep1 [of "unat src + j"] by (auto simp: apart_def)
      then have inst: "area (cell f3) a (unat n) = area (cell f) (unat src) (unat n)"
        by (simp add: area_eq_iff)
      show ?thesis
        using True 3 get er cp(1) sz assms(4) st inst c3(2)
        by (cases "r3 <s 0") (simp_all add: boot_app_def a_def)
    qed
  qed
qed

section \<open>A flash for the witnesses\<close>

text \<open>
  A simulated flash with pages of 1024 bytes: its cells, and the number of writes and
  erases it survives. When that is used up an operation fails and changes nothing.
\<close>

definition sim_flash :: "(nat \<times> (nat \<Rightarrow> u8)) sdk_flash_ops" where
  "sim_flash =
     \<lparr> op_read = (\<lambda>f a n. (0, area (snd f) (unat a) n, f)),
       op_write = (\<lambda>(life, c) a bs. if life = 0 then (- 1, (life, c))
          else (0, (life - 1, \<lambda>x. if unat a \<le> x \<and> x < unat a + length bs
                                 then c x AND bs ! (x - unat a) else c x))),
       op_erase = (\<lambda>(life, c) a n. if life = 0 then (- 1, (life, c))
          else (0, (life - 1, \<lambda>x. if in_pages 1024 (unat a) n x then 0xFF else c x))) \<rparr>"

lemma sim_flash_nor: "nor_flash sim_flash snd 1024"
  by (auto simp: nor_flash_def sim_flash_def split: if_splits)

text \<open>An image of 300 bytes is waiting in slot B of the template configuration.\<close>

definition demo_cells :: "nat \<Rightarrow> u8" where
  "demo_cells x =
     (let m = 0x0801F000; h = le32_bytes IMAGE_DOWN_MAGIC @ [IMAGE_STATE_DOWNLOAD_OK, 0, 0, 0]
        @ le32_bytes 300
      in if m \<le> x \<and> x < m + 12 then h ! (x - m)
         else if 0x08010000 \<le> x \<and> x < 0x08010000 + 300 then word_of_nat x else 0xFF)"

lemma demo_stored: "stored_state nboot_template demo_cells = (IMAGE_STATE_DOWNLOAD_OK, 300)"
proof -
  have "area demo_cells 0x0801F000 12 = state_bytes
      \<lparr> magic_bytes = IMAGE_DOWN_MAGIC, down_state = IMAGE_STATE_DOWNLOAD_OK,
        down_pad = [0, 0, 0], down_size = 300 \<rparr>"
    by (simp add: area_def demo_cells_def state_bytes_def le32_bytes_def upt_rec)
  then show ?thesis
    using state_roundtrip [of "\<lparr> magic_bytes = IMAGE_DOWN_MAGIC,
        down_state = IMAGE_STATE_DOWNLOAD_OK, down_pad = [0, 0, 0], down_size = 300 \<rparr>" "[]"]
    by (simp add: stored_state_def nboot_template_def)
qed

lemma demo_layout: "nboot_layout nboot_template 1024 0x08010000 300"
  by (simp add: nboot_layout_def nboot_template_def apart_def)

theorem nboot_install_resumable_witness:
  "\<exists>how f'. boot_app sim_flash (\<lambda>f a. le32 (area (snd f) (unat a) 4)) nboot_template 0x08010000
       (2, demo_cells) = Some (how, f')
     \<and> (how = Err_Loop \<longrightarrow>
          area (snd f') 0x08001000 300 = area demo_cells 0x08010000 300
          \<or> stored_state nboot_template (snd f') = (IMAGE_STATE_DOWNLOAD_OK, 300))"
proof -
  have slot: "unat (IMAGE_SLOT_A_START nboot_template) = 0x08001000"
    and lay: "nboot_layout nboot_template 1024 0x08010000 (unat (300 :: u32))"
    using demo_layout by (simp_all add: nboot_template_def)
  show ?thesis
    using nboot_install_resumable [OF sim_flash_nor lay, of "(2, demo_cells)"
        "\<lambda>f a. le32 (area (snd f) (unat a) 4)"] demo_stored
    by (auto simp: Let_def slot)
qed

theorem nboot_state_roundtrip_witness:
  "\<exists>f1 f2 s z. nboot_set_image_down_state sim_flash nboot_template (9, \<lambda>_. 0xFF) 2 77 = (0, f1)
     \<and> nboot_get_image_down_state sim_flash nboot_template f1 0 0 = (0, s, z, f2)
     \<and> s = 2 \<and> z = 77"
proof -
  define c where "c = (\<lambda>_ :: nat. 0xFF :: u8)"
  obtain r f1 where st: "nboot_set_image_down_state sim_flash nboot_template (9, c) 2 77 = (r, f1)"
    by (metis surj_pair)
  then have r: "r = 0"
    by (auto simp: nboot_set_image_down_state_def load_image_down_state_def
        save_image_down_state_def sim_flash_def Let_def split: if_splits)
  obtain r2 s z f2 where gt: "nboot_get_image_down_state sim_flash nboot_template f1 0 0 = (r2, s, z, f2)"
    by (metis prod_cases4)
  then have r2: "r2 = 0"
    by (auto simp: nboot_get_image_down_state_def load_image_down_state_def sim_flash_def Let_def
        split: if_splits)
  have "12 \<le> IMAGE_META_DATA_MAX_SIZE nboot_template" by (simp add: nboot_template_def)
  then show ?thesis
    using nboot_state_roundtrip [OF sim_flash_nor _ st [unfolded r] gt [unfolded r2]] st gt r r2
    by (auto simp: c_def)
qed

end
