(* ===== verification/Vsnprintf.thy ===== *)
theory Vsnprintf
  imports Prelude
begin

text \<open>
  The formatted output of the SDK's small C library:
  src/src/components/libc/vsnprintf.c and snprintf.c.

  The definitions \<open>format_int\<close>, \<open>vs_step\<close>, \<open>vs_loop\<close> and \<open>vsnprintf\<close> follow the C code: the
  output is a caller's buffer with a write position \<open>q\<close>, a count \<open>o\<close> of type \<open>size_t\<close> that
  goes on when the buffer is full, and numbers are written from right to left. Variadic
  arguments are a list of typed values; taking one of another type, or one that is not
  there, is undefined behaviour and the value \<open>None\<close>, and so are an \<open>int\<close> that
  overflows and a write outside the buffer.

  \<open>format_text\<close> is the abstract specification: the grammar of a conversion (flags, width,
  precision, length modifiers, conversion character) is read with \<open>takeWhile\<close>, and the
  text of each conversion is put together from its parts with no buffer at all.

  \<^item> \<open>vsnprintf_text\<close>: the buffer holds the specified text, cut to the buffer and always
    terminated, the return value is the full length, and no cell behind is touched.
  \<^item> \<open>snprintf_decimal\<close>: \<open>%d\<close> writes the decimal text of the number, which reads back as
    the number.
\<close>

unbundle bit_operations_syntax

section \<open>Arguments, flags and ranks\<close>

type_synonym u64 = "64 word"

datatype va_arg =
    VA_int u32 | VA_long u32 | VA_llong u64
  | VA_ptr u32
  | VA_str "string option"   \<comment> \<open>the array the pointer points to; \<open>None\<close> is the null pointer\<close>
  | VA_count nat             \<comment> \<open>a pointer for \<open>%n\<close>, by the name of its target\<close>

definition FL_ZERO :: u8 where "FL_ZERO = 0x01"
definition FL_MINUS :: u8 where "FL_MINUS = 0x02"
definition FL_PLUS :: u8 where "FL_PLUS = 0x04"
definition FL_TICK :: u8 where "FL_TICK = 0x08"
definition FL_SPACE :: u8 where "FL_SPACE = 0x10"
definition FL_HASH :: u8 where "FL_HASH = 0x20"
definition FL_SIGNED :: u8 where "FL_SIGNED = 0x40"
definition FL_UPPER :: u8 where "FL_UPPER = 0x80"

lemmas flag_values = FL_ZERO_def FL_MINUS_def FL_PLUS_def FL_TICK_def FL_SPACE_def
  FL_HASH_def FL_SIGNED_def FL_UPPER_def

definition has :: "u8 \<Rightarrow> u8 \<Rightarrow> bool" where
  "has flags f \<longleftrightarrow> flags AND f \<noteq> 0"

definition rank_char :: int where "rank_char = - 2"
definition rank_short :: int where "rank_short = - 1"
definition rank_int :: int where "rank_int = 0"
definition rank_long :: int where "rank_long = 1"
definition rank_longlong :: int where "rank_longlong = 2"

lemmas rank_values = rank_char_def rank_short_def rank_int_def rank_long_def rank_longlong_def

abbreviation NUL :: char where
  "NUL \<equiv> CHR 0x00"

text \<open>A value of a C \<open>int\<close>; leaving the type is undefined.\<close>

definition int_ok :: "int \<Rightarrow> int option" where
  "int_ok i = (if - (2 ^ 31) \<le> i \<and> i < 2 ^ 31 then Some i else None)"

section \<open>Output\<close>

text \<open>The buffer, the write position and the number of characters put out so far.\<close>

type_synonym vs_out = "char list \<times> nat \<times> u32"

definition emit :: "u32 \<Rightarrow> char \<Rightarrow> vs_out \<Rightarrow> vs_out option" where
  "emit n x out =
     (case out of (buf, q, k) \<Rightarrow>
        if k < n then do { buf \<leftarrow> store buf q x; Some (buf, q + 1, k + 1) }
        else Some (buf, q, k + 1))"

text \<open>\<open>while (width > nchars) { EMIT(x); width--; }\<close>\<close>

function emit_pad :: "u32 \<Rightarrow> char \<Rightarrow> int \<Rightarrow> int \<Rightarrow> vs_out \<Rightarrow> (int \<times> vs_out) option" where
  "emit_pad n x width nchars out =
     (if nchars < width
      then do { out \<leftarrow> emit n x out; emit_pad n x (width - 1) nchars out }
      else Some (width, out))"
  by pat_completeness auto
termination
  by (relation "measure (\<lambda>(n, x, width, nchars, out). nat (width - nchars))") auto

section \<open>Numbers\<close>

definition lcdigits :: string where "lcdigits = ''0123456789abcdef''"
definition ucdigits :: string where "ucdigits = ''0123456789ABCDEF''"

text \<open>The number of digits of \<open>tmpval\<close>, zero for 0. Every caller has base 8, 10 or 16.\<close>

fun count_digits :: "nat \<Rightarrow> nat \<Rightarrow> nat" where
  "count_digits base tmpval =
     (if tmpval = 0 \<or> base < 2 then 0 else Suc (count_digits base (tmpval div base)))"

text \<open>The digits and tick marks, written from right to left below \<open>qq\<close>.\<close>

definition put_at :: "u32 \<Rightarrow> char \<Rightarrow> char list \<Rightarrow> nat \<Rightarrow> u32 \<Rightarrow> char list option" where
  "put_at n x buf qq oo = (if oo < n then store buf qq x else Some buf)"

function digit_loop ::
  "u32 \<Rightarrow> string \<Rightarrow> nat \<Rightarrow> nat \<Rightarrow> nat \<Rightarrow> nat \<Rightarrow> nat \<Rightarrow> char list \<Rightarrow> nat \<Rightarrow> u32 \<Rightarrow> char list option"
  where
  "digit_loop n digits base tickskip ndigits b4tick val buf qq oo =
     (if 0 < ndigits
      then do {
        buf \<leftarrow> (if b4tick = 0 then put_at n CHR ''_'' buf (qq - 1) (oo - 1) else Some buf);
        let t = (if b4tick = 0 then 1 else 0);
        let b4tick = (if b4tick = 0 then tickskip else b4tick);
        dig \<leftarrow> load digits (val mod base);
        buf \<leftarrow> put_at n dig buf (qq - t - 1) (oo - word_of_nat t - 1);
        digit_loop n digits base tickskip (ndigits - t - 1) (b4tick - 1) (val div base)
          buf (qq - t - 1) (oo - word_of_nat t - 1)
      }
      else Some buf)"
  by pat_completeness auto
termination
  by (relation "measure (\<lambda>(n, digits, base, tickskip, ndigits, r). ndigits)") auto

text \<open>The steps of \<open>format_int\<close>: the sign, the digits needed, sign and prefix on the output.\<close>

definition split_sign :: "u8 \<Rightarrow> u64 \<Rightarrow> (bool \<times> u64) option" where
  "split_sign flags val =
     (if has flags FL_SIGNED \<and> val <s 0
      then if val = 2 ^ 63 then None else Some (True, - val)
      else Some (False, val))"

definition digits_needed :: "u8 \<Rightarrow> nat \<Rightarrow> int \<Rightarrow> nat \<Rightarrow> int" where
  "digits_needed flags base prec val =
     (let ndigits = int (count_digits base val);
          prec = (if has flags FL_HASH \<and> base = 8
             then if prec < ndigits + 1 then ndigits + 1 else prec
             else prec)
      in if ndigits < prec then prec else if val = 0 then 1 else ndigits)"

definition emit_sign :: "u32 \<Rightarrow> u8 \<Rightarrow> bool \<Rightarrow> vs_out \<Rightarrow> vs_out option" where
  "emit_sign n flags neg out =
     (if neg then emit n CHR ''-'' out
      else if has flags FL_PLUS then emit n CHR ''+'' out
      else if has flags FL_SPACE then emit n CHR '' '' out
      else Some out)"

definition emit_prefix :: "u32 \<Rightarrow> u8 \<Rightarrow> nat \<Rightarrow> vs_out \<Rightarrow> vs_out option" where
  "emit_prefix n flags base out =
     (if has flags FL_HASH \<and> base = 16
      then do { out \<leftarrow> emit n CHR ''0'' out;
                emit n (if has flags FL_UPPER then CHR ''X'' else CHR ''x'') out }
      else Some out)"

definition format_int ::
  "char list \<Rightarrow> nat \<Rightarrow> u32 \<Rightarrow> u64 \<Rightarrow> u8 \<Rightarrow> nat \<Rightarrow> int \<Rightarrow> int \<Rightarrow> (char list \<times> u32) option" where
  "format_int buf q n val flags base width prec = do {
     (neg, val) \<leftarrow> split_sign flags val;
     let val = unat val;
     let ndigits = digits_needed flags base prec val;
     let tickskip = (if has flags FL_TICK then if base = 16 then 4 else 3 else ndigits);
     ndigits \<leftarrow> int_ok (ndigits + (ndigits - 1) div tickskip);
     nchars \<leftarrow> int_ok (ndigits + (if neg \<or> has flags (FL_PLUS OR FL_SPACE) then 1 else 0));
     nchars \<leftarrow> int_ok (nchars + (if has flags FL_HASH \<and> base = 16 then 2 else 0));
     (width, out) \<leftarrow> (if \<not> has flags (FL_MINUS OR FL_ZERO) \<and> width > nchars
        then emit_pad n CHR '' '' width nchars (buf, q, 0) else Some (width, buf, q, 0));
     out \<leftarrow> emit_sign n flags neg out;
     out \<leftarrow> emit_prefix n flags base out;
     (width, buf, q, k) \<leftarrow> (if flags AND (FL_MINUS OR FL_ZERO) = FL_ZERO \<and> width > ndigits
        then emit_pad n CHR ''0'' width nchars out else Some (width, out));
     let q = q + nat ndigits;
     let k = k + word_of_int ndigits;
     buf \<leftarrow> digit_loop n (if has flags FL_UPPER then ucdigits else lcdigits) base
              (nat tickskip) (nat ndigits) (nat tickskip) val buf q k;
     (width, buf, q, k) \<leftarrow> (if has flags FL_MINUS
        then emit_pad n CHR '' '' width nchars (buf, q, k) else Some (width, buf, q, k));
     Some (buf, k)
   }"

section \<open>The format interpreter\<close>

datatype vs_mode = st_normal | st_flags | st_width | st_prec | st_modifiers

record vs =
  vs_state :: vs_mode
  vs_rank :: int
  vs_width :: int
  vs_prec :: int
  vs_flags :: u8
  vs_args :: "va_arg list"
  vs_buf :: "char list"
  vs_q :: nat
  vs_o :: u32
  vs_counts :: "(nat \<times> int \<times> u32) list"   \<comment> \<open>the stores of \<open>%n\<close>: target, rank, value\<close>

definition digit_char :: "char \<Rightarrow> bool" where
  "digit_char ch \<longleftrightarrow> (of_char CHR ''0'' :: nat) \<le> of_char ch \<and> (of_char ch :: nat) \<le> of_char CHR ''9''"

definition digit_val :: "char \<Rightarrow> int" where
  "digit_val ch = of_char ch - of_char CHR ''0''"

definition take_int :: "va_arg list \<Rightarrow> (int \<times> va_arg list) option" where
  "take_int args = (case args of VA_int w # rest \<Rightarrow> Some (sint w, rest) | _ \<Rightarrow> None)"

text \<open>The values of \<open>%d\<close> and of \<open>%u\<close>, \<open>%x\<close>, \<open>%o\<close>, widened from the type of the rank to 64 bits.\<close>

definition signed_arg :: "int \<Rightarrow> va_arg list \<Rightarrow> (u64 \<times> va_arg list) option" where
  "signed_arg rank args =
     (case args of
        VA_int w # rest \<Rightarrow>
          if rank = rank_char then Some (scast (ucast w :: 8 word), rest)
          else if rank = rank_short then Some (scast (ucast w :: 16 word), rest)
          else if rank = rank_int then Some (scast w, rest) else None
      | VA_long w # rest \<Rightarrow> if rank = rank_long then Some (scast w, rest) else None
      | VA_llong w # rest \<Rightarrow> if rank = rank_longlong then Some (w, rest) else None
      | _ \<Rightarrow> None)"

definition unsigned_arg :: "int \<Rightarrow> va_arg list \<Rightarrow> (u64 \<times> va_arg list) option" where
  "unsigned_arg rank args =
     (case args of
        VA_int w # rest \<Rightarrow>
          if rank = rank_char then Some (ucast (ucast w :: 8 word), rest)
          else if rank = rank_short then Some (ucast (ucast w :: 16 word), rest)
          else if rank = rank_int then Some (ucast w, rest) else None
      | VA_long w # rest \<Rightarrow> if rank = rank_long then Some (ucast w, rest) else None
      | VA_llong w # rest \<Rightarrow> if rank = rank_longlong then Some (w, rest) else None
      | _ \<Rightarrow> None)"

definition take_ptr :: "va_arg list \<Rightarrow> (u64 \<times> va_arg list) option" where
  "take_ptr args = (case args of VA_ptr w # rest \<Rightarrow> Some (ucast w, rest) | _ \<Rightarrow> None)"

definition c_strlen :: "char list \<Rightarrow> nat option" where
  "c_strlen s = (if NUL \<in> set s then Some (length (takeWhile (\<lambda>c. c \<noteq> NUL) s)) else None)"

text \<open>\<open>%c\<close> and \<open>%s\<close>: the characters to print, and how many there are before the precision cuts.\<close>

definition string_arg :: "char \<Rightarrow> va_arg list \<Rightarrow> (char list \<times> int \<times> va_arg list) option" where
  "string_arg ch args =
     (if ch = CHR ''c''
      then case args of VA_int w # rest \<Rightarrow> Some ([char_of (unat w)], 1, rest) | _ \<Rightarrow> None
      else case args of
             VA_str s # rest \<Rightarrow>
               do { let sarg = (case s of Some arr \<Rightarrow> arr | None \<Rightarrow> ''(null)'' @ [NUL]);
                    len \<leftarrow> c_strlen sarg;
                    Some (sarg, int len, rest) }
           | _ \<Rightarrow> None)"

text \<open>\<open>for (i = slen; i; i--) EMIT(*sarg++)\<close>, which runs out of the string for a negative \<open>slen\<close>.\<close>

fun emit_chars :: "u32 \<Rightarrow> nat \<Rightarrow> char list \<Rightarrow> vs_out \<Rightarrow> vs_out option" where
  "emit_chars n 0 sarg out = Some out"
| "emit_chars n (Suc i) sarg out =
     (case sarg of [] \<Rightarrow> None
      | sch # sarg \<Rightarrow> do { out \<leftarrow> emit n sch out; emit_chars n i sarg out })"

definition format_str ::
  "u32 \<Rightarrow> char list \<Rightarrow> int \<Rightarrow> u8 \<Rightarrow> int \<Rightarrow> int \<Rightarrow> vs_out \<Rightarrow> vs_out option" where
  "format_str n sarg slen flags width prec out = do {
     let slen = (if prec \<noteq> - 1 \<and> slen > prec then prec else slen);
     (width, out) \<leftarrow> (if width > slen \<and> \<not> has flags FL_MINUS
        then emit_pad n (if has flags FL_ZERO then CHR ''0'' else CHR '' '') width slen out
        else Some (width, out));
     out \<leftarrow> (if slen < 0 then None else emit_chars n (nat slen) sarg out);
     (width, out) \<leftarrow> (if width > slen \<and> has flags FL_MINUS
        then emit_pad n CHR '' '' width slen out else Some (width, out));
     Some out
   }"

abbreviation vs_put :: "vs \<Rightarrow> vs_out \<Rightarrow> vs" where
  "vs_put v out \<equiv> v\<lparr>vs_buf := fst out, vs_q := fst (snd out), vs_o := snd (snd out)\<rparr>"

text \<open>The label \<open>is_integer\<close>.\<close>

definition vs_integer :: "u32 \<Rightarrow> u64 \<Rightarrow> u8 \<Rightarrow> nat \<Rightarrow> int \<Rightarrow> vs \<Rightarrow> vs option" where
  "vs_integer n val flags base prec v = do {
     (buf, sz) \<leftarrow> format_int (vs_buf v) (vs_q v) (if vs_o v < n then n - vs_o v else 0)
                     val flags base (vs_width v) prec;
     Some (vs_put v (buf, vs_q v + unat sz, vs_o v + sz))
   }"

text \<open>The conversion characters; the state is back to normal and the rank in its range.\<close>

definition vs_convert :: "u32 \<Rightarrow> char \<Rightarrow> vs \<Rightarrow> vs option" where
  "vs_convert n ch v = do {
     let rank = vs_rank v;
     let flags = vs_flags v;
     let prec = vs_prec v;
     let args = vs_args v;
     if ch = CHR ''P'' \<or> ch = CHR ''p'' then do {
       (val, args) \<leftarrow> take_ptr args;
       vs_integer n val (if ch = CHR ''P'' then flags OR FL_UPPER OR FL_HASH else flags OR FL_HASH)
         16 8 (v\<lparr>vs_args := args\<rparr>)
     }
     else if ch = CHR ''d'' \<or> ch = CHR ''i'' then do {
       (val, args) \<leftarrow> signed_arg rank args;
       vs_integer n val (flags OR FL_SIGNED) 10 prec (v\<lparr>vs_args := args\<rparr>)
     }
     else if ch = CHR ''o'' then do {
       (val, args) \<leftarrow> unsigned_arg rank args;
       vs_integer n val flags 8 prec (v\<lparr>vs_args := args\<rparr>)
     }
     else if ch = CHR ''u'' then do {
       (val, args) \<leftarrow> unsigned_arg rank args;
       vs_integer n val flags 10 prec (v\<lparr>vs_args := args\<rparr>)
     }
     else if ch = CHR ''X'' \<or> ch = CHR ''x'' then do {
       (val, args) \<leftarrow> unsigned_arg rank args;
       vs_integer n val (if ch = CHR ''X'' then flags OR FL_UPPER else flags) 16 prec
         (v\<lparr>vs_args := args\<rparr>)
     }
     else if ch = CHR ''c'' \<or> ch = CHR ''s'' then do {
       (sarg, slen, args) \<leftarrow> string_arg ch args;
       out \<leftarrow> format_str n sarg slen flags (vs_width v) prec (vs_buf v, vs_q v, vs_o v);
       Some (vs_put (v\<lparr>vs_args := args\<rparr>) out)
     }
     else if ch = CHR ''n'' then
       (case args of
          VA_count p # args \<Rightarrow>
            Some (v\<lparr>vs_args := args, vs_counts := vs_counts v @ [(p, rank, vs_o v)]\<rparr>)
        | _ \<Rightarrow> None)
     else do {
       out \<leftarrow> emit n ch (vs_buf v, vs_q v, vs_o v);
       Some (vs_put v out)
     }
   }"

definition canonical_rank :: "int \<Rightarrow> int" where
  "canonical_rank rank =
     (if rank < rank_char then rank_char else if rank > rank_longlong then rank_longlong else rank)"

text \<open>
  One turn of the loop for the character \<open>ch\<close>. The flag of the result tells that the
  character is to be processed again, in the new state (\<open>p--\<close>).
\<close>

definition vs_step :: "u32 \<Rightarrow> char \<Rightarrow> vs \<Rightarrow> (vs \<times> bool) option" where
  "vs_step n ch v =
     (case vs_state v of
        st_normal \<Rightarrow>
          if ch = CHR ''%''
          then Some (v\<lparr>vs_state := st_flags, vs_flags := 0, vs_rank := rank_int, vs_width := 0,
                       vs_prec := - 1\<rparr>, False)
          else do { out \<leftarrow> emit n ch (vs_buf v, vs_q v, vs_o v); Some (vs_put v out, False) }
      | st_flags \<Rightarrow>
          if ch = CHR ''-'' then Some (v\<lparr>vs_flags := vs_flags v OR FL_MINUS\<rparr>, False)
          else if ch = CHR ''+'' then Some (v\<lparr>vs_flags := vs_flags v OR FL_PLUS\<rparr>, False)
          else if ch = CHR 0x27 then Some (v\<lparr>vs_flags := vs_flags v OR FL_TICK\<rparr>, False)
          else if ch = CHR '' '' then Some (v\<lparr>vs_flags := vs_flags v OR FL_SPACE\<rparr>, False)
          else if ch = CHR ''#'' then Some (v\<lparr>vs_flags := vs_flags v OR FL_HASH\<rparr>, False)
          else if ch = CHR ''0'' then Some (v\<lparr>vs_flags := vs_flags v OR FL_ZERO\<rparr>, False)
          else Some (v\<lparr>vs_state := st_width\<rparr>, True)
      | st_width \<Rightarrow>
          if digit_char ch
          then do { w \<leftarrow> int_ok (vs_width v * 10 + digit_val ch); Some (v\<lparr>vs_width := w\<rparr>, False) }
          else if ch = CHR ''*''
          then do {
            (w, args) \<leftarrow> take_int (vs_args v);
            if w < 0
            then do { w \<leftarrow> int_ok (- w);
                      Some (v\<lparr>vs_args := args, vs_width := w, vs_flags := vs_flags v OR FL_MINUS\<rparr>,
                            False) }
            else Some (v\<lparr>vs_args := args, vs_width := w\<rparr>, False)
          }
          else if ch = CHR ''.'' then Some (v\<lparr>vs_prec := 0, vs_state := st_prec\<rparr>, False)
          else Some (v\<lparr>vs_state := st_modifiers\<rparr>, True)
      | st_prec \<Rightarrow>
          if digit_char ch
          then do { w \<leftarrow> int_ok (vs_prec v * 10 + digit_val ch); Some (v\<lparr>vs_prec := w\<rparr>, False) }
          else if ch = CHR ''*''
          then do {
            (w, args) \<leftarrow> take_int (vs_args v);
            Some (v\<lparr>vs_args := args, vs_prec := (if w < 0 then - 1 else w)\<rparr>, False)
          }
          else Some (v\<lparr>vs_state := st_modifiers\<rparr>, True)
      | st_modifiers \<Rightarrow>
          if ch = CHR ''h'' then Some (v\<lparr>vs_rank := vs_rank v - 1\<rparr>, False)
          else if ch = CHR ''l'' then Some (v\<lparr>vs_rank := vs_rank v + 1\<rparr>, False)
          else if ch = CHR ''j'' then Some (v\<lparr>vs_rank := rank_longlong\<rparr>, False)
          else if ch = CHR ''z'' \<or> ch = CHR ''t'' then Some (v\<lparr>vs_rank := rank_long\<rparr>, False)
          else if ch = CHR ''L'' \<or> ch = CHR ''q'' then Some (v\<lparr>vs_rank := vs_rank v + 2\<rparr>, False)
          else do {
            v \<leftarrow> vs_convert n ch (v\<lparr>vs_state := st_normal, vs_rank := canonical_rank (vs_rank v)\<rparr>);
            Some (v, False)
          })"

text \<open>A character is processed again only in a later state, so the loop ends.\<close>

fun mode_rank :: "vs_mode \<Rightarrow> nat" where
  "mode_rank st_normal = 0"
| "mode_rank st_flags = 3"
| "mode_rank st_width = 2"
| "mode_rank st_prec = 1"
| "mode_rank st_modifiers = 0"

lemma mode_rank_le: "mode_rank m \<le> 3"
  by (cases m) simp_all

lemma vs_step_again: "vs_step n ch v = Some (v', True) \<Longrightarrow> mode_rank (vs_state v') < mode_rank (vs_state v)"
  by (auto simp: vs_step_def split: vs_mode.splits if_splits Option.bind_splits)

function vs_loop :: "u32 \<Rightarrow> char list \<Rightarrow> vs \<Rightarrow> vs option" where
  "vs_loop n p v =
     (case p of [] \<Rightarrow> None
      | ch # rest \<Rightarrow>
          if ch = NUL then Some v
          else do { (v, again) \<leftarrow> vs_step n ch v; vs_loop n (if again then p else rest) v })"
  by pat_completeness auto
termination
proof (relation "measure (\<lambda>(n, p, v). 4 * length p + mode_rank (vs_state v))")
  fix n :: u32 and p :: "char list" and v v' :: vs and ch rest and x and again
  assume *: "p = ch # rest" "vs_step n ch v = Some x" "(v', again) = x"
  show "((n, if again then p else rest, v'), (n, p, v))
      \<in> measure (\<lambda>(n, p, v). 4 * length p + mode_rank (vs_state v))"
    using * vs_step_again [of n ch v v'] mode_rank_le [of "vs_state v'"]
    by (cases again) auto
qed simp

definition vsnprintf ::
  "char list \<Rightarrow> u32 \<Rightarrow> char list \<Rightarrow> va_arg list
     \<Rightarrow> (s32 \<times> char list \<times> (nat \<times> int \<times> u32) list) option" where
  "vsnprintf buffer n format ap = do {
     v \<leftarrow> vs_loop n format
       \<lparr> vs_state = st_normal, vs_rank = rank_int, vs_width = 0, vs_prec = - 1, vs_flags = 0,
         vs_args = ap, vs_buf = buffer, vs_q = 0, vs_o = 0, vs_counts = [] \<rparr>;
     buffer \<leftarrow> (if vs_o v < n then store (vs_buf v) (vs_q v) NUL
                else if 0 < n then store (vs_buf v) (unat n - 1) NUL
                else Some (vs_buf v));
     Some (vs_o v, buffer, vs_counts v)
   }"

text \<open>snprintf.c only collects its variable arguments into the list \<open>ap\<close>.\<close>

definition snprintf ::
  "char list \<Rightarrow> u32 \<Rightarrow> char list \<Rightarrow> va_arg list
     \<Rightarrow> (s32 \<times> char list \<times> (nat \<times> int \<times> u32) list) option" where
  "snprintf buffer n format args = vsnprintf buffer n format args"

section \<open>Abstract specification\<close>

text \<open>Tick marks in a list of digits that starts with the lowest one: one after every \<open>skip\<close> digits.\<close>

fun tick :: "nat \<Rightarrow> nat \<Rightarrow> string \<Rightarrow> string" where
  "tick skip b [] = []"
| "tick skip 0 (d # ds) = CHR ''_'' # d # tick skip (skip - 1) ds"
| "tick skip (Suc b) (d # ds) = d # tick skip b ds"

definition digits_text :: "string \<Rightarrow> nat \<Rightarrow> nat \<Rightarrow> nat \<Rightarrow> string" where
  "digits_text digs base nd v = map (\<lambda>i. digs ! (v div base ^ i mod base)) (rev [0..<nd])"

text \<open>The digits of a number: at least as many as the precision asks for, and one for zero.\<close>

definition body_text :: "u8 \<Rightarrow> nat \<Rightarrow> int \<Rightarrow> nat \<Rightarrow> string" where
  "body_text flags base prec v =
     (let need = count_digits base v;
          least = (if has flags FL_HASH \<and> base = 8 then max prec (int need + 1) else prec);
          nd = (if int need < least then nat least else if v = 0 then 1 else need);
          skip = (if has flags FL_TICK then if base = 16 then 4 else 3 else nd)
      in rev (tick skip skip
           (rev (digits_text (if has flags FL_UPPER then ucdigits else lcdigits) base nd v))))"

definition sign_text :: "u8 \<Rightarrow> bool \<Rightarrow> string" where
  "sign_text flags neg =
     (if neg then ''-'' else if has flags FL_PLUS then ''+''
      else if has flags FL_SPACE then '' '' else [])"

definition prefix_text :: "u8 \<Rightarrow> nat \<Rightarrow> string" where
  "prefix_text flags base =
     (if has flags FL_HASH \<and> base = 16 then if has flags FL_UPPER then ''0X'' else ''0x'' else [])"

text \<open>A number that needs more than \<open>INT_MAX\<close> characters, or the most negative one, has no text.\<close>

definition number_text :: "u8 \<Rightarrow> nat \<Rightarrow> int \<Rightarrow> int \<Rightarrow> u64 \<Rightarrow> string option" where
  "number_text flags base width prec val =
     (let neg = (has flags FL_SIGNED \<and> val <s 0);
          v = unat (if neg then - val else val);
          lead = sign_text flags neg @ prefix_text flags base;
          body = body_text flags base prec v;
          room = nat width - (length lead + length body)
      in if neg \<and> val = 2 ^ 63 \<or> 2 ^ 31 \<le> length lead + length body then None
         else Some (if has flags FL_MINUS then lead @ body @ replicate room CHR '' ''
                    else if has flags FL_ZERO then lead @ replicate room CHR ''0'' @ body
                    else replicate room CHR '' '' @ lead @ body))"

definition string_text :: "u8 \<Rightarrow> int \<Rightarrow> int \<Rightarrow> string \<Rightarrow> string" where
  "string_text flags width prec s =
     (let t = (if prec = - 1 then s else take (nat prec) s);
          room = nat width - length t
      in if has flags FL_MINUS then t @ replicate room CHR '' ''
         else replicate room (if has flags FL_ZERO then CHR ''0'' else CHR '' '') @ t)"

text \<open>A conversion: its text, the arguments that are left, the stores of \<open>%n\<close>.\<close>

definition conversion_text ::
  "char \<Rightarrow> u8 \<Rightarrow> int \<Rightarrow> int \<Rightarrow> int \<Rightarrow> va_arg list \<Rightarrow> nat
     \<Rightarrow> (string \<times> va_arg list \<times> (nat \<times> int \<times> u32) list) option" where
  "conversion_text ch flags width prec rank args k =
     (let upper = (if ch = CHR ''X'' \<or> ch = CHR ''P'' then flags OR FL_UPPER else flags) in
      if ch \<in> set ''pP'' then do {
        (val, args) \<leftarrow> take_ptr args;
        w \<leftarrow> number_text (upper OR FL_HASH) 16 width 8 val;
        Some (w, args, [])
      }
      else if ch \<in> set ''di'' then do {
        (val, args) \<leftarrow> signed_arg rank args;
        w \<leftarrow> number_text (flags OR FL_SIGNED) 10 width prec val;
        Some (w, args, [])
      }
      else if ch \<in> set ''ouxX'' then do {
        (val, args) \<leftarrow> unsigned_arg rank args;
        w \<leftarrow> number_text upper (if ch = CHR ''o'' then 8 else if ch = CHR ''u'' then 10 else 16)
               width prec val;
        Some (w, args, [])
      }
      else if ch \<in> set ''cs'' then do {
        (sarg, slen, args) \<leftarrow> string_arg ch args;
        if prec < - 1 then None
        else Some (string_text flags width prec (take (nat slen) sarg), args, [])
      }
      else if ch = CHR ''n'' then
        (case args of VA_count p # args \<Rightarrow> Some ([], args, [(p, rank, word_of_nat k)]) | _ \<Rightarrow> None)
      else Some ([ch], args, []))"

text \<open>The grammar of a conversion: flags, width, precision, length modifiers, rest.\<close>

definition flag_char :: "char \<Rightarrow> bool" where
  "flag_char c \<longleftrightarrow> c \<in> set (CHR 0x27 # ''-+ #0'')"

definition num_char :: "char \<Rightarrow> bool" where
  "num_char c \<longleftrightarrow> digit_char c \<or> c = CHR ''*''"

definition mod_char :: "char \<Rightarrow> bool" where
  "mod_char c \<longleftrightarrow> c \<in> set ''hljztLq''"

definition split_directive ::
  "string \<Rightarrow> string \<times> string \<times> string option \<times> string \<times> string" where
  "split_directive cs =
     (let r1 = dropWhile flag_char cs; r2 = dropWhile num_char r1;
          (prec, r3) = (case r2 of
             [] \<Rightarrow> (None, [])
           | c # r \<Rightarrow> if c = CHR ''.'' then (Some (takeWhile num_char r), dropWhile num_char r)
                      else (None, r2))
      in (takeWhile flag_char cs, takeWhile num_char r1, prec, takeWhile mod_char r3,
          dropWhile mod_char r3))"

definition flag_of :: "char \<Rightarrow> u8" where
  "flag_of c =
     (if c = CHR ''-'' then FL_MINUS else if c = CHR ''+'' then FL_PLUS
      else if c = CHR 0x27 then FL_TICK else if c = CHR '' '' then FL_SPACE
      else if c = CHR ''#'' then FL_HASH else FL_ZERO)"

definition rank_mod :: "int \<Rightarrow> char \<Rightarrow> int" where
  "rank_mod rank c =
     (if c = CHR ''h'' then rank - 1 else if c = CHR ''l'' then rank + 1
      else if c = CHR ''j'' then rank_longlong
      else if c = CHR ''z'' \<or> c = CHR ''t'' then rank_long else rank + 2)"

text \<open>A negative width from \<open>*\<close> is a minus flag; a negative precision from \<open>*\<close> is none.\<close>

fun width_field :: "string \<Rightarrow> int \<Rightarrow> u8 \<Rightarrow> va_arg list \<Rightarrow> (int \<times> u8 \<times> va_arg list) option" where
  "width_field [] w f args = Some (w, f, args)"
| "width_field (c # cs) w f args =
     (if c = CHR ''*''
      then do { (v, args) \<leftarrow> take_int args; v' \<leftarrow> int_ok \<bar>v\<bar>;
                width_field cs v' (if v < 0 then f OR FL_MINUS else f) args }
      else do { w \<leftarrow> int_ok (w * 10 + digit_val c); width_field cs w f args })"

fun prec_field :: "string \<Rightarrow> int \<Rightarrow> va_arg list \<Rightarrow> (int \<times> va_arg list) option" where
  "prec_field [] w args = Some (w, args)"
| "prec_field (c # cs) w args =
     (if c = CHR ''*''
      then do { (v, args) \<leftarrow> take_int args; prec_field cs (if v < 0 then - 1 else v) args }
      else do { w \<leftarrow> int_ok (w * 10 + digit_val c); prec_field cs w args })"

lemma length_split_rest:
  "split_directive cs = (fl, wd, pr, md, rest) \<Longrightarrow> length rest \<le> length cs"
proof -
  assume *: "split_directive cs = (fl, wd, pr, md, rest)"
  have le: "length (dropWhile P xs) \<le> length xs" for P and xs :: string
    by (rule length_dropWhile_le)
  define r2 where "r2 = dropWhile num_char (dropWhile flag_char cs)"
  have r2: "length r2 \<le> length cs"
    unfolding r2_def using le [of num_char] le [of flag_char cs] by (meson le_trans)
  show ?thesis
  proof (cases r2)
    case Nil
    then show ?thesis using * by (simp add: split_directive_def Let_def r2_def [symmetric])
  next
    case (Cons c r)
    then have "rest = dropWhile mod_char (dropWhile num_char r) \<or> rest = dropWhile mod_char r2"
      using * by (simp add: split_directive_def Let_def r2_def [symmetric] split: if_splits)
    then show ?thesis
      using r2 Cons le [of mod_char r2] le [of num_char r] le [of mod_char "dropWhile num_char r"]
      by auto
  qed
qed

text \<open>
  The text of a format, where \<open>k\<close> characters are out already. A format that ends inside a
  conversion has none.
\<close>

function format_text ::
  "string \<Rightarrow> va_arg list \<Rightarrow> nat \<Rightarrow> (string \<times> (nat \<times> int \<times> u32) list) option" where
  "format_text [] args k = Some ([], [])"
| "format_text (c # cs) args k =
     (if c \<noteq> CHR ''%''
      then do { (w, cnt) \<leftarrow> format_text cs args (k + 1); Some (c # w, cnt) }
      else case split_directive cs of (fl, wd, pr, md, r) \<Rightarrow>
        (case r of [] \<Rightarrow> None
         | ch # rest \<Rightarrow> do {
             (width, flags, args) \<leftarrow> width_field wd 0 (foldl (\<lambda>f c. f OR flag_of c) 0 fl) args;
             (prec, args) \<leftarrow> (case pr of None \<Rightarrow> Some (- 1, args) | Some p \<Rightarrow> prec_field p 0 args);
             (w, args, cnt) \<leftarrow> conversion_text ch flags width prec
                (canonical_rank (foldl rank_mod rank_int md)) args k;
             (w', cnt') \<leftarrow> format_text rest args (k + length w);
             Some (w @ w', cnt @ cnt')
           }))"
  by pat_completeness auto
termination
  by (relation "measure (\<lambda>(cs, args, k). length cs)") (auto dest: length_split_rest [OF sym])

section \<open>Writing a text into a buffer\<close>

text \<open>
  The buffer \<open>buf\<close> after the first \<open>n\<close> characters of \<open>w\<close> were written at \<open>p\<close>, and the
  states of the output that agree with it.
\<close>

definition lay :: "char list \<Rightarrow> nat \<Rightarrow> nat \<Rightarrow> string \<Rightarrow> char list" where
  "lay buf p n w = take p buf @ take n w @ drop (p + length (take n w)) buf"

definition room :: "char list \<Rightarrow> nat \<Rightarrow> nat \<Rightarrow> bool" where
  "room buf p n \<longleftrightarrow> n = 0 \<or> p + n \<le> length buf"

definition wrote :: "char list \<Rightarrow> nat \<Rightarrow> nat \<Rightarrow> string \<Rightarrow> vs_out \<Rightarrow> bool" where
  "wrote buf p n w out \<longleftrightarrow>
     (case out of (b, q, k) \<Rightarrow>
        b = lay buf p n w \<and> unat k = length w \<and> (length w < n \<longrightarrow> q = p + length w))"

lemma lay_Nil [simp]: "lay buf p n [] = buf"
  by (simp add: lay_def)

lemma lay_0 [simp]: "lay buf p 0 w = buf"
  by (simp add: lay_def)

lemma lay_full: "n \<le> length w \<Longrightarrow> lay buf p n (w @ x) = lay buf p n w"
  by (simp add: lay_def)

lemma length_lay [simp]: "room buf p n \<Longrightarrow> length (lay buf p n w) = length buf"
  by (auto simp: lay_def room_def)

lemma lay_snoc:
  assumes "room buf p n" and "length w < n"
  shows "(lay buf p n w)[p + length w := x] = lay buf p n (w @ [x])"
proof -
  have p: "p + length w < length buf" using assms by (auto simp: room_def)
  then obtain y ys where "drop (p + length w) buf = y # ys"
    by (metis Cons_nth_drop_Suc)
  moreover then have "drop (Suc (p + length w)) buf = ys" by (metis drop_Suc list.sel(3) tl_drop)
  ultimately show ?thesis
    using assms(2) p by (simp add: lay_def list_update_append min_def)
qed

lemma lay_lay:
  assumes "room buf p n"
  shows "lay (lay buf p n u) (p + length u) (n - length u) w = lay buf p n (u @ w)"
proof (cases "length u < n")
  case True
  then have "p + length u \<le> length buf" using assms by (auto simp: room_def)
  moreover from this have "u = []" if "length buf \<le> p" using that by (cases u) simp_all
  ultimately show ?thesis using True by (auto simp: lay_def min_def ac_simps)
next
  case False
  then show ?thesis by (simp add: lay_full)
qed

text \<open>The last character of a text can be written first.\<close>

lemma lay_last:
  assumes "room buf p n"
  shows "lay (if length w < n then buf[p + length w := x] else buf) p n w = lay buf p n (w @ [x])"
proof (cases "length w < n")
  case True
  then have "p + length w < length buf" using assms by (auto simp: room_def)
  then have "drop (p + length w) (buf[p + length w := x]) = x # drop (Suc (p + length w)) buf"
    by (simp add: Cons_nth_drop_Suc [symmetric] drop_update_cancel)
  then show ?thesis using True by (simp add: lay_def take_update_cancel)
next
  case False
  then show ?thesis by (simp add: lay_full)
qed

lemma unat_u32_Suc: "Suc (unat (k :: u32)) < 2 ^ 32 \<Longrightarrow> unat (k + 1) = Suc (unat k)"
  by (simp add: unat_word_ariths)

lemma emit_wrote:
  assumes "room buf p (unat n)" and "wrote buf p (unat n) u out" and "Suc (length u) < 2 ^ 32"
  shows "\<exists>out'. emit n x out = Some out' \<and> wrote buf p (unat n) (u @ [x]) out'"
proof -
  obtain b q k where out: "out = (b, q, k)" by (cases out)
  have b: "b = lay buf p (unat n) u" and k: "unat k = length u" and q: "length u < unat n \<longrightarrow> q = p + length u"
    using assms(2) by (simp_all add: wrote_def out)
  have k': "unat (k + 1) = Suc (length u)" using unat_u32_Suc [of k] k assms(3) by simp
  show ?thesis
  proof (cases "length u < unat n")
    case True
    then have "q < length b" using assms(1) q b by (auto simp: room_def)
    then show ?thesis
      using True q k k' lay_snoc [OF assms(1) True, of x]
      by (simp add: emit_def out word_less_nat_alt store_in wrote_def b)
  next
    case False
    then show ?thesis
      using k k' by (simp add: emit_def out word_less_nat_alt wrote_def b lay_full)
  qed
qed

lemma emit_pad_wrote:
  assumes "room buf p (unat n)" and "wrote buf p (unat n) u out"
    and "length u + nat (width - nchars) < 2 ^ 32"
  shows "\<exists>out'. emit_pad n x width nchars out = Some (min width nchars, out')
     \<and> wrote buf p (unat n) (u @ replicate (nat (width - nchars)) x) out'"
  using assms(2,3)
proof (induction "nat (width - nchars)" arbitrary: width u out)
  case 0
  then show ?case by (subst emit_pad.simps) (simp add: min_def)
next
  case (Suc m)
  then have less: "nchars < width" by simp
  obtain out1 where 1: "emit n x out = Some out1" "wrote buf p (unat n) (u @ [x]) out1"
    using emit_wrote [OF assms(1) Suc.prems(1)] Suc.prems(2) Suc.hyps(2) by fastforce
  have m: "m = nat (width - 1 - nchars)" "nat (width - nchars) = Suc m" using Suc.hyps(2) by simp_all
  obtain out2 where 2: "emit_pad n x (width - 1) nchars out1 = Some (min (width - 1) nchars, out2)"
    "wrote buf p (unat n) ((u @ [x]) @ replicate m x) out2"
    using Suc.hyps(1) [OF m(1) 1(2)] Suc.prems(2) m by auto
  have "emit_pad n x width nchars out = Some (min width nchars, out2)"
    using less 1 2 by (subst emit_pad.simps) (simp add: min_def)
  then show ?case using 2(2) m(2) by simp
qed

declare emit_pad.simps [simp del] digit_loop.simps [simp del] count_digits.simps [simp del]

lemma emit_chars_wrote:
  assumes "room buf p (unat n)" and "wrote buf p (unat n) u out"
    and "i \<le> length s" and "length u + i < 2 ^ 32"
  shows "\<exists>out'. emit_chars n i s out = Some out' \<and> wrote buf p (unat n) (u @ take i s) out'"
  using assms(2-)
proof (induction i arbitrary: s u out)
  case (Suc i)
  then obtain c s' where s: "s = c # s'" by (cases s) auto
  obtain out1 where 1: "emit n c out = Some out1" "wrote buf p (unat n) (u @ [c]) out1"
    using emit_wrote [OF assms(1) Suc.prems(1)] Suc.prems(3) by fastforce
  then show ?case using Suc.IH [OF 1(2), of s'] Suc.prems(2,3) s by auto
qed simp

text \<open>The number of characters the digit loop writes, and the loop itself.\<close>

lemma length_tick: "length (tick skip b ds) = length ds + (length ds + skip - 1 - b) div skip"
  if "0 < skip" "b \<le> skip"
  using that
proof (induction skip b ds rule: tick.induct)
  case (2 skip d ds)
  then have "(length ds + skip - 1 - (skip - 1)) div skip = length ds div skip" by simp
  moreover have "(Suc (length ds) + skip - 1) div skip = Suc (length ds div skip)"
    using 2 by (simp add: div_add_self2)
  ultimately show ?case using 2 by simp
qed simp_all

text \<open>The digits from the lowest one on.\<close>

fun low_digits :: "string \<Rightarrow> nat \<Rightarrow> nat \<Rightarrow> nat \<Rightarrow> string" where
  "low_digits digs base 0 v = []"
| "low_digits digs base (Suc n) v = digs ! (v mod base) # low_digits digs base n (v div base)"

lemma length_low_digits [simp]: "length (low_digits digs base n v) = n"
  by (induction digs base n v rule: low_digits.induct) simp_all

lemma low_digits_map: "low_digits digs base n v = map (\<lambda>i. digs ! (v div base ^ i mod base)) [0..<n]"
  by (induction digs base n v rule: low_digits.induct)
    (simp_all add: upt_conv_Cons map_Suc_upt [symmetric] div_mult2_eq del: upt_Suc)

lemma digits_low: "digits_text digs base n v = rev (low_digits digs base n v)"
  by (simp add: digits_text_def low_digits_map rev_map)

lemma unat_u32_pred: "unat (k :: u32) = Suc j \<Longrightarrow> unat (k - 1) = j"
  by (simp add: unat_sub_if')

lemma put_at_last:
  assumes "room buf p n" and "n = unat cap - m" and "unat oo = Suc (m + length w)"
    and "m < unat cap \<longrightarrow> qq = Suc (p + length w)"
  shows "\<exists>buf'. put_at cap x buf (qq - 1) (oo - 1) = Some buf' \<and> length buf' = length buf
      \<and> lay buf' p n w = lay buf p n (w @ [x])"
proof -
  have oo: "unat (oo - 1) = m + length w" using assms(3) by (simp add: unat_sub_if')
  show ?thesis
  proof (cases "length w < n")
    case True
    then have "m + length w < unat cap" "qq - 1 = p + length w" "p + length w < length buf"
      using assms(1,2,4) by (auto simp: room_def)
    then show ?thesis
      using True oo lay_last [OF assms(1), of w x]
      by (simp add: put_at_def word_less_nat_alt store_in)
  next
    case False
    then have "\<not> m + length w < unat cap" using assms(2) by linarith
    then show ?thesis
      using False oo lay_last [OF assms(1), of w x] by (simp add: put_at_def word_less_nat_alt)
  qed
qed

lemma digit_loop_lay:
  assumes "0 < skip" and "1 < base" and "base \<le> length digs" and "n = unat cap - m"
    and "room buf p n" and "tx = tick skip b (low_digits digs base nd v)"
    and "unat oo = m + length tx" and "m < unat cap \<longrightarrow> qq = p + length tx"
  shows "digit_loop cap digs base skip (length tx) b v buf qq oo = Some (lay buf p n (rev tx))"
  using assms(5-)
proof (induction nd arbitrary: b v buf qq oo tx)
  case 0
  then show ?case by (subst digit_loop.simps) simp
next
  case (Suc nd)
  define d where "d = digs ! (v mod base)"
  have "v mod base < base" using assms(2) by simp
  then have d: "load digs (v mod base) = Some d"
    using assms(3) by (simp add: load_def d_def)
  show ?case
  proof (cases b)
    case 0
    define t where "t = tick skip (skip - 1) (low_digits digs base nd (v div base))"
    have tx: "tx = CHR ''_'' # d # t" using Suc.prems(2) 0 by (simp add: t_def d_def)
    obtain buf1 where 1: "put_at cap CHR ''_'' buf (qq - 1) (oo - 1) = Some buf1"
      "length buf1 = length buf" "lay buf1 p n (rev t @ [d]) = lay buf p n (rev t @ [d] @ ''_'')"
      using put_at_last [OF Suc.prems(1) assms(4), of oo "rev t @ [d]" qq "CHR ''_''"] Suc.prems(3,4)
      by (auto simp: tx)
    have room1: "room buf1 p n" using Suc.prems(1) 1(2) by (simp add: room_def)
    have oo1: "unat (oo - 1) = Suc (m + length (rev t))"
      using Suc.prems(3) by (simp add: tx unat_sub_if')
    obtain buf2 where 2: "put_at cap d buf1 (qq - 1 - 1) (oo - 1 - 1) = Some buf2"
      "length buf2 = length buf1" "lay buf2 p n (rev t) = lay buf1 p n (rev t @ [d])"
      using put_at_last [OF room1 assms(4) oo1, of "qq - 1" d] Suc.prems(4) by (auto simp: tx)
    have room2: "room buf2 p n" using room1 2(2) by (simp add: room_def)
    have oo2: "unat (oo - 1 - 1) = m + length t"
      using unat_u32_pred [OF oo1] by simp
    have "digit_loop cap digs base skip (length t) (skip - 1) (v div base) buf2 (qq - 1 - 1) (oo - 1 - 1)
        = Some (lay buf2 p n (rev t))"
      using Suc.prems(4) by (intro Suc.IH [OF room2 t_def oo2]) (auto simp: tx)
    then show ?thesis
      using 0 1 2 d by (subst digit_loop.simps) (simp add: tx)
  next
    case (Suc b')
    define t where "t = tick skip b' (low_digits digs base nd (v div base))"
    have tx: "tx = d # t" using Suc.prems(2) Suc by (simp add: t_def d_def)
    obtain buf1 where 1: "put_at cap d buf (qq - 1) (oo - 1) = Some buf1"
      "length buf1 = length buf" "lay buf1 p n (rev t) = lay buf p n (rev t @ [d])"
      using put_at_last [OF Suc.prems(1) assms(4), of oo "rev t" qq d] Suc.prems(3,4)
      by (auto simp: tx)
    have room1: "room buf1 p n" using Suc.prems(1) 1(2) by (simp add: room_def)
    have oo1: "unat (oo - 1) = m + length t" using Suc.prems(3) by (simp add: tx unat_sub_if')
    have "digit_loop cap digs base skip (length t) b' (v div base) buf1 (qq - 1) (oo - 1)
        = Some (lay buf1 p n (rev t))"
      using Suc.prems(4) by (intro Suc.IH [OF room1 t_def oo1]) (auto simp: tx)
    then show ?thesis
      using Suc 1 d by (subst digit_loop.simps) (simp add: tx)
  qed
qed

section \<open>The conversions write their texts\<close>

lemma count_digits_pos: "v \<noteq> 0 \<Longrightarrow> 1 < base \<Longrightarrow> 0 < count_digits base v"
  by (subst count_digits.simps) simp

lemma digits_needed_pos: "1 < base \<Longrightarrow> 0 < digits_needed flags base prec v"
  using count_digits_pos [of v base] by (auto simp: digits_needed_def Let_def)

text \<open>The body of a number in the terms of the code.\<close>

lemma body_text_low:
  fixes flags :: u8
  defines "digs \<equiv> if has flags FL_UPPER then ucdigits else lcdigits"
  shows "body_text flags base prec v =
    (let nd = digits_needed flags base prec v;
         skip = nat (if has flags FL_TICK then if base = 16 then 4 else 3 else nd)
     in rev (tick skip skip (low_digits digs base (nat nd) v)))"
proof -
  have nd: "nat (digits_needed flags base prec v) =
      (if int (count_digits base v) <
            (if has flags FL_HASH \<and> base = 8 then max prec (int (count_digits base v) + 1) else prec)
       then nat (if has flags FL_HASH \<and> base = 8 then max prec (int (count_digits base v) + 1) else prec)
       else if v = 0 then 1 else count_digits base v)"
    by (auto simp: digits_needed_def Let_def max_def)
  show ?thesis
    by (simp add: body_text_def Let_def nd [symmetric] digits_low digs_def)
qed

lemma emit_sign_wrote:
  assumes "room buf p (unat n)" and "wrote buf p (unat n) u out"
    and "length u + length (sign_text flags neg) < 2 ^ 32"
  shows "\<exists>out'. emit_sign n flags neg out = Some out'
     \<and> wrote buf p (unat n) (u @ sign_text flags neg) out'"
  using emit_wrote [OF assms(1,2)] assms(2,3)
  by (cases out) (auto simp: emit_sign_def sign_text_def)

lemma emit_prefix_wrote:
  assumes "room buf p (unat n)" and "wrote buf p (unat n) u out"
    and "length u + length (prefix_text flags base) < 2 ^ 32"
  shows "\<exists>out'. emit_prefix n flags base out = Some out'
     \<and> wrote buf p (unat n) (u @ prefix_text flags base) out'"
proof (cases "has flags FL_HASH \<and> base = 16")
  case True
  define x where "x = (if has flags FL_UPPER then CHR ''X'' else CHR ''x'')"
  have pre: "prefix_text flags base = [CHR ''0'', x]" using True by (simp add: prefix_text_def x_def)
  obtain out1 where 1: "emit n CHR ''0'' out = Some out1" "wrote buf p (unat n) (u @ ''0'') out1"
    using emit_wrote [OF assms(1,2)] assms(3) pre by fastforce
  obtain out2 where 2: "emit n x out1 = Some out2" "wrote buf p (unat n) ((u @ ''0'') @ [x]) out2"
    using emit_wrote [OF assms(1) 1(2)] assms(3) pre by fastforce
  show ?thesis using True 1 2 pre by (simp add: emit_prefix_def x_def)
next
  case False
  then show ?thesis using assms(2) by (cases out) (auto simp: emit_prefix_def prefix_text_def)
qed

lemma pad_if_wrote:
  assumes "room buf p (unat n)" and "wrote buf p (unat n) u out"
    and "length u + (if c then nat (width - nchars) else 0) < 2 ^ 32"
  shows "\<exists>width' out'. (if c then emit_pad n x width nchars out else Some (width, out)) = Some (width', out')
     \<and> width' = (if c then min width nchars else width)
     \<and> wrote buf p (unat n) (u @ replicate (if c then nat (width - nchars) else 0) x) out'"
  using emit_pad_wrote [OF assms(1,2), of width nchars x] assms(2,3) by (cases out) auto

text \<open>The loop of the digits continues the text as the other steps do.\<close>

lemma digit_loop_wrote:
  assumes "0 < skip" and "1 < base" and "base \<le> length digs" and "room buf p (unat n)"
    and "wrote buf p (unat n) u (b, q, k)" and "t = tick skip skip (low_digits digs base nd v)"
    and "nd' = int (length t)" and "length u + length t < 2 ^ 32"
  shows "\<exists>b'. digit_loop n digs base skip (nat nd') skip v b (q + nat nd') (k + word_of_int nd') = Some b'
     \<and> wrote buf p (unat n) (u @ rev t) (b', q + nat nd', k + word_of_int nd')"
proof -
  have b: "b = lay buf p (unat n) u" and k: "unat k = length u"
    and q: "length u < unat n \<Longrightarrow> q = p + length u"
    using assms(5) by (auto simp: wrote_def)
  have k': "unat (k + word_of_int nd') = length u + length t"
    using assms(7,8) k by (simp add: unat_word_ariths unat_of_nat)
  have room': "room b (p + length u) (unat n - length u)"
    using assms(4) unfolding b by (auto simp: room_def)
  have "digit_loop n digs base skip (length t) skip v b (q + nat nd') (k + word_of_int nd')
      = Some (lay b (p + length u) (unat n - length u) (rev t))"
    using q k' assms(7)
    by (intro digit_loop_lay [OF assms(1-3) refl room' assms(6)]) auto
  then show ?thesis
    using k' assms(4,7) lay_lay [OF assms(4), of u "rev t"] q
    by (auto simp: wrote_def b)
qed

text \<open>The tests of two flags at once.\<close>

lemma and_bit: "(w :: u8) AND 2 ^ k = (if bit w k then 2 ^ k else 0)"
  by (rule bit_word_eqI) (auto simp: bit_simps)

lemma flag_tests:
  "flags AND (FL_MINUS OR FL_ZERO) = FL_ZERO \<longleftrightarrow> has flags FL_ZERO \<and> \<not> has flags FL_MINUS"
  "has flags (FL_MINUS OR FL_ZERO) \<longleftrightarrow> has flags FL_MINUS \<or> has flags FL_ZERO"
  "has flags (FL_PLUS OR FL_SPACE) \<longleftrightarrow> has flags FL_PLUS \<or> has flags FL_SPACE"
  using and_bit [of flags 0] and_bit [of flags 1] and_bit [of flags 2] and_bit [of flags 4]
  unfolding has_def bit.conj_disj_distrib unfolding flag_values
  by (simp_all split: if_splits)

lemma sign_width: "length (sign_text flags neg)
    = (if neg \<or> has flags (FL_PLUS OR FL_SPACE) then 1 else 0)"
  by (simp add: sign_text_def flag_tests)

lemma prefix_width: "length (prefix_text flags base) = (if has flags FL_HASH \<and> base = 16 then 2 else 0)"
  by (simp add: prefix_text_def)

lemma format_int_text:
  assumes tx: "number_text flags base width prec val = Some w"
    and base: "base \<in> {8, 10, 16}" and rm: "room buf q (unat n)" and len: "length w < 2 ^ 32"
  shows "\<exists>k. format_int buf q n val flags base width prec = Some (lay buf q (unat n) w, k)
     \<and> unat k = length w"
proof -
  define neg where "neg \<longleftrightarrow> has flags FL_SIGNED \<and> val <s 0"
  define v where "v = unat (if neg then - val else val)"
  define digs where "digs = (if has flags FL_UPPER then ucdigits else lcdigits)"
  define nd where "nd = digits_needed flags base prec v"
  define skip where "skip = (if has flags FL_TICK then if base = 16 then 4 else 3 else nd)"
  define t where "t = tick (nat skip) (nat skip) (low_digits digs base (nat nd) v)"
  define sg where "sg = sign_text flags neg" define pre where "pre = prefix_text flags base"
  define nchars where "nchars = int (length sg + length pre + length t)"
  have base1: "1 < base" "base \<le> length digs"
    using base by (auto simp: digs_def ucdigits_def lcdigits_def)
  have nd: "0 < nd" unfolding nd_def by (rule digits_needed_pos [OF base1(1)])
  then have skip: "0 < skip" by (simp add: skip_def)
  have body: "body_text flags base prec v = rev t"
    by (simp add: body_text_low Let_def nd_def [symmetric] digs_def [symmetric] skip_def [symmetric] t_def)
  have sgn: "split_sign flags val = Some (neg, if neg then - val else val)"
    and wtext: "w = (if has flags FL_MINUS then sg @ pre @ rev t @ replicate (nat width - nat nchars) CHR '' ''
        else if has flags FL_ZERO then sg @ pre @ replicate (nat width - nat nchars) CHR ''0'' @ rev t
        else replicate (nat width - nat nchars) CHR '' '' @ sg @ pre @ rev t)"
    and small: "length sg + length pre + length t < 2 ^ 31"
    using tx unfolding number_text_def Let_def neg_def [symmetric] v_def [symmetric] sg_def [symmetric]
      pre_def [symmetric] body
    by (auto simp: split_sign_def neg_def nchars_def add.assoc split: if_splits)
  have room_eq: "nat width - nat nchars = nat (width - nchars)" by (simp add: nchars_def nat_diff_distrib')
  have len_t: "int (length t) = nd + (nd - 1) div skip"
  proof -
    have "length t = nat nd + (nat nd + nat skip - 1 - nat skip) div nat skip"
      unfolding t_def using skip by (subst length_tick) simp_all
    also have "nat nd + nat skip - 1 - nat skip = nat (nd - 1)" using nd by linarith
    finally show ?thesis using nd skip by (simp add: zdiv_int)
  qed
  have ok1: "int_ok (nd + (nd - 1) div skip) = Some (int (length t))"
    using small by (simp add: int_ok_def len_t [symmetric])
  have ok2: "int_ok (int (length t) + (if neg \<or> has flags (FL_PLUS OR FL_SPACE) then 1 else 0))
      = Some (int (length sg + length t))"
    using small sign_width [of flags neg] by (auto simp: int_ok_def sg_def)
  have ok3: "int_ok (int (length sg + length t) + (if has flags FL_HASH \<and> base = 16 then 2 else 0))
      = Some nchars"
    using small prefix_width [of flags base] by (auto simp: int_ok_def pre_def nchars_def)
  define c1 where "c1 \<longleftrightarrow> \<not> has flags (FL_MINUS OR FL_ZERO) \<and> width > nchars"
  define c2 where "c2 \<longleftrightarrow> flags AND (FL_MINUS OR FL_ZERO) = FL_ZERO \<and> width > int (length t)"
  define p1 p2 p3 where "p1 = replicate (if c1 then nat (width - nchars) else 0) CHR '' ''"
    and "p2 = replicate (if c2 then nat (width - nchars) else 0) CHR ''0''"
    and "p3 = replicate (if has flags FL_MINUS then nat (width - nchars) else 0) CHR '' ''"
  have c: "c1 \<Longrightarrow> \<not> c2" "c1 \<Longrightarrow> \<not> has flags FL_MINUS" "c2 \<Longrightarrow> \<not> has flags FL_MINUS"
    by (simp_all add: c1_def c2_def flag_tests)
  have w: "w = p1 @ sg @ pre @ p2 @ rev t @ p3"
    unfolding wtext p1_def p2_def p3_def c1_def c2_def flag_tests room_eq
    by (auto simp: nchars_def)
  have lens: "length p1 + (length sg + (length pre + (length p2 + (length t + length p3)))) < 2 ^ 32"
    using len by (simp add: w)
  have start: "wrote buf q (unat n) [] (buf, q, 0)" by (simp add: wrote_def)
  obtain w1 o1 where s1: "(if c1 then emit_pad n CHR '' '' width nchars (buf, q, 0) else Some (width, buf, q, 0))
      = Some (w1, o1)" "w1 = (if c1 then min width nchars else width)" "wrote buf q (unat n) p1 o1"
    using pad_if_wrote [OF rm start, of c1 width nchars "CHR '' ''"] lens by (auto simp: p1_def)
  obtain o2 where s2: "emit_sign n flags neg o1 = Some o2" "wrote buf q (unat n) (p1 @ sg) o2"
    using emit_sign_wrote [OF rm s1(3), of flags neg] lens by (auto simp: sg_def)
  obtain o3 where s3: "emit_prefix n flags base o2 = Some o3" "wrote buf q (unat n) ((p1 @ sg) @ pre) o3"
    using emit_prefix_wrote [OF rm s2(2), of flags base] lens by (auto simp: pre_def)
  have c2': "flags AND (FL_MINUS OR FL_ZERO) = FL_ZERO \<and> w1 > int (length t) \<longleftrightarrow> c2"
    using c(1) s1(2) by (auto simp: c1_def c2_def flag_tests)
  have w1: "c2 \<or> has flags FL_MINUS \<Longrightarrow> w1 = width" using c s1(2) by auto
  obtain w2 b2 q2 k2 where s4: "(if c2 then emit_pad n CHR ''0'' w1 nchars o3 else Some (w1, o3))
      = Some (w2, b2, q2, k2)" "w2 = (if c2 then min w1 nchars else w1)"
    "wrote buf q (unat n) (((p1 @ sg) @ pre) @ p2) (b2, q2, k2)"
    using pad_if_wrote [OF rm s3(2), of c2 w1 nchars "CHR ''0''"] lens w1
    by (auto simp: p2_def split: if_splits)
  obtain b3 where s5: "digit_loop n digs base (nat skip) (nat (int (length t))) (nat skip) v b2
        (q2 + nat (int (length t))) (k2 + word_of_int (int (length t))) = Some b3"
    "wrote buf q (unat n) ((((p1 @ sg) @ pre) @ p2) @ rev t)
       (b3, q2 + nat (int (length t)), k2 + word_of_int (int (length t)))"
    using digit_loop_wrote [OF _ base1 rm s4(3) t_def refl] skip lens by auto
  obtain w4 b4 q4 k4 where s6: "(if has flags FL_MINUS
        then emit_pad n CHR '' '' w2 nchars (b3, q2 + nat (int (length t)), k2 + word_of_int (int (length t)))
        else Some (w2, b3, q2 + nat (int (length t)), k2 + word_of_int (int (length t))))
      = Some (w4, b4, q4, k4)"
    "wrote buf q (unat n) (((((p1 @ sg) @ pre) @ p2) @ rev t) @ p3) (b4, q4, k4)"
    using pad_if_wrote [OF rm s5(2), of "has flags FL_MINUS" w2 nchars "CHR '' ''"] lens w1 c s4(2)
    by (auto simp: p3_def split: if_splits)
  have run: "format_int buf q n val flags base width prec = Some (b4, k4)"
    unfolding format_int_def sgn Let_def bind.bind_lunit prod.case v_def [symmetric] nd_def [symmetric]
      skip_def [symmetric] ok1 ok2 ok3 c1_def [symmetric] s1(1) s2(1) s3(1) c2' s4(1)
      digs_def [symmetric] s5(1) s6(1) by simp
  show ?thesis using run s6(2) by (simp add: wrote_def w)
qed

abbreviation vs_pos :: "vs \<Rightarrow> vs_out" where
  "vs_pos v \<equiv> (vs_buf v, vs_q v, vs_o v)"

lemma format_str_text:
  assumes rm: "room buf p (unat n)" and u: "wrote buf p (unat n) u out"
    and slen: "0 \<le> slen" "nat slen \<le> length s" and prec: "- 1 \<le> prec"
    and w: "w = string_text flags width prec (take (nat slen) s)"
    and len: "length u + length w < 2 ^ 32"
  shows "\<exists>out'. format_str n s slen flags width prec out = Some out'
     \<and> wrote buf p (unat n) (u @ w) out'"
proof -
  define sl where "sl = (if prec \<noteq> - 1 \<and> slen > prec then prec else slen)"
  have sl: "0 \<le> sl" "nat sl \<le> length s" using slen prec by (auto simp: sl_def)
  define t where "t = take (nat sl) s"
  have t: "(if prec = - 1 then take (nat slen) s else take (nat prec) (take (nat slen) s)) = t"
    using slen prec by (auto simp: t_def sl_def min_def nat_le_eq_zle)
  have lt: "length t = nat sl" using sl by (simp add: t_def)
  have rest: "nat width - length t = nat (width - sl)" using sl lt by (simp add: nat_diff_distrib')
  define x where "x = (if has flags FL_ZERO then CHR ''0'' else CHR '' '')"
  define c1 where "c1 \<longleftrightarrow> width > sl \<and> \<not> has flags FL_MINUS"
  define c2 where "c2 \<longleftrightarrow> width > sl \<and> has flags FL_MINUS"
  define p1 p2 where "p1 = replicate (if c1 then nat (width - sl) else 0) x"
    and "p2 = replicate (if c2 then nat (width - sl) else 0) CHR '' ''"
  have wp: "w = p1 @ t @ p2"
    unfolding w string_text_def Let_def t rest by (auto simp: p1_def p2_def c1_def c2_def x_def)
  have lens: "length u + (length p1 + (length t + length p2)) < 2 ^ 32" using len by (simp add: wp)
  obtain w1 o1 where 1: "(if c1 then emit_pad n x width sl out else Some (width, out)) = Some (w1, o1)"
    "w1 = (if c1 then min width sl else width)" "wrote buf p (unat n) (u @ p1) o1"
    using pad_if_wrote [OF rm u, of c1 width sl x] lens by (auto simp: p1_def)
  obtain o2 where 2: "emit_chars n (nat sl) s o1 = Some o2" "wrote buf p (unat n) ((u @ p1) @ t) o2"
    using emit_chars_wrote [OF rm 1(3) sl(2)] lens lt by (auto simp: t_def)
  have c2': "w1 > sl \<and> has flags FL_MINUS \<longleftrightarrow> c2" and w1: "c2 \<Longrightarrow> w1 = width"
    using 1(2) by (auto simp: c1_def c2_def)
  obtain w3 o3 where 3: "(if c2 then emit_pad n CHR '' '' w1 sl o2 else Some (w1, o2)) = Some (w3, o3)"
    "wrote buf p (unat n) (((u @ p1) @ t) @ p2) o3"
    using pad_if_wrote [OF rm 2(2), of c2 w1 sl "CHR '' ''"] lens w1
    by (auto simp: p2_def split: if_splits)
  have "\<not> sl < 0" using sl by simp
  then have "format_str n s slen flags width prec out = Some o3"
    unfolding format_str_def Let_def sl_def [symmetric] c1_def [symmetric] x_def [symmetric] 1(1)
      bind.bind_lunit prod.case 2(1) c2' 3(1) using 3(1) by simp
  then show ?thesis using 3(2) by (simp add: wp)
qed

lemma string_arg_len:
  "string_arg ch args = Some (s, slen, args') \<Longrightarrow> 0 \<le> slen \<and> nat slen \<le> length s"
  by (auto simp: string_arg_def c_strlen_def length_takeWhile_le Let_def
      split: if_splits list.splits va_arg.splits option.splits Option.bind_splits)

lemma vs_integer_text:
  assumes tx: "number_text flags base (vs_width v) prec val = Some w" and base: "base \<in> {8, 10, 16}"
    and rm: "unat n \<le> length buf" and u: "wrote buf 0 (unat n) u (vs_pos v)"
    and len: "length u + length w < 2 ^ 32"
  shows "\<exists>out'. vs_integer n val flags base prec v = Some (vs_put v out')
     \<and> wrote buf 0 (unat n) (u @ w) out'"
proof -
  have b: "vs_buf v = lay buf 0 (unat n) u" and k: "unat (vs_o v) = length u"
    and q: "length u < unat n \<Longrightarrow> vs_q v = length u"
    using u by (auto simp: wrote_def)
  have r0: "room buf 0 (unat n)" using rm by (simp add: room_def)
  define left where "left = (if vs_o v < n then n - vs_o v else 0)"
  have left: "unat left = unat n - length u"
    using k by (auto simp: left_def word_less_nat_alt unat_sub_if')
  have rm': "room (vs_buf v) (vs_q v) (unat left)"
    using q rm r0 unfolding left b by (cases "length u < unat n") (auto simp: room_def)
  obtain j where j: "format_int (vs_buf v) (vs_q v) left val flags base (vs_width v) prec
      = Some (lay (vs_buf v) (vs_q v) (unat left) w, j)" "unat j = length w"
    using format_int_text [OF tx base rm'] len by auto
  have "lay (vs_buf v) (vs_q v) (unat left) w = lay buf 0 (unat n) (u @ w)"
  proof (cases "length u < unat n")
    case True
    then show ?thesis using lay_lay [OF r0, of u w] by (simp add: q left b)
  next
    case False
    then show ?thesis by (simp add: left b lay_full)
  qed
  moreover have "unat (vs_o v + j) = length u + length w"
    using k j(2) len by (simp add: unat_word_ariths)
  ultimately have "wrote buf 0 (unat n) (u @ w) (lay (vs_buf v) (vs_q v) (unat left) w, vs_q v + unat j, vs_o v + j)"
    using q j(2) by (simp add: wrote_def)
  then show ?thesis
    using j(1) unfolding vs_integer_def left_def [symmetric] by auto
qed

lemma vs_convert_text:
  assumes tx: "conversion_text ch (vs_flags v) (vs_width v) (vs_prec v) (vs_rank v) (vs_args v) (length u)
      = Some (w, args', cnt)"
    and rm: "unat n \<le> length buf" and u: "wrote buf 0 (unat n) u (vs_pos v)"
    and len: "length u + length w < 2 ^ 32"
  shows "\<exists>v'. vs_convert n ch v = Some v' \<and> vs_state v' = vs_state v \<and> vs_args v' = args'
     \<and> vs_counts v' = vs_counts v @ cnt \<and> wrote buf 0 (unat n) (u @ w) (vs_pos v')"
proof -
  have r0: "room buf 0 (unat n)" using rm by (simp add: room_def)
  have int_case: ?thesis
    if "vs_convert n ch v = vs_integer n val flags base prec (v\<lparr>vs_args := args'\<rparr>)" and "cnt = []"
      and "number_text flags base (vs_width v) prec val = Some w" and "base \<in> {8, 10, 16}"
    for val flags base prec
    using vs_integer_text [of flags base "v\<lparr>vs_args := args'\<rparr>" prec val w n buf u] that rm u len
    by auto
  consider "ch \<in> {CHR ''P'', CHR ''p''}" | "ch \<in> {CHR ''d'', CHR ''i''}"
    | "ch \<in> {CHR ''o'', CHR ''u'', CHR ''x'', CHR ''X''}" | "ch \<in> {CHR ''c'', CHR ''s''}"
    | "ch = CHR ''n''" | "ch \<notin> set ''PpdiouxXcsn''" by auto
  then show ?thesis
  proof cases
    case 1
    then obtain val where "take_ptr (vs_args v) = Some (val, args')" "cnt = []"
      "number_text (if ch = CHR ''P'' then vs_flags v OR FL_UPPER OR FL_HASH else vs_flags v OR FL_HASH)
         16 (vs_width v) 8 val = Some w"
      using tx by (auto simp: conversion_text_def or.assoc split: Option.bind_splits prod.splits)
    then show ?thesis
      using 1 by (intro int_case) (auto simp: vs_convert_def)
  next
    case 2
    then obtain val where "signed_arg (vs_rank v) (vs_args v) = Some (val, args')" "cnt = []"
      "number_text (vs_flags v OR FL_SIGNED) 10 (vs_width v) (vs_prec v) val = Some w"
      using tx by (auto simp: conversion_text_def split: Option.bind_splits prod.splits)
    then show ?thesis
      using 2 by (intro int_case) (auto simp: vs_convert_def)
  next
    case 3
    then obtain val where "unsigned_arg (vs_rank v) (vs_args v) = Some (val, args')" "cnt = []"
      "number_text (if ch = CHR ''X'' then vs_flags v OR FL_UPPER else vs_flags v)
         (if ch = CHR ''o'' then 8 else if ch = CHR ''u'' then 10 else 16) (vs_width v) (vs_prec v) val
       = Some w"
      using tx by (auto simp: conversion_text_def split: Option.bind_splits prod.splits)
    then show ?thesis
      using 3 by (intro int_case [of val "if ch = CHR ''X'' then vs_flags v OR FL_UPPER else vs_flags v"
        "if ch = CHR ''o'' then 8 else if ch = CHR ''u'' then 10 else 16" "vs_prec v"])
        (auto simp: vs_convert_def)
  next
    case 4
    then have "string_arg ch (vs_args v) \<bind> (\<lambda>(s, slen, args). if vs_prec v < - 1 then None
        else Some (string_text (vs_flags v) (vs_width v) (vs_prec v) (take (nat slen) s), args, []))
      = Some (w, args', cnt)"
      using tx by (auto simp: conversion_text_def)
    then obtain s slen where a: "string_arg ch (vs_args v) = Some (s, slen, args')" "cnt = []"
      "\<not> vs_prec v < - 1" "w = string_text (vs_flags v) (vs_width v) (vs_prec v) (take (nat slen) s)"
      by (auto split: Option.bind_splits if_splits)
    obtain out' where "format_str n s slen (vs_flags v) (vs_width v) (vs_prec v) (vs_pos v) = Some out'"
      "wrote buf 0 (unat n) (u @ w) out'"
      using format_str_text [OF r0 u _ _ _ a(4) len] string_arg_len [OF a(1)] a(3) by auto
    then show ?thesis using 4 a(1,2) by (auto simp: vs_convert_def)
  next
    case 5
    then obtain p where "vs_args v = VA_count p # args'" "w = []"
      "cnt = [(p, vs_rank v, word_of_nat (length u))]"
      using tx by (auto simp: conversion_text_def split: list.splits va_arg.splits)
    moreover have "vs_o v = word_of_nat (length u)"
    proof -
      have "unat (vs_o v) = length u" using u by (auto simp: wrote_def)
      moreover have "word_of_nat (unat (vs_o v)) = vs_o v" by simp
      ultimately show ?thesis by simp
    qed
    ultimately show ?thesis using 5 u by (auto simp: vs_convert_def)
  next
    case 6
    then have a: "w = [ch]" "cnt = []" "args' = vs_args v"
      using tx by (auto simp: conversion_text_def)
    obtain out' where "emit n ch (vs_pos v) = Some out'" "wrote buf 0 (unat n) (u @ [ch]) out'"
      using emit_wrote [OF r0 u, of ch] len a(1) by auto
    then show ?thesis using 6 a by (auto simp: vs_convert_def)
  qed
qed

section \<open>The states of the format loop\<close>

declare vs_loop.simps [simp del]

lemma vs_loop_Cons:
  "ch \<noteq> NUL \<Longrightarrow> vs_loop n (ch # p) v
     = do { (v', again) \<leftarrow> vs_step n ch v; vs_loop n (if again then ch # p else p) v' }"
  by (subst vs_loop.simps) simp

lemma vs_loop_NUL: "vs_loop n (NUL # p) v = Some v"
  by (subst vs_loop.simps) simp

lemma vs_step_flags:
  "vs_state v = st_flags \<Longrightarrow> vs_step n ch v =
     (if flag_char ch then Some (v\<lparr>vs_flags := vs_flags v OR flag_of ch\<rparr>, False)
      else Some (v\<lparr>vs_state := st_width\<rparr>, True))"
  by (auto simp: vs_step_def flag_char_def flag_of_def)

lemma vs_loop_flags:
  assumes "vs_state v = st_flags" and "NUL \<notin> set cs" and "dropWhile flag_char cs \<noteq> []"
  shows "vs_loop n (cs @ z) v = vs_loop n (dropWhile flag_char cs @ z)
     (v\<lparr>vs_flags := foldl (\<lambda>f c. f OR flag_of c) (vs_flags v) (takeWhile flag_char cs),
        vs_state := st_width\<rparr>)"
  using assms
proof (induction cs arbitrary: v)
  case (Cons c cs)
  have c: "c \<noteq> NUL" using Cons.prems(2) by auto
  show ?case
  proof (cases "flag_char c")
    case True
    then show ?thesis
      using c Cons.prems Cons.IH [of "v\<lparr>vs_flags := vs_flags v OR flag_of c\<rparr>"]
      by (simp add: vs_loop_Cons vs_step_flags)
  next
    case False
    then show ?thesis using c Cons.prems by (simp add: vs_loop_Cons vs_step_flags)
  qed
qed simp

lemma vs_loop_width:
  assumes "vs_state v = st_width" and "NUL \<notin> set cs" and "dropWhile num_char cs = c # r"
    and "width_field (takeWhile num_char cs) (vs_width v) (vs_flags v) (vs_args v) = Some (w, f, a)"
  shows "vs_loop n (cs @ z) v =
     (if c = CHR ''.''
      then vs_loop n (r @ z)
        (v\<lparr>vs_width := w, vs_flags := f, vs_args := a, vs_prec := 0, vs_state := st_prec\<rparr>)
      else vs_loop n (c # r @ z)
        (v\<lparr>vs_width := w, vs_flags := f, vs_args := a, vs_state := st_modifiers\<rparr>))"
  using assms
proof (induction cs arbitrary: v)
  case (Cons d cs)
  have d: "d \<noteq> NUL" using Cons.prems(2) by auto
  consider "digit_char d" | "\<not> digit_char d" "d = CHR ''*''" | "\<not> num_char d"
    by (auto simp: num_char_def)
  then show ?case
  proof cases
    case 1
    then have star: "d \<noteq> CHR ''*''" and nc: "num_char d" by (auto simp: digit_char_def num_char_def)
    obtain w' where w': "int_ok (vs_width v * 10 + digit_val d) = Some w'"
      "width_field (takeWhile num_char cs) w' (vs_flags v) (vs_args v) = Some (w, f, a)"
      using Cons.prems(4) star nc by (auto split: Option.bind_splits)
    have "vs_step n d v = Some (v\<lparr>vs_width := w'\<rparr>, False)"
      using 1 Cons.prems(1) w'(1) by (simp add: vs_step_def)
    then show ?thesis
      using Cons.IH [of "v\<lparr>vs_width := w'\<rparr>"] Cons.prems nc w' d
      by (simp add: vs_loop_Cons)
  next
    case 2
    then have nc: "num_char d" by (simp add: num_char_def)
    obtain x rest where x: "take_int (vs_args v) = Some (x, rest)"
      using Cons.prems(4) 2 nc by (auto split: Option.bind_splits)
    obtain w' where w': "int_ok \<bar>x\<bar> = Some w'"
      "width_field (takeWhile num_char cs) w' (if x < 0 then vs_flags v OR FL_MINUS else vs_flags v) rest
        = Some (w, f, a)"
      using Cons.prems(4) 2 x nc by (auto split: Option.bind_splits)
    have abs: "\<not> x < 0 \<Longrightarrow> w' = x" using w'(1) by (auto simp: int_ok_def split: if_splits)
    have "vs_step n d v = Some (v\<lparr>vs_args := rest, vs_width := w',
        vs_flags := (if x < 0 then vs_flags v OR FL_MINUS else vs_flags v)\<rparr>, False)"
      using 2 Cons.prems(1) x w'(1) abs by (auto simp: vs_step_def)
    then show ?thesis
      using Cons.IH [of "v\<lparr>vs_args := rest, vs_width := w',
          vs_flags := (if x < 0 then vs_flags v OR FL_MINUS else vs_flags v)\<rparr>"] Cons.prems nc w' d
      by (simp add: vs_loop_Cons)
  next
    case 3
    then have e: "c = d" "r = cs" "w = vs_width v" "f = vs_flags v" "a = vs_args v"
      using Cons.prems(3,4) by simp_all
    have n: "\<not> digit_char d" "d \<noteq> CHR ''*''" using 3 by (auto simp: num_char_def)
    show ?thesis
      using n d Cons.prems(1) by (simp add: e vs_loop_Cons vs_step_def)
  qed
qed simp

lemma vs_loop_prec:
  assumes "vs_state v = st_prec" and "NUL \<notin> set cs" and "dropWhile num_char cs \<noteq> []"
    and "prec_field (takeWhile num_char cs) (vs_prec v) (vs_args v) = Some (w, a)"
  shows "vs_loop n (cs @ z) v = vs_loop n (dropWhile num_char cs @ z)
     (v\<lparr>vs_prec := w, vs_args := a, vs_state := st_modifiers\<rparr>)"
  using assms
proof (induction cs arbitrary: v)
  case (Cons d cs)
  have d: "d \<noteq> NUL" using Cons.prems(2) by auto
  consider "digit_char d" | "\<not> digit_char d" "d = CHR ''*''" | "\<not> num_char d"
    by (auto simp: num_char_def)
  then show ?case
  proof cases
    case 1
    then have star: "d \<noteq> CHR ''*''" and nc: "num_char d" by (auto simp: digit_char_def num_char_def)
    obtain w' where w': "int_ok (vs_prec v * 10 + digit_val d) = Some w'"
      "prec_field (takeWhile num_char cs) w' (vs_args v) = Some (w, a)"
      using Cons.prems(4) star nc by (auto split: Option.bind_splits)
    have "vs_step n d v = Some (v\<lparr>vs_prec := w'\<rparr>, False)"
      using 1 Cons.prems(1) w'(1) by (simp add: vs_step_def)
    then show ?thesis
      using Cons.IH [of "v\<lparr>vs_prec := w'\<rparr>"] Cons.prems nc w' d
      by (simp add: vs_loop_Cons)
  next
    case 2
    then have nc: "num_char d" by (simp add: num_char_def)
    obtain x rest where x: "take_int (vs_args v) = Some (x, rest)"
      "prec_field (takeWhile num_char cs) (if x < 0 then - 1 else x) rest = Some (w, a)"
      using Cons.prems(4) 2 nc by (auto split: Option.bind_splits)
    have "vs_step n d v = Some (v\<lparr>vs_args := rest, vs_prec := (if x < 0 then - 1 else x)\<rparr>, False)"
      using 2 Cons.prems(1) x by (auto simp: vs_step_def)
    then show ?thesis
      using Cons.IH [of "v\<lparr>vs_args := rest, vs_prec := (if x < 0 then - 1 else x)\<rparr>"] Cons.prems nc x d
      by (simp add: vs_loop_Cons)
  next
    case 3
    then have e: "w = vs_prec v" "a = vs_args v" using Cons.prems(4) by simp_all
    have n: "\<not> digit_char d" "d \<noteq> CHR ''*''" using 3 by (auto simp: num_char_def)
    show ?thesis
      using n d Cons.prems(1) 3 by (simp add: e vs_loop_Cons vs_step_def)
  qed
qed simp

lemma vs_loop_modifiers:
  assumes "vs_state v = st_modifiers" and "NUL \<notin> set cs" and "dropWhile mod_char cs = ch # r"
  shows "vs_loop n (cs @ z) v = do {
     v' \<leftarrow> vs_convert n ch (v\<lparr>vs_state := st_normal,
        vs_rank := canonical_rank (foldl rank_mod (vs_rank v) (takeWhile mod_char cs))\<rparr>);
     vs_loop n (r @ z) v' }"
  using assms
proof (induction cs arbitrary: v)
  case (Cons c cs)
  have c: "c \<noteq> NUL" using Cons.prems(2) by auto
  show ?case
  proof (cases "mod_char c")
    case True
    then have "vs_step n c v = Some (v\<lparr>vs_rank := rank_mod (vs_rank v) c\<rparr>, False)"
      using Cons.prems(1) by (auto simp: mod_char_def vs_step_def rank_mod_def)
    then show ?thesis
      using True c Cons.prems Cons.IH [of "v\<lparr>vs_rank := rank_mod (vs_rank v) c\<rparr>"]
      by (simp add: vs_loop_Cons)
  next
    case False
    then have e: "ch = c" "r = cs" using Cons.prems(3) by simp_all
    have "vs_step n c v = do {
        v' \<leftarrow> vs_convert n c (v\<lparr>vs_state := st_normal, vs_rank := canonical_rank (vs_rank v)\<rparr>);
        Some (v', False) }"
      using False Cons.prems(1) by (auto simp: mod_char_def vs_step_def)
    then show ?thesis using False c by (simp add: e vs_loop_Cons)
  qed
qed simp

lemma vs_loop_directive:
  assumes st: "vs_state v = st_flags" "vs_flags v = 0" "vs_width v = 0" "vs_prec v = - 1"
      "vs_rank v = rank_int"
    and nul: "NUL \<notin> set cs" and split: "split_directive cs = (fl, wd, pr, md, ch # rest)"
    and width: "width_field wd 0 (foldl (\<lambda>f c. f OR flag_of c) 0 fl) (vs_args v) = Some (w, f, a)"
    and prec: "(case pr of None \<Rightarrow> Some (- 1, a) | Some q \<Rightarrow> prec_field q 0 a) = Some (p, a')"
  shows "vs_loop n (cs @ z) v = do {
     v' \<leftarrow> vs_convert n ch (v\<lparr>vs_width := w, vs_flags := f, vs_prec := p, vs_args := a',
        vs_state := st_normal, vs_rank := canonical_rank (foldl rank_mod rank_int md)\<rparr>);
     vs_loop n (rest @ z) v' }"
proof -
  define r1 where "r1 = dropWhile flag_char cs"
  define r2 where "r2 = dropWhile num_char r1"
  have nul1: "NUL \<notin> set r1" using nul unfolding r1_def by (meson set_dropWhileD)
  then have nul2: "NUL \<notin> set r2" unfolding r2_def by (meson set_dropWhileD)
  have ne: "r2 \<noteq> []"
  proof
    assume "r2 = []"
    then show False using split
      by (simp add: split_directive_def Let_def r1_def [symmetric] r2_def [symmetric])
  qed
  then have ne1: "r1 \<noteq> []" by (auto simp: r2_def)
  obtain c r where r2: "r2 = c # r" using ne by (cases r2) auto
  have parts: "fl = takeWhile flag_char cs" "wd = takeWhile num_char r1"
    and rest: "if c = CHR ''.'' then pr = Some (takeWhile num_char r)
        \<and> md = takeWhile mod_char (dropWhile num_char r) \<and> ch # rest = dropWhile mod_char (dropWhile num_char r)
      else pr = None \<and> md = takeWhile mod_char r2 \<and> ch # rest = dropWhile mod_char r2"
    using split r2 by (auto simp: split_directive_def Let_def r1_def [symmetric] r2_def [symmetric]
        split: if_splits)
  define v1 where "v1 = v\<lparr>vs_flags := foldl (\<lambda>f c. f OR flag_of c) 0 fl, vs_state := st_width\<rparr>"
  have 1: "vs_loop n (cs @ z) v = vs_loop n (r1 @ z) v1"
    using vs_loop_flags [OF st(1) nul] ne1 st(2) by (simp add: r1_def v1_def parts)
  have 2: "vs_loop n (r1 @ z) v1 = (if c = CHR ''.''
      then vs_loop n (r @ z)
        (v1\<lparr>vs_width := w, vs_flags := f, vs_args := a, vs_prec := 0, vs_state := st_prec\<rparr>)
      else vs_loop n (c # r @ z)
        (v1\<lparr>vs_width := w, vs_flags := f, vs_args := a, vs_state := st_modifiers\<rparr>))"
    using width st(3) r2 by (intro vs_loop_width nul1) (simp_all add: v1_def parts r2_def)
  show ?thesis
  proof (cases "c = CHR ''.''")
    case True
    define r3 where "r3 = dropWhile num_char r"
    define v2 where "v2 = v1\<lparr>vs_width := w, vs_flags := f, vs_args := a, vs_prec := 0, vs_state := st_prec\<rparr>"
    have r3': "ch # rest = dropWhile mod_char r3" "md = takeWhile mod_char r3"
      using rest True by (simp_all add: r3_def)
    then have r3: "r3 \<noteq> []" "ch # rest = dropWhile mod_char r3" "md = takeWhile mod_char r3"
      by (cases r3; simp)+
    have nulr: "NUL \<notin> set r" using nul2 r2 by simp
    have "vs_loop n (r @ z) v2 = vs_loop n (r3 @ z)
        (v2\<lparr>vs_prec := p, vs_args := a', vs_state := st_modifiers\<rparr>)"
      unfolding r3_def
      using rest True prec r3(1) nulr by (intro vs_loop_prec) (simp_all add: v2_def r3_def)
    also have "\<dots> = do {
        v' \<leftarrow> vs_convert n ch (v2\<lparr>vs_prec := p, vs_args := a', vs_state := st_normal,
          vs_rank := canonical_rank (foldl rank_mod rank_int md)\<rparr>);
        vs_loop n (rest @ z) v' }"
    proof -
      have "NUL \<notin> set r3" using nulr unfolding r3_def by (meson set_dropWhileD)
      then show ?thesis
        using vs_loop_modifiers [of "v2\<lparr>vs_prec := p, vs_args := a', vs_state := st_modifiers\<rparr>" r3 ch rest n z]
          r3(2,3) st(5) by (simp add: v2_def v1_def)
    qed
    finally show ?thesis using 1 2 True by (simp add: v2_def v1_def)
  next
    case False
    have "vs_loop n (r2 @ z) (v1\<lparr>vs_width := w, vs_flags := f, vs_args := a, vs_state := st_modifiers\<rparr>)
      = do {
        v' \<leftarrow> vs_convert n ch (v1\<lparr>vs_width := w, vs_flags := f, vs_args := a, vs_state := st_normal,
          vs_rank := canonical_rank (foldl rank_mod rank_int md)\<rparr>);
        vs_loop n (rest @ z) v' }"
      using rest False nul2 st(5)
      by (subst vs_loop_modifiers [of _ r2 ch rest]) (simp_all add: v1_def)
    moreover have "p = - 1" "a' = a" using prec rest False by auto
    moreover have "v\<lparr>vs_width := w, vs_flags := f, vs_prec := - 1, vs_args := a, vs_state := st_normal,
        vs_rank := k\<rparr> = v\<lparr>vs_width := w, vs_flags := f, vs_args := a, vs_state := st_normal, vs_rank := k\<rparr>" for k
      using st(4) by (cases v) simp
    ultimately show ?thesis using 1 2 False by (simp add: v1_def r2)
  qed
qed

lemma set_split_rest:
  assumes "split_directive cs = (fl, wd, pr, md, rest)"
  shows "set rest \<subseteq> set cs"
proof -
  have sub: "set (dropWhile P xs) \<subseteq> set xs" for P and xs :: string
    by (auto dest: set_dropWhileD)
  define r2 where "r2 = dropWhile num_char (dropWhile flag_char cs)"
  have r2: "set r2 \<subseteq> set cs" unfolding r2_def by (meson sub order_trans)
  show ?thesis
  proof (cases r2)
    case Nil
    then show ?thesis using assms by (simp add: split_directive_def Let_def r2_def [symmetric])
  next
    case (Cons c r)
    then have "rest = dropWhile mod_char (dropWhile num_char r) \<or> rest = dropWhile mod_char r2"
      using assms by (simp add: split_directive_def Let_def r2_def [symmetric] split: if_splits)
    moreover have "set r \<subseteq> set r2" using Cons by auto
    ultimately show ?thesis using r2 by (meson sub order_trans)
  qed
qed

lemma bind_SomeE:
  "Option.bind x f = Some y \<Longrightarrow> (\<And>a. x = Some a \<Longrightarrow> f a = Some y \<Longrightarrow> P) \<Longrightarrow> P"
  by (cases x) simp_all

lemma vs_loop_text:
  assumes "format_text fmt (vs_args v) (length u) = Some (w, cnt)" and "NUL \<notin> set fmt"
    and "vs_state v = st_normal" and "unat n \<le> length buf" and "wrote buf 0 (unat n) u (vs_pos v)"
    and "length u + length w < 2 ^ 32"
  shows "\<exists>v'. vs_loop n (fmt @ NUL # z) v = Some v' \<and> vs_counts v' = vs_counts v @ cnt
     \<and> wrote buf 0 (unat n) (u @ w) (vs_pos v')"
  using assms
proof (induction "length fmt" arbitrary: fmt v u w cnt rule: less_induct)
  case less
  have room: "room buf 0 (unat n)" using less.prems(4) by (simp add: room_def)
  show ?case
  proof (cases fmt)
    case Nil
    then show ?thesis using less.prems by (simp add: vs_loop_NUL)
  next
    case (Cons c cs)
    have c: "c \<noteq> NUL" and nul: "NUL \<notin> set cs" using less.prems(2) Cons by auto
    show ?thesis
    proof (cases "c = CHR ''%''")
      case False
      obtain w' where w': "format_text cs (vs_args v) (length u + 1) = Some (w', cnt)" "w = c # w'"
        using less.prems(1) Cons False by (auto split: Option.bind_splits)
      obtain out where out: "emit n c (vs_pos v) = Some out" "wrote buf 0 (unat n) (u @ [c]) out"
        using emit_wrote [OF room less.prems(5), of c] less.prems(6) w'(2) by auto
      have step: "vs_step n c v = Some (vs_put v out, False)"
        using less.prems(3) False out(1) by (simp add: vs_step_def)
      show ?thesis
        using less.hyps [of cs "vs_put v out" "u @ [c]" w' cnt] less.prems(3,4,6) Cons w' out(2) nul c step
        by (simp add: vs_loop_Cons)
    next
      case True
      obtain fl wd pr md r where sp: "split_directive cs = (fl, wd, pr, md, r)" by (metis prod_cases5)
      obtain ch rest where r: "r = ch # rest"
        using less.prems(1) Cons True sp by (cases r) simp_all
      have "\<exists>width f a p a' w1 a2 cnt1 w2 cnt2.
          width_field wd 0 (foldl (\<lambda>f c. f OR flag_of c) 0 fl) (vs_args v) = Some (width, f, a)
        \<and> (case pr of None \<Rightarrow> Some (- 1, a) | Some q \<Rightarrow> prec_field q 0 a) = Some (p, a')
        \<and> conversion_text ch f width p (canonical_rank (foldl rank_mod rank_int md)) a' (length u)
            = Some (w1, a2, cnt1)
        \<and> format_text rest a2 (length u + length w1) = Some (w2, cnt2) \<and> w = w1 @ w2 \<and> cnt = cnt1 @ cnt2"
      proof -
        have "do {
             (width, flags, args) \<leftarrow> width_field wd 0 (foldl (\<lambda>f c. f OR flag_of c) 0 fl) (vs_args v);
             (prec, args) \<leftarrow> (case pr of None \<Rightarrow> Some (- 1, args) | Some p \<Rightarrow> prec_field p 0 args);
             (w, args, cnt) \<leftarrow> conversion_text ch flags width prec
                (canonical_rank (foldl rank_mod rank_int md)) args (length u);
             (w', cnt') \<leftarrow> format_text rest args (length u + length w);
             Some (w @ w', cnt @ cnt')
           } = Some (w, cnt)"
          using less.prems(1) unfolding Cons True format_text.simps sp r by simp
        then show ?thesis by (elim bind_SomeE) (auto elim!: bind_SomeE)
      qed
      then obtain width f a p a' w1 a2 cnt1 w2 cnt2 where
        wf: "width_field wd 0 (foldl (\<lambda>f c. f OR flag_of c) 0 fl) (vs_args v) = Some (width, f, a)" and
        pf: "(case pr of None \<Rightarrow> Some (- 1, a) | Some q \<Rightarrow> prec_field q 0 a) = Some (p, a')" and
        cv: "conversion_text ch f width p (canonical_rank (foldl rank_mod rank_int md)) a' (length u)
            = Some (w1, a2, cnt1)" and
        ft: "format_text rest a2 (length u + length w1) = Some (w2, cnt2)" and
        w: "w = w1 @ w2" "cnt = cnt1 @ cnt2" by blast
      define v0 where "v0 = v\<lparr>vs_state := st_flags, vs_flags := 0, vs_rank := rank_int, vs_width := 0,
          vs_prec := - 1\<rparr>"
      define v1 where "v1 = v0\<lparr>vs_width := width, vs_flags := f, vs_prec := p, vs_args := a',
        vs_state := st_normal, vs_rank := canonical_rank (foldl rank_mod rank_int md)\<rparr>"
      have "vs_step n c v = Some (v0, False)"
        using less.prems(3) True by (simp add: vs_step_def v0_def)
      then have "vs_loop n (fmt @ NUL # z) v = vs_loop n (cs @ NUL # z) v0"
        using Cons c by (simp add: vs_loop_Cons)
      also have "\<dots> = do { v' \<leftarrow> vs_convert n ch v1; vs_loop n (rest @ NUL # z) v' }"
        unfolding v1_def using wf pf sp r nul by (intro vs_loop_directive) (simp_all add: v0_def)
      finally have run: "vs_loop n (fmt @ NUL # z) v
          = do { v' \<leftarrow> vs_convert n ch v1; vs_loop n (rest @ NUL # z) v' }" .
      have "\<exists>v'. vs_convert n ch v1 = Some v' \<and> vs_state v' = vs_state v1 \<and> vs_args v' = a2
          \<and> vs_counts v' = vs_counts v1 @ cnt1 \<and> wrote buf 0 (unat n) (u @ w1) (vs_pos v')"
        using cv less.prems(4-6) w by (intro vs_convert_text) (simp_all add: v1_def v0_def)
      then obtain v2 where v2: "vs_convert n ch v1 = Some v2" "vs_state v2 = st_normal" "vs_args v2 = a2"
        "vs_counts v2 = vs_counts v @ cnt1" "wrote buf 0 (unat n) (u @ w1) (vs_pos v2)"
        by (auto simp: v1_def v0_def)
      have "length rest < length fmt"
        using length_split_rest [OF sp] r Cons by simp
      moreover have "NUL \<notin> set rest"
        using set_split_rest [OF sp] r nul by auto
      ultimately show ?thesis
        using less.hyps [of rest v2 "u @ w1" w2 cnt2] v2 ft less.prems(4,6) w run by simp
    qed
  qed
qed

section \<open>Decimal numbers\<close>

text \<open>The value of a decimal text, the way a reader takes it.\<close>

definition dec_value :: "string \<Rightarrow> nat" where
  "dec_value s = foldl (\<lambda>a c. 10 * a + (of_char c - 48)) 0 s"

definition read_decimal :: "string \<Rightarrow> int" where
  "read_decimal s =
     (case s of [] \<Rightarrow> 0
      | c # cs \<Rightarrow> if c = CHR ''-'' then - int (dec_value cs) else int (dec_value s))"

lemma dec_value_snoc: "dec_value (s @ [c]) = 10 * dec_value s + (of_char c - 48)"
  by (simp add: dec_value_def)

lemma decimal_digit: "d < 10 \<Longrightarrow> of_char (lcdigits ! d) = (48 + d :: nat)"
  by (auto simp: lcdigits_def less_Suc_eq numeral_eq_Suc)

lemma decimal_char: "d < 10 \<Longrightarrow> lcdigits ! d \<in> set ''0123456789''"
  by (auto simp: lcdigits_def less_Suc_eq numeral_eq_Suc)

lemma dec_value_low: "dec_value (rev (low_digits lcdigits 10 n v)) = v mod 10 ^ n"
proof (induction n arbitrary: v)
  case 0
  then show ?case by (simp add: dec_value_def)
next
  case (Suc n)
  have "v mod 10 ^ Suc n = 10 * (v div 10 mod 10 ^ n) + v mod 10"
    using mod_mult2_eq [of v 10 "10 ^ n"] by simp
  then show ?case by (simp add: dec_value_snoc Suc decimal_digit)
qed

lemma count_digits_0 [simp]: "count_digits base 0 = 0"
  by (subst count_digits.simps) simp

lemma count_digits_bound: "v < 10 ^ k \<Longrightarrow> count_digits 10 v \<le> k"
proof (induction k arbitrary: v)
  case 0
  then show ?case by simp
next
  case (Suc k)
  have "v div 10 < 10 ^ k" using Suc.prems by (simp add: less_mult_imp_div_less mult.commute)
  then show ?case using Suc.IH [of "v div 10"] by (subst count_digits.simps) simp
qed

lemma count_digits_upper: "v < 10 ^ count_digits 10 v"
proof (induction v rule: less_induct)
  case (less v)
  show ?case
  proof (cases "v = 0")
    case False
    then have "v div 10 < 10 ^ count_digits 10 (v div 10)" using less by simp
    then have "v < 10 * 10 ^ count_digits 10 (v div 10)" by linarith
    then show ?thesis using False by (subst count_digits.simps) simp
  qed simp
qed

lemma tick_none: "length ds \<le> b \<Longrightarrow> tick skip b ds = ds"
  by (induction skip b ds rule: tick.induct) simp_all

lemma body_text_decimal:
  assumes "\<not> has flags FL_UPPER" and "\<not> has flags FL_TICK"
  shows "dec_value (body_text flags 10 (- 1) v) = v"
    and "length (body_text flags 10 (- 1) v) = max 1 (count_digits 10 v)"
    and "set (body_text flags 10 (- 1) v) \<subseteq> set ''0123456789''"
proof -
  define nd where "nd = nat (digits_needed flags 10 (- 1) v)"
  have nd: "nd = max 1 (count_digits 10 v)"
    using count_digits_pos [of v 10] by (cases "v = 0") (auto simp: nd_def digits_needed_def)
  have body: "body_text flags 10 (- 1) v = rev (low_digits lcdigits 10 nd v)"
    using assms by (simp add: body_text_low Let_def nd_def tick_none)
  have "v < 10 ^ nd"
    using count_digits_upper [of v] by (rule order.strict_trans2) (simp add: nd power_increasing)
  then show "dec_value (body_text flags 10 (- 1) v) = v" by (simp add: body dec_value_low)
  show "length (body_text flags 10 (- 1) v) = max 1 (count_digits 10 v)" by (simp add: body nd)
  have "set (low_digits lcdigits 10 k u) \<subseteq> set ''0123456789''" for k u
  proof (induction k arbitrary: u)
    case (Suc k)
    have "lcdigits ! (u mod 10) \<in> set ''0123456789''" by (rule decimal_char) simp
    then show ?case using Suc by (simp only: low_digits.simps list.set insert_subset)
  qed simp
  then show "set (body_text flags 10 (- 1) v) \<subseteq> set ''0123456789''" unfolding body set_rev .
qed

text \<open>The text of a plain \<open>%d\<close>.\<close>

lemma s32_range: "- (2 ^ 31) \<le> sint (x :: u32)" "sint x < 2 ^ 31"
  using sint_greater_eq [of x] sint_less [of x] by simp_all

lemma sint_scast_64: "sint (scast (x :: u32) :: u64) = sint x"
proof -
  have "signed_take_bit 63 (sint x) = sint x"
    using s32_range [of x] by (simp add: signed_take_bit_int_eq_self)
  then show ?thesis by (simp add: signed_scast_eq)
qed

lemma unat_u64_of_int: "0 \<le> i \<Longrightarrow> i < 2 ^ 64 \<Longrightarrow> unat (word_of_int i :: u64) = nat i"
  by (simp add: unsigned_of_int take_bit_int_eq_self)

lemma number_text_signed:
  fixes x :: u32
  defines "s \<equiv> body_text FL_SIGNED 10 (- 1) (nat \<bar>sint x\<bar>)"
  shows "number_text FL_SIGNED 10 0 (- 1) (scast x)
    = Some (if sint x < 0 then CHR ''-'' # s else s)"
    and "length s \<le> 10"
proof -
  have fl: "has FL_SIGNED FL_SIGNED" "\<not> has FL_SIGNED FL_UPPER" "\<not> has FL_SIGNED FL_TICK"
    "\<not> has FL_SIGNED FL_PLUS" "\<not> has FL_SIGNED FL_SPACE" "\<not> has FL_SIGNED FL_HASH"
    "\<not> has FL_SIGNED FL_MINUS" "\<not> has FL_SIGNED FL_ZERO"
    by (simp_all add: has_def flag_values)
  have "nat \<bar>sint x\<bar> < 10 ^ 10" using s32_range [of x] by simp
  then have "count_digits 10 (nat \<bar>sint x\<bar>) \<le> 10" by (rule count_digits_bound)
  then show len: "length s \<le> 10" using body_text_decimal(2) [OF fl(2,3)] by (simp add: s_def)
  have neg: "(scast x :: u64) <s 0 \<longleftrightarrow> sint x < 0"
    by (simp add: word_sless_alt sint_scast_64)
  have m: "(has FL_SIGNED FL_SIGNED \<and> (scast x :: u64) <s 0) = (sint x < 0)" by (simp add: fl neg)
  have uv: "unat (if sint x < 0 then - scast x else scast x :: u64) = nat \<bar>sint x\<bar>"
  proof (cases "sint x < 0")
    case True
    then have "unat (word_of_int (- sint x) :: u64) = nat (- sint x)"
      using s32_range [of x] by (intro unat_u64_of_int) simp_all
    then show ?thesis using True by (simp only: scast_eq of_int_minus if_True abs_of_neg)
  next
    case False
    then have "unat (word_of_int (sint x) :: u64) = nat (sint x)"
      using s32_range [of x] by (intro unat_u64_of_int) simp_all
    moreover have "\<bar>sint x\<bar> = sint x" using False by simp
    ultimately show ?thesis using False by (simp only: scast_eq if_False)
  qed
  have big: "(scast x :: u64) \<noteq> 2 ^ 63"
  proof
    assume "(scast x :: u64) = 2 ^ 63"
    then have "sint x = sint (2 ^ 63 :: u64)" by (metis sint_scast_64)
    then show False using s32_range [of x] by simp
  qed
  show "number_text FL_SIGNED 10 0 (- 1) (scast x)
    = Some (if sint x < 0 then CHR ''-'' # s else s)"
    unfolding number_text_def Let_def m uv s_def [symmetric]
    using len big by (cases "sint x < 0") (simp_all add: sign_text_def prefix_text_def fl)
qed

section \<open>The whole call\<close>

lemma snprintf_format:
  assumes "format_text fmt args 0 = Some (w, cnt)" and "NUL \<notin> set fmt"
    and "unat n \<le> length buf" and "length w < 2 ^ 31"
  shows "snprintf buf n (fmt @ NUL # rest) args =
    Some (word_of_nat (length w),
          (let m = min (length w) (unat n - 1)
           in if n = 0 then buf else take m w @ NUL # drop (Suc m) buf),
          cnt)"
proof -
  define v where "v = \<lparr> vs_state = st_normal, vs_rank = rank_int, vs_width = 0, vs_prec = - 1,
      vs_flags = 0, vs_args = args, vs_buf = buf, vs_q = 0, vs_o = 0, vs_counts = [] \<rparr>"
  have "wrote buf 0 (unat n) [] (vs_pos v)" by (simp add: wrote_def v_def)
  then obtain v' where v': "vs_loop n (fmt @ NUL # rest) v = Some v'" "vs_counts v' = cnt"
    "wrote buf 0 (unat n) w (vs_pos v')"
    using vs_loop_text [of fmt v "[]" w cnt n buf rest] assms by (auto simp: v_def)
  have b: "vs_buf v' = lay buf 0 (unat n) w" and k: "unat (vs_o v') = length w"
    and q: "length w < unat n \<Longrightarrow> vs_q v' = length w"
    using v'(3) by (auto simp: wrote_def)
  have r: "room buf 0 (unat n)" using assms(3) by (simp add: room_def)
  have "word_of_nat (unat (vs_o v')) = vs_o v'" by simp
  then have o': "vs_o v' = word_of_nat (length w)" by (simp add: k)
  have fin: "(if vs_o v' < n then store (vs_buf v') (vs_q v') NUL
      else if 0 < n then store (vs_buf v') (unat n - 1) NUL else Some (vs_buf v'))
    = Some (let m = min (length w) (unat n - 1)
           in if n = 0 then buf else take m w @ NUL # drop (Suc m) buf)"
  proof -
    have n0: "n = 0 \<longleftrightarrow> unat n = 0" by (simp add: unat_eq_0)
    consider "length w < unat n" | "\<not> length w < unat n" "0 < unat n" | "unat n = 0" by linarith
    then show ?thesis
    proof cases
      case 1
      then have "lay buf 0 (unat n) w = w @ drop (length w) buf" and "length w < length buf"
        using assms(3) by (simp_all add: lay_def)
      then show ?thesis
        using 1 k q b n0 by (auto simp: word_less_nat_alt store_def list_update_append min_def
            Cons_nth_drop_Suc [symmetric])
    next
      case 2
      then obtain j where j: "unat n = Suc j" "j < length w" by (cases "unat n") auto
      then have "lay buf 0 (unat n) w = take (unat n - 1) w @ w ! (unat n - 1) # drop (unat n) buf"
        by (simp add: lay_def take_Suc_conv_app_nth)
      then show ?thesis
        using 2 k b n0 assms(3) by (auto simp: word_less_nat_alt store_def list_update_append min_def)
    next
      case 3
      then show ?thesis using k b n0 by (simp add: word_less_nat_alt)
    qed
  qed
  show ?thesis
    unfolding snprintf_def vsnprintf_def v_def [symmetric] v'(1) bind.bind_lunit fin v'(2) unfolding o' by simp
qed

lemma takeWhile_text: "NUL \<notin> set s \<Longrightarrow> takeWhile (\<lambda>c. c \<noteq> NUL) (s @ NUL # rest) = s"
  by (induction s) auto

lemma c_strlen_text: "NUL \<notin> set s \<Longrightarrow> c_strlen (s @ NUL # rest) = Some (length s)"
  by (simp add: c_strlen_def takeWhile_text)

text \<open>The conversions without flags, width or precision that the SDK's own formats use.\<close>

lemma split_simple:
  "split_directive (CHR ''s'' # cs) = ([], [], None, [], CHR ''s'' # cs)"
  "split_directive (CHR ''u'' # cs) = ([], [], None, [], CHR ''u'' # cs)"
  "split_directive (CHR ''%'' # cs) = ([], [], None, [], CHR ''%'' # cs)"
  by (simp_all add: split_directive_def flag_char_def num_char_def digit_char_def mod_char_def)

definition unsigned_text :: "u32 \<Rightarrow> string" where
  "unsigned_text x = body_text 0 10 (- 1) (unat x)"

lemma unsigned_text:
  shows "length (unsigned_text x) \<le> 10" and "dec_value (unsigned_text x) = unat x"
    and "set (unsigned_text x) \<subseteq> set ''0123456789''" and "NUL \<notin> set (unsigned_text x)"
proof -
  have fl: "\<not> has 0 FL_UPPER" "\<not> has 0 FL_TICK" by (simp_all add: has_def)
  note b = body_text_decimal [OF fl, of "unat x", folded unsigned_text_def]
  have "unat x < 10 ^ 10" by (rule order.strict_trans2 [OF unsigned_less]) simp
  then have "count_digits 10 (unat x) \<le> 10" by (rule count_digits_bound)
  then show "length (unsigned_text x) \<le> 10" by (simp add: b(2))
  show "dec_value (unsigned_text x) = unat x" "set (unsigned_text x) \<subseteq> set ''0123456789''"
    using b(1,3) by simp_all
  then show "NUL \<notin> set (unsigned_text x)" by auto
qed

lemma format_text_s [simp]:
  assumes "NUL \<notin> set s"
  shows "format_text (CHR ''%'' # CHR ''s'' # cs) (VA_str (Some (s @ NUL # r)) # args) k =
    do { (w, cnt) \<leftarrow> format_text cs args (k + length s); Some (s @ w, cnt) }"
proof -
  have "conversion_text CHR ''s'' 0 0 (- 1) 0 (VA_str (Some (s @ NUL # r)) # args) k = Some (s, args, [])"
    using assms by (simp add: conversion_text_def string_arg_def c_strlen_text string_text_def)
  then show ?thesis by (simp add: split_simple canonical_rank_def rank_values)
qed

lemma unat_ucast_wide: "LENGTH('a) \<le> LENGTH('b) \<Longrightarrow> unat (ucast (x :: 'a :: len word) :: 'b :: len word) = unat x"
  by (simp add: unsigned_ucast_eq take_bit_nat_eq_self order.strict_trans2 [OF unsigned_less])

lemma format_text_u [simp]:
  "format_text (CHR ''%'' # CHR ''u'' # cs) (VA_int x # args) k =
    do { (w, cnt) \<leftarrow> format_text cs args (k + length (unsigned_text x)); Some (unsigned_text x @ w, cnt) }"
proof -
  have n: "unat (ucast x :: u64) = unat x" by (rule unat_ucast_wide) simp
  have "length (unsigned_text x) \<le> 10" by (rule unsigned_text)
  then have "number_text 0 10 0 (- 1) (ucast x) = Some (unsigned_text x)"
    using n by (simp add: number_text_def has_def sign_text_def prefix_text_def unsigned_text_def [symmetric])
  then have "conversion_text CHR ''u'' 0 0 (- 1) 0 (VA_int x # args) k = Some (unsigned_text x, args, [])"
    by (simp add: conversion_text_def unsigned_arg_def rank_values)
  then show ?thesis by (simp add: split_simple canonical_rank_def rank_values)
qed

lemma format_text_percent [simp]:
  "format_text (CHR ''%'' # CHR ''%'' # cs) args k =
    do { (w, cnt) \<leftarrow> format_text cs args (k + 1); Some (CHR ''%'' # w, cnt) }"
  by (simp add: split_simple conversion_text_def)
section \<open>Properties\<close>

text \<open>
  C7. The buffer-based printer implements the specified text. If the format has a text
  \<open>w\<close> for these arguments, then \<open>snprintf\<close> returns its length and puts as much of it
  as fits into the \<open>n\<close> bytes it may use, with a terminator behind; with \<open>n = 0\<close> it
  touches nothing; cells behind the terminator keep their values; every \<open>%n\<close> gets the
  number of characters in front of it.
\<close>

theorem vsnprintf_text:
  assumes "format_text fmt args 0 = Some (w, cnt)" and "NUL \<notin> set fmt"
    and "unat n \<le> length buf" and "length w < 2 ^ 31"
  shows "snprintf buf n (fmt @ NUL # rest) args =
    Some (word_of_nat (length w),
          (let m = min (length w) (unat n - 1)
           in if n = 0 then buf else take m w @ NUL # drop (Suc m) buf),
          cnt)"
  using assms by (rule snprintf_format)

text \<open>
  \<open>%d\<close> prints numbers one can read back: for every 32-bit value and a buffer of at least
  twelve bytes the buffer holds a terminated decimal text, an optional minus sign and
  digits, whose value is the number, and the return value is the length of that text.
\<close>

theorem snprintf_decimal:
  assumes "12 \<le> unat n" and "unat n \<le> length buf"
  shows "\<exists>s. snprintf buf n (''%d'' @ [NUL]) [VA_int x]
       = Some (word_of_nat (length s), s @ NUL # drop (Suc (length s)) buf, [])
     \<and> length s \<le> 11 \<and> read_decimal s = sint x \<and> set s \<subseteq> set ''-0123456789''"
proof -
  define s where "s = body_text FL_SIGNED 10 (- 1) (nat \<bar>sint x\<bar>)"
  define w where "w = (if sint x < 0 then CHR ''-'' # s else s)"
  have fl: "\<not> has FL_SIGNED FL_UPPER" "\<not> has FL_SIGNED FL_TICK" by (simp_all add: has_def flag_values)
  note s = number_text_signed [of x, folded s_def] body_text_decimal [OF fl, of "nat \<bar>sint x\<bar>", folded s_def]
  have "split_directive ''d'' = ([], [], None, [], ''d'')"
    by (simp add: split_directive_def flag_char_def num_char_def digit_char_def mod_char_def)
  then have tx: "format_text ''%d'' [VA_int x] 0 = Some (w, [])"
    using s(1) by (simp add: conversion_text_def signed_arg_def canonical_rank_def rank_values w_def)
  have len: "length w \<le> 11" using s(2) by (simp add: w_def)
  have "1 \<le> length s" unfolding s(4) by simp
  then obtain c t where ct: "s = c # t" by (cases s) auto
  then have "c \<noteq> CHR ''-''" using s(5) by auto
  then have pos: "read_decimal s = int (dec_value s)" by (simp add: read_decimal_def ct)
  have read: "read_decimal w = sint x"
  proof (cases "sint x < 0")
    case True
    then show ?thesis by (simp add: w_def read_decimal_def s(3))
  next
    case False
    then show ?thesis using pos by (simp add: w_def s(3))
  qed
  have "set w \<subseteq> insert CHR ''-'' (set s)" by (simp add: w_def subset_insertI)
  also have "\<dots> \<subseteq> insert CHR ''-'' (set ''0123456789'')" using s(5) by (rule insert_mono)
  also have "\<dots> = set ''-0123456789''" by (simp only: list.set)
  finally have chars: "set w \<subseteq> set ''-0123456789''" .
  have n0: "n \<noteq> 0" using assms(1) by auto
  have "snprintf buf n (''%d'' @ NUL # []) [VA_int x]
       = Some (word_of_nat (length w), w @ NUL # drop (Suc (length w)) buf, [])"
    using snprintf_format [OF tx _ assms(2), of "[]"] len assms(1) n0 by (simp add: min_def)
  then show ?thesis using len read chars by (intro exI [of _ w]) simp
qed


theorem vsnprintf_text_witness:
  "snprintf ''........'' 7 (''%5d|%s!'' @ [NUL]) [VA_int 42, VA_str (Some (''ok'' @ [NUL]))]
     = Some (9, ''   42|'' @ [NUL] @ ''.'', [])"
proof -
  have d: "split_directive ''5d|%s!'' = ([], ''5'', None, [], ''d|%s!'')"
    and s: "split_directive ''s!'' = ([], [], None, [], ''s!'')"
    by (simp_all add: split_directive_def flag_char_def num_char_def digit_char_def mod_char_def)
  have c: "count_digits 10 42 = 2"
    by (subst count_digits.simps, simp, subst count_digits.simps, simp)
  have low: "low_digits lcdigits 10 2 42 = ''24''"
    by (simp add: numeral_2_eq_2 lcdigits_def)
  have fl: "has FL_SIGNED FL_SIGNED" "\<not> has FL_SIGNED FL_UPPER" "\<not> has FL_SIGNED FL_TICK"
    "\<not> has FL_SIGNED FL_PLUS" "\<not> has FL_SIGNED FL_SPACE" "\<not> has FL_SIGNED FL_HASH"
    "\<not> has FL_SIGNED FL_MINUS" "\<not> has FL_SIGNED FL_ZERO"
    by (simp_all add: has_def flag_values)
  have nd: "digits_needed FL_SIGNED 10 (- 1) 42 = 2" by (simp add: digits_needed_def c)
  have body: "body_text FL_SIGNED 10 (- 1) 42 = ''42''"
    by (simp add: body_text_low Let_def nd fl low tick_none)
  have pad: "replicate 3 CHR '' '' = ''   ''" by (simp add: numeral_3_eq_3)
  have pos: "\<not> (42 :: u64) <s 0" by (simp add: word_sless_alt)
  have n: "number_text FL_SIGNED 10 5 (- 1) 42 = Some ''   42''"
    by (simp add: number_text_def body fl pos sign_text_def prefix_text_def pad)
  have tx: "format_text ''%5d|%s!'' [VA_int 42, VA_str (Some (''ok'' @ [NUL]))] 0
      = Some (''   42|ok!'', [])"
    using n by (simp add: d s conversion_text_def signed_arg_def canonical_rank_def rank_values
        int_ok_def digit_val_def string_arg_def c_strlen_def string_text_def has_def)
  show ?thesis
    using vsnprintf_text [OF tx, of 7 "''........''" "[]"] by (simp add: min_def)
qed

theorem snprintf_decimal_witness:
  "\<exists>s. snprintf (replicate 12 CHR ''.'') 12 (''%d'' @ [NUL]) [VA_int (- 7)]
       = Some (word_of_nat (length s), s @ NUL # drop (Suc (length s)) (replicate 12 CHR ''.''), [])
     \<and> read_decimal s = - 7"
  using snprintf_decimal [of 12 "replicate 12 CHR ''.''" "- 7"] by auto

end
