(* ===== verification/Tm1668.thy ===== *)
theory Tm1668
  imports Prelude
begin

text \<open>
  The driver of the TM1668 display controller: src/src/components/device/tm1668.c, tm1668.h.

  The driver keeps a shadow \<open>reg\<close> of the display registers and talks to the chip over three
  GPIO lines. Each operation returns the list of its GPIO accesses, in order; a register
  address outside the shadow is the value \<open>None\<close>. What the chip makes of the three lines
  is the specification \<open>tm_wire\<close>: it samples the data line on a rising clock while the
  strobe is low, lowest bit first, and a rising strobe ends a frame; \<open>tm_exec\<close> stores the
  bytes behind an address command in the display memory.

  \<^item> \<open>tm1668_speed_display\<close>: the digits of the speed appear in the display memory.
  \<^item> \<open>tm1668_battery_icons\<close>: exactly the icons of the charge level are lit afterwards, and
    every other icon keeps its state.
  \<^item> \<open>tm1668_well_typed\<close>: no operation leaves the shape of the driver's state or reaches
    outside an array.
\<close>

unbundle bit_operations_syntax

section \<open>Data\<close>

record tm1668_character =
  tc_character :: u16
  tc_address :: u8
  tc_value :: u16

definition TM1668_REG_NUM :: nat where "TM1668_REG_NUM = 14"
definition TM1668_DISPLAY_BUFFER_SIZE :: nat where "TM1668_DISPLAY_BUFFER_SIZE = 14"

record tm1668_chip =
  gpio_dio :: u32
  gpio_sclk :: u32
  gpio_stb :: u32
  brightness :: s32
  characters_num :: nat
  tm_chars :: "tm1668_character list"
  tm_reg :: "u32 list"

datatype tm1668_mode =
    tm1668_mode_4_digits_13_segments | tm1668_mode_5_digits_12_segments
  | tm1668_mode_6_digits_11_segments | tm1668_mode_7_digits_10_segments

fun mode_value :: "tm1668_mode \<Rightarrow> u8" where
  "mode_value tm1668_mode_4_digits_13_segments = 0"
| "mode_value tm1668_mode_5_digits_12_segments = 1"
| "mode_value tm1668_mode_6_digits_11_segments = 2"
| "mode_value tm1668_mode_7_digits_10_segments = 3"

text \<open>The table of characters: number, register address, segments.\<close>

definition TM1668_SEG_DIGIT :: "(u16 \<times> u8 \<times> u16) list" where
  "TM1668_SEG_DIGIT =
     [(0, 0x00, 0x03f), (1, 0x00, 0x006), (2, 0x00, 0x05b), (3, 0x00, 0x04f),
      (4, 0x00, 0x066), (5, 0x00, 0x06d), (6, 0x00, 0x07d), (7, 0x00, 0x007),
      (8, 0x00, 0x07f), (9, 0x00, 0x06f), (10, 0x02, 0x03f), (11, 0x02, 0x006),
      (12, 0x02, 0x05b), (13, 0x02, 0x04f), (14, 0x02, 0x066), (15, 0x02, 0x06d),
      (16, 0x02, 0x07d), (17, 0x02, 0x007), (18, 0x02, 0x07f), (19, 0x02, 0x06f),
      (20, 0x04, 0x03f), (21, 0x04, 0x006), (22, 0x04, 0x05b), (23, 0x04, 0x04f),
      (24, 0x04, 0x066), (25, 0x04, 0x06d), (26, 0x04, 0x07d), (27, 0x04, 0x007),
      (28, 0x04, 0x07f), (29, 0x04, 0x06f), (30, 0x06, 0x03f), (31, 0x06, 0x006),
      (32, 0x06, 0x05b), (33, 0x06, 0x04f), (34, 0x06, 0x066), (35, 0x06, 0x06d),
      (36, 0x06, 0x07d), (37, 0x06, 0x007), (38, 0x06, 0x07f), (39, 0x06, 0x06f),
      (40, 0x08, 0x008), (41, 0x08, 0x004), (42, 0x08, 0x002), (43, 0x08, 0x001),
      (44, 0x08, 0x080), (45, 0x08, 0x040), (46, 0x08, 0x020), (47, 0x08, 0x010),
      (48, 0x0A, 0x008), (49, 0x0A, 0x004), (50, 0x0A, 0x002), (51, 0x0A, 0x001),
      (52, 0x0A, 0x080), (53, 0x0A, 0x040), (54, 0x0A, 0x020), (55, 0x0A, 0x010),
      (56, 0x0C, 0x008), (57, 0x0C, 0x004), (58, 0x0C, 0x002), (59, 0x0C, 0x001),
      (60, 0x0C, 0x080), (61, 0x0C, 0x040), (62, 0x0C, 0x020), (63, 0x0C, 0x010),
      (64, 0x02, 0x080), (65, 0x04, 0x080), (66, 0x06, 0x080), (67, 0x00, 0x080)]"

definition characters :: "tm1668_character list" where
  "characters = map (\<lambda>(c, a, v). \<lparr> tc_character = c, tc_address = a, tc_value = v \<rparr>) TM1668_SEG_DIGIT"

section \<open>Command bytes\<close>

definition TM1668_CMD_DISPLAY_MODE :: "u8 \<Rightarrow> u8" where
  "TM1668_CMD_DISPLAY_MODE mode = 0x00 OR (mode AND 0x3)"

definition TM1668_CMD_DATA :: "bool \<Rightarrow> bool \<Rightarrow> bool \<Rightarrow> u8" where
  "TM1668_CMD_DATA test_not_normal_mode display_address_increment read_not_write =
     0x40 OR (if test_not_normal_mode then 0x4 else 0x0)
     OR (if display_address_increment then 0x0 else 0x1) OR (if read_not_write then 0x2 else 0x0)"

definition TM1668_CMD_ADDRESS :: "u8 \<Rightarrow> u8" where
  "TM1668_CMD_ADDRESS address = 0xc0 OR (address AND 0x0f)"

definition TM1668_CMD_DISPLAY_CONTROL :: "bool \<Rightarrow> u8 \<Rightarrow> u8" where
  "TM1668_CMD_DISPLAY_CONTROL on pulse_width = 0x80 OR (if on then 0x8 else 0x0) OR (pulse_width AND 0x7)"

section \<open>The lines\<close>

datatype gpio_port = P0 | P5

datatype gpio_flag = GPIO_INPUT | GPIO_OUTPUT_ACTIVE | GPIO_OUTPUT_INACTIVE

datatype gpio_op =
    Pin_Set gpio_port nat s32
  | Pin_Configure gpio_port nat gpio_flag bool   \<comment> \<open>the flag and whether it is open drain\<close>

text \<open>The read of a pin is the operation \<open>pin_get\<close> of the board.\<close>

definition gpio_get_value :: "(gpio_port \<Rightarrow> nat \<Rightarrow> s32) \<Rightarrow> u32 \<Rightarrow> s32" where
  "gpio_get_value pin_get gpio = (if gpio = 5 then pin_get P0 5 else - 1)"

definition gpio_set_value :: "u32 \<Rightarrow> s32 \<Rightarrow> gpio_op list" where
  "gpio_set_value gpio v =
     (if gpio = 4 then [Pin_Set P0 4 v] else [])
     @ (if gpio = 5 then [Pin_Set P0 5 v] else [])
     @ (if gpio = 56 then [Pin_Set P5 6 v] else [])"

definition gpio_direction_input :: "u32 \<Rightarrow> gpio_op list" where
  "gpio_direction_input gpio = (if gpio = 5 then [Pin_Configure P0 5 GPIO_INPUT False] else [])"

definition gpio_direction_output :: "u32 \<Rightarrow> u32 \<Rightarrow> gpio_op list" where
  "gpio_direction_output gpio level =
     (if gpio = 5
      then if level = 1 then [Pin_Configure P0 5 GPIO_OUTPUT_ACTIVE True]
           else [Pin_Configure P0 5 GPIO_OUTPUT_INACTIVE True]
      else [])"

definition tm1668_gpio_init :: "tm1668_chip \<Rightarrow> tm1668_chip \<times> gpio_op list" where
  "tm1668_gpio_init chip =
     (chip\<lparr>gpio_dio := 5, gpio_sclk := 4, gpio_stb := 56\<rparr>,
      [Pin_Configure P5 6 GPIO_OUTPUT_ACTIVE True, Pin_Configure P0 4 GPIO_OUTPUT_ACTIVE True,
       Pin_Configure P0 5 GPIO_OUTPUT_ACTIVE True])"

text \<open>\<open>udelay\<close> is empty.\<close>

fun tm_writeb_loop :: "tm1668_chip \<Rightarrow> nat \<Rightarrow> u8 \<Rightarrow> gpio_op list" where
  "tm_writeb_loop chip 0 byte = []"
| "tm_writeb_loop chip (Suc n) byte =
     gpio_set_value (gpio_dio chip) (ucast (byte AND 0x1)) @ gpio_set_value (gpio_sclk chip) 0
     @ gpio_set_value (gpio_sclk chip) 1 @ tm_writeb_loop chip n (drop_bit 1 byte)"

definition tm1668_writeb :: "tm1668_chip \<Rightarrow> u8 \<Rightarrow> gpio_op list" where
  "tm1668_writeb chip byte = tm_writeb_loop chip 8 byte"

definition tm1668_send :: "tm1668_chip \<Rightarrow> u8 \<Rightarrow> u8 list \<Rightarrow> gpio_op list" where
  "tm1668_send chip command data =
     gpio_set_value (gpio_stb chip) 0 @ tm1668_writeb chip command
     @ concat (map (tm1668_writeb chip) data) @ gpio_set_value (gpio_stb chip) 1"

section \<open>Display operations\<close>

definition tm1668_clear :: "tm1668_chip \<Rightarrow> gpio_op list" where
  "tm1668_clear chip =
     tm1668_send chip (TM1668_CMD_DATA False True False) []
     @ tm1668_send chip (TM1668_CMD_ADDRESS 0xC) (replicate TM1668_DISPLAY_BUFFER_SIZE 0)"

definition tm1668_set_brightness :: "tm1668_chip \<Rightarrow> s32 \<Rightarrow> tm1668_chip \<times> gpio_op list" where
  "tm1668_set_brightness chip b =
     (let enabled = (0 <s b);
          b = (if b <s 0 then 0 else if 8 <s b then 8 else b);
          chip = chip\<lparr>brightness := b\<rparr>;
          b = (if enabled then b - 1 else b)
      in (chip, tm1668_send chip (TM1668_CMD_DISPLAY_CONTROL enabled (ucast b)) []))"

text \<open>The first entry of the table with this number; the loop index runs to \<open>characters_num\<close>.\<close>

function find_loop :: "tm1668_chip \<Rightarrow> u16 \<Rightarrow> nat \<Rightarrow> tm1668_character option option" where
  "find_loop chip character i =
     (if i < characters_num chip
      then do {
        e \<leftarrow> load (tm_chars chip) i;
        if tc_character e = character then Some (Some e) else find_loop chip character (i + 1)
      }
      else Some None)"
  by pat_completeness auto
termination
  by (relation "measure (\<lambda>(chip, character, i). characters_num chip - i)") auto

text \<open>\<open>uint16_t data[1]\<close> as the two bytes that are sent.\<close>

definition tm_show :: "tm1668_chip \<Rightarrow> u8 \<Rightarrow> u16 \<Rightarrow> gpio_op list" where
  "tm_show chip address data =
     tm1668_send chip (TM1668_CMD_DATA False True False) []
     @ tm1668_send chip (TM1668_CMD_ADDRESS address) [lo8 data, hi8 data]"

definition tm1668_print_icon ::
  "tm1668_chip \<Rightarrow> u16 \<Rightarrow> s32 \<Rightarrow> (tm1668_chip \<times> gpio_op list) option" where
  "tm1668_print_icon chip character display = do {
     found \<leftarrow> find_loop chip character 0;
     (case found of
        None \<Rightarrow> Some (chip, tm_show chip 0 0)
      | Some e \<Rightarrow> do {
          v \<leftarrow> load (tm_reg chip) (unat (tc_address e));
          let v = (if display = 1 then v OR ucast (tc_value e)
                   else v AND (NOT (ucast (tc_value e)) AND 0xFFF));
          reg \<leftarrow> store (tm_reg chip) (unat (tc_address e)) v;
          let chip = chip\<lparr>tm_reg := reg\<rparr>;
          Some (chip, tm_show chip (tc_address e) (ucast v))
        })
   }"

definition tm1668_print_num :: "tm1668_chip \<Rightarrow> u16 \<Rightarrow> gpio_op list option" where
  "tm1668_print_num chip character = do {
     found \<leftarrow> find_loop chip character 0;
     (case found of
        None \<Rightarrow> Some (tm_show chip 0 0)
      | Some e \<Rightarrow> do {
          v \<leftarrow> load (tm_reg chip) (unat (tc_address e));
          Some (tm_show chip (tc_address e) (ucast (ucast (tc_value e) OR (v AND 0x80))))
        })
   }"

definition tm1668_print_speed :: "tm1668_chip \<Rightarrow> u16 \<Rightarrow> gpio_op list option" where
  "tm1668_print_speed chip speed = do {
     let speed_l = (ucast (speed mod 10) :: u8);
     let speed_h = (ucast (speed div 10) :: u8);
     let (speed_l, speed_h) = (if speed_h > 9 then (9, 9) else (speed_l, speed_h));
     t1 \<leftarrow> tm1668_print_num chip (ucast speed_h);
     t2 \<leftarrow> tm1668_print_num chip (ucast speed_l + 10);
     Some (t1 @ t2)
   }"

text \<open>A sequence of calls of \<open>tm1668_print_icon\<close>.\<close>

fun print_icons ::
  "tm1668_chip \<Rightarrow> (u16 \<times> s32) list \<Rightarrow> (tm1668_chip \<times> gpio_op list) option" where
  "print_icons chip [] = Some (chip, [])"
| "print_icons chip ((c, d) # rest) = do {
     (chip, t1) \<leftarrow> tm1668_print_icon chip c d;
     (chip, t2) \<leftarrow> print_icons chip rest;
     Some (chip, t1 @ t2)
   }"

text \<open>
  The work modes are constants of the project's header \<open>unibus_poll_mcu.h\<close>, which is not
  part of the SDK: parameters.
\<close>

record work_modes =
  WORKMODE_WALK_ASSIST :: u16
  WORKMODE_ECO :: u16
  WORKMODE_NORMAL :: u16
  WORKMODE_SPORT :: u16

definition tm1668_print_mode ::
  "work_modes \<Rightarrow> tm1668_chip \<Rightarrow> u16 \<Rightarrow> (tm1668_chip \<times> gpio_op list) option" where
  "tm1668_print_mode wm chip mode =
     (if mode = WORKMODE_WALK_ASSIST wm then print_icons chip [(42, 0), (41, 0), (43, 1)]
      else if mode = WORKMODE_ECO wm then Some (chip, [])
      else if mode = WORKMODE_NORMAL wm then print_icons chip [(43, 0), (41, 0), (42, 1)]
      else if mode = WORKMODE_SPORT wm then print_icons chip [(43, 0), (42, 0), (41, 1)]
      else Some (chip, []))"

definition battery_calls :: "u8 \<Rightarrow> (u16 \<times> s32) list" where
  "battery_calls btc =
     (if btc = 5 then [(54, 0), (52, 0), (55, 1), (53, 1), (59, 1), (58, 1), (57, 1)]
      else if btc = 4 then [(54, 0), (52, 0), (57, 0), (55, 1), (53, 1), (59, 1), (58, 1)]
      else if btc = 3 then [(54, 0), (52, 0), (58, 0), (57, 0), (55, 1), (53, 1), (59, 1)]
      else if btc = 2 then [(57, 0), (58, 0), (59, 0), (53, 0), (55, 0), (54, 1), (52, 1)]
      else if btc = 1 then [(57, 0), (58, 0), (59, 0), (53, 0), (55, 0), (52, 0), (54, 1)]
      else if btc = 0 then [(54, 0), (52, 0), (57, 0), (58, 0), (59, 0), (53, 0), (55, 0)]
      else [])"

definition tm1668_print_battery ::
  "tm1668_chip \<Rightarrow> u16 \<Rightarrow> (tm1668_chip \<times> gpio_op list) option" where
  "tm1668_print_battery chip battery_precent =
     (let btc = (ucast (battery_precent div 15) :: u8); btc = (if btc > 5 then 5 else btc)
      in print_icons chip (battery_calls btc))"

text \<open>The last loop of the initialisation clears \<open>reg[0]\<close> in every turn.\<close>

fun clear_reg0_loop :: "nat \<Rightarrow> u32 list \<Rightarrow> u32 list option" where
  "clear_reg0_loop 0 reg = Some reg"
| "clear_reg0_loop (Suc n) reg = do { reg \<leftarrow> store reg 0 0; clear_reg0_loop n reg }"

definition tm1668_init :: "tm1668_chip \<Rightarrow> (s32 \<times> tm1668_chip \<times> gpio_op list) option" where
  "tm1668_init chip = do {
     let (chip, t1) = tm1668_gpio_init chip;
     let t2 = tm1668_send chip (TM1668_CMD_DISPLAY_MODE (mode_value tm1668_mode_7_digits_10_segments)) [];
     let t3 = tm1668_clear chip;
     let (chip, t4) = tm1668_set_brightness chip 1;
     reg \<leftarrow> clear_reg0_loop TM1668_REG_NUM (tm_reg chip);
     Some (0, chip\<lparr>characters_num := length characters, tm_chars := characters, tm_reg := reg\<rparr>,
           t1 @ t2 @ t3 @ t4)
   }"

definition tm1668_close :: "tm1668_chip \<Rightarrow> s32 \<times> tm1668_chip \<times> gpio_op list" where
  "tm1668_close chip = (let (chip, t) = tm1668_set_brightness chip 0 in (0, chip, t))"

section \<open>What the chip sees\<close>

record tm_wire =
  w_dio :: bool
  w_clk :: bool
  w_stb :: bool
  w_bits :: "bool list"
  w_frame :: "u8 list"
  w_frames :: "u8 list list"

text \<open>A byte from its bits, lowest first.\<close>

definition byte_of_bits :: "bool list \<Rightarrow> u8" where
  "byte_of_bits bs = horner_sum of_bool 2 bs"

fun wire_step :: "tm_wire \<Rightarrow> gpio_op \<Rightarrow> tm_wire" where
  "wire_step w (Pin_Configure port pin flag od) = w"
| "wire_step w (Pin_Set port pin v) =
     (if port = P0 \<and> pin = 5 then w\<lparr>w_dio := (v \<noteq> 0)\<rparr>
      else if port = P0 \<and> pin = 4 then
        if \<not> w_clk w \<and> v \<noteq> 0 \<and> \<not> w_stb w
        then if length (w_bits w) = 7
             then w\<lparr>w_clk := True, w_bits := [],
                    w_frame := w_frame w @ [byte_of_bits (w_bits w @ [w_dio w])]\<rparr>
             else w\<lparr>w_clk := True, w_bits := w_bits w @ [w_dio w]\<rparr>
        else w\<lparr>w_clk := (v \<noteq> 0)\<rparr>
      else if port = P5 \<and> pin = 6 then
        if \<not> w_stb w \<and> v \<noteq> 0
        then w\<lparr>w_stb := True, w_bits := [], w_frame := [], w_frames := w_frames w @ [w_frame w]\<rparr>
        else w\<lparr>w_stb := (v \<noteq> 0)\<rparr>
      else w)"

definition tm_frames :: "gpio_op list \<Rightarrow> u8 list list" where
  "tm_frames t = w_frames (foldl wire_step
     \<lparr> w_dio = True, w_clk = True, w_stb = True, w_bits = [], w_frame = [], w_frames = [] \<rparr> t)"

text \<open>An address command stores the bytes behind it from that address on.\<close>

definition tm_exec :: "(nat \<Rightarrow> u8) \<Rightarrow> u8 list \<Rightarrow> nat \<Rightarrow> u8" where
  "tm_exec ram frame =
     (case frame of [] \<Rightarrow> ram
      | c # data \<Rightarrow>
          if c AND 0xC0 = 0xC0
          then (let a = unat (c AND 0x0F)
                in (\<lambda>x. if a \<le> x \<and> x < a + length data then data ! (x - a) else ram x))
          else ram)"

section \<open>Well-formed driver states\<close>

definition tm_ok :: "tm1668_chip \<Rightarrow> bool" where
  "tm_ok chip \<longleftrightarrow> gpio_dio chip = 5 \<and> gpio_sclk chip = 4 \<and> gpio_stb chip = 56
     \<and> tm_chars chip = characters \<and> characters_num chip = length characters
     \<and> length (tm_reg chip) = TM1668_REG_NUM"

abbreviation tm_find :: "u16 \<Rightarrow> tm1668_character option" where
  "tm_find c \<equiv> List.find (\<lambda>e. tc_character e = c) characters"

declare find_loop.simps [simp del]

lemma find_loop_find:
  assumes "tm_ok chip"
  shows "find_loop chip c i = Some (List.find (\<lambda>e. tc_character e = c) (drop i characters))"
proof (induction "length characters - i" arbitrary: i)
  case 0
  then show ?case using assms by (subst find_loop.simps) (simp add: tm_ok_def)
next
  case (Suc m)
  then have i: "i < length characters" by simp
  then have "drop i characters = characters ! i # drop (Suc i) characters"
    by (rule Cons_nth_drop_Suc [symmetric])
  then show ?case
    using i assms Suc.hyps(1) [of "Suc i"] Suc.hyps(2)
    by (subst find_loop.simps) (simp add: tm_ok_def load_in)
qed

lemma tm_find_loop: "tm_ok chip \<Longrightarrow> find_loop chip c 0 = Some (tm_find c)"
  by (simp add: find_loop_find)

lemma table_addresses: "list_all (\<lambda>e. unat (tc_address e) < 14) characters"
  by (simp add: characters_def TM1668_SEG_DIGIT_def)

lemma tm_find_address: "tm_find c = Some e \<Longrightarrow> unat (tc_address e) < 14"
  using table_addresses by (auto simp: find_Some_iff list_all_length)

text \<open>The effect of one icon: a register changes by the segments of the icon.\<close>

lemma print_icon_found:
  assumes "tm_ok chip" and "tm_find c = Some e"
  shows "\<exists>t. tm1668_print_icon chip c d =
     Some (chip\<lparr>tm_reg := (tm_reg chip)[unat (tc_address e) :=
        (if d = 1 then tm_reg chip ! unat (tc_address e) OR ucast (tc_value e)
         else tm_reg chip ! unat (tc_address e) AND (NOT (ucast (tc_value e)) AND 0xFFF))]\<rparr>, t)"
  using assms tm_find_address [OF assms(2)]
  by (simp add: tm1668_print_icon_def tm_find_loop tm_ok_def TM1668_REG_NUM_def load_in store_in Let_def)

lemma print_icon_ok:
  assumes "tm_ok chip"
  shows "\<exists>chip' t. tm1668_print_icon chip c d = Some (chip', t) \<and> tm_ok chip'"
proof (cases "tm_find c")
  case None
  then show ?thesis using assms by (simp add: tm1668_print_icon_def tm_find_loop)
next
  case (Some e)
  then show ?thesis using print_icon_found [OF assms Some, of d] assms by (auto simp: tm_ok_def)
qed

lemma print_icons_ok:
  "tm_ok chip \<Longrightarrow> \<exists>chip' t. print_icons chip cs = Some (chip', t) \<and> tm_ok chip'"
proof (induction chip cs rule: print_icons.induct)
  case (2 chip c d rest)
  then obtain chip1 t1 where 1: "tm1668_print_icon chip c d = Some (chip1, t1)" "tm_ok chip1"
    using print_icon_ok by blast
  then show ?case using 2(1) [OF 1(1) refl 1(2)] by auto
qed simp

lemma print_num_ok: "tm_ok chip \<Longrightarrow> \<exists>t. tm1668_print_num chip c = Some t"
  using tm_find_address [of c]
  by (cases "tm_find c") (auto simp: tm1668_print_num_def tm_find_loop tm_ok_def TM1668_REG_NUM_def load_in)

lemma print_speed_ok: "tm_ok chip \<Longrightarrow> \<exists>t. tm1668_print_speed chip speed = Some t"
proof -
  assume "tm_ok chip"
  then obtain f where "\<And>c. tm1668_print_num chip c = Some (f c)" using print_num_ok by metis
  then show ?thesis by (simp add: tm1668_print_speed_def Let_def split_beta)
qed

lemma clear_reg0_loop: "0 < length reg \<Longrightarrow> clear_reg0_loop (Suc n) reg = Some (reg[0 := 0])"
  by (induction n arbitrary: reg) (simp_all add: store_in)

section \<open>Frames on the wire\<close>

definition idle :: "tm_wire \<Rightarrow> bool" where
  "idle w \<longleftrightarrow> w_clk w \<and> w_stb w \<and> w_bits w = [] \<and> w_frame w = []"

lemma byte_bits: "byte_of_bits (map (bit b) [0..<8]) = b"
  using take_bit_length_eq [of b] by (simp add: byte_of_bits_def horner_sum_bit_eq_take_bit)

lemma low_bit: "(ucast ((b :: u8) AND 1) :: s32) \<noteq> 0 \<longleftrightarrow> bit b 0"
  by (simp add: and_one_eq mod_2_eq_odd bit_0)

lemma tm_writeb_loop_wire:
  assumes "tm_ok chip" and "\<not> w_stb w" and "length (w_bits w) + Suc n = 8"
  shows "foldl wire_step w (tm_writeb_loop chip (Suc n) b) =
     w\<lparr>w_dio := bit b n, w_clk := True, w_bits := [],
       w_frame := w_frame w @ [byte_of_bits (w_bits w @ map (bit b) [0..<Suc n])]\<rparr>"
  using assms(2,3)
proof (induction n arbitrary: w b)
  case 0
  then show ?case using assms(1)
    by (simp add: tm_ok_def gpio_set_value_def low_bit del: One_nat_def)
next
  case (Suc n)
  define w1 where "w1 = w\<lparr>w_dio := bit b 0, w_clk := True, w_bits := w_bits w @ [bit b 0]\<rparr>"
  have "foldl wire_step w (tm_writeb_loop chip (Suc (Suc n)) b)
      = foldl wire_step w1 (tm_writeb_loop chip (Suc n) (drop_bit 1 b))"
    using Suc.prems assms(1)
    by (simp add: tm_ok_def gpio_set_value_def low_bit w1_def del: One_nat_def)
  also have "\<dots> = w1\<lparr>w_dio := bit (drop_bit 1 b) n, w_clk := True, w_bits := [],
       w_frame := w_frame w1 @ [byte_of_bits (w_bits w1 @ map (bit (drop_bit 1 b)) [0..<Suc n])]\<rparr>"
    using Suc.prems by (intro Suc.IH) (simp_all add: w1_def)
  also have "map (bit (drop_bit 1 b)) [0..<Suc n] = map (bit b) [1..<Suc (Suc n)]"
    unfolding map_Suc_upt [of 0, symmetric, unfolded One_nat_def [symmetric]]
    by (simp add: bit_drop_bit_eq comp_def del: upt_Suc)
  also have "w_bits w1 @ map (bit b) [1..<Suc (Suc n)] = w_bits w @ map (bit b) [0..<Suc (Suc n)]"
    by (simp add: w1_def upt_rec [of 0 "Suc (Suc n)"] del: upt_Suc)
  finally show ?case by (simp add: w1_def bit_drop_bit_eq)
qed

lemma tm_writeb_wire:
  assumes "tm_ok chip" and "\<not> w_stb w" and "w_bits w = []"
  shows "foldl wire_step w (tm1668_writeb chip b) =
     w\<lparr>w_dio := bit b 7, w_clk := True, w_bits := [], w_frame := w_frame w @ [b]\<rparr>"
proof -
  have "tm1668_writeb chip b = tm_writeb_loop chip (Suc 7) b" by (simp add: tm1668_writeb_def)
  then show ?thesis
    using tm_writeb_loop_wire [OF assms(1,2), of 7 b] assms(3) byte_bits [of b]
    by (simp del: tm_writeb_loop.simps upt_Suc)
qed

lemma write_bytes_wire:
  assumes "tm_ok chip"
  shows "\<not> w_stb w \<Longrightarrow> w_bits w = [] \<Longrightarrow> w_clk w \<Longrightarrow>
     \<exists>d. foldl wire_step w (concat (map (tm1668_writeb chip) bs)) = w\<lparr>w_dio := d, w_frame := w_frame w @ bs\<rparr>"
proof (induction bs arbitrary: w)
  case Nil
  then show ?case by (intro exI [of _ "w_dio w"]) simp
next
  case (Cons b bs)
  define w1 where "w1 = w\<lparr>w_dio := bit b 7, w_frame := w_frame w @ [b]\<rparr>"
  have w: "w\<lparr>w_dio := bit b 7, w_clk := True, w_bits := [], w_frame := w_frame w @ [b]\<rparr> = w1"
    using Cons.prems by (cases w) (simp add: w1_def)
  obtain d where "foldl wire_step w1 (concat (map (tm1668_writeb chip) bs))
      = w1\<lparr>w_dio := d, w_frame := w_frame w1 @ bs\<rparr>"
    using Cons.IH [of w1] Cons.prems by (auto simp: w1_def)
  then show ?case
    using tm_writeb_wire [OF assms, of w b] Cons.prems w by (auto simp: w1_def)
qed

text \<open>One call of \<open>tm1668_send\<close> is one frame: the command byte and the data.\<close>

lemma send_frame:
  assumes "tm_ok chip" and "idle w"
  shows "idle (foldl wire_step w (tm1668_send chip cmd data))
     \<and> w_frames (foldl wire_step w (tm1668_send chip cmd data)) = w_frames w @ [cmd # data]"
proof -
  define w0 where "w0 = w\<lparr>w_stb := False\<rparr>"
  have "foldl wire_step w (tm1668_send chip cmd data)
      = foldl wire_step (foldl wire_step w0 (concat (map (tm1668_writeb chip) (cmd # data)))) [Pin_Set P5 6 1]"
    using assms by (simp add: tm1668_send_def tm_ok_def gpio_set_value_def w0_def idle_def)
  moreover obtain d where "foldl wire_step w0 (concat (map (tm1668_writeb chip) (cmd # data)))
      = w0\<lparr>w_dio := d, w_frame := w_frame w0 @ cmd # data\<rparr>"
    using write_bytes_wire [OF assms(1), of w0 "cmd # data"] assms(2) by (auto simp: w0_def idle_def)
  ultimately show ?thesis using assms(2) by (simp add: w0_def idle_def)
qed

lemma show_frames:
  assumes "tm_ok chip" and "idle w"
  shows "idle (foldl wire_step w (tm_show chip a v))
     \<and> w_frames (foldl wire_step w (tm_show chip a v))
       = w_frames w @ [[0x40], [TM1668_CMD_ADDRESS a, lo8 v, hi8 v]]"
  using send_frame [OF assms, of "0x40" "[]"] send_frame [OF assms(1), of _ "TM1668_CMD_ADDRESS a" "[lo8 v, hi8 v]"]
  by (simp add: tm_show_def TM1668_CMD_DATA_def)

lemma tm_exec_show:
  assumes "unat a < 14"
  shows "foldl tm_exec ram [[0x40], [TM1668_CMD_ADDRESS a, x, y]] = ram(unat a := x, Suc (unat a) := y)"
proof -
  have small: "a AND 0x0F = a"
  proof -
    have "a AND 0x0F = take_bit 4 a" by (simp add: take_bit_eq_mask mask_eq_exp_minus_1)
    also have "\<dots> = a" using assms
      by (simp add: word_unat_eq_iff unat_mod take_bit_eq_mod)
    finally show ?thesis .
  qed
  have "TM1668_CMD_ADDRESS a AND 0x0F = (0xC0 AND 0x0F) OR (a AND 0x0F)"
    and "TM1668_CMD_ADDRESS a AND 0xC0 = (0xC0 AND 0xC0) OR (a AND (0x0F AND 0xC0))"
    by (simp_all only: TM1668_CMD_ADDRESS_def bit.conj_disj_distrib2 and.assoc and.idem)
  then have addr: "TM1668_CMD_ADDRESS a AND 0x0F = a" "TM1668_CMD_ADDRESS a AND 0xC0 = 0xC0"
    by (simp_all add: small)
  show ?thesis
    using addr by (auto simp: tm_exec_def fun_eq_iff nth_Cons Let_def split: nat.splits)
qed

section \<open>Digits\<close>

text \<open>The segments of the digits, as the picture in tm1668.h numbers them.\<close>

fun segments :: "nat \<Rightarrow> nat list" where
  "segments d = (if d = 0 then [0, 1, 2, 3, 4, 5] else if d = 1 then [1, 2]
     else if d = 2 then [0, 1, 3, 4, 6] else if d = 3 then [0, 1, 2, 3, 6]
     else if d = 4 then [1, 2, 5, 6] else if d = 5 then [0, 2, 3, 5, 6]
     else if d = 6 then [0, 2, 3, 4, 5, 6] else if d = 7 then [0, 1, 2]
     else if d = 8 then [0, 1, 2, 3, 4, 5, 6] else if d = 9 then [0, 1, 2, 3, 5, 6] else [])"

definition seg7 :: "nat \<Rightarrow> u8" where
  "seg7 d = foldr (\<lambda>s b. b OR 2 ^ s) (segments d) 0"

lemma digit_entries:
  "\<forall>d \<in> set [0..<10].
     tm_find (word_of_nat d) = Some \<lparr> tc_character = word_of_nat d, tc_address = 0, tc_value = ucast (seg7 d) \<rparr>
     \<and> tm_find (word_of_nat d + 10)
       = Some \<lparr> tc_character = word_of_nat d + 10, tc_address = 2, tc_value = ucast (seg7 d) \<rparr>"
  by code_simp

lemma bit_128: "bit (0x80 :: u8) n \<longleftrightarrow> n = 7" "bit (0x80 :: u16) n \<longleftrightarrow> n = 7"
    "bit (0x80 :: u32) n \<longleftrightarrow> n = 7"
  using bit_exp_iff [of 7 n, where ?'a = "8 word"] bit_exp_iff [of 7 n, where ?'a = "16 word"]
    bit_exp_iff [of 7 n, where ?'a = "32 word"]
  by auto

lemma digit_bytes:
  "lo8 (ucast (ucast (ucast (s :: u8) :: u16) OR ((v :: u32) AND 0x80)) :: u16) = s OR (ucast v AND 0x80)"
  "hi8 (ucast (ucast (ucast (s :: u8) :: u16) OR ((v :: u32) AND 0x80)) :: u16) = 0"
proof -
  show "lo8 (ucast (ucast (ucast s :: u16) OR (v AND 0x80)) :: u16) = s OR (ucast v AND 0x80)"
    by (rule bit_word_eqI) (auto simp: lo8_def bit_simps bit_128 dest: bit_imp_le_length)
  show "hi8 (ucast (ucast (ucast s :: u16) OR (v AND 0x80)) :: u16) = 0"
  proof (rule bit_word_eqI)
    fix n
    have "\<not> bit (0x80 :: u32) (8 + n)" by (simp only: bit_128)
    then show "bit (hi8 (ucast (ucast (ucast s :: u16) OR (v AND 0x80)) :: u16)) n = bit 0 n"
      by (auto simp: hi8_def bit_simps dest: bit_imp_le_length)
  qed
qed

lemma print_digit:
  assumes "tm_ok chip" and "d < 10" and "idle w"
  shows "\<exists>t. tm1668_print_num chip (word_of_nat d) = Some t \<and> idle (foldl wire_step w t)
     \<and> w_frames (foldl wire_step w t) = w_frames w @ [[0x40], [TM1668_CMD_ADDRESS 0,
         seg7 d OR (ucast (tm_reg chip ! 0) AND 0x80), 0]]"
    and "\<exists>t. tm1668_print_num chip (word_of_nat d + 10) = Some t \<and> idle (foldl wire_step w t)
     \<and> w_frames (foldl wire_step w t) = w_frames w @ [[0x40], [TM1668_CMD_ADDRESS 2,
         seg7 d OR (ucast (tm_reg chip ! 2) AND 0x80), 0]]"
proof -
  have "d \<in> set [0..<10]" using assms(2) by simp
  note e = digit_entries [rule_format, OF this]
  show "\<exists>t. tm1668_print_num chip (word_of_nat d) = Some t \<and> idle (foldl wire_step w t)
     \<and> w_frames (foldl wire_step w t) = w_frames w @ [[0x40], [TM1668_CMD_ADDRESS 0,
         seg7 d OR (ucast (tm_reg chip ! 0) AND 0x80), 0]]"
    using e assms(1) show_frames [OF assms(1,3)]
    by (simp add: tm1668_print_num_def tm_find_loop tm_ok_def TM1668_REG_NUM_def load_in digit_bytes)
  show "\<exists>t. tm1668_print_num chip (word_of_nat d + 10) = Some t \<and> idle (foldl wire_step w t)
     \<and> w_frames (foldl wire_step w t) = w_frames w @ [[0x40], [TM1668_CMD_ADDRESS 2,
         seg7 d OR (ucast (tm_reg chip ! 2) AND 0x80), 0]]"
    using e assms(1) show_frames [OF assms(1,3)]
    by (simp add: tm1668_print_num_def tm_find_loop tm_ok_def TM1668_REG_NUM_def load_in digit_bytes)
qed

section \<open>Icons\<close>

text \<open>The icons 40 to 67: each is one bit of one register. An icon is lit when its bit is set.\<close>

definition icon_value :: "u16 \<Rightarrow> nat \<times> u32" where
  "icon_value c = (case tm_find c of Some e \<Rightarrow> (unat (tc_address e), ucast (tc_value e)) | None \<Rightarrow> (0, 0))"

definition lit :: "tm1668_chip \<Rightarrow> u16 \<Rightarrow> bool" where
  "lit chip c = (case icon_value c of (a, v) \<Rightarrow> tm_reg chip ! a AND v \<noteq> 0)"

definition icon_names :: "u16 list" where
  "icon_names = map word_of_nat [40..<68]"

definition is_icon :: "u16 \<Rightarrow> bool" where
  "is_icon c \<longleftrightarrow> c \<in> set icon_names"

text \<open>
  Checked on the table: every icon has an entry, and the icons are different bits, all of
  them among the low eight of their register.
\<close>

definition icon_list :: "(nat \<times> u32) list" where
  "icon_list = concat (map (\<lambda>a. map (\<lambda>v. (a, v)) [8, 4, 2, 1, 0x80, 0x40, 0x20, 0x10])
     [8, 10, 12]) @ map (\<lambda>a. (a, 0x80)) [2, 4, 6, 0]"

lemma icon_table:
  "list_all (\<lambda>c. tm_find c \<noteq> None) icon_names"
  "map icon_value icon_names = icon_list"
  by code_simp+

lemma icon_list_single:
  "list_all (\<lambda>(a, v). v \<in> set (map (\<lambda>k. 2 ^ k) [0..<8])) icon_list" "distinct icon_list"
  by code_simp+

lemma length_icon_names: "length icon_names = 28"
  by (simp add: icon_names_def)

lemma icon_number: "is_icon c \<longleftrightarrow> (\<exists>i < 28. c = icon_names ! i)"
  by (auto simp: is_icon_def in_set_conv_nth length_icon_names)

lemma icon_entry:
  assumes "is_icon c"
  shows "\<exists>e. tm_find c = Some e \<and> icon_value c = (unat (tc_address e), ucast (tc_value e))"
  using assms icon_table(1) by (auto simp: is_icon_def list_all_iff icon_value_def)

lemma length_icon_list: "length icon_list = 28"
  by (simp add: icon_list_def)

lemma icon_at:
  assumes "is_icon c"
  obtains i where "i < 28" "c = icon_names ! i" "icon_value c = icon_list ! i"
proof -
  obtain i where i: "i < 28" "c = icon_names ! i"
    using assms icon_number by blast
  have "icon_value c = map icon_value icon_names ! i" using i length_icon_names by simp
  then have "icon_value c = icon_list ! i" by (simp only: icon_table(2))
  then show ?thesis using that i by blast
qed

lemma icon_bit:
  assumes "is_icon c"
  obtains k where "k < 8" "snd (icon_value c) = 2 ^ k"
proof -
  obtain i where i: "i < 28" "icon_value c = icon_list ! i" using icon_at [OF assms] by blast
  have "icon_value c \<in> set icon_list" using i length_icon_list by (simp add: nth_mem)
  then have "snd (icon_value c) \<in> set (map (\<lambda>k. 2 ^ k) [0..<8])"
    using icon_list_single(1) by (auto simp: list_all_iff split_beta simp del: upt_Suc set_map)
  then show ?thesis using that by auto
qed

lemma icon_value_inj:
  assumes "is_icon c" and "is_icon d" and "icon_value c = icon_value d"
  shows "c = d"
proof -
  obtain i where i: "i < 28" "c = icon_names ! i" "icon_value c = icon_list ! i"
    using icon_at [OF assms(1)] by blast
  obtain j where j: "j < 28" "d = icon_names ! j" "icon_value d = icon_list ! j"
    using icon_at [OF assms(2)] by blast
  have "i = j" using icon_list_single(2) i j assms(3) length_icon_list
    by (simp add: nth_eq_iff_index_eq)
  then show ?thesis using i j by simp
qed

lemma and_exp: "(w :: u32) AND 2 ^ k \<noteq> 0 \<longleftrightarrow> bit w k"
  by (simp add: and_exp_eq_0_iff_not_bit)

text \<open>Switching an icon changes that icon and no other.\<close>

lemma print_icon_lit:
  assumes "tm_ok chip" and "is_icon c"
  shows "\<exists>chip' t. tm1668_print_icon chip c d = Some (chip', t) \<and> tm_ok chip'
     \<and> (\<forall>x. is_icon x \<longrightarrow> lit chip' x = (if x = c then d = 1 else lit chip x))"
proof -
  obtain e where e: "tm_find c = Some e" "icon_value c = (unat (tc_address e), ucast (tc_value e))"
    using icon_entry [OF assms(2)] by blast
  define a where "a = unat (tc_address e)" define v where "v = (ucast (tc_value e) :: u32)"
  have a: "a < 14" using tm_find_address [OF e(1)] by (simp add: a_def)
  obtain k where k: "k < 8" "v = 2 ^ k" using icon_bit [OF assms(2)] e(2) by (auto simp: v_def)
  define r where "r = (if d = 1 then tm_reg chip ! a OR v else tm_reg chip ! a AND (NOT v AND 0xFFF))"
  define chip' where "chip' = chip\<lparr>tm_reg := (tm_reg chip)[a := r]\<rparr>"
  obtain t where t: "tm1668_print_icon chip c d = Some (chip', t)"
    using print_icon_found [OF assms(1) e(1), of d] by (auto simp: chip'_def r_def a_def v_def)
  have ok: "tm_ok chip'" using assms(1) by (simp add: tm_ok_def chip'_def)
  have len: "a < length (tm_reg chip)" using a assms(1) by (simp add: tm_ok_def TM1668_REG_NUM_def)
  have mask: "bit (0xFFF :: u32) j" if "j < 8" for j
    using that bit_mask_iff [of 12 j, where ?'a = "32 word"] by (simp add: mask_eq_exp_minus_1)
  have v32: "bit v j \<longleftrightarrow> j = k" if "j < 8" for j
    using that k by (auto simp: bit_exp_iff)
  have "lit chip' x = (if x = c then d = 1 else lit chip x)" if x: "is_icon x" for x
  proof -
    obtain j where j: "j < 8" "snd (icon_value x) = 2 ^ j" using icon_bit [OF x] by blast
    show ?thesis
    proof (cases "fst (icon_value x) = a")
      case False
      then have "x \<noteq> c" using e(2) by (auto simp: a_def)
      then show ?thesis using False by (simp add: lit_def chip'_def split_beta)
    next
      case True
      have b: "lit chip' x = bit r j" "lit chip x = bit (tm_reg chip ! a) j"
        using True j(2) len by (simp_all add: lit_def chip'_def split_beta and_exp)
      have xc: "x = c \<longleftrightarrow> j = k"
      proof
        assume "x = c"
        then have "(2 :: u32) ^ j = 2 ^ k" using j(2) k(2) e(2) by (simp add: v_def)
        then show "j = k" using v32 [OF j(1)] k(2) j(1) by (metis and_exp bit_exp_iff k(1) v32)
      next
        assume "j = k"
        then have "icon_value x = icon_value c"
          using True j(2) k(2) e(2) by (simp add: prod_eq_iff a_def v_def)
        then show "x = c" using icon_value_inj [OF x assms(2)] by simp
      qed
      have r: "bit r j = (if d = 1 then bit (tm_reg chip ! a) j \<or> j = k
          else bit (tm_reg chip ! a) j \<and> j \<noteq> k)"
        using v32 [OF j(1)] mask [OF j(1)] j(1)
        by (auto simp: r_def bit_or_iff bit_and_iff bit_not_iff)
      show ?thesis unfolding b r xc by auto
    qed
  qed
  then show ?thesis using t ok by blast
qed

lemma print_icons_lit:
  assumes "tm_ok chip" and "list_all (\<lambda>(c, d). is_icon c) cs"
  shows "\<exists>chip' t. print_icons chip cs = Some (chip', t) \<and> tm_ok chip'
     \<and> (\<forall>x. is_icon x \<longrightarrow> lit chip' x = foldl (\<lambda>b (c, d). if x = c then d = 1 else b) (lit chip x) cs)"
  using assms
proof (induction chip cs rule: print_icons.induct)
  case (2 chip c d rest)
  obtain chip1 t1 where 1: "tm1668_print_icon chip c d = Some (chip1, t1)" "tm_ok chip1"
    "\<forall>x. is_icon x \<longrightarrow> lit chip1 x = (if x = c then d = 1 else lit chip x)"
    using print_icon_lit [OF 2(2), of c d] 2(3) by auto
  then show ?case using 2(1) [OF 1(1) refl 1(2)] 2(3) by auto
qed simp

section \<open>Properties\<close>

text \<open>
  C40. The driver's state is well typed: initialisation brings the chip into a well-formed
  state (whatever it was, with a shadow of 14 registers), every operation is defined there
  for all arguments - no register address of the table is outside the shadow - and keeps it.
\<close>

theorem tm1668_well_typed:
  assumes "length (tm_reg fresh) = TM1668_REG_NUM" and "tm_ok chip"
  shows "(\<exists>chip t. tm1668_init fresh = Some (0, chip, t) \<and> tm_ok chip)
    \<and> (\<exists>chip' t. tm1668_print_icon chip c d = Some (chip', t) \<and> tm_ok chip')
    \<and> (\<exists>t. tm1668_print_num chip c = Some t)
    \<and> (\<exists>t. tm1668_print_speed chip speed = Some t)
    \<and> (\<exists>chip' t. tm1668_print_mode wm chip mode = Some (chip', t) \<and> tm_ok chip')
    \<and> (\<exists>chip' t. tm1668_print_battery chip p = Some (chip', t) \<and> tm_ok chip')
    \<and> tm_ok (fst (tm1668_set_brightness chip b))
    \<and> tm_ok (fst (snd (tm1668_close chip)))"
proof -
  have "clear_reg0_loop TM1668_REG_NUM (tm_reg fresh) = Some ((tm_reg fresh)[0 := 0])"
    using clear_reg0_loop [of "tm_reg fresh" 13] assms(1) by (simp add: TM1668_REG_NUM_def)
  then have "\<exists>chip t. tm1668_init fresh = Some (0, chip, t) \<and> tm_ok chip"
    using assms(1)
    by (simp add: tm1668_init_def tm1668_gpio_init_def tm1668_set_brightness_def Let_def tm_ok_def)
  moreover have "\<exists>chip' t. tm1668_print_mode wm chip mode = Some (chip', t) \<and> tm_ok chip'"
    using print_icons_ok [OF assms(2)] assms(2) by (simp add: tm1668_print_mode_def del: print_icons.simps)
  moreover have "\<exists>chip' t. tm1668_print_battery chip p = Some (chip', t) \<and> tm_ok chip'"
    using print_icons_ok [OF assms(2)] by (simp add: tm1668_print_battery_def Let_def del: print_icons.simps)
  ultimately show ?thesis
    using print_icon_ok [OF assms(2)] print_num_ok [OF assms(2)] print_speed_ok [OF assms(2)] assms(2)
    by (simp add: tm1668_close_def tm1668_set_brightness_def Let_def tm_ok_def)
qed


text \<open>The icons of a level of charge.\<close>

definition battery_icons :: "nat \<Rightarrow> u16 set" where
  "battery_icons level =
     (if level = 0 then {} else if level = 1 then {54} else if level = 2 then {54, 52}
      else if level = 3 then {55, 53, 59} else if level = 4 then {55, 53, 59, 58}
      else {55, 53, 59, 58, 57})"

text \<open>
  After showing a charge (below 3840, which covers every percentage) exactly the icons
  of its level are lit among the seven battery icons - white bars from the third level on,
  the red bars below it, none for level 0 - and every other icon is as it was.
\<close>

theorem tm1668_battery_icons:
  assumes "tm_ok chip" and "unat p < 3840"
  shows "\<exists>chip' t. tm1668_print_battery chip p = Some (chip', t) \<and> tm_ok chip'
    \<and> (\<forall>x. is_icon x \<longrightarrow> lit chip' x =
         (if x \<in> {52, 53, 54, 55, 57, 58, 59} then x \<in> battery_icons (min 5 (unat p div 15))
          else lit chip x))"
proof -
  define btc where "btc = (ucast (p div 15) :: u8)"
  have btc: "unat btc = unat p div 15" using assms(2) by (simp add: btc_def unat_ucast_mod unat_div)
  define level where "level = min 5 (unat p div 15)"
  have lv: "(if btc > 5 then 5 else btc) = word_of_nat level"
    using btc by (auto simp: level_def word_less_nat_alt word_unat_eq_iff unat_of_nat min_def)
  have icons: "list_all is_icon [52, 53, 54, 55, 57, 58, 59]"
    by (simp add: is_icon_def icon_names_def)
  have level: "level \<in> {0, 1, 2, 3, 4, 5}" by (auto simp: level_def min_def)
  have calls: "list_all (\<lambda>(c, d). is_icon c) (battery_calls (word_of_nat level))"
    using level icons by (auto simp: battery_calls_def)
  have shown: "foldl (\<lambda>b (c, d). if x = c then d = 1 else b) (lit chip x) (battery_calls (word_of_nat level))
      = (if x \<in> {52, 53, 54, 55, 57, 58, 59} then x \<in> battery_icons level else lit chip x)" for x
    using level by (auto simp: battery_calls_def battery_icons_def)
  obtain chip' t where 1: "print_icons chip (battery_calls (word_of_nat level)) = Some (chip', t)"
    "tm_ok chip'" "\<forall>x. is_icon x \<longrightarrow> lit chip' x
       = foldl (\<lambda>b (c, d). if x = c then d = 1 else b) (lit chip x) (battery_calls (word_of_nat level))"
    using print_icons_lit [OF assms(1) calls] by blast
  have "tm1668_print_battery chip p = Some (chip', t)"
    using 1(1) by (simp add: tm1668_print_battery_def Let_def btc_def [symmetric] lv)
  then show ?thesis using 1(2,3) unfolding shown unfolding level_def by blast
qed

section \<open>Witnesses\<close>

definition demo_chip :: tm1668_chip where
  "demo_chip = \<lparr> gpio_dio = 5, gpio_sclk = 4, gpio_stb = 56, brightness = 1,
     characters_num = length characters, tm_chars = characters,
     tm_reg = (replicate 14 0)[2 := 0x80, 10 := 0x0C] \<rparr>"

lemma demo_chip_ok: "tm_ok demo_chip"
  by (simp add: tm_ok_def demo_chip_def TM1668_REG_NUM_def)

theorem tm1668_well_typed_witness:
  "\<exists>t. tm1668_print_speed demo_chip 0xFFFF = Some t"
  using tm1668_well_typed [where fresh = demo_chip and chip = demo_chip and speed = "0xFFFF"] demo_chip_ok
  by (auto simp: tm_ok_def)


theorem tm1668_battery_icons_witness:
  "\<exists>chip t. tm1668_print_battery demo_chip 50 = Some (chip, t)
     \<and> lit chip 59 \<and> \<not> lit chip 58 \<and> lit chip 48 = lit demo_chip 48"
proof -
  have "is_icon 59" "is_icon 58" "is_icon 48" by (simp_all add: is_icon_def icon_names_def)
  then show ?thesis
    using tm1668_battery_icons [OF demo_chip_ok, of 50] by (auto simp: battery_icons_def)
qed

end
