(* ===== verification/Libc_String.thy ===== *)
theory Libc_String
  imports Vsnprintf
begin

text \<open>
  The string functions of the SDK's small C library: memmem.c, strstr.c, strnlen.c and
  strlcpy.c under src/src/components/libc/.

  A string is the array that holds it, with its terminator; a read behind the array is
  the value \<open>None\<close>. The result of a search is the index of the match, \<open>None\<close> for the null
  pointer.

  \<^item> \<open>memmem_first_match\<close>: the search with jumps finds the first occurrence, and reports
    none exactly when there is none.
  \<^item> \<open>strlcpy_copies\<close>, \<open>strnlen_bounded\<close>: the copy is cut to the buffer and terminated; the
    length never reads behind the limit.
\<close>

section \<open>Definitions\<close>

text \<open>\<open>memcmp(x + 2, y + j + 2, m - 2)\<close>, as the test for equality.\<close>

definition memcmp_eq :: "'a list \<Rightarrow> nat \<Rightarrow> 'a list \<Rightarrow> nat \<Rightarrow> nat \<Rightarrow> bool option" where
  "memcmp_eq x i y j len = do { a \<leftarrow> read_bytes x i len; b \<leftarrow> read_bytes y j len; Some (a = b) }"

function memmem_loop ::
  "'a list \<Rightarrow> 'a list \<Rightarrow> nat \<Rightarrow> nat \<Rightarrow> nat \<Rightarrow> nat \<Rightarrow> nat \<Rightarrow> nat option option" where
  "memmem_loop y x n m k l j =
     (if j \<le> n - m \<and> 0 < k \<and> 0 < l
      then do {
        x1 \<leftarrow> load x 1;
        y1 \<leftarrow> load y (j + 1);
        if x1 \<noteq> y1 then memmem_loop y x n m k l (j + k)
        else do {
          same \<leftarrow> memcmp_eq x 2 y (j + 2) (m - 2);
          x0 \<leftarrow> load x 0;
          y0 \<leftarrow> load y j;
          if same \<and> x0 = y0 then Some (Some j) else memmem_loop y x n m k l (j + l)
        }
      }
      else Some None)"
  by pat_completeness auto
termination
  by (relation "measure (\<lambda>(y, x, n, m, k, l, j). Suc (n - m) - j)") auto

text \<open>The search of one byte: \<open>do { \<dots> } while (--n)\<close>.\<close>

fun memchr_loop :: "'a list \<Rightarrow> 'a \<Rightarrow> nat \<Rightarrow> nat \<Rightarrow> nat option option" where
  "memchr_loop y x 0 j = Some None"
| "memchr_loop y x (Suc n) j = do {
     c \<leftarrow> load y j;
     if c = x then Some (Some j) else memchr_loop y x n (Suc j)
   }"

definition memmem :: "'a list \<Rightarrow> nat \<Rightarrow> 'a list \<Rightarrow> nat \<Rightarrow> nat option option" where
  "memmem haystack n needle m =
     (if m > n \<or> m = 0 \<or> n = 0 then Some None
      else if m \<noteq> 1 then do {
        x0 \<leftarrow> load needle 0;
        x1 \<leftarrow> load needle 1;
        let (k, l) = (if x0 = x1 then (2, 1) else (1, 2));
        memmem_loop haystack needle n m k l 0
      }
      else do { x \<leftarrow> load needle 0; memchr_loop haystack x n 0 })"

definition strstr :: "string \<Rightarrow> string \<Rightarrow> nat option option" where
  "strstr haystack needle = do {
     n \<leftarrow> c_strlen haystack;
     m \<leftarrow> c_strlen needle;
     memmem haystack n needle m
   }"

text \<open>The loop counts \<open>maxlen\<close> down before it reads.\<close>

fun strnlen_loop :: "string \<Rightarrow> nat \<Rightarrow> nat \<Rightarrow> nat option" where
  "strnlen_loop s ss 0 = Some ss"
| "strnlen_loop s ss (Suc maxlen) = do {
     c \<leftarrow> load s ss;
     if c \<noteq> NUL then strnlen_loop s (Suc ss) maxlen else Some ss
   }"

definition strnlen :: "string \<Rightarrow> nat \<Rightarrow> nat option" where
  "strnlen s maxlen = strnlen_loop s 0 maxlen"

fun strlcpy_loop :: "string \<Rightarrow> nat \<Rightarrow> nat \<Rightarrow> string \<Rightarrow> nat \<Rightarrow> (string \<times> nat \<times> nat) option" where
  "strlcpy_loop [] sz bytes dst q = None"
| "strlcpy_loop (ch # p) sz bytes dst q =
     (if ch = NUL then Some (dst, q, bytes)
      else if bytes + 1 < sz
      then do { dst \<leftarrow> store dst q ch; strlcpy_loop p sz (bytes + 1) dst (q + 1) }
      else strlcpy_loop p sz (bytes + 1) dst q)"

definition strlcpy :: "string \<Rightarrow> string \<Rightarrow> nat \<Rightarrow> (nat \<times> string) option" where
  "strlcpy dst src sz = do {
     (dst, q, bytes) \<leftarrow> strlcpy_loop src sz 0 dst 0;
     dst \<leftarrow> (if sz \<noteq> 0 then store dst q NUL else Some dst);
     Some (bytes, dst)
   }"

declare memmem_loop.simps [simp del]

section \<open>Occurrences\<close>

definition occurs_at :: "'a list \<Rightarrow> 'a list \<Rightarrow> nat \<Rightarrow> bool" where
  "occurs_at x y j \<longleftrightarrow> j + length x \<le> length y \<and> take (length x) (drop j y) = x"

lemma occurs_at_nth:
  "occurs_at x y j \<longleftrightarrow> j + length x \<le> length y \<and> (\<forall>i < length x. y ! (j + i) = x ! i)"
  by (auto simp: occurs_at_def list_eq_iff_nth_eq)

text \<open>An occurrence of a pattern of at least two characters, as the loop tests it.\<close>

lemma occurs_at_test:
  assumes "2 \<le> length x" and "j + length x \<le> length y"
  shows "occurs_at x y j \<longleftrightarrow> y ! j = x ! 0 \<and> y ! (j + 1) = x ! 1
     \<and> take (length x - 2) (drop 2 x) = take (length x - 2) (drop (j + 2) y)"
proof -
  obtain a b r where x: "x = a # b # r"
    using assms(1) by (cases x; cases "tl x") auto
  have "j < length y" "Suc j < length y" using assms(2) x by simp_all
  then have "drop j y = y ! j # y ! Suc j # drop (Suc (Suc j)) y"
    by (simp add: Cons_nth_drop_Suc)
  then show ?thesis using assms by (auto simp: occurs_at_def x)
qed

lemma memmem_loop_correct:
  assumes len: "2 \<le> length x" "length x \<le> length y"
    and kl: "(k, l) = (if x ! 0 = x ! 1 then (2, 1) else (1, 2))"
    and before: "\<forall>i < j. \<not> occurs_at x y i"
  shows "\<exists>r. memmem_loop (y @ ya) (x @ xa) (length y) (length x) k l j = Some r
     \<and> (case r of None \<Rightarrow> \<forall>i. \<not> occurs_at x y i
        | Some p \<Rightarrow> occurs_at x y p \<and> (\<forall>i < p. \<not> occurs_at x y i))"
  using before
proof (induction "Suc (length y - length x) - j" arbitrary: j rule: less_induct)
  case less
  have pos: "0 < k" "0 < l" using kl by (auto split: if_splits)
  show ?case
  proof (cases "j \<le> length y - length x")
    case False
    have "\<not> occurs_at x y i" for i
      using less.prems False by (cases "i < j") (auto simp: occurs_at_def)
    then show ?thesis using False by (subst memmem_loop.simps) simp
  next
    case True
    then have j: "j + length x \<le> length y" using len(2) by simp
    have ld: "load (x @ xa) 1 = Some (x ! 1)" "load (y @ ya) (j + 1) = Some (y ! (j + 1))"
      "load (x @ xa) 0 = Some (x ! 0)" "load (y @ ya) j = Some (y ! j)"
      using len(1) j by (auto simp: load_def nth_append)
    have cmp: "memcmp_eq (x @ xa) 2 (y @ ya) (j + 2) (length x - 2)
        = Some (take (length x - 2) (drop 2 x) = take (length x - 2) (drop (j + 2) y))"
      using len(1) j by (simp add: memcmp_eq_def read_bytes_in)
    have next1: "\<not> occurs_at x y (Suc j)" if "x ! 0 \<noteq> y ! (j + 1)"
      using that len(1) by (auto simp: occurs_at_nth intro!: exI [of _ 0])
    have jump: "\<forall>i < j + s. \<not> occurs_at x y i"
      if "\<not> occurs_at x y j" "s = 1 \<or> s = 2 \<and> x ! 0 \<noteq> y ! (j + 1)" for s
      using that less.prems next1 by (auto simp: less_Suc_eq)
    show ?thesis
    proof (cases "x ! 1 = y ! (j + 1)")
      case False
      then have "\<not> occurs_at x y j" using occurs_at_test [OF len(1) j] by auto
      then have "\<forall>i < j + k. \<not> occurs_at x y i"
        using False kl by (intro jump) (auto split: if_splits)
      then show ?thesis
        using less.hyps [of "j + k"] True pos False ld by (subst memmem_loop.simps) simp
    next
      case eq: True
      show ?thesis
      proof (cases "occurs_at x y j")
        case occ: True
        then show ?thesis
          using occurs_at_test [OF len(1) j] eq True pos ld cmp less.prems
          by (subst memmem_loop.simps) auto
      next
        case occ: False
        then have "\<forall>i < j + l. \<not> occurs_at x y i"
          using eq kl by (intro jump) (auto split: if_splits)
        moreover have "\<not> (take (length x - 2) (drop 2 x) = take (length x - 2) (drop (j + 2) y)
            \<and> x ! 0 = y ! j)"
          using occ occurs_at_test [OF len(1) j] eq by auto
        ultimately show ?thesis
          using less.hyps [of "j + l"] True pos eq ld cmp by (subst memmem_loop.simps) auto
      qed
    qed
  qed
qed

lemma memchr_loop_correct:
  assumes "j + n = length y"
  shows "\<exists>r. memchr_loop (y @ ya) x n j = Some r
     \<and> (case r of None \<Rightarrow> \<forall>i. j \<le> i \<and> i < length y \<longrightarrow> y ! i \<noteq> x
        | Some p \<Rightarrow> j \<le> p \<and> p < length y \<and> y ! p = x \<and> (\<forall>i. j \<le> i \<and> i < p \<longrightarrow> y ! i \<noteq> x))"
  using assms
proof (induction n arbitrary: j)
  case (Suc n)
  have ld: "load (y @ ya) j = Some (y ! j)" using Suc.prems by (simp add: load_in nth_append)
  show ?case
  proof (cases "y ! j = x")
    case True
    then show ?thesis using ld Suc.prems by auto
  next
    case False
    obtain r where r: "memchr_loop (y @ ya) x n (Suc j) = Some r"
      "case r of None \<Rightarrow> \<forall>i. Suc j \<le> i \<and> i < length y \<longrightarrow> y ! i \<noteq> x
        | Some p \<Rightarrow> Suc j \<le> p \<and> p < length y \<and> y ! p = x \<and> (\<forall>i. Suc j \<le> i \<and> i < p \<longrightarrow> y ! i \<noteq> x)"
      using Suc.IH [of "Suc j"] Suc.prems by auto
    have "j \<le> i \<longleftrightarrow> i = j \<or> Suc j \<le> i" for i by auto
    then show ?thesis using False ld r by (auto split: option.splits)
  qed
qed auto

section \<open>Copies\<close>

lemma strnlen_loop_text:
  "NUL \<notin> set s \<Longrightarrow> strnlen_loop (u @ s @ NUL # rest) (length u) m = Some (length u + min (length s) m)"
proof (induction s arbitrary: u m)
  case Nil
  then show ?case by (cases m) (simp_all add: load_def)
next
  case (Cons c s)
  show ?case
  proof (cases m)
    case (Suc m')
    have "load (u @ c # s @ NUL # rest) (length u) = Some c" by (simp add: load_def)
    then show ?thesis using Suc Cons.IH [of "u @ [c]" m'] Cons.prems by auto
  qed simp
qed

lemma strlcpy_loop_text:
  assumes "NUL \<notin> set s" and "sz \<le> length dst" and "q = min b (sz - 1)"
  shows "strlcpy_loop (s @ NUL # rest) sz b dst q =
    Some (take q dst @ take (sz - 1 - b) s @ drop (q + length (take (sz - 1 - b) s)) dst,
          min (b + length s) (sz - 1), b + length s)"
  using assms
proof (induction s arbitrary: b dst q)
  case (Cons c s)
  have c: "c \<noteq> NUL" "NUL \<notin> set s" using Cons.prems(1) by auto
  show ?case
  proof (cases "b + 1 < sz")
    case True
    then have q: "q = b" "b < length dst" using Cons.prems by simp_all
    have d: "drop b (dst[b := c]) = c # drop (Suc b) dst" "take (Suc b) (dst[b := c]) = take b dst @ [c]"
      using q(2) by (simp_all add: Cons_nth_drop_Suc [symmetric] take_Suc_conv_app_nth drop_update_cancel)
    have sz: "sz - 1 - b = Suc (sz - 1 - Suc b)" using True by simp
    have dr: "drop (Suc b + k) (dst[b := c]) = drop (Suc b + k) dst" for k
      by (simp add: drop_update_cancel)
    show ?thesis
      using Cons.IH [OF c(2), of "dst[b := c]" "Suc b" "Suc b"] Cons.prems(2) c True q d sz dr
      by (simp add: store_in ac_simps)
  next
    case False
    then have "sz - 1 - b = 0" "sz - 1 - Suc b = 0" "q = min (Suc b) (sz - 1)" using Cons.prems by simp_all
    then show ?thesis
      using Cons.IH [OF c(2) Cons.prems(2), of q "Suc b"] False c Cons.prems(3) by simp
  qed
qed simp

section \<open>Properties\<close>

text \<open>
  C34. \<open>memmem\<close> agrees with the specification of a search: for a needle that is not empty it
  returns the position of the first occurrence, and the null pointer exactly when the
  needle does not occur; it reads only inside the two arrays. An empty needle is
  never found.
\<close>

theorem memmem_first_match:
  "\<exists>r. memmem (y @ ya) (length y) (x @ xa) (length x) = Some r
   \<and> (case r of
        None \<Rightarrow> x = [] \<or> (\<forall>i. \<not> occurs_at x y i)
      | Some p \<Rightarrow> x \<noteq> [] \<and> occurs_at x y p \<and> (\<forall>i < p. \<not> occurs_at x y i))"
proof -
  consider "length y < length x" | "x = []" | "length x = 1" "length x \<le> length y"
    | "2 \<le> length x" "length x \<le> length y"
    by (cases "length y < length x"; cases "length x = 0"; cases "length x = 1") auto
  then show ?thesis
  proof cases
    case 1
    then show ?thesis by (auto simp: memmem_def occurs_at_def)
  next
    case 2
    then show ?thesis by (simp add: memmem_def)
  next
    case 3
    then obtain c where c: "x = [c]" by (cases x) auto
    have occ: "occurs_at x y i \<longleftrightarrow> i < length y \<and> y ! i = c" for i
      by (auto simp: occurs_at_nth c)
    obtain r where "memchr_loop (y @ ya) c (length y) 0 = Some r"
      "case r of None \<Rightarrow> \<forall>i. 0 \<le> i \<and> i < length y \<longrightarrow> y ! i \<noteq> c
        | Some p \<Rightarrow> 0 \<le> p \<and> p < length y \<and> y ! p = c \<and> (\<forall>i. 0 \<le> i \<and> i < p \<longrightarrow> y ! i \<noteq> c)"
      using memchr_loop_correct [of 0 "length y" y ya c] by auto
    then show ?thesis
      using 3 by (auto simp: memmem_def c load_def occ [unfolded c] split: option.splits)
  next
    case 4
    define k l :: nat where "k = (if x ! 0 = x ! 1 then 2 else 1)" and "l = (if x ! 0 = x ! 1 then 1 else 2)"
    have kl: "(k, l) = (if x ! 0 = x ! 1 then (2, 1) else (1, 2))" by (simp add: k_def l_def)
    have "load (x @ xa) 0 = Some (x ! 0)" "load (x @ xa) 1 = Some (x ! 1)"
      using 4 by (auto simp: load_def nth_append)
    then have "memmem (y @ ya) (length y) (x @ xa) (length x)
        = memmem_loop (y @ ya) (x @ xa) (length y) (length x) k l 0"
      using 4 kl by (auto simp: memmem_def k_def l_def)
    moreover have "x \<noteq> []" using 4 by auto
    ultimately show ?thesis
      using memmem_loop_correct [OF 4 kl, of 0 ya xa] by (auto split: option.splits)
  qed
qed

theorem memmem_first_match_witness:
  "memmem ''abaabaab'' 8 ''aab'' 3 = Some (Some 2) \<and> memmem ''abaaba'' 6 ''bb'' 2 = Some None"
proof -
  have m: "memmem ''abaabaab'' 8 ''aab'' 3 = Some (Some 2)" "memmem ''abaaba'' 6 ''bb'' 2 = Some None"
    by (simp_all add: memmem_def memmem_loop.simps memcmp_eq_def load_def read_bytes_def)
  show ?thesis
    using memmem_first_match [of "''abaabaab''" "[]" "''aab''" "[]"] m by simp
qed

text \<open>
  \<open>strlcpy\<close> returns the length of the source, and copies as much of it as fits into
  \<open>sz\<close> bytes with a terminator; the rest of the destination is kept.
\<close>

theorem strlcpy_copies:
  assumes "NUL \<notin> set s" and "sz \<le> length dst"
  shows "strlcpy dst (s @ NUL # rest) sz =
    Some (length s, if sz = 0 then dst
       else take (sz - 1) s @ NUL # drop (Suc (min (length s) (sz - 1))) dst)"
proof -
  have "min (length s) (sz - 1) < length dst" if "sz \<noteq> 0" using that assms(2) by simp
  then show ?thesis
    using strlcpy_loop_text [OF assms, of 0 0 rest] assms(2)
    by (auto simp: strlcpy_def store_def list_update_append min_def Cons_nth_drop_Suc [symmetric])
qed

theorem strlcpy_copies_witness:
  "strlcpy ''......'' (''hello'' @ [NUL]) 4 = Some (5, ''hel'' @ [NUL] @ ''..'')"
  using strlcpy_copies [of "''hello''" 4 "''......''" "[]"] by simp

text \<open>\<open>strnlen\<close> is the length of the text or the limit, and reads nothing behind either.\<close>

theorem strnlen_bounded:
  assumes "NUL \<notin> set s"
  shows "strnlen (s @ NUL # rest) m = Some (min (length s) m)"
  using strnlen_loop_text [OF assms, of "[]" rest m] by (simp add: strnlen_def)

theorem strnlen_bounded_witness: "strnlen (''abc'' @ [NUL]) 2 = Some 2"
  using strnlen_bounded [of "''abc''" "[]" 2] by simp

text \<open>The C standard lets \<open>strstr\<close> find an empty string at the start; this one never finds it.\<close>

lemma strstr_empty_needle: "NUL \<notin> set h \<Longrightarrow> strstr (h @ [NUL]) [NUL] = Some None"
  by (simp add: strstr_def c_strlen_text c_strlen_def memmem_def)

end
