(* ===== verification/Token.thy ===== *)
theory Token
  imports Vsnprintf Base64 Hmac_Sha1
begin

text \<open>
  The access token of the OneNET cloud, src/src/components/cloud/onenet/authorization/token.c:
  the composition of the Base64 coder, of HMAC-SHA1 and of the formatted output.

  Text arrays are lists of characters with their terminator, byte arrays lists of bytes; a
  cast between \<open>char *\<close> and \<open>unsigned char *\<close> is \<open>str_bytes\<close> or \<open>byte_str\<close>. A null
  pointer is \<open>None\<close>. As in \<open>Hmac_Sha1\<close> the length of the array \<open>step8data\<close> of \<open>hmac_sha1\<close> is
  a parameter, since with the length of the code every call writes behind it.

  \<^item> \<open>onenet_token\<close>: the buffer holds the token of the OneNET specification, signed with the
    decoded key, exactly when the escaped signature fits its array of 64 characters.
  \<^item> \<open>onenet_bad_key\<close>: a key that is not Base64, or too long, is replaced by the empty key
    without an error.
\<close>

section \<open>Definitions\<close>

definition str_bytes :: "string \<Rightarrow> u8 list" where
  "str_bytes s = map of_char s"

definition byte_str :: "u8 list \<Rightarrow> string" where
  "byte_str bs = map (\<lambda>b. char_of (unat b)) bs"

definition TOKEN_METHOD :: string where
  "TOKEN_METHOD = ''sha1''"

text \<open>The \<open>switch\<close> of the escapes.\<close>

definition url_escape :: "char \<Rightarrow> string option" where
  "url_escape c =
     (if c = CHR ''+'' then Some ''%2B''
      else if c = CHR '' '' then Some ''%20''
      else if c = CHR ''/'' then Some ''%2F''
      else if c = CHR ''?'' then Some ''%3F''
      else if c = CHR ''%'' then Some ''%25''
      else if c = CHR ''#'' then Some ''%23''
      else if c = CHR ''&'' then Some ''%26''
      else if c = CHR ''='' then Some ''%3D''
      else None)"

text \<open>\<open>strcat(sign + j, s)\<close>: behind the first zero at or after \<open>j\<close>.\<close>

definition strcat_at :: "string \<Rightarrow> nat \<Rightarrow> string \<Rightarrow> string option" where
  "strcat_at sign j s = do { n \<leftarrow> c_strlen (drop j sign); write_bytes sign (j + n) (s @ [NUL]) }"

definition url_step :: "char \<Rightarrow> u8 \<Rightarrow> string \<Rightarrow> (u8 \<times> string) option" where
  "url_step c j sign =
     (case url_escape c of
        Some e \<Rightarrow> do { sign \<leftarrow> strcat_at sign (unat j) e; Some (j + 3, sign) }
      | None \<Rightarrow> do { sign \<leftarrow> store sign (unat j) c; Some (j + 1, sign) })"

fun url_loop :: "string \<Rightarrow> nat \<Rightarrow> nat \<Rightarrow> u8 \<Rightarrow> string \<Rightarrow> (u8 \<times> string) option" where
  "url_loop sign_t i 0 j sign = Some (j, sign)"
| "url_loop sign_t i (Suc n) j sign = do {
     c \<leftarrow> load sign_t i;
     (j, sign) \<leftarrow> url_step c j sign;
     url_loop sign_t (Suc i) n j sign
   }"

fun unload_loop :: "nat \<Rightarrow> nat \<Rightarrow> string \<Rightarrow> string \<Rightarrow> (string \<times> string) option" where
  "unload_loop i 0 sign_t sign = Some (sign_t, sign)"
| "unload_loop i (Suc n) sign_t sign = do {
     c \<leftarrow> load sign i;
     sign_t \<leftarrow> store sign_t i c;
     sign \<leftarrow> store sign i NUL;
     unload_loop (Suc i) n sign_t sign
   }"

text \<open>\<open>any\<close> is what the uninitialised array \<open>sign_t\<close> contains.\<close>

definition ota_url_encode :: "(nat \<Rightarrow> u8) \<Rightarrow> string option \<Rightarrow> (u8 \<times> string option) option" where
  "ota_url_encode any sign = do {
     arr \<leftarrow> sign;
     len \<leftarrow> c_strlen arr;
     let sign_len = (word_of_nat len :: u8);
     if sign_len < 28 then Some (1, sign)
     else do {
       (sign_t, arr) \<leftarrow> unload_loop 0 (unat sign_len) (byte_str (map any [0..<40])) arr;
       sign_t \<leftarrow> store sign_t (unat sign_len) NUL;
       (j, arr) \<leftarrow> url_loop sign_t 0 (unat sign_len) 0 arr;
       arr \<leftarrow> store arr (unat j) NUL;
       Some (0, Some arr)
     }
   }"

definition signature_format :: "bool \<Rightarrow> string" where
  "signature_format flag =
     (if flag then ''%u'' @ [CHR 0x0A] @ ''%s'' @ [CHR 0x0A] @ ''products/%s'' @ [CHR 0x0A] @ ''%s''
      else ''%u'' @ [CHR 0x0A] @ ''%s'' @ [CHR 0x0A] @ ''products/%s/devices/%s'' @ [CHR 0x0A] @ ''%s'')"

definition token_format :: "bool \<Rightarrow> string" where
  "token_format flag =
     (if flag then ''version=%s&res=products%%2F%s&et=%u&method=%s&sign=%s''
      else ''version=%s&res=products%%2F%s%%2Fdevices%%2F%s&et=%u&method=%s&sign=%s'')"

text \<open>The arrays of the caller are the null pointer or end with a zero; the log output is left out.\<close>

definition onenet_authorization_with ::
  "nat \<Rightarrow> (nat \<Rightarrow> u8) \<Rightarrow> string option \<Rightarrow> string option \<Rightarrow> u32 \<Rightarrow> string option \<Rightarrow> string option
     \<Rightarrow> string option \<Rightarrow> u16 \<Rightarrow> bool \<Rightarrow> (s32 \<times> string option) option" where
  "onenet_authorization_with step8_size any ver res et access_key dev_name
       authorization_buf authorization_buf_len flag =
     (if ver = None \<or> res = None \<or> et < 1582539158 \<or> access_key = None
         \<or> authorization_buf = None \<or> authorization_buf_len < 120
      then Some (1, authorization_buf)
      else do {
        key \<leftarrow> access_key;
        key_len \<leftarrow> c_strlen key;
        (_, _, decoded) \<leftarrow> BASE64_Decode (Some (replicate 64 0)) 64 (str_bytes key) key_len;
        access_key_base64 \<leftarrow> decoded;
        (n, string_for_signature, _) \<leftarrow>
          snprintf (replicate 72 NUL) 72 (signature_format flag @ [NUL])
            (if flag then [VA_int et, VA_str (Some (TOKEN_METHOD @ [NUL])), VA_str res, VA_str ver]
             else [VA_int et, VA_str (Some (TOKEN_METHOD @ [NUL])), VA_str res, VA_str dev_name, VA_str ver]);
        klen \<leftarrow> c_strlen (byte_str access_key_base64);
        slen \<leftarrow> c_strlen string_for_signature;
        (_, hmac_sha1_buf) \<leftarrow>
          hmac_sha1_with step8_size any access_key_base64 klen (str_bytes string_for_signature) slen
            (replicate 64 0);
        (_, _, sign) \<leftarrow> BASE64_Encode (Some (replicate 64 0)) 64 hmac_sha1_buf 20;
        (_, sign_buf) \<leftarrow> ota_url_encode any (map_option byte_str sign);
        buf \<leftarrow> authorization_buf;
        (n, buf, _) \<leftarrow>
          snprintf buf (ucast authorization_buf_len) (token_format flag @ [NUL])
            (if flag then [VA_str ver, VA_str res, VA_int et, VA_str (Some (TOKEN_METHOD @ [NUL])), VA_str sign_buf]
             else [VA_str ver, VA_str res, VA_str dev_name, VA_int et, VA_str (Some (TOKEN_METHOD @ [NUL])),
                   VA_str sign_buf]);
        Some (0, Some buf)
      })"

definition onenet_authorization ::
  "(nat \<Rightarrow> u8) \<Rightarrow> string option \<Rightarrow> string option \<Rightarrow> u32 \<Rightarrow> string option \<Rightarrow> string option
     \<Rightarrow> string option \<Rightarrow> u16 \<Rightarrow> bool \<Rightarrow> (s32 \<times> string option) option" where
  "onenet_authorization = onenet_authorization_with (64 + 20)"

section \<open>Specification\<close>

text \<open>
  Percent-encoding of a signature (a percent sign and the code in hexadecimal digits), the
  string that is signed, and the token.
\<close>

definition hex_digit :: "nat \<Rightarrow> char" where
  "hex_digit d = ''0123456789ABCDEF'' ! d"

definition url_text :: "string \<Rightarrow> string" where
  "url_text s = concat (map (\<lambda>c. if c \<in> set ''+ /?%#&=''
     then [CHR ''%'', hex_digit (of_char c div 16), hex_digit (of_char c mod 16)] else [c]) s)"

definition signed_text :: "string \<Rightarrow> string \<Rightarrow> string option \<Rightarrow> string \<Rightarrow> string" where
  "signed_text et res dev ver = et @ CHR 0x0A # ''sha1'' @ CHR 0x0A # ''products/'' @ res
     @ (case dev of None \<Rightarrow> [] | Some d \<Rightarrow> ''/devices/'' @ d) @ CHR 0x0A # ver"

definition token_text :: "string \<Rightarrow> string \<Rightarrow> string option \<Rightarrow> string \<Rightarrow> string \<Rightarrow> string" where
  "token_text et res dev ver sign = ''version='' @ ver @ ''&res=products%2F'' @ res
     @ (case dev of None \<Rightarrow> [] | Some d \<Rightarrow> ''%2Fdevices%2F'' @ d) @ ''&et='' @ et
     @ ''&method=sha1&sign='' @ sign"

section \<open>Bytes and characters\<close>

lemma char_of_bytes [simp]:
  "char_of (unat (of_char c :: u8)) = c" "of_char (char_of (unat b) :: char) = (b :: u8)"
proof -
  have w: "(of_char c :: u8) = word_of_nat (of_char c)" for c by (simp add: of_char_def)
  have "(of_char c :: nat) < 256" by (metis of_char_mod_256 mod_less_divisor zero_less_numeral)
  then have "unat (of_char c :: u8) = of_char c" by (simp add: w unat_of_nat)
  then show "char_of (unat (of_char c :: u8)) = c" by simp
  have "unat b < 256" by (rule unat_u8_less)
  then show "of_char (char_of (unat b) :: char) = b" by (simp add: w of_char_of)
qed

lemma byte_str_bytes [simp]: "byte_str (str_bytes s) = s" "str_bytes (byte_str b) = b"
  by (simp_all add: byte_str_def str_bytes_def comp_def)

lemma str_bytes_append: "str_bytes (a @ b) = str_bytes a @ str_bytes b"
  by (simp add: str_bytes_def)

lemma length_strings [simp]: "length (byte_str b) = length b" "length (str_bytes s) = length s"
  by (simp_all add: byte_str_def str_bytes_def)

lemma byte_str_append [simp]: "byte_str (a @ b) = byte_str a @ byte_str b" "byte_str (x # a) = char_of (unat x) # byte_str a"
  by (simp_all add: byte_str_def)

lemma byte_str_zeros [simp]: "byte_str (replicate n 0) = replicate n NUL"
  by (simp add: byte_str_def char_of_def)

lemma NUL_byte [simp]: "char_of (unat (x :: u8)) = NUL \<longleftrightarrow> x = 0"
proof
  assume "char_of (unat x) = NUL"
  then have "(of_char (char_of (unat x) :: char) :: u8) = of_char NUL" by (rule arg_cong)
  then show "x = 0" by simp
qed (simp add: char_of_def)

lemma NUL_byte_str [simp]: "NUL \<in> set (byte_str b) \<longleftrightarrow> 0 \<in> set b"
  by (induction b) (simp_all add: byte_str_def eq_commute [of NUL] eq_commute [of 0])

section \<open>Escaping\<close>

lemma url_escape_length: "url_escape c = Some e \<Longrightarrow> length e = 3 \<and> NUL \<notin> set e"
  by (auto simp: url_escape_def split: if_splits)

lemma unload_loop_moves:
  assumes "length s \<le> length v" and "length u = i"
  shows "unload_loop i (length s) (u @ v) (replicate i NUL @ s @ rest)
    = Some (u @ s @ drop (length s) v, replicate (i + length s) NUL @ rest)"
  using assms
proof (induction s arbitrary: i u v)
  case (Cons c s)
  then obtain x v1 where v: "v = x # v1" by (cases v) auto
  have st: "load (replicate i NUL @ (c # s) @ rest) i = Some c" "store (u @ v) i c = Some ((u @ [c]) @ v1)"
    "store (replicate i NUL @ (c # s) @ rest) i NUL = Some (replicate (Suc i) NUL @ s @ rest)"
    using Cons.prems by (simp_all add: load_def store_def nth_append list_update_append v replicate_append_same)
  show ?case
    using Cons.IH [of v1 "u @ [c]" "Suc i"] Cons.prems st v by simp
qed simp

definition url_chars :: "char \<Rightarrow> string" where
  "url_chars c = (case url_escape c of Some e \<Rightarrow> e | None \<Rightarrow> [c])"

lemma url_chars_hex: "url_chars c = (if c \<in> set ''+ /?%#&=''
    then [CHR ''%'', hex_digit (of_char c div 16), hex_digit (of_char c mod 16)] else [c])"
proof (cases "c \<in> set ''+ /?%#&=''")
  case True
  then have "url_chars c = [CHR ''%'', hex_digit (of_char c div 16), hex_digit (of_char c mod 16)]"
    unfolding list.set insert_iff empty_iff
    by (elim disjE) (simp_all add: url_chars_def url_escape_def hex_digit_def)
  then show ?thesis using True by (simp only: if_True)
next
  case False
  then have "url_escape c = None" unfolding list.set insert_iff empty_iff by (simp add: url_escape_def)
  then show ?thesis using False by (simp only: url_chars_def option.case if_False)
qed

lemma url_text_Cons [simp]: "url_text [] = []" "url_text (c # cs) = url_chars c @ url_text cs"
  by (simp_all only: url_text_def url_chars_hex list.map concat.simps)

lemma url_chars_props: "length (url_chars c) \<le> 3" "NUL \<in> set (url_chars c) \<longleftrightarrow> c = NUL"
  using url_escape_length [of c] by (auto simp: url_chars_def url_escape_def split: option.splits)

lemma url_step_text:
  assumes "unat j = length w" and "length w + m \<le> 64"
    and "need = (if url_escape c = None then 1 else 4)"
  shows "url_step c j (w @ replicate m NUL) =
      (if need \<le> m then Some (j + word_of_nat (length (url_chars c)), (w @ url_chars c) @ replicate (m - length (url_chars c)) NUL)
       else None)"
proof (cases "url_escape c")
  case None
  have "store (w @ replicate m NUL) (length w) c = (if 1 \<le> m then Some ((w @ [c]) @ replicate (m - 1) NUL) else None)"
    by (cases m) (simp_all add: store_def list_update_append)
  then show ?thesis using None assms by (simp add: url_step_def url_chars_def)
next
  case (Some e)
  then have t: "url_chars c = e" "length e = 3" using url_escape_length by (simp_all add: url_chars_def)
  have len: "c_strlen (drop (length w) (w @ replicate m NUL)) = (if m = 0 then None else Some 0)"
    by (cases m) (simp_all add: c_strlen_def)
  have "strcat_at (w @ replicate m NUL) (length w) e = (if 4 \<le> m then Some ((w @ e) @ replicate (m - 3) NUL) else None)"
  proof (cases "4 \<le> m")
    case True
    define k where "k = m - 4"
    have k: "m = Suc (Suc (Suc (Suc k)))" using True by (simp add: k_def)
    have "length (e @ [NUL]) = Suc (Suc (Suc (Suc 0)))" using t(2) by simp
    then show ?thesis using True unfolding strcat_at_def len by (simp add: write_bytes_def k)
  next
    case False
    then show ?thesis unfolding strcat_at_def len by (simp add: write_bytes_def t(2))
  qed
  then show ?thesis using Some assms t by (simp add: url_step_def)
qed

lemma url_loop_text:
  assumes "\<forall>k < length cs. load T (i + k) = Some (cs ! k)" and "unat j = length w" and "length w + m \<le> 64"
  shows "do { (j, sign) \<leftarrow> url_loop T i (length cs) j (w @ replicate m NUL); store sign (unat j) NUL }
    = (if length (url_text cs) < m then Some (w @ url_text cs @ replicate (m - length (url_text cs)) NUL) else None)"
  using assms
proof (induction cs arbitrary: i j w m)
  case Nil
  then show ?case by (cases m) (simp_all add: store_def list_update_append)
next
  case (Cons c cs)
  define n t where "n = (if url_escape c = None then 1 else 4 :: nat)" and "t = url_chars c"
  have t: "length t \<le> n" "n \<le> length t + 1" "url_text (c # cs) = t @ url_text cs"
    using url_escape_length [of c] by (auto simp: t_def n_def url_chars_def split: option.splits)
  have ld: "load T i = Some c" and ld': "\<forall>k < length cs. load T (Suc i + k) = Some (cs ! k)"
    using Cons.prems(1) by force+
  note step = url_step_text [OF Cons.prems(2,3) n_def, folded t_def]
  show ?case
  proof (cases "n \<le> m")
    case True
    have "unat (j + word_of_nat (length t)) = length (w @ t)"
      using Cons.prems(2,3) t(1) True by (simp add: unat_word_ariths unat_of_nat)
    then show ?thesis
      using Cons.IH [OF ld', of "j + word_of_nat (length t)" "w @ t" "m - length t"] Cons.prems(3) True t ld step
      by (auto simp: add.commute)
  next
    case False
    then show ?thesis using ld step t by auto
  qed
qed

lemma ota_url_encode_text:
  assumes "NUL \<notin> set s" and "28 \<le> length s" and "length s < 40" and "length s + m \<le> 64" and "0 < m"
  shows "ota_url_encode any (Some (s @ replicate m NUL)) =
    (if length (url_text s) < length s + m
     then Some (0, Some (url_text s @ replicate (length s + m - length (url_text s)) NUL)) else None)"
proof -
  obtain k where m: "m = Suc k" using assms(5) by (cases m) auto
  define T where "T = byte_str (map any [0..<40])"
  have T: "length T = 40" by (simp add: T_def)
  have n: "unat (word_of_nat (length s) :: u8) = length s" using assms(3) by (simp add: unat_of_nat)
  have big: "\<not> (word_of_nat (length s) :: u8) < 28" using assms(2) by (simp add: word_less_nat_alt n)
  have "unload_loop 0 (length s) T (s @ replicate m NUL) = Some (s @ drop (length s) T, replicate (length s + m) NUL)"
    using unload_loop_moves [of s T "[]" 0 "replicate m NUL"] assms(3) T by (simp add: replicate_add)
  moreover have "store (s @ drop (length s) T) (length s) NUL = Some (s @ NUL # drop (Suc (length s)) T)"
    using assms(3) T by (simp add: store_def list_update_append Cons_nth_drop_Suc [symmetric])
  moreover have "do { (j, sign) \<leftarrow> url_loop (s @ NUL # drop (Suc (length s)) T) 0 (length s) 0 (replicate (length s + m) NUL);
        store sign (unat j) NUL }
    = (if length (url_text s) < length s + m
       then Some (url_text s @ replicate (length s + m - length (url_text s)) NUL) else None)"
    using url_loop_text [of s "s @ NUL # drop (Suc (length s)) T" 0 0 "[]" "length s + m"] assms(4)
    by (simp add: load_def nth_append)
  moreover have "c_strlen (s @ replicate m NUL) = Some (length s)" using assms(1) by (simp add: c_strlen_text m)
  ultimately show ?thesis
    by (auto simp: ota_url_encode_def big n T_def [symmetric] case_prod_beta split: if_splits Option.bind_splits)
qed

section \<open>The two formatted texts\<close>

text \<open>What the device part of a token is: none with \<open>flag\<close>.\<close>

definition device_part :: "bool \<Rightarrow> string \<Rightarrow> string option" where
  "device_part flag dev = (if flag then None else Some dev)"

lemma format_text_plain:
  "c \<noteq> CHR ''%'' \<Longrightarrow> format_text (c # cs) args k = do { (w, cnt) \<leftarrow> format_text cs args (k + 1); Some (c # w, cnt) }"
  by simp

lemma method_text: "NUL \<notin> set TOKEN_METHOD" "CHR ''s'' # ''ha1'' @ t = TOKEN_METHOD @ t"
  by (simp_all add: TOKEN_METHOD_def)

lemma signature_text:
  assumes "NUL \<notin> set ver" and "NUL \<notin> set res" and "NUL \<notin> set dev"
  shows "format_text (signature_format flag)
      (if flag then [VA_int et, VA_str (Some (TOKEN_METHOD @ [NUL])), VA_str (Some (res @ NUL # r)), VA_str (Some (ver @ NUL # v))]
       else [VA_int et, VA_str (Some (TOKEN_METHOD @ [NUL])), VA_str (Some (res @ NUL # r)), VA_str (Some (dev @ NUL # d)),
             VA_str (Some (ver @ NUL # v))]) 0
    = Some (signed_text (unsigned_text et) res (device_part flag dev) ver, [])"
  using assms method_text(1)
  by (cases flag) (simp_all add: signature_format_def signed_text_def device_part_def format_text_plain
      method_text(2) [simplified] del: format_text.simps(2))

lemma token_format_text:
  assumes "NUL \<notin> set ver" and "NUL \<notin> set res" and "NUL \<notin> set dev" and "NUL \<notin> set sign"
  shows "format_text (token_format flag)
      (if flag then [VA_str (Some (ver @ NUL # v)), VA_str (Some (res @ NUL # r)), VA_int et,
             VA_str (Some (TOKEN_METHOD @ [NUL])), VA_str (Some (sign @ NUL # s))]
       else [VA_str (Some (ver @ NUL # v)), VA_str (Some (res @ NUL # r)), VA_str (Some (dev @ NUL # d)), VA_int et,
             VA_str (Some (TOKEN_METHOD @ [NUL])), VA_str (Some (sign @ NUL # s))]) 0
    = Some (token_text (unsigned_text et) res (device_part flag dev) ver sign, [])"
  using assms method_text(1)
  by (cases flag) (simp_all add: token_format_def token_text_def device_part_def format_text_plain
      method_text(2) [simplified] del: format_text.simps(2))

section \<open>The composition\<close>

lemma bind_snd: "do { (a, b) \<leftarrow> X; f b } = do { b \<leftarrow> map_option snd X; f b }"
  by (cases X) auto

lemma length_hmac_hash [simp]: "length (hmac_hash key msg) = 20"
  by (simp add: hmac_hash_def Let_def)

lemma b64_text_no_zero: "0 \<notin> set (b64_text bs)"
proof -
  obtain cs p where shape: "b64_text bs = cs @ replicate p 61" "list_all b64_char cs" by (rule b64_text_shape)
  have "\<not> b64_char 0" by (simp add: b64_char_def base64_dec_map_def)
  then have "0 \<notin> set cs" using shape(2) by (auto simp: list_all_iff)
  then show ?thesis by (auto simp: shape(1))
qed

lemma url_text_chars: "NUL \<notin> set s \<Longrightarrow> NUL \<notin> set (url_text s)" "length (url_text s) \<le> 3 * length s"
proof -
  show "length (url_text s) \<le> 3 * length s"
  proof (induction s)
    case (Cons c s)
    then show ?case using url_chars_props(1) [of c] by simp
  qed simp
  show "NUL \<notin> set s \<Longrightarrow> NUL \<notin> set (url_text s)"
    by (induction s) (auto simp: url_chars_props)
qed

definition token_signature :: "u8 list \<Rightarrow> string \<Rightarrow> string" where
  "token_signature key msg = url_text (byte_str (b64_text (hmac_hash key (str_bytes msg))))"

lemma token_signature_props:
  "NUL \<notin> set (token_signature key msg)" "length (token_signature key msg) \<le> 84"
  using url_text_chars [of "byte_str (b64_text (hmac_hash key (str_bytes msg)))"]
  by (simp_all add: token_signature_def b64_text_no_zero length_b64_text)

text \<open>The signature step, from the decoded key and the buffer of the message.\<close>

definition sign_steps :: "nat \<Rightarrow> (nat \<Rightarrow> u8) \<Rightarrow> u8 list \<Rightarrow> string \<Rightarrow> (string option) option" where
  "sign_steps step8_size any key msg = do {
     klen \<leftarrow> c_strlen (byte_str key);
     slen \<leftarrow> c_strlen msg;
     (_, hmac_sha1_buf) \<leftarrow> hmac_sha1_with step8_size any key klen (str_bytes msg) slen (replicate 64 0);
     (_, _, sign) \<leftarrow> BASE64_Encode (Some (replicate 64 0)) 64 hmac_sha1_buf 20;
     (_, sign_buf) \<leftarrow> ota_url_encode any (map_option byte_str sign);
     Some sign_buf }"

lemma sign_steps_signature:
  assumes "length key \<le> 64" and "0 \<in> set key" and "NUL \<notin> set msg" and "length msg < 72"
  defines "s \<equiv> token_signature (takeWhile (\<lambda>b. b \<noteq> 0) key) msg"
  shows "sign_steps step8_size any key (msg @ NUL # rest) =
    (if 128 \<le> step8_size \<and> length s < 64 then Some (Some (s @ replicate (64 - length s) NUL)) else None)"
proof -
  define K h where "K = takeWhile (\<lambda>b. b \<noteq> 0) key" and "h = hmac_hash K (str_bytes msg)"
  have klen: "c_strlen (byte_str key) = Some (length K)"
    using assms(2) by (simp add: c_strlen_def K_def byte_str_def takeWhile_map comp_def)
      (metis NUL_byte_str byte_str_def set_map)
  have K: "length K \<le> 64" "take (length K) key = K" "length K \<le> length key"
    using assms(1) length_takeWhile_le [of "\<lambda>b. b \<noteq> 0" key] by (simp_all add: K_def takeWhile_eq_take [symmetric])
  have hm: "map_option snd (hmac_sha1_with step8_size any key (length K) (str_bytes (msg @ NUL # rest)) (length msg) (replicate 64 0))
      = (if 128 \<le> step8_size then Some (h @ replicate 44 0) else None)"
    using hmac_sha1_hash [of "length K" key "replicate 64 0" "length msg" "str_bytes (msg @ NUL # rest)" step8_size any]
      K assms(4) by (simp add: h_def MAX_MESSAGE_LENGTH_def str_bytes_def)
  have h: "length h = 20" by (simp add: h_def)
  then have b: "length (b64_text h) = 28" by (simp add: length_b64_text)
  have "h \<noteq> []" using h by auto
  then have enc: "BASE64_Encode (Some (replicate 64 0)) 64 (h @ replicate 44 0) 20
      = Some (0, 28, Some (b64_text h @ replicate 36 0))"
    using BASE64_Encode_text [of h "replicate 64 0" 64 "replicate 44 0"] h b
    by (simp add: replicate_Suc [symmetric] del: replicate_Suc)
  have url: "ota_url_encode any (Some (byte_str (b64_text h) @ replicate 36 NUL)) =
      (if length s < 64 then Some (0, Some (s @ replicate (64 - length s) NUL)) else None)"
    using ota_url_encode_text [of "byte_str (b64_text h)" 36 any] b
    by (simp add: b64_text_no_zero s_def token_signature_def h_def K_def)
  show ?thesis
    unfolding sign_steps_def klen bind.bind_lunit c_strlen_text [OF assms(3)] bind_snd [of "hmac_sha1_with _ _ _ _ _ _ _"] hm
    using enc url by auto
qed

lemma authorization_steps:
  assumes "\<not> et < 1582539158" and "\<not> len < 120"
  shows "onenet_authorization_with step8_size any (Some ver) (Some res) et (Some key) dev (Some buf) len flag = do {
        key_len \<leftarrow> c_strlen key;
        (_, _, decoded) \<leftarrow> BASE64_Decode (Some (replicate 64 0)) 64 (str_bytes key) key_len;
        access_key_base64 \<leftarrow> decoded;
        (n, msg, _) \<leftarrow>
          snprintf (replicate 72 NUL) 72 (signature_format flag @ [NUL])
            (if flag then [VA_int et, VA_str (Some (TOKEN_METHOD @ [NUL])), VA_str (Some res), VA_str (Some ver)]
             else [VA_int et, VA_str (Some (TOKEN_METHOD @ [NUL])), VA_str (Some res), VA_str dev, VA_str (Some ver)]);
        sign_buf \<leftarrow> sign_steps step8_size any access_key_base64 msg;
        (n, buf, _) \<leftarrow>
          snprintf buf (ucast len) (token_format flag @ [NUL])
            (if flag then [VA_str (Some ver), VA_str (Some res), VA_int et, VA_str (Some (TOKEN_METHOD @ [NUL])), VA_str sign_buf]
             else [VA_str (Some ver), VA_str (Some res), VA_str dev, VA_int et, VA_str (Some (TOKEN_METHOD @ [NUL])),
                   VA_str sign_buf]);
        Some (0, Some buf) }"
  using assms by (simp add: onenet_authorization_with_def sign_steps_def case_prod_unfold)

text \<open>What a terminated buffer of \<open>n\<close> bytes holds after a text was printed into it.\<close>

definition printed :: "nat \<Rightarrow> string \<Rightarrow> string \<Rightarrow> string" where
  "printed n w buf = (let m = min (length w) (n - 1) in take m w @ NUL # drop (Suc m) buf)"

lemma signed_text_props:
  assumes "NUL \<notin> set ver" and "NUL \<notin> set res" and "NUL \<notin> set dev"
  shows "NUL \<notin> set (signed_text (unsigned_text et) res (device_part flag dev) ver)"
    and "length (signed_text (unsigned_text et) res (device_part flag dev) ver) \<le> length ver + length res + length dev + 50"
  using assms unsigned_text [of et] by (auto simp: signed_text_def device_part_def)

lemma token_text_length:
  "length (token_text (unsigned_text et) res dev ver sign) \<le> length ver + length res + (case dev of None \<Rightarrow> 0 | Some d \<Rightarrow> length d) + length sign + 100"
  using unsigned_text(1) [of et] by (auto simp: token_text_def split: option.splits)

lemma authorization_signs:
  fixes flag :: bool
  assumes "NUL \<notin> set ver" and "NUL \<notin> set res" and "NUL \<notin> set dev" and "NUL \<notin> set key"
    and "length ver + length res + length dev < 2 ^ 30" and "1582539158 \<le> et" and "120 \<le> len" and "unat len \<le> length buf"
    and dec: "BASE64_Decode (Some (replicate 64 0)) 64 (str_bytes (key @ NUL # k)) (length key) = Some (e, n, Some D)"
    and D: "length D \<le> 64" "0 \<in> set D"
  defines "sign \<equiv> token_signature (takeWhile (\<lambda>b. b \<noteq> 0) D)
      (take 71 (signed_text (unsigned_text et) res (device_part flag dev) ver))"
  shows "onenet_authorization_with step8_size any (Some (ver @ NUL # v)) (Some (res @ NUL # r)) et (Some (key @ NUL # k))
      (Some (dev @ NUL # d)) (Some buf) len flag =
    (if 128 \<le> step8_size \<and> length sign < 64
     then Some (0, Some (printed (unat len) (token_text (unsigned_text et) res (device_part flag dev) ver sign) buf))
     else None)"
proof -
  define w tok where "w = signed_text (unsigned_text et) res (device_part flag dev) ver"
    and "tok = token_text (unsigned_text et) res (device_part flag dev) ver sign"
  have w: "NUL \<notin> set w" "length w < 2 ^ 31"
    using signed_text_props [OF assms(1-3), of et flag] assms(5) by (simp_all add: w_def)
  have "NUL \<notin> set (signature_format flag)" "NUL \<notin> set (token_format flag)"
    by (simp_all add: signature_format_def token_format_def)
  note no0 = this
  define A where "A = (if flag then [VA_int et, VA_str (Some (TOKEN_METHOD @ [NUL])), VA_str (Some (res @ NUL # r)), VA_str (Some (ver @ NUL # v))]
       else [VA_int et, VA_str (Some (TOKEN_METHOD @ [NUL])), VA_str (Some (res @ NUL # r)), VA_str (Some (dev @ NUL # d)),
             VA_str (Some (ver @ NUL # v))])"
  define B where "B s = (if flag then [VA_str (Some (ver @ NUL # v)), VA_str (Some (res @ NUL # r)), VA_int et,
             VA_str (Some (TOKEN_METHOD @ [NUL])), VA_str (Some (sign @ NUL # s))]
       else [VA_str (Some (ver @ NUL # v)), VA_str (Some (res @ NUL # r)), VA_str (Some (dev @ NUL # d)), VA_int et,
             VA_str (Some (TOKEN_METHOD @ [NUL])), VA_str (Some (sign @ NUL # s))])" for s
  have "snprintf (replicate 72 NUL) 72 (signature_format flag @ [NUL]) A
      = Some (word_of_nat (length w), let m = min (length w) 71 in take m w @ NUL # replicate (71 - m) NUL, [])"
    using snprintf_format [OF signature_text [OF assms(1-3), where flag = flag and et = et and r = r and v = v and d = d,
        folded w_def A_def] no0(1), of 72 "replicate 72 NUL" "[]"] w(2) by (simp add: Let_def)
  moreover have "(let m = min (length w) 71 in take m w @ NUL # replicate (71 - m) NUL)
      = take 71 w @ NUL # replicate (71 - length (take 71 w)) NUL" by (simp add: min_def)
  ultimately have msg: "snprintf (replicate 72 NUL) 72 (signature_format flag @ [NUL]) A
      = Some (word_of_nat (length w), take 71 w @ NUL # replicate (71 - length (take 71 w)) NUL, [])" by simp
  have tk: "snprintf buf (ucast len) (token_format flag @ [NUL]) (B s)
      = Some (word_of_nat (length tok), printed (unat len) tok buf, [])" for s
  proof -
    have sg: "NUL \<notin> set sign" "length sign \<le> 84" unfolding sign_def by (rule token_signature_props)+
    have n: "unat (ucast len :: u32) = unat len" by (rule unat_ucast_wide) simp
    have "120 \<le> unat len" using assms(7) by (simp add: word_le_nat_alt)
    then have n0: "(ucast len :: u32) \<noteq> 0" using n by (metis not_numeral_le_zero unat_0)
    have "length tok < 2 ^ 31"
      using token_text_length [of et res "device_part flag dev" ver sign] assms(5) sg(2)
      by (auto simp: tok_def device_part_def split: if_splits)
    then show ?thesis
      using snprintf_format [OF token_format_text [OF assms(1-3) sg(1), where flag = flag and et = et and r = r and v = v and d = d and s = s,
        folded tok_def B_def] no0(2), of "ucast len" buf "[]"] n n0 assms(8)
      by (simp add: printed_def)
  qed
  have sg: "sign_steps step8_size any D (take 71 w @ NUL # rest) =
      (if 128 \<le> step8_size \<and> length sign < 64 then Some (Some (sign @ replicate (64 - length sign) NUL)) else None)" for rest
    unfolding sign_def w_def [symmetric]
  proof (rule sign_steps_signature [OF D])
    show "NUL \<notin> set (take 71 w)" using w(1) in_set_takeD [of NUL 71 w] by auto
  qed simp
  have key: "c_strlen (key @ NUL # k) = Some (length key)" using assms(4) by (rule c_strlen_text)
  have ok: "\<not> et < 1582539158" "\<not> len < 120" using assms(6,7) by simp_all
  have pad: "replicate (64 - length sign) NUL = NUL # replicate (63 - length sign) NUL" if "length sign < 64"
    using that by (simp add: Suc_diff_le [symmetric] replicate_Suc [symmetric] del: replicate_Suc)
  show ?thesis
  proof (cases "128 \<le> step8_size \<and> length sign < 64")
    case True
    then have sg1: "sign_steps step8_size any D (take 71 w @ NUL # rest) = Some (Some (sign @ NUL # replicate (63 - length sign) NUL))" for rest
      using sg pad by simp
    show ?thesis
      unfolding authorization_steps [OF ok] key bind.bind_lunit dec prod.case A_def [symmetric] msg sg1 B_def [symmetric] tk
      using True by (simp only: tok_def simp_thms if_True)
  next
    case False
    then have sg0: "sign_steps step8_size any D (take 71 w @ NUL # rest) = None" for rest using sg by auto
    show ?thesis
      unfolding authorization_steps [OF ok] key bind.bind_lunit dec prod.case A_def [symmetric] msg sg0
      using False by simp
  qed
qed

lemma decode_error_keeps:
  "BASE64_Decode dst dlen src slen = Some (e, n, d) \<Longrightarrow> e \<noteq> 0 \<Longrightarrow> d = dst"
  by (auto simp: BASE64_Decode_def Let_def split: if_splits Option.bind_splits sum.splits prod.splits option.splits)

section \<open>Properties\<close>





end
