(* ===== verification/Sdk_Log.thy ===== *)
theory Sdk_Log
  imports Vsnprintf
begin

text \<open>
  The log output of the SDK: src/src/sdk_log.c and the macros of src/src/sdk_log.h, on top of
  the formatted output of \<open>Vsnprintf\<close>.

  The state is the static line number \<open>id\<close> and the list of the strings handed to
  \<open>sdk_hw_console_output\<close>, the latest last. The endless loop after an overflow is the
  end \<open>Log_Halts\<close>. The tick count and what the uninitialised local arrays contain are
  arguments. The branch \<open>SDK_LOG_USING_TIME\<close>, which does not compile, is left out.

  \<^item> \<open>sdklog_line\<close>: a log call prints exactly one terminated line of at most 255 characters,
    or halts exactly when the head of the line does not fit.
  \<^item> \<open>sdklog_hexdump_bytes\<close>: a dump prints every byte once, in order, with a line break before
    each row.
\<close>

unbundle bit_operations_syntax

section \<open>Definitions\<close>

definition SDK_LOG_BUF_LEN :: nat where
  "SDK_LOG_BUF_LEN = 256"

record log_state =
  lg_id :: u32
  lg_out :: "string list"

datatype log_end = Log_Returns log_state | Log_Halts log_state

definition sdk_hw_console_output :: "string \<Rightarrow> log_state \<Rightarrow> log_state" where
  "sdk_hw_console_output str s = s\<lparr>lg_out := lg_out s @ [str]\<rparr>"

definition LOG_HEAD_FORMAT :: string where
  "LOG_HEAD_FORMAT = ''%04d %02d:%02d:%02d.%03d <%d> %s %s ''"

definition LOG_OVERFLOW_TEXT :: string where
  "LOG_OVERFLOW_TEXT = ''log buf overflow, please check SDK_LOG_BUF_LEN, system halt'' @ [CHR 0x0D, CHR 0x0A]"

text \<open>The five numbers of the time stamp.\<close>

definition uptime_fields :: "u32 \<Rightarrow> u32 \<times> u32 \<times> u32 \<times> u32 \<times> u32" where
  "uptime_fields uptime_ms =
     (uptime_ms div (1000 * 60 * 60 * 24),
      uptime_ms div (1000 * 60 * 60) mod 24,
      uptime_ms div (1000 * 60) mod 60,
      uptime_ms div 1000 mod 60,
      uptime_ms mod 1000)"

text \<open>The strings \<open>level\<close> and \<open>module\<close> are the arrays they point to, the null pointer is \<open>None\<close>.\<close>

definition vsdklog ::
  "(nat \<Rightarrow> char) \<Rightarrow> u32 \<Rightarrow> string option \<Rightarrow> string option \<Rightarrow> string \<Rightarrow> va_arg list \<Rightarrow> log_state
     \<Rightarrow> log_end option" where
  "vsdklog any uptime_ms level module format ap s = do {
     let buf = map any [0..<SDK_LOG_BUF_LEN];
     let (days, hours, minutes, seconds, milliseconds) = uptime_fields uptime_ms;
     (len, buf, _) \<leftarrow>
       snprintf buf (word_of_nat SDK_LOG_BUF_LEN) (LOG_HEAD_FORMAT @ [NUL])
         [VA_int days, VA_int hours, VA_int minutes, VA_int seconds, VA_int milliseconds,
          VA_int (lg_id s), VA_str level, VA_str module];
     let len = sint len;
     if len \<ge> int SDK_LOG_BUF_LEN
     then Some (Log_Halts (sdk_hw_console_output (LOG_OVERFLOW_TEXT @ [NUL]) s))
     else if len < 0 then None
     else do {
       let s = s\<lparr>lg_id := lg_id s + 1\<rparr>;
       (more, rest, _) \<leftarrow>
         vsnprintf (drop (nat len) buf) (word_of_nat (SDK_LOG_BUF_LEN - nat len)) format ap;
       let buf = take (nat len) buf @ rest;
       len \<leftarrow> int_ok (len + sint more);
       let len = (if len > int SDK_LOG_BUF_LEN - 2 then int SDK_LOG_BUF_LEN - 2 else len);
       if len < 0 then None
       else do {
         buf \<leftarrow> store buf (nat len) CHR 0x0A;
         buf \<leftarrow> store buf (nat len + 1) NUL;
         Some (Log_Returns (sdk_hw_console_output buf s))
       }
     }
   }"

text \<open>\<open>sdklog\<close> only collects its variable arguments.\<close>

definition sdklog ::
  "(nat \<Rightarrow> char) \<Rightarrow> u32 \<Rightarrow> string option \<Rightarrow> string option \<Rightarrow> string \<Rightarrow> va_arg list \<Rightarrow> log_state
     \<Rightarrow> log_end option" where
  "sdklog any uptime_ms level module format args s = vsdklog any uptime_ms level module format args s"

definition sdk_printf ::
  "(nat \<Rightarrow> char) \<Rightarrow> string \<Rightarrow> va_arg list \<Rightarrow> log_state \<Rightarrow> (s32 \<times> log_state) option" where
  "sdk_printf any format args s = do {
     (len, buf, _) \<leftarrow>
       vsnprintf (map any [0..<SDK_LOG_BUF_LEN]) (word_of_nat SDK_LOG_BUF_LEN) format args;
     Some (len, sdk_hw_console_output buf s)
   }"

text \<open>One turn of the loop of the dump: \<open>i % width\<close> is an unsigned division, undefined for \<open>width = 0\<close>.\<close>

definition hexdump_step ::
  "u32 \<Rightarrow> 8 word list \<Rightarrow> nat \<Rightarrow> string \<times> log_state \<Rightarrow> (string \<times> log_state) option" where
  "hexdump_step width buf i = (\<lambda>(temp, s).
     if width = 0 then None
     else do {
       (temp, s) \<leftarrow>
         (if i mod unat width = 0
          then do {
            (_, temp, _) \<leftarrow>
              snprintf temp 4 (''%s'' @ [NUL]) [VA_str (Some ([CHR 0x0D, CHR 0x0A] @ [NUL]))];
            Some (temp, sdk_hw_console_output temp s)
          }
          else Some (temp, s));
       b \<leftarrow> load buf i;
       (_, temp, _) \<leftarrow> snprintf temp 4 (''%02X '' @ [NUL]) [VA_int (ucast b)];
       Some (temp, sdk_hw_console_output temp s)
     })"

text \<open>\<open>for(int i = 0; i < len; i++)\<close>: \<open>n\<close> turns are left.\<close>

fun hexdump_loop ::
  "u32 \<Rightarrow> 8 word list \<Rightarrow> nat \<Rightarrow> nat \<Rightarrow> string \<times> log_state \<Rightarrow> (string \<times> log_state) option" where
  "hexdump_loop width buf i 0 st = Some st"
| "hexdump_loop width buf i (Suc n) st = do {
     st \<leftarrow> hexdump_step width buf i st;
     _ \<leftarrow> int_ok (int i + 1);
     hexdump_loop width buf (Suc i) n st
   }"

definition sdklog_hexdump ::
  "(nat \<Rightarrow> char) \<Rightarrow> u32 \<Rightarrow> 8 word list \<Rightarrow> u32 \<Rightarrow> log_state \<Rightarrow> log_state option" where
  "sdklog_hexdump any width buf len s = do {
     (_, s) \<leftarrow> hexdump_loop width buf 0 (unat len) (map any [0..<4], s);
     (_, s) \<leftarrow> sdk_printf any ([CHR 0x0D, CHR 0x0A] @ ''[%d Bytes]'' @ [CHR 0x0D, CHR 0x0A, NUL]) [VA_int len] s;
     Some s
   }"

subsection \<open>Levels\<close>

definition DBG_NONE :: nat where "DBG_NONE = 0"
definition DBG_ERROR :: nat where "DBG_ERROR = 1"
definition DBG_WARNING :: nat where "DBG_WARNING = 2"
definition DBG_INFO :: nat where "DBG_INFO = 3"
definition DBG_LOG :: nat where "DBG_LOG = 4"

lemmas dbg_levels = DBG_NONE_def DBG_ERROR_def DBG_WARNING_def DBG_INFO_def DBG_LOG_def

text \<open>
  The macros of a source file with level \<open>lvl\<close> and section name \<open>sec\<close>; \<open>here\<close> is the name of the
  function and the line, which \<open>LOG_D\<close> and \<open>LOG_E\<close> put in front.
\<close>

definition LOG_D ::
  "nat \<Rightarrow> string \<Rightarrow> string \<times> u32 \<Rightarrow> (nat \<Rightarrow> char) \<Rightarrow> u32 \<Rightarrow> string \<Rightarrow> va_arg list \<Rightarrow> log_state \<Rightarrow> log_end option" where
  "LOG_D lvl sec here any ms fmt args s =
     (if lvl \<ge> DBG_LOG
      then sdklog any ms (Some (''DEBUG'' @ [NUL])) (Some (sec @ [NUL])) (''%s():%d, '' @ fmt)
             (VA_str (Some (fst here @ [NUL])) # VA_int (snd here) # args) s
      else Some (Log_Returns s))"

definition LOG_I ::
  "nat \<Rightarrow> string \<Rightarrow> (nat \<Rightarrow> char) \<Rightarrow> u32 \<Rightarrow> string \<Rightarrow> va_arg list \<Rightarrow> log_state \<Rightarrow> log_end option" where
  "LOG_I lvl sec any ms fmt args s =
     (if lvl \<ge> DBG_INFO
      then sdklog any ms (Some (''INFO'' @ [NUL])) (Some (sec @ [NUL])) fmt args s
      else Some (Log_Returns s))"

definition LOG_W ::
  "nat \<Rightarrow> string \<Rightarrow> (nat \<Rightarrow> char) \<Rightarrow> u32 \<Rightarrow> string \<Rightarrow> va_arg list \<Rightarrow> log_state \<Rightarrow> log_end option" where
  "LOG_W lvl sec any ms fmt args s =
     (if lvl \<ge> DBG_WARNING
      then sdklog any ms (Some (''WARN'' @ [NUL])) (Some (sec @ [NUL])) fmt args s
      else Some (Log_Returns s))"

definition LOG_E ::
  "nat \<Rightarrow> string \<Rightarrow> string \<times> u32 \<Rightarrow> (nat \<Rightarrow> char) \<Rightarrow> u32 \<Rightarrow> string \<Rightarrow> va_arg list \<Rightarrow> log_state \<Rightarrow> log_end option" where
  "LOG_E lvl sec here any ms fmt args s =
     (if lvl \<ge> DBG_ERROR
      then sdklog any ms (Some (''ERROR'' @ [NUL])) (Some (sec @ [NUL])) (''%s():%d, '' @ fmt)
             (VA_str (Some (fst here @ [NUL])) # VA_int (snd here) # args) s
      else Some (Log_Returns s))"

definition LOG_HEX ::
  "nat \<Rightarrow> (nat \<Rightarrow> char) \<Rightarrow> u32 \<Rightarrow> 8 word list \<Rightarrow> u32 \<Rightarrow> log_state \<Rightarrow> log_state option" where
  "LOG_HEX lvl any width buf sz s = (if lvl > DBG_NONE then sdklog_hexdump any width buf sz s else Some s)"

definition LOG_RAW ::
  "nat \<Rightarrow> (nat \<Rightarrow> char) \<Rightarrow> string \<Rightarrow> va_arg list \<Rightarrow> log_state \<Rightarrow> log_state option" where
  "LOG_RAW lvl any fmt args s =
     (if lvl > DBG_NONE then map_option snd (sdk_printf any fmt args s) else Some s)"

section \<open>The conversions of the log\<close>

lemma format_text_char [simp]:
  "c \<noteq> CHR ''%'' \<Longrightarrow> format_text (c # cs) args k = do { (w, cnt) \<leftarrow> format_text cs args (k + 1); Some (c # w, cnt) }"
  by simp

lemmas format_text_directive = format_text.simps(2) [of "CHR ''%''"]

declare format_text.simps(2) [simp del]

definition decimal_text :: "nat \<Rightarrow> string" where
  "decimal_text v = body_text 0 10 (- 1) v"

definition zero_padded :: "nat \<Rightarrow> string \<Rightarrow> string" where
  "zero_padded w s = replicate (w - length s) CHR ''0'' @ s"

definition int_text :: "u32 \<Rightarrow> string" where
  "int_text x = (if sint x < 0 then CHR ''-'' # decimal_text (nat \<bar>sint x\<bar>) else decimal_text (nat \<bar>sint x\<bar>))"

lemma flags_zero: "has (FL_ZERO OR FL_SIGNED) FL_SIGNED" "has (FL_ZERO OR FL_SIGNED) FL_ZERO"
  "\<not> has (FL_ZERO OR FL_SIGNED) FL_UPPER" "\<not> has (FL_ZERO OR FL_SIGNED) FL_TICK"
  "\<not> has (FL_ZERO OR FL_SIGNED) FL_PLUS" "\<not> has (FL_ZERO OR FL_SIGNED) FL_SPACE"
  "\<not> has (FL_ZERO OR FL_SIGNED) FL_HASH" "\<not> has (FL_ZERO OR FL_SIGNED) FL_MINUS"
  "has (FL_ZERO OR FL_UPPER) FL_ZERO" "\<not> has (FL_ZERO OR FL_UPPER) FL_SIGNED" "has (FL_ZERO OR FL_UPPER) FL_UPPER"
  "\<not> has (FL_ZERO OR FL_UPPER) FL_TICK" "\<not> has (FL_ZERO OR FL_UPPER) FL_PLUS" "\<not> has (FL_ZERO OR FL_UPPER) FL_SPACE"
  "\<not> has (FL_ZERO OR FL_UPPER) FL_HASH" "\<not> has (FL_ZERO OR FL_UPPER) FL_MINUS"
  "\<not> has FL_SIGNED FL_UPPER" "\<not> has FL_SIGNED FL_TICK" "\<not> has FL_SIGNED FL_HASH"
  "\<not> has 0 FL_UPPER" "\<not> has 0 FL_TICK" "\<not> has 0 FL_HASH"
  by (simp_all add: has_def flag_values)

lemma decimal_text_flags:
  "body_text FL_SIGNED 10 (- 1) v = decimal_text v" "body_text (FL_ZERO OR FL_SIGNED) 10 (- 1) v = decimal_text v"
  by (simp_all add: decimal_text_def body_text_def flags_zero)

lemma decimal_text_props:
  shows "dec_value (decimal_text v) = v" and "set (decimal_text v) \<subseteq> set ''0123456789''"
    and "v < 2 ^ 32 \<Longrightarrow> length (decimal_text v) \<le> 10"
proof -
  note b = body_text_decimal [OF flags_zero(20,21), of v, folded decimal_text_def]
  show "dec_value (decimal_text v) = v" "set (decimal_text v) \<subseteq> set ''0123456789''" using b by simp_all
  assume "v < 2 ^ 32"
  then have "v < 10 ^ 10" by simp
  then have "count_digits 10 v \<le> 10" by (rule count_digits_bound)
  then show "length (decimal_text v) \<le> 10" by (simp add: b(2))
qed

lemma sint_small:
  assumes "unat (x :: u32) < 2 ^ 31"
  shows "sint x = int (unat x)"
proof -
  have "signed_take_bit 31 (int n) = int n" if "n < 2 ^ 31" for n
    by (rule signed_take_bit_int_eq_self) (use that in simp_all)
  then have "signed_take_bit 31 (int (unat x)) = int (unat x)" using assms by blast
  then show ?thesis by (simp add: sint_uint)
qed

lemma number_text_padded:
  fixes x :: u32
  assumes "unat x < 2 ^ 31"
  shows "number_text (FL_ZERO OR FL_SIGNED) 10 w (- 1) (scast x) = Some (zero_padded (nat w) (decimal_text (unat x)))"
proof -
  have s: "sint (scast x :: u64) = int (unat x)" using sint_scast_64 [of x] sint_small [OF assms] by simp
  then have pos: "\<not> (scast x :: u64) <s 0" by (simp add: word_sless_alt)
  have "(word_of_int (sint (scast x :: u64)) :: u64) = scast x" by simp
  then have "scast x = (word_of_int (int (unat x)) :: u64)" unfolding s by simp
  then have u: "unat (scast x :: u64) = unat x" using assms by (simp add: unat_ucast_wide)
  have "length (decimal_text (unat x)) \<le> 10" by (rule decimal_text_props) (use assms in simp)
  then show ?thesis
    by (simp add: number_text_def pos u flags_zero decimal_text_flags sign_text_def prefix_text_def
        zero_padded_def Let_def)
qed

lemma format_text_d [simp]:
  "format_text (CHR ''%'' # CHR ''d'' # cs) (VA_int x # args) k =
    do { (w, cnt) \<leftarrow> format_text cs args (k + length (int_text x)); Some (int_text x @ w, cnt) }"
proof -
  have "number_text FL_SIGNED 10 0 (- 1) (scast x) = Some (int_text x)"
    using number_text_signed(1) [of x] by (simp add: int_text_def decimal_text_flags)
  then have "conversion_text CHR ''d'' 0 0 (- 1) 0 (VA_int x # args) k = Some (int_text x, args, [])"
    by (simp add: conversion_text_def signed_arg_def rank_values)
  moreover have "split_directive (CHR ''d'' # cs) = ([], [], None, [], CHR ''d'' # cs)"
    by (simp add: split_directive_def flag_char_def num_char_def digit_char_def mod_char_def)
  ultimately show ?thesis by (simp add: format_text_directive canonical_rank_def rank_values)
qed

lemma format_text_0d [simp]:
  assumes "unat x < 2 ^ 31"
  shows "format_text (CHR ''%'' # CHR ''0'' # CHR ''2'' # CHR ''d'' # cs) (VA_int x # args) k =
      do { (w, cnt) \<leftarrow> format_text cs args (k + length (zero_padded 2 (decimal_text (unat x))));
           Some (zero_padded 2 (decimal_text (unat x)) @ w, cnt) }"
    and "format_text (CHR ''%'' # CHR ''0'' # CHR ''3'' # CHR ''d'' # cs) (VA_int x # args) k =
      do { (w, cnt) \<leftarrow> format_text cs args (k + length (zero_padded 3 (decimal_text (unat x))));
           Some (zero_padded 3 (decimal_text (unat x)) @ w, cnt) }"
    and "format_text (CHR ''%'' # CHR ''0'' # CHR ''4'' # CHR ''d'' # cs) (VA_int x # args) k =
      do { (w, cnt) \<leftarrow> format_text cs args (k + length (zero_padded 4 (decimal_text (unat x))));
           Some (zero_padded 4 (decimal_text (unat x)) @ w, cnt) }"
proof -
  have conv: "conversion_text CHR ''d'' FL_ZERO w (- 1) 0 (VA_int x # args) k
      = Some (zero_padded (nat w) (decimal_text (unat x)), args, [])" for w
    using number_text_padded [OF assms] by (simp add: conversion_text_def signed_arg_def rank_values)
  have split: "split_directive (CHR ''0'' # CHR ''2'' # CHR ''d'' # cs) = (''0'', ''2'', None, [], CHR ''d'' # cs)"
    "split_directive (CHR ''0'' # CHR ''3'' # CHR ''d'' # cs) = (''0'', ''3'', None, [], CHR ''d'' # cs)"
    "split_directive (CHR ''0'' # CHR ''4'' # CHR ''d'' # cs) = (''0'', ''4'', None, [], CHR ''d'' # cs)"
    by (simp_all add: split_directive_def flag_char_def num_char_def digit_char_def mod_char_def)
  show "format_text (CHR ''%'' # CHR ''0'' # CHR ''2'' # CHR ''d'' # cs) (VA_int x # args) k =
      do { (w, cnt) \<leftarrow> format_text cs args (k + length (zero_padded 2 (decimal_text (unat x))));
           Some (zero_padded 2 (decimal_text (unat x)) @ w, cnt) }"
    "format_text (CHR ''%'' # CHR ''0'' # CHR ''3'' # CHR ''d'' # cs) (VA_int x # args) k =
      do { (w, cnt) \<leftarrow> format_text cs args (k + length (zero_padded 3 (decimal_text (unat x))));
           Some (zero_padded 3 (decimal_text (unat x)) @ w, cnt) }"
    "format_text (CHR ''%'' # CHR ''0'' # CHR ''4'' # CHR ''d'' # cs) (VA_int x # args) k =
      do { (w, cnt) \<leftarrow> format_text cs args (k + length (zero_padded 4 (decimal_text (unat x))));
           Some (zero_padded 4 (decimal_text (unat x)) @ w, cnt) }"
    using conv by (simp_all add: format_text_directive split flag_of_def int_ok_def digit_val_def canonical_rank_def rank_values)
qed

text \<open>\<open>%02X\<close> of a byte.\<close>

lemma body_text_byte:
  assumes "v < 256"
  shows "zero_padded 2 (body_text (FL_ZERO OR FL_UPPER) 16 (- 1) v) = [ucdigits ! (v div 16), ucdigits ! (v mod 16)]"
proof -
  have c: "count_digits 16 v = (if v = 0 then 0 else if v < 16 then 1 else 2)"
    using assms by (subst count_digits.simps, subst count_digits.simps, subst count_digits.simps)
      (auto simp: div_eq_0_iff div_mult2_eq [symmetric])
  show ?thesis
    using assms by (auto simp: body_text_low Let_def digits_needed_def c flags_zero tick_none zero_padded_def
        numeral_2_eq_2 ucdigits_def)
qed

lemma format_text_02X [simp]:
  "format_text (CHR ''%'' # CHR ''0'' # CHR ''2'' # CHR ''X'' # cs) (VA_int (ucast (b :: 8 word)) # args) k =
    do { (w, cnt) \<leftarrow> format_text cs args (k + 2);
         Some ([ucdigits ! (unat b div 16), ucdigits ! (unat b mod 16)] @ w, cnt) }"
proof -
  have b: "unat b < 256" by (rule unat_u8_less)
  have "unat (ucast (ucast b :: u32) :: u64) = unat b" by (simp add: unat_ucast_wide)
  moreover have "length (body_text (FL_ZERO OR FL_UPPER) 16 (- 1) (unat b)) \<le> 2"
    using arg_cong [OF body_text_byte [OF b], of length] by (simp add: zero_padded_def)
  ultimately have "number_text (FL_ZERO OR FL_UPPER) 16 2 (- 1) (ucast (ucast b :: u32))
      = Some [ucdigits ! (unat b div 16), ucdigits ! (unat b mod 16)]"
    using body_text_byte [OF b] by (simp add: number_text_def flags_zero sign_text_def prefix_text_def zero_padded_def)
  then have "conversion_text CHR ''X'' FL_ZERO 2 (- 1) 0 (VA_int (ucast b) # args) k
      = Some ([ucdigits ! (unat b div 16), ucdigits ! (unat b mod 16)], args, [])"
    by (simp add: conversion_text_def unsigned_arg_def rank_values)
  moreover have "split_directive (CHR ''0'' # CHR ''2'' # CHR ''X'' # cs) = (''0'', ''2'', None, [], CHR ''X'' # cs)"
    by (simp add: split_directive_def flag_char_def num_char_def digit_char_def mod_char_def)
  ultimately show ?thesis by (simp add: format_text_directive flag_of_def int_ok_def digit_val_def canonical_rank_def rank_values)
qed

section \<open>The text of a line\<close>

definition log_head :: "nat \<Rightarrow> u32 \<Rightarrow> string \<Rightarrow> string \<Rightarrow> string" where
  "log_head ms no level module =
     zero_padded 4 (decimal_text (ms div 86400000)) @ '' '' @ zero_padded 2 (decimal_text (ms div 3600000 mod 24)) @ '':''
     @ zero_padded 2 (decimal_text (ms div 60000 mod 60)) @ '':'' @ zero_padded 2 (decimal_text (ms div 1000 mod 60)) @ ''.''
     @ zero_padded 3 (decimal_text (ms mod 1000)) @ '' <'' @ int_text no @ ''> '' @ level @ '' '' @ module @ '' ''"

lemma uptime_fields_values:
  "uptime_fields ms = (d, h, m, s, z) \<Longrightarrow> unat d = unat ms div 86400000 \<and> unat h = unat ms div 3600000 mod 24
     \<and> unat m = unat ms div 60000 mod 60 \<and> unat s = unat ms div 1000 mod 60 \<and> unat z = unat ms mod 1000"
  by (auto simp: uptime_fields_def unat_div unat_mod)

lemma uptime_small: "unat (ms :: u32) div 86400000 < 2 ^ 31" "n mod 24 < 2 ^ 31" "n mod 60 < 2 ^ 31" "n mod 1000 < (2 ^ 31 :: nat)"
proof -
  have "k div 86400000 < 2147483648" if "k < 4294967296" for k :: nat
    using that by (simp add: less_mult_imp_div_less)
  moreover have "unat ms < 4294967296" by (rule order.strict_trans2 [OF unsigned_less]) simp
  ultimately show "unat ms div 86400000 < 2 ^ 31" by simp
  show "n mod 24 < 2 ^ 31" "n mod 60 < 2 ^ 31" "n mod 1000 < (2 ^ 31 :: nat)"
    by (rule order.strict_trans2 [OF mod_less_divisor], simp, simp)+
qed

lemma head_format:
  assumes "uptime_fields ms = (d, h, m, s, z)" and "NUL \<notin> set level" and "NUL \<notin> set module"
  shows "format_text LOG_HEAD_FORMAT
      [VA_int d, VA_int h, VA_int m, VA_int s, VA_int z, VA_int no, VA_str (Some (level @ NUL # l)), VA_str (Some (module @ NUL # r))] 0
    = Some (log_head (unat ms) no level module, [])"
proof -
  have v: "unat d = unat ms div 86400000" "unat h = unat ms div 3600000 mod 24" "unat m = unat ms div 60000 mod 60"
    "unat s = unat ms div 1000 mod 60" "unat z = unat ms mod 1000"
    using uptime_fields_values [OF assms(1)] by simp_all
  have small: "unat d < 2 ^ 31" "unat h < 2 ^ 31" "unat m < 2 ^ 31" "unat s < 2 ^ 31" "unat z < 2 ^ 31"
    unfolding v by (rule uptime_small)+
  show ?thesis
    unfolding LOG_HEAD_FORMAT_def log_head_def v [symmetric]
    using small assms(2,3) by simp
qed

lemma int_text_length: "length (int_text no) \<le> 11"
proof -
  define t where "t = decimal_text (nat \<bar>sint no\<bar>)"
  have "nat \<bar>sint no\<bar> < 2 ^ 32" using s32_range [of no] by simp
  then have "length t \<le> 10" unfolding t_def by (rule decimal_text_props(3))
  then show ?thesis unfolding int_text_def t_def [symmetric] by simp
qed

lemma zero_padded_length: "v < 2 ^ 31 \<Longrightarrow> k \<le> 10 \<Longrightarrow> length (zero_padded k (decimal_text v)) \<le> 10"
  using decimal_text_props(3) [of v] by (simp add: zero_padded_def)

lemma head_length:
  assumes "length a \<le> 10" and "length b \<le> 10" and "length c \<le> 10" and "length d \<le> 10" and "length e \<le> 10" and "length f \<le> 11"
  shows "length (a @ '' '' @ b @ '':'' @ c @ '':'' @ d @ ''.'' @ e @ '' <'' @ f @ ''> '' @ level @ '' '' @ module @ '' '')
    \<le> 80 + length level + length module"
  using assms by simp

lemma log_head_length: "length (log_head (unat (ms :: u32)) no level module) \<le> 80 + length level + length module"
  unfolding log_head_def
  by (rule head_length)
    (rule uptime_small [THEN zero_padded_length] int_text_length | simp)+

lemma two_stores:
  assumes "Suc p < length b"
  shows "do { b \<leftarrow> store b p x; store b (p + 1) y } = Some (take p b @ x # y # drop (p + 2) b)"
proof -
  obtain u v w where b: "b = take p b @ u # v # w" "w = drop (p + 2) b"
    using assms by (metis Cons_nth_drop_Suc Suc_lessD add_2_eq_Suc' append_take_drop_id)
  then have "length (take p b) = p" using assms by simp
  then show ?thesis
    by (subst b(1), subst (2) b(1)) (simp add: store_def list_update_append b(2) [symmetric])
qed

section \<open>Properties\<close>

lemma vsnprintf_format:
  assumes "format_text fmt args 0 = Some (w, cnt)" and "NUL \<notin> set fmt" and "length w < 2 ^ 31"
    and "0 < n" and "n \<le> length buf" and "n < 2 ^ 32"
  shows "vsnprintf buf (word_of_nat n) (fmt @ NUL # rest) args =
    Some (word_of_nat (length w), take (n - 1) w @ NUL # drop (Suc (min (length w) (n - 1))) buf, cnt)"
proof -
  have u: "unat (word_of_nat n :: u32) = n" using assms(6) by (simp add: unat_of_nat)
  then have "(word_of_nat n :: u32) \<noteq> 0" using assms(4) by (metis less_numeral_extra(3) unat_0)
  moreover have "take (min (length w) (n - 1)) w = take (n - 1) w" by (simp add: min_def)
  ultimately show ?thesis
    using snprintf_format [OF assms(1,2) _ assms(3), of "word_of_nat n" buf rest] assms(5) u
    by (simp add: snprintf_def)
qed

text \<open>
  C33. A log call prints one line: the head with the time stamp, the number of the line, the level
  and the section, then the formatted message, all cut to 254 characters and ended by a line feed
  and the terminator, and the line number grows by one. It halts exactly when the head alone
  has 256 characters or more.
\<close>

theorem sdklog_line:
  fixes s :: log_state and ms :: u32
  assumes "NUL \<notin> set level" and "NUL \<notin> set module" and "NUL \<notin> set fmt"
    and "format_text fmt args 0 = Some (w, cnt)" and "length w < 2 ^ 30" and "length level + length module < 2 ^ 30"
  defines "h \<equiv> log_head (unat ms) (lg_id s) level module"
  shows "\<exists>rest. sdklog any ms (Some (level @ NUL # l)) (Some (module @ NUL # m)) (fmt @ NUL # f) args s =
    (if length h < 256
     then Some (Log_Returns (s\<lparr>lg_id := lg_id s + 1,
            lg_out := lg_out s @ [take 254 (h @ w) @ CHR 0x0A # NUL # rest]\<rparr>))
     else Some (Log_Halts (s\<lparr>lg_out := lg_out s @ [LOG_OVERFLOW_TEXT @ [NUL]]\<rparr>)))"
proof -
  define B where "B = map any [0..<256]"
  have B: "length B = 256" by (simp add: B_def)
  obtain d hh mi se z where u: "uptime_fields ms = (d, hh, mi, se, z)" by (cases "uptime_fields ms")
  have h31: "length h < 2 ^ 31" using log_head_length [of ms "lg_id s" level module] assms(6) by (simp add: h_def)
  have "NUL \<notin> set LOG_HEAD_FORMAT" by (simp add: LOG_HEAD_FORMAT_def)
  note head = vsnprintf_format [OF head_format [OF u assms(1,2), of "lg_id s" l m, folded h_def] this h31, of 256 B "[]"]
  have sint: "sint (word_of_nat k :: u32) = int k" if "k < 2 ^ 31" for k
    using sint_small [of "word_of_nat k"] that by (simp add: unat_of_nat)
  show ?thesis
  proof (cases "length h < 256")
    case False
    then show ?thesis
      using head B sint [OF h31]
      by (simp add: sdklog_def vsdklog_def u B_def [symmetric] snprintf_def SDK_LOG_BUF_LEN_def sdk_hw_console_output_def Let_def)
  next
    case True
    define b where "b = take 255 h @ NUL # drop (Suc (min (length h) 255)) B"
    have b: "take (length h) b = h" "length (drop (length h) b) = 256 - length h"
      using True B by (simp_all add: b_def)
    define c where "c = h @ take (255 - length h) w @ NUL # drop (Suc (min (length w) (255 - length h))) (drop (length h) b)"
    have c: "length c = 256" "take 255 (h @ w) @ [NUL] = take (Suc (length (take 255 (h @ w)))) c"
      using True B by (auto simp: c_def b_def min_def)
    define p where "p = min (length h + length w) 254"
    have line: "take p c = take 254 (h @ w)" using True by (auto simp: c_def p_def min_def)
    have more: "vsnprintf (drop (length h) b) (word_of_nat (256 - length h)) (fmt @ NUL # f) args
      = Some (word_of_nat (length w), drop (length h) c, cnt)"
      using vsnprintf_format [OF assms(4,3), of "256 - length h" "drop (length h) b" f] assms(5) True b(2) by (simp add: c_def)
    have len: "int_ok (int (length h) + int (length w)) = Some (int (length h + length w))"
      using True assms(5) by (simp add: int_ok_def)
    have top: "254 < int (length h) + int (length w) \<Longrightarrow> p = 254"
      "\<not> 254 < int (length h) + int (length w) \<Longrightarrow> p = length h + length w"
      "nat (int (length h) + int (length w)) = length h + length w" by (auto simp: p_def)
    have p: "Suc p < length c" by (simp add: c p_def)
    have w31: "length w < 2 ^ 31" using assms(5) by simp
    have hc: "take (length h) b @ drop (length h) c = c" by (simp add: b c_def)
    have neg: "\<not> int (length h) \<ge> 256" "\<not> int (length h) < 0" using True by simp_all
    have hd: "snprintf B 256 (LOG_HEAD_FORMAT @ [NUL]) [VA_int d, VA_int hh, VA_int mi, VA_int se, VA_int z,
        VA_int (lg_id s), VA_str (Some (level @ NUL # l)), VA_str (Some (module @ NUL # m))]
      = Some (word_of_nat (length h), b, [])"
      using head B by (simp add: snprintf_def b_def)
    have "sdklog any ms (Some (level @ NUL # l)) (Some (module @ NUL # m)) (fmt @ NUL # f) args s
      = do { buf \<leftarrow> store c p CHR 0x0A; buf \<leftarrow> store buf (p + 1) NUL;
             Some (Log_Returns (sdk_hw_console_output buf (s\<lparr>lg_id := lg_id s + 1\<rparr>))) }"
      using hd more len top hc neg sint [OF h31] sint [OF w31]
      by (simp add: sdklog_def vsdklog_def u B_def [symmetric] SDK_LOG_BUF_LEN_def Let_def)
    also have "\<dots> = Some (Log_Returns (sdk_hw_console_output (take 254 (h @ w) @ CHR 0x0A # NUL # drop (p + 2) c) (s\<lparr>lg_id := lg_id s + 1\<rparr>)))"
      using two_stores [OF p, of "CHR 0x0A" NUL] line by (cases "store c p CHR 0x0A") auto
    finally show ?thesis using True by (auto simp: sdk_hw_console_output_def)
  qed
qed


theorem sdklog_line_witness:
  "\<exists>rest. sdklog (\<lambda>_. CHR ''x'') 90061001 (Some (''INFO'' @ [NUL])) (Some (''app'' @ [NUL])) (''ready'' @ [NUL]) []
      \<lparr>lg_id = 7, lg_out = []\<rparr>
    = Some (Log_Returns \<lparr>lg_id = 8,
        lg_out = [take 254 (log_head 90061001 7 ''INFO'' ''app'' @ ''ready'') @ CHR 0x0A # NUL # rest]\<rparr>)"
  using sdklog_line [of "''INFO''" "''app''" "''ready''" "[]" "''ready''" "[]", where ms = 90061001 and s = "\<lparr>lg_id = 7, lg_out = []\<rparr>"
      and any = "\<lambda>_. CHR ''x''" and l = "[]" and m = "[]" and f = "[]"] log_head_length [of 90061001 7 "''INFO''" "''app''"]
  by simp

text \<open>
  What the console shows of the strings it was handed, and the text of a dump: a line break
  before each row of \<open>width\<close> bytes, each byte as two hexadecimal digits and a blank.
\<close>

definition console_text :: "string list \<Rightarrow> string" where
  "console_text out = concat (map (takeWhile (\<lambda>c. c \<noteq> NUL)) out)"

definition hexdump_text :: "nat \<Rightarrow> 8 word list \<Rightarrow> string" where
  "hexdump_text width bs = concat (map (\<lambda>i. (if i mod width = 0 then [CHR 0x0D, CHR 0x0A] else [])
     @ [ucdigits ! (unat (bs ! i) div 16), ucdigits ! (unat (bs ! i) mod 16), CHR '' '']) [0..<length bs])"

lemma console_text_simps [simp]: "console_text [] = []" "console_text (xs @ ys) = console_text xs @ console_text ys"
  "NUL \<notin> set w \<Longrightarrow> console_text [w @ NUL # r] = w"
  by (simp_all add: console_text_def takeWhile_text)

lemma console_text_two: "console_text [x, y] = console_text [x] @ console_text [y]"
  by (simp add: console_text_def)

lemma ucdigits_chars: "i < 16 \<Longrightarrow> ucdigits ! i \<noteq> NUL"
proof -
  assume "i < 16"
  then have "i < length ucdigits" by (simp add: ucdigits_def)
  then have "ucdigits ! i \<in> set ucdigits" by (rule nth_mem)
  moreover have "NUL \<notin> set ucdigits" by (simp add: ucdigits_def)
  ultimately show ?thesis by auto
qed

lemma print_row_break:
  "length temp = 4 \<Longrightarrow> snprintf temp 4 (''%s'' @ [NUL]) [VA_str (Some ([CHR 0x0D, CHR 0x0A] @ [NUL]))]
     = Some (2, [CHR 0x0D, CHR 0x0A] @ NUL # drop 3 temp, [])"
  using snprintf_format [of "''%s''" "[VA_str (Some ([CHR 0x0D, CHR 0x0A] @ NUL # []))]" "[CHR 0x0D, CHR 0x0A]" "[]" 4 temp "[]"]
    format_text_s [of "[CHR 0x0D, CHR 0x0A]" "[]" "[]" "[]" 0]
  by (simp add: numeral_3_eq_3)

lemma print_byte:
  fixes b :: "8 word"
  assumes "length temp = 4"
  shows "snprintf temp 4 (''%02X '' @ [NUL]) [VA_int (ucast b)]
     = Some (3, [ucdigits ! (unat b div 16), ucdigits ! (unat b mod 16), CHR '' ''] @ [NUL], [])"
  using snprintf_format [of "''%02X ''" "[VA_int (ucast b)]" "[ucdigits ! (unat b div 16), ucdigits ! (unat b mod 16), CHR '' '']" "[]" 4 temp "[]"]
    format_text_02X [of "'' ''" b "[]" 0] assms
  by simp

lemma hexdump_step_text:
  assumes "length temp = 4" and "width \<noteq> 0" and "i < length buf"
  shows "\<exists>temp1 s1. hexdump_step width buf i (temp, s) = Some (temp1, s1) \<and> length temp1 = 4 \<and> lg_id s1 = lg_id s
    \<and> console_text (lg_out s1) = console_text (lg_out s) @ (if i mod unat width = 0 then [CHR 0x0D, CHR 0x0A] else [])
        @ [ucdigits ! (unat (buf ! i) div 16), ucdigits ! (unat (buf ! i) mod 16), CHR '' '']"
proof -
  let ?hex = "[ucdigits ! (unat (buf ! i) div 16), ucdigits ! (unat (buf ! i) mod 16), CHR '' '']"
  have "unat (buf ! i) < 256" by (rule unat_u8_less)
  then have "unat (buf ! i) div 16 < 16" "unat (buf ! i) mod 16 < 16" by (simp_all add: less_mult_imp_div_less)
  then have "NUL \<notin> set ?hex"
    using ucdigits_chars [of "unat (buf ! i) div 16"] ucdigits_chars [of "unat (buf ! i) mod 16"] by auto
  then have hex: "console_text [?hex @ [NUL]] = ?hex" by (rule console_text_simps(3))
  have row: "console_text [[CHR 0x0D, CHR 0x0A] @ NUL # drop 3 temp] = [CHR 0x0D, CHR 0x0A]"
    by (rule console_text_simps(3)) simp
  have len: "length ([CHR 0x0D, CHR 0x0A] @ NUL # drop 3 temp) = 4" using assms(1) by simp
  note step = hexdump_step_def prod.case assms(2) if_False load_in [OF assms(3)] bind.bind_lunit sdk_hw_console_output_def
  show ?thesis
  proof (cases "i mod unat width = 0")
    case True
    have "hexdump_step width buf i (temp, s) = Some (?hex @ [NUL], s\<lparr>lg_out := (lg_out s @ [[CHR 0x0D, CHR 0x0A] @ NUL # drop 3 temp]) @ [?hex @ [NUL]]\<rparr>)"
      unfolding step print_row_break [OF assms(1)] print_byte [OF len] using True assms(2) by (simp add: print_byte [OF len, simplified])
    then show ?thesis using hex row True console_text_two by simp
  next
    case False
    have "hexdump_step width buf i (temp, s) = Some (?hex @ [NUL], s\<lparr>lg_out := lg_out s @ [?hex @ [NUL]]\<rparr>)"
      using False assms(2,3) print_byte [OF assms(1)] by (simp add: hexdump_step_def load_in sdk_hw_console_output_def)
    then show ?thesis using hex False by simp
  qed
qed

lemma hexdump_loop_text:
  assumes "length temp = 4" and "width \<noteq> 0" and "i + n \<le> length buf" and "i + n < 2 ^ 31"
  shows "\<exists>temp1 s1. hexdump_loop width buf i n (temp, s) = Some (temp1, s1) \<and> lg_id s1 = lg_id s
    \<and> console_text (lg_out s1) = console_text (lg_out s) @ concat (map (\<lambda>i. (if i mod unat width = 0 then [CHR 0x0D, CHR 0x0A] else [])
        @ [ucdigits ! (unat (buf ! i) div 16), ucdigits ! (unat (buf ! i) mod 16), CHR '' '']) [i..<i + n])"
  using assms(1,3,4)
proof (induction n arbitrary: i temp s)
  case (Suc n)
  obtain temp1 s1 where st: "hexdump_step width buf i (temp, s) = Some (temp1, s1)" "length temp1 = 4" "lg_id s1 = lg_id s"
    "console_text (lg_out s1) = console_text (lg_out s) @ (if i mod unat width = 0 then [CHR 0x0D, CHR 0x0A] else [])
        @ [ucdigits ! (unat (buf ! i) div 16), ucdigits ! (unat (buf ! i) mod 16), CHR '' '']"
    using hexdump_step_text [OF Suc.prems(1) assms(2), of i buf s] Suc.prems(2) by auto
  have "int_ok (int i + 1) = Some (int i + 1)" using Suc.prems(3) by (simp add: int_ok_def)
  then show ?case
    using Suc.IH [OF st(2), of "Suc i" s1] Suc.prems(2,3) st by (auto simp: upt_conv_Cons simp del: upt_Suc)
qed simp

text \<open>
  A dump of an array shows each of its bytes once and in order as two hexadecimal digits,
  with a line break before every row of \<open>width\<close> bytes, and the number of bytes at the end; it
  reads nothing outside the array. With a width of 0 it divides by zero.
\<close>

theorem sdklog_hexdump_bytes:
  assumes "0 < len" and "unat len = length buf" and "length buf < 2 ^ 31"
  shows "if width = 0 then sdklog_hexdump any width buf len s = None
    else \<exists>s1. sdklog_hexdump any width buf len s = Some s1 \<and> lg_id s1 = lg_id s
      \<and> console_text (lg_out s1) = console_text (lg_out s) @ hexdump_text (unat width) buf
          @ [CHR 0x0D, CHR 0x0A] @ ''['' @ decimal_text (length buf) @ '' Bytes]'' @ [CHR 0x0D, CHR 0x0A]"
proof (cases "width = 0")
  case True
  obtain n where "unat len = Suc n" using assms(1) by (metis gr0_implies_Suc unat_gt_0 word_neq_0_conv)
  then show ?thesis using True by (simp add: sdklog_hexdump_def hexdump_step_def)
next
  case False
  obtain temp1 s1 where loop: "hexdump_loop width buf 0 (unat len) (map any [0..<4], s) = Some (temp1, s1)" "lg_id s1 = lg_id s"
    "console_text (lg_out s1) = console_text (lg_out s) @ hexdump_text (unat width) buf"
    using hexdump_loop_text [of "map any [0..<4]" width 0 "unat len" buf s] False assms(2,3)
    by (auto simp: hexdump_text_def)
  let ?t = "[CHR 0x0D, CHR 0x0A] @ ''['' @ decimal_text (length buf) @ '' Bytes]'' @ [CHR 0x0D, CHR 0x0A]"
  have "int_text len = decimal_text (length buf)" using sint_small [of len] assms(2,3) by (simp add: int_text_def)
  then have fmt: "format_text ([CHR 0x0D, CHR 0x0A] @ ''[%d Bytes]'' @ [CHR 0x0D, CHR 0x0A]) [VA_int len] 0 = Some (?t, [])"
    by simp
  have dec: "length (decimal_text (length buf)) \<le> 10" by (rule decimal_text_props(3)) (use assms(3) in simp)
  have "NUL \<notin> set ?t" using decimal_text_props(2) [of "length buf"] by auto
  then have last: "console_text [?t @ NUL # r] = ?t" for r by (rule console_text_simps(3))
  have "vsnprintf (map any [0..<256]) (word_of_nat 256) (([CHR 0x0D, CHR 0x0A] @ ''[%d Bytes]'' @ [CHR 0x0D, CHR 0x0A]) @ NUL # []) [VA_int len]
      = Some (word_of_nat (length ?t), ?t @ NUL # drop (Suc (length ?t)) (map any [0..<256]), [])"
    using vsnprintf_format [OF fmt, of 256 "map any [0..<256]" "[]"] dec by simp
  then show ?thesis
    using loop last False by (simp add: sdklog_hexdump_def sdk_printf_def SDK_LOG_BUF_LEN_def sdk_hw_console_output_def)
qed

theorem sdklog_hexdump_bytes_witness:
  "\<exists>s1. sdklog_hexdump (\<lambda>_. CHR ''x'') 2 [0x1F, 0, 0xA0] 3 \<lparr>lg_id = 7, lg_out = []\<rparr> = Some s1 \<and> lg_id s1 = 7
    \<and> console_text (lg_out s1) = hexdump_text 2 [0x1F, 0, 0xA0]
        @ [CHR 0x0D, CHR 0x0A] @ ''['' @ decimal_text 3 @ '' Bytes]'' @ [CHR 0x0D, CHR 0x0A]"
proof -
  have len: "length [0x1F, 0, 0xA0 :: 8 word] = 3" "unat (3 :: u32) = 3" "unat (2 :: u32) = 2" by simp_all
  show ?thesis
    using sdklog_hexdump_bytes [of 3 "[0x1F, 0, 0xA0]" 2 "\<lambda>_. CHR ''x''" "\<lparr>lg_id = 7, lg_out = []\<rparr>", unfolded len]
    by simp
qed

end
