(* ===== verification/Sdk_Error.thy ===== *)
theory Sdk_Error
  imports Sdk_Log
begin

text \<open>
  Error records, src/src/sdk_error.c and src/src/sdk_error.h: filling a record and printing it
  through the log.

  \<^item> \<open>error_info_report\<close>: a record that was filled prints the values it was filled with, its names
    cut to their arrays; a level outside the five known ones is read behind the table.
\<close>

section \<open>Definitions\<close>

definition MODULE_NAME_LENGTH :: nat where "MODULE_NAME_LENGTH = 32"
definition FILE_NAME_LENGTH :: nat where "FILE_NAME_LENGTH = 32"
definition ERROR_MESSAGE_LENGTH :: nat where "ERROR_MESSAGE_LENGTH = 64"

record error_info =
  ei_timestamp :: u32
  ei_line_number :: u32
  ei_error_code :: u16
  ei_level :: "8 word"
  ei_module_name :: string
  ei_file_name :: string
  ei_error_message :: string

text \<open>\<open>strncpy\<close> of the C library: at most \<open>n\<close> characters, filled up with zeros.\<close>

definition strncpy :: "string \<Rightarrow> string \<Rightarrow> nat \<Rightarrow> string option" where
  "strncpy dst src n =
     (let s = takeWhile (\<lambda>c. c \<noteq> NUL) (take n src)
      in if length src < n \<and> NUL \<notin> set src then None
         else write_bytes dst 0 (s @ replicate (n - length s) NUL))"

definition log_error_info ::
  "u32 \<Rightarrow> error_info \<Rightarrow> u16 \<Rightarrow> 8 word \<Rightarrow> string \<Rightarrow> string \<Rightarrow> string \<Rightarrow> u32 \<Rightarrow> error_info option" where
  "log_error_info rt_tick err error_code level module_name message file_name line_number = do {
     let err = err\<lparr>ei_timestamp := rt_tick, ei_error_code := error_code, ei_level := level\<rparr>;
     let err = err\<lparr>ei_module_name := replicate MODULE_NAME_LENGTH NUL, ei_file_name := replicate FILE_NAME_LENGTH NUL,
                   ei_error_message := replicate ERROR_MESSAGE_LENGTH NUL\<rparr>;
     m \<leftarrow> strncpy (ei_module_name err) module_name (MODULE_NAME_LENGTH - 1);
     f \<leftarrow> strncpy (ei_file_name err) file_name (FILE_NAME_LENGTH - 1);
     let err = err\<lparr>ei_module_name := m, ei_file_name := f, ei_line_number := line_number\<rparr>;
     e \<leftarrow> strncpy (ei_error_message err) message (ERROR_MESSAGE_LENGTH - 1);
     Some (err\<lparr>ei_error_message := e\<rparr>)
   }"

definition level_str :: "string list" where
  "level_str = [''NONE'', ''ERROR'', ''WARNING'', ''INFO'', ''LOG'']"

definition error_info_dump :: "(nat \<Rightarrow> char) \<Rightarrow> error_info \<Rightarrow> log_state \<Rightarrow> log_state option" where
  "error_info_dump any err s = do {
     s \<leftarrow> LOG_RAW DBG_LOG any (''Error Info:'' @ [NUL]) [] s;
     s \<leftarrow> LOG_RAW DBG_LOG any (''  Timestamp: %lu'' @ [NUL]) [VA_long (ei_timestamp err)] s;
     s \<leftarrow> LOG_RAW DBG_LOG any (''  Error Code: %u'' @ [NUL]) [VA_int (ucast (ei_error_code err))] s;
     name \<leftarrow> load level_str (unat (ei_level err));
     s \<leftarrow> LOG_RAW DBG_LOG any (''  Level: %s'' @ [NUL]) [VA_str (Some (name @ [NUL]))] s;
     s \<leftarrow> LOG_RAW DBG_LOG any (''  Module: %s'' @ [NUL]) [VA_str (Some (ei_module_name err))] s;
     s \<leftarrow> LOG_RAW DBG_LOG any (''  File: %s'' @ [NUL]) [VA_str (Some (ei_file_name err))] s;
     s \<leftarrow> LOG_RAW DBG_LOG any (''  Line: %lu'' @ [NUL]) [VA_long (ei_line_number err)] s;
     LOG_RAW DBG_LOG any (''  Message: %s'' @ [NUL]) [VA_str (Some (ei_error_message err))] s
   }"

section \<open>Printing\<close>

lemma format_text_lu [simp]:
  "format_text (CHR ''%'' # CHR ''l'' # CHR ''u'' # cs) (VA_long x # args) k =
    do { (w, cnt) \<leftarrow> format_text cs args (k + length (unsigned_text x)); Some (unsigned_text x @ w, cnt) }"
proof -
  have n: "unat (ucast x :: u64) = unat x" by (rule unat_ucast_wide) simp
  have "length (unsigned_text x) \<le> 10" by (rule unsigned_text)
  then have "number_text 0 10 0 (- 1) (ucast x) = Some (unsigned_text x)"
    using n by (simp add: number_text_def has_def sign_text_def prefix_text_def unsigned_text_def [symmetric])
  then have "conversion_text CHR ''u'' 0 0 (- 1) 1 (VA_long x # args) k = Some (unsigned_text x, args, [])"
    by (simp add: conversion_text_def unsigned_arg_def rank_values)
  moreover have "split_directive (CHR ''l'' # CHR ''u'' # cs) = ([], [], None, [CHR ''l''], CHR ''u'' # cs)"
    by (simp add: split_directive_def flag_char_def num_char_def digit_char_def mod_char_def)
  ultimately show ?thesis by (simp add: format_text_directive rank_mod_def canonical_rank_def rank_values)
qed

lemma LOG_RAW_text:
  assumes "format_text fmt args 0 = Some (w, [])" and "NUL \<notin> set fmt" and "NUL \<notin> set w" and "length w < 256"
  shows "\<exists>s1. LOG_RAW DBG_LOG any (fmt @ [NUL]) args s = Some s1 \<and> lg_id s1 = lg_id s
    \<and> console_text (lg_out s1) = console_text (lg_out s) @ w"
proof -
  have "vsnprintf (map any [0..<256]) (word_of_nat 256) (fmt @ NUL # []) args
      = Some (word_of_nat (length w), w @ NUL # drop (Suc (length w)) (map any [0..<256]), [])"
    using vsnprintf_format [OF assms(1,2), of 256 "map any [0..<256]" "[]"] assms(4) by (simp add: min_def)
  then show ?thesis
    using assms(3) by (simp add: LOG_RAW_def sdk_printf_def SDK_LOG_BUF_LEN_def dbg_levels sdk_hw_console_output_def)
qed

lemma strncpy_text:
  assumes "NUL \<notin> set s" and "n < length dst" and "dst = replicate (Suc n) NUL"
  shows "strncpy dst (s @ NUL # r) n = Some (take n s @ NUL # replicate (n - length (take n s)) NUL)"
proof -
  have "takeWhile (\<lambda>c. c \<noteq> NUL) (take n (s @ NUL # r)) = take n s"
  proof (cases "length s < n")
    case True
    then obtain k where "n - length s = Suc k" by (metis Suc_diff_Suc)
    then show ?thesis using assms(1) by (simp add: takeWhile_text)
  next
    case False
    then have "take n (s @ NUL # r) = take n s" by simp
    moreover have "\<forall>c \<in> set (take n s). c \<noteq> NUL" using assms(1) in_set_takeD by metis
    ultimately show ?thesis by (simp add: takeWhile_eq_all_conv)
  qed
  moreover have "drop n (NUL # replicate n NUL) = [NUL]"
    by (simp add: replicate_append_same [symmetric])
  ultimately show ?thesis
    by (simp add: strncpy_def Let_def write_bytes_def assms(3) replicate_append_same)
qed

section \<open>Properties\<close>

definition error_report :: "u32 \<Rightarrow> u16 \<Rightarrow> nat \<Rightarrow> string \<Rightarrow> string \<Rightarrow> u32 \<Rightarrow> string \<Rightarrow> string" where
  "error_report now code level module file line message =
     ''Error Info:'' @ ''  Timestamp: '' @ unsigned_text now @ ''  Error Code: '' @ unsigned_text (ucast code)
     @ ''  Level: '' @ level_str ! level @ ''  Module: '' @ module @ ''  File: '' @ file
     @ ''  Line: '' @ unsigned_text line @ ''  Message: '' @ message"

lemma LOG_RAW_string:
  assumes "NUL \<notin> set p" and "CHR ''%'' \<notin> set p" and "NUL \<notin> set t" and "length p + length t < 256"
  shows "\<exists>s1. LOG_RAW DBG_LOG any ((p @ ''%s'') @ [NUL]) [VA_str (Some (t @ NUL # r))] s = Some s1 \<and> lg_id s1 = lg_id s
    \<and> console_text (lg_out s1) = console_text (lg_out s) @ p @ t"
proof (rule LOG_RAW_text)
  have "format_text (q @ ''%s'') [VA_str (Some (t @ NUL # r))] k = Some (q @ t, [])" if "CHR ''%'' \<notin> set q" for q k
    using that assms(3) by (induction q arbitrary: k) auto
  then show "format_text (p @ ''%s'') [VA_str (Some (t @ NUL # r))] 0 = Some (p @ t, [])" using assms(2) .
qed (use assms in auto)

lemma LOG_RAW_number:
  assumes "NUL \<notin> set p" and "CHR ''%'' \<notin> set p" and "length p < 200"
  shows "\<exists>s1. LOG_RAW DBG_LOG any ((p @ ''%lu'') @ [NUL]) [VA_long x] s = Some s1 \<and> lg_id s1 = lg_id s
      \<and> console_text (lg_out s1) = console_text (lg_out s) @ p @ unsigned_text x"
    and "\<exists>s1. LOG_RAW DBG_LOG any ((p @ ''%u'') @ [NUL]) [VA_int x] s = Some s1 \<and> lg_id s1 = lg_id s
      \<and> console_text (lg_out s1) = console_text (lg_out s) @ p @ unsigned_text x"
proof -
  have t: "NUL \<notin> set (p @ unsigned_text x)" "length (p @ unsigned_text x) < 256"
    using assms unsigned_text [of x] by auto
  have f: "format_text (q @ ''%lu'') [VA_long x] k = Some (q @ unsigned_text x, [])"
    "format_text (q @ ''%u'') [VA_int x] k = Some (q @ unsigned_text x, [])" if "CHR ''%'' \<notin> set q" for q k
    using that by (induction q arbitrary: k) auto
  show "\<exists>s1. LOG_RAW DBG_LOG any ((p @ ''%lu'') @ [NUL]) [VA_long x] s = Some s1 \<and> lg_id s1 = lg_id s
      \<and> console_text (lg_out s1) = console_text (lg_out s) @ p @ unsigned_text x"
    using assms by (intro LOG_RAW_text [OF f(1) [OF assms(2)] _ t]) simp
  show "\<exists>s1. LOG_RAW DBG_LOG any ((p @ ''%u'') @ [NUL]) [VA_int x] s = Some s1 \<and> lg_id s1 = lg_id s
      \<and> console_text (lg_out s1) = console_text (lg_out s) @ p @ unsigned_text x"
    using assms by (intro LOG_RAW_text [OF f(2) [OF assms(2)] _ t]) simp
qed

lemma dump_report:
  fixes err :: error_info
  assumes "ei_module_name err = m @ NUL # mr" and "ei_file_name err = f @ NUL # fr" and "ei_error_message err = e @ NUL # r"
    and "NUL \<notin> set m" and "NUL \<notin> set f" and "NUL \<notin> set e" and "length m < 32" and "length f < 32" and "length e < 64"
    and "unat (ei_level err) < 5"
  shows "\<exists>s1. error_info_dump any err s = Some s1 \<and> lg_id s1 = lg_id s
    \<and> console_text (lg_out s1) = console_text (lg_out s)
      @ error_report (ei_timestamp err) (ei_error_code err) (unat (ei_level err)) m f (ei_line_number err) e"
proof -
  let ?lv = "level_str ! unat (ei_level err)"
  have "?lv \<in> set level_str" using assms(10) by (intro nth_mem) (simp add: level_str_def)
  moreover have "\<forall>l \<in> set level_str. NUL \<notin> set l \<and> length l < 10" by (simp add: level_str_def)
  ultimately have lv: "NUL \<notin> set ?lv" "length ?lv < 10" by blast+
  have ld: "load level_str (unat (ei_level err)) = Some ?lv" using assms(10) by (simp add: load_in level_str_def)
  obtain s1 where 1: "LOG_RAW DBG_LOG any (''Error Info:'' @ [NUL]) [] s = Some s1" "lg_id s1 = lg_id s"
    "console_text (lg_out s1) = console_text (lg_out s) @ ''Error Info:''"
    using LOG_RAW_text [of "''Error Info:''" "[]" "''Error Info:''" any s] by auto
  obtain s2 where 2: "LOG_RAW DBG_LOG any (''  Timestamp: %lu'' @ [NUL]) [VA_long (ei_timestamp err)] s1 = Some s2" "lg_id s2 = lg_id s1"
    "console_text (lg_out s2) = console_text (lg_out s1) @ ''  Timestamp: '' @ unsigned_text (ei_timestamp err)"
    using LOG_RAW_number(1) [of "''  Timestamp: ''" any "ei_timestamp err" s1] by auto
  obtain s3 where 3: "LOG_RAW DBG_LOG any (''  Error Code: %u'' @ [NUL]) [VA_int (ucast (ei_error_code err))] s2 = Some s3" "lg_id s3 = lg_id s2"
    "console_text (lg_out s3) = console_text (lg_out s2) @ ''  Error Code: '' @ unsigned_text (ucast (ei_error_code err))"
    using LOG_RAW_number(2) [of "''  Error Code: ''" any "ucast (ei_error_code err)" s2] by auto
  obtain s4 where 4: "LOG_RAW DBG_LOG any (''  Level: %s'' @ [NUL]) [VA_str (Some (?lv @ [NUL]))] s3 = Some s4" "lg_id s4 = lg_id s3"
    "console_text (lg_out s4) = console_text (lg_out s3) @ ''  Level: '' @ ?lv"
    using LOG_RAW_string [of "''  Level: ''" ?lv any "[]" s3] lv by auto
  obtain s5 where 5: "LOG_RAW DBG_LOG any (''  Module: %s'' @ [NUL]) [VA_str (Some (m @ NUL # mr))] s4 = Some s5" "lg_id s5 = lg_id s4"
    "console_text (lg_out s5) = console_text (lg_out s4) @ ''  Module: '' @ m"
    using LOG_RAW_string [of "''  Module: ''" m any mr s4] assms(4,7) by auto
  obtain s6 where 6: "LOG_RAW DBG_LOG any (''  File: %s'' @ [NUL]) [VA_str (Some (f @ NUL # fr))] s5 = Some s6" "lg_id s6 = lg_id s5"
    "console_text (lg_out s6) = console_text (lg_out s5) @ ''  File: '' @ f"
    using LOG_RAW_string [of "''  File: ''" f any fr s5] assms(5,8) by auto
  obtain s7 where 7: "LOG_RAW DBG_LOG any (''  Line: %lu'' @ [NUL]) [VA_long (ei_line_number err)] s6 = Some s7" "lg_id s7 = lg_id s6"
    "console_text (lg_out s7) = console_text (lg_out s6) @ ''  Line: '' @ unsigned_text (ei_line_number err)"
    using LOG_RAW_number(1) [of "''  Line: ''" any "ei_line_number err" s6] by auto
  obtain s8 where 8: "LOG_RAW DBG_LOG any (''  Message: %s'' @ [NUL]) [VA_str (Some (e @ NUL # r))] s7 = Some s8" "lg_id s8 = lg_id s7"
    "console_text (lg_out s8) = console_text (lg_out s7) @ ''  Message: '' @ e"
    using LOG_RAW_string [of "''  Message: ''" e any r s7] assms(6,9) by auto
  have "error_info_dump any err s = Some s8"
    unfolding error_info_dump_def assms(1-3) 1(1) bind.bind_lunit 2(1) 3(1) ld 4(1) 5(1) 6(1) 7(1) 8(1) ..
  then show ?thesis using 1(2,3) 2(2,3) 3(2,3) 4(2,3) 5(2,3) 6(2,3) 7(2,3) 8(2,3)
    by (simp add: error_report_def)
qed

text \<open>
  A record that was filled and is then dumped prints the values it was filled with, the names
  cut to 31 and the message to 63 characters; with a level above 4 the dump reads behind the
  table of the level names.
\<close>

theorem error_info_report:
  assumes "NUL \<notin> set m" and "NUL \<notin> set f" and "NUL \<notin> set e"
  shows "\<exists>err1. log_error_info now err code level (m @ NUL # mr) (e @ NUL # r) (f @ NUL # fr) line = Some err1
    \<and> (if unat level < 5
       then \<exists>s1. error_info_dump any err1 s = Some s1 \<and> lg_id s1 = lg_id s
         \<and> console_text (lg_out s1) = console_text (lg_out s)
           @ error_report now code (unat level) (take 31 m) (take 31 f) line (take 63 e)
       else error_info_dump any err1 s = None)"
proof -
  have z: "replicate 32 NUL = replicate (Suc 31) NUL" "replicate 64 NUL = replicate (Suc 63) NUL" by simp_all
  let ?pad = "\<lambda>n s. take n s @ NUL # replicate (n - length (take n s)) NUL"
  have cp: "strncpy (replicate 32 NUL) (m @ NUL # mr) 31 = Some (?pad 31 m)"
    "strncpy (replicate 32 NUL) (f @ NUL # fr) 31 = Some (?pad 31 f)"
    "strncpy (replicate 64 NUL) (e @ NUL # r) 63 = Some (?pad 63 e)"
    using assms by (auto intro!: strncpy_text simp only: z length_replicate)
  define err1 where "err1 = err\<lparr>ei_timestamp := now, ei_error_code := code, ei_level := level,
      ei_module_name := ?pad 31 m, ei_file_name := ?pad 31 f, ei_error_message := ?pad 63 e, ei_line_number := line\<rparr>"
  have fill: "log_error_info now err code level (m @ NUL # mr) (e @ NUL # r) (f @ NUL # fr) line = Some err1"
    by (simp add: log_error_info_def MODULE_NAME_LENGTH_def FILE_NAME_LENGTH_def ERROR_MESSAGE_LENGTH_def cp err1_def)
  show ?thesis
  proof (cases "unat level < 5")
    case True
    have "NUL \<notin> set (take 31 m)" "NUL \<notin> set (take 31 f)" "NUL \<notin> set (take 63 e)"
      using assms in_set_takeD by metis+
    then show ?thesis
      using fill True dump_report [of err1 "take 31 m" _ "take 31 f" _ "take 63 e" _ any s] by (simp add: err1_def)
  next
    case False
    then have "load level_str (unat (ei_level err1)) = None" by (simp add: err1_def load_def level_str_def)
    then have "error_info_dump any err1 s = None"
      by (auto simp: error_info_dump_def split: Option.bind_splits)
    then show ?thesis using fill False by simp
  qed
qed

theorem error_info_report_witness:
  "\<exists>err1 s1. log_error_info 5 err 9 1 (''net'' @ [NUL]) (''lost'' @ [NUL]) (''a.c'' @ [NUL]) 12 = Some err1
    \<and> error_info_dump (\<lambda>_. NUL) err1 \<lparr>lg_id = 0, lg_out = []\<rparr> = Some s1
    \<and> console_text (lg_out s1) = error_report 5 9 1 ''net'' ''a.c'' 12 ''lost''"
  using error_info_report [of "''net''" "''a.c''" "''lost''" 5 err 9 1 "[]" "[]" "[]" 12 "\<lambda>_. NUL" "\<lparr>lg_id = 0, lg_out = []\<rparr>"]
  by auto

end
