(* ===== verification/Calendar.thy ===== *)
theory Calendar
  imports Prelude "HOL-Library.Product_Lexorder"
begin

text \<open>
  The calendar functions of the C library that the clock driver calls, \<open>localtime_r\<close> and
  \<open>mktime\<close>: the Gregorian calendar in a time zone that is \<open>tz\<close> seconds ahead of UTC all year.

  Broken-down times have unbounded integers as fields; \<open>mktime\<close> is the formula of POSIX, which
  also gives dates with fields out of range a meaning, and \<open>localtime_r\<close> counts years and months
  down, so that both are executable. \<open>localtime_mktime\<close> and \<open>mktime_localtime\<close> say that they
  are inverse to each other, \<open>mktime_less_iff\<close> that the order of broken-down times, an instance of
  \<open>linorder\<close>, is that of the seconds they stand for.
\<close>

section \<open>Years\<close>

definition leap_year :: "int \<Rightarrow> bool" where
  "leap_year y \<longleftrightarrow> y mod 4 = 0 \<and> (y mod 100 \<noteq> 0 \<or> y mod 400 = 0)"

definition days_in_year :: "int \<Rightarrow> int" where
  "days_in_year y = (if leap_year y then 366 else 365)"

text \<open>The days from 1 January 1970 to 1 January of the year \<open>y\<close>.\<close>

definition year_start :: "int \<Rightarrow> int" where
  "year_start y = 365 * (y - 1970) + ((y - 1) div 4 - (y - 1) div 100 + (y - 1) div 400) - 477"

lemma year_start_1970 [simp]: "year_start 1970 = 0"
  by (simp add: year_start_def)

lemma div_step: "0 < k \<Longrightarrow> (y :: int) div k = (y - 1) div k + (if y mod k = 0 then 1 else 0)"
proof -
  assume k: "0 < k"
  have "(y - 1) div k = y div k + (y mod k - 1) div k"
    using k by (metis div_mult_mod_eq add_diff_eq div_mult_self3 less_imp_neq mult.commute)
  moreover have "(y mod k - 1) div k = (if y mod k = 0 then - 1 else 0)"
    using k pos_mod_bound [OF k, of y] pos_mod_sign [OF k, of y] by (auto simp: div_eq_minus1 div_pos_pos_trivial)
  ultimately show ?thesis by simp
qed

lemma leap_sum: "(B \<Longrightarrow> A) \<Longrightarrow> (C \<Longrightarrow> B) \<Longrightarrow>
    (if A \<and> (\<not> B \<or> C) then 366 else 365) = (365 :: int) + (if A then 1 else 0) - (if B then 1 else 0) + (if C then 1 else 0)"
  by (cases A; cases B; cases C) simp_all

lemma year_start_Suc: "year_start (y + 1) = year_start y + days_in_year y"
proof -
  define p q r :: int where "p = (if y mod 4 = 0 then 1 else 0)" and "q = (if y mod 100 = 0 then 1 else 0)"
    and "r = (if y mod 400 = 0 then 1 else 0)"
  have "y mod 100 mod 4 = y mod 4" "y mod 400 mod 100 = y mod 100" by (simp_all add: mod_mod_cancel)
  then have "y mod 100 = 0 \<Longrightarrow> y mod 4 = 0" "y mod 400 = 0 \<Longrightarrow> y mod 100 = 0" by (metis mod_0)+
  then have "days_in_year y = 365 + p - q + r"
    unfolding days_in_year_def leap_year_def p_def q_def r_def by (rule leap_sum)
  moreover have "y div 4 = (y - 1) div 4 + p" "y div 100 = (y - 1) div 100 + q" "y div 400 = (y - 1) div 400 + r"
    unfolding p_def q_def r_def by (rule div_step, simp)+
  ultimately show ?thesis by (simp add: year_start_def)
qed

lemma days_in_year_bounds: "365 \<le> days_in_year y" "days_in_year y \<le> 366"
  by (simp_all add: days_in_year_def)

lemma year_start_mono: "y \<le> z \<Longrightarrow> year_start y + 365 * (z - y) \<le> year_start z"
proof (induction "nat (z - y)" arbitrary: z)
  case (Suc n)
  then have "year_start y + 365 * (z - 1 - y) \<le> year_start (z - 1)" using Suc.hyps(1) [of "z - 1"] by simp
  moreover have "year_start z = year_start (z - 1) + days_in_year (z - 1)"
    using year_start_Suc [of "z - 1"] by simp
  ultimately show ?case using days_in_year_bounds(1) [of "z - 1"] by simp
qed simp

lemma year_start_unique:
  assumes "year_start y \<le> n" and "n < year_start (y + 1)" and "year_start z \<le> n" and "n < year_start (z + 1)"
  shows "y = z"
proof (rule ccontr)
  assume "y \<noteq> z"
  then consider "y + 1 \<le> z" | "z + 1 \<le> y" by linarith
  then show False using year_start_mono [of "y + 1" z] year_start_mono [of "z + 1" y] assms by cases auto
qed

text \<open>The calendar repeats after 400 years of 146097 days together.\<close>

lemma year_start_period: "year_start (y + 400 * k) = year_start y + 146097 * k"
proof -
  have "(y + 400 * k - 1) div m = (y - 1) div m + n * k" if "m * n = 400" "m \<noteq> 0" for m n
  proof -
    have "y + 400 * k - 1 = (y - 1) + m * (n * k)" by (simp add: that(1) [symmetric] mult.assoc)
    then show ?thesis by (simp only: div_mult_self2 [OF that(2)] add.commute)
  qed
  from this [of 4 100] this [of 100 4] this [of 400 1] show ?thesis by (simp add: year_start_def)
qed

text \<open>The year of the day \<open>n\<close> and the day in the year, counting from the year \<open>y\<close>.\<close>

function year_loop :: "int \<Rightarrow> int \<Rightarrow> int \<times> int" where
  "year_loop y n = (if n < days_in_year y then (y, n) else year_loop (y + 1) (n - days_in_year y))"
  by pat_completeness auto
termination
  by (relation "measure (\<lambda>(y, n). nat (n + 1))") (auto simp: days_in_year_def split: if_splits)

declare year_loop.simps [simp del]

lemma year_loop_year:
  "0 \<le> n \<Longrightarrow> year_loop y n = (z, r) \<Longrightarrow> 0 \<le> r \<and> r < days_in_year z \<and> year_start z + r = year_start y + n"
proof (induction y n rule: year_loop.induct)
  case (1 y n)
  then show ?case
    by (subst (asm) (2) year_loop.simps) (auto simp: year_start_Suc split: if_splits)
qed

definition year_of :: "int \<Rightarrow> int \<times> int" where
  "year_of n = (let (y, r) = year_loop 1970 (n mod 146097) in (y + 400 * (n div 146097), r))"

lemma year_of_day:
  assumes "year_of n = (z, r)"
  shows "0 \<le> r \<and> r < days_in_year z \<and> year_start z + r = n"
proof -
  obtain y where y: "year_loop 1970 (n mod 146097) = (y, r)" "z = y + 400 * (n div 146097)"
    using assms by (auto simp: year_of_def split: prod.splits)
  have l: "0 \<le> r \<and> r < days_in_year y \<and> year_start y + r = n mod 146097"
    using year_loop_year [OF _ y(1)] by simp
  have "days_in_year z = days_in_year y"
    using year_start_period [of y "n div 146097"] year_start_period [of "y + 1" "n div 146097"]
      year_start_Suc [of y] year_start_Suc [of z] by (simp add: y(2) algebra_simps)
  moreover have "year_start z + r = 146097 * (n div 146097) + (year_start y + r)"
    by (simp add: y(2) year_start_period)
  moreover have "year_start y + r = n mod 146097" using l by blast
  ultimately show ?thesis using l by (simp only: mult_div_mod_eq)
qed

lemma year_of_start:
  assumes "0 \<le> r" and "r < days_in_year y"
  shows "year_of (year_start y + r) = (y, r)"
proof -
  obtain z q where z: "year_of (year_start y + r) = (z, q)" by (cases "year_of (year_start y + r)") auto
  note d = year_of_day [OF z]
  have "z = y"
    by (rule year_start_unique [of _ "year_start y + r"]) (use d assms in \<open>auto simp: year_start_Suc\<close>)
  then show ?thesis using z d by simp
qed

section \<open>Months\<close>

definition days_in_month :: "int \<Rightarrow> nat \<Rightarrow> int" where
  "days_in_month y m = [31, if leap_year y then 29 else 28, 31, 30, 31, 30, 31, 31, 30, 31, 30, 31] ! m"

text \<open>The days of the year \<open>y\<close> before the month \<open>m\<close>, counted from 0.\<close>

fun month_start :: "int \<Rightarrow> nat \<Rightarrow> int" where
  "month_start y 0 = 0"
| "month_start y (Suc m) = month_start y m + days_in_month y m"

lemma month_start_year: "month_start y 12 = days_in_year y"
  by (simp add: eval_nat_numeral days_in_month_def days_in_year_def)

text \<open>The month of a day of the year and the day in the month, with \<open>k\<close> months left to look at.\<close>

fun month_loop :: "int \<Rightarrow> nat \<Rightarrow> nat \<Rightarrow> int \<Rightarrow> nat \<times> int" where
  "month_loop y 0 m r = (m, r)"
| "month_loop y (Suc k) m r =
     (if r < days_in_month y m then (m, r) else month_loop y k (Suc m) (r - days_in_month y m))"

lemma month_loop_month:
  assumes "month_loop y k m r = (a, b)" and "0 \<le> r" and "month_start y m + r < month_start y (m + k)"
  shows "m \<le> a \<and> a < m + k \<and> 0 \<le> b \<and> b < days_in_month y a \<and> month_start y a + b = month_start y m + r"
  using assms
proof (induction k arbitrary: m r)
  case (Suc k)
  show ?case
  proof (cases "r < days_in_month y m")
    case False
    then have "Suc m \<le> a \<and> a < Suc m + k \<and> 0 \<le> b \<and> b < days_in_month y a
        \<and> month_start y a + b = month_start y (Suc m) + (r - days_in_month y m)"
      using Suc.prems by (intro Suc.IH) auto
    then show ?thesis by auto
  qed (use Suc.prems in auto)
qed simp

lemma days_in_month_pos: "m < 12 \<Longrightarrow> 28 \<le> days_in_month y m"
  by (auto simp: less_Suc_eq numeral_eq_Suc days_in_month_def)

lemma month_start_mono: "m \<le> n \<Longrightarrow> n \<le> 12 \<Longrightarrow> month_start y m + 28 * int (n - m) \<le> month_start y n"
proof (induction n)
  case (Suc n)
  then show ?case
    using days_in_month_pos [of n y] by (cases "m = Suc n") (auto simp: Suc_diff_le)
qed simp

lemma month_unique:
  assumes "a < 12" and "c < 12" and "0 \<le> b" and "b < days_in_month y a" and "0 \<le> d" and "d < days_in_month y c"
    and "month_start y a + b = month_start y c + d"
  shows "a = c \<and> b = d"
proof -
  have "\<not> a < c" using month_start_mono [of "Suc a" c y] assms by auto
  moreover have "\<not> c < a" using month_start_mono [of "Suc c" a y] assms by auto
  ultimately show ?thesis using assms(7) by auto
qed

section \<open>Broken-down times\<close>

record tm =
  tm_sec :: int
  tm_min :: int
  tm_hour :: int
  tm_mday :: int
  tm_mon :: int
  tm_year :: int

definition localtime_r :: "int \<Rightarrow> int \<Rightarrow> tm" where
  "localtime_r tz t =
     (let s = t + tz; (y, r) = year_of (s div 86400); (m, d) = month_loop y 12 0 r
      in \<lparr>tm_sec = s mod 60, tm_min = s div 60 mod 60, tm_hour = s div 3600 mod 24,
          tm_mday = d + 1, tm_mon = int m, tm_year = y - 1900\<rparr>)"

definition mktime :: "int \<Rightarrow> tm \<Rightarrow> int" where
  "mktime tz a =
     (let y = tm_year a + 1900 + tm_mon a div 12;
          days = year_start y + month_start y (nat (tm_mon a mod 12)) + (tm_mday a - 1)
      in ((days * 24 + tm_hour a) * 60 + tm_min a) * 60 + tm_sec a - tz)"

definition valid_tm :: "tm \<Rightarrow> bool" where
  "valid_tm a \<longleftrightarrow> 0 \<le> tm_sec a \<and> tm_sec a < 60 \<and> 0 \<le> tm_min a \<and> tm_min a < 60 \<and> 0 \<le> tm_hour a \<and> tm_hour a < 24
     \<and> 0 \<le> tm_mon a \<and> tm_mon a < 12 \<and> 1 \<le> tm_mday a \<and> tm_mday a \<le> days_in_month (tm_year a + 1900) (nat (tm_mon a))"

lemma digit_split: "0 \<le> c \<Longrightarrow> c < k \<Longrightarrow> (x * k + c) div k = x" "0 \<le> c \<Longrightarrow> c < k \<Longrightarrow> (x * k + c) mod k = (c :: int)"
  by (simp_all add: div_add1_eq)

lemma clock_digits:
  fixes s :: int
  shows "s div 3600 = s div 60 div 60" and "s div 86400 = s div 60 div 60 div 24"
  by (simp_all add: zdiv_zmult2_eq [symmetric])

lemma localtime_valid: "valid_tm (localtime_r tz t)" and mktime_localtime: "mktime tz (localtime_r tz t) = t"
proof -
  define s where "s = t + tz"
  obtain y r where y: "year_of (s div 86400) = (y, r)" by (cases "year_of (s div 86400)") auto
  obtain m d where m: "month_loop y 12 0 r = (m, d)" by (cases "month_loop y 12 0 r") auto
  note year = year_of_day [OF y]
  have month: "m < 12 \<and> 0 \<le> d \<and> d < days_in_month y m \<and> month_start y m + d = r"
    using month_loop_month [OF m] year month_start_year [of y] by simp
  define c i h where "c = s mod 60" and "i = s div 60 mod 60" and "h = s div 3600 mod 24"
  have lt: "localtime_r tz t = \<lparr>tm_sec = c, tm_min = i, tm_hour = h, tm_mday = d + 1, tm_mon = int m, tm_year = y - 1900\<rparr>"
    by (simp add: localtime_r_def s_def [symmetric] y m c_def i_def h_def)
  have "0 \<le> c" "c < 60" "0 \<le> i" "i < 60" "0 \<le> h" "h < 24" by (simp_all add: c_def i_def h_def)
  then show "valid_tm (localtime_r tz t)" using month by (simp add: valid_tm_def lt)
  have "((s div 86400 * 24 + h) * 60 + i) * 60 + c = t + tz"
    unfolding clock_digits c_def i_def h_def s_def [symmetric] by (simp only: div_mult_mod_eq)
  moreover have "year_start y + month_start y m + d = s div 86400" using year month by simp
  moreover have "int m mod 12 = int m" "int m div 12 = 0" using month by simp_all
  ultimately show "mktime tz (localtime_r tz t) = t" by (simp add: mktime_def lt Let_def)
qed

lemma localtime_mktime:
  assumes "valid_tm a"
  shows "localtime_r tz (mktime tz a) = a"
proof -
  define y m d where "y = tm_year a + 1900" and "m = nat (tm_mon a)" and "d = tm_mday a - 1"
  define days where "days = year_start y + month_start y m + d"
  have mon: "m < 12" "tm_mon a = int m" "0 \<le> d" "d < days_in_month y m" "tm_mon a div 12 = 0" "tm_mon a mod 12 = tm_mon a"
    using assms by (auto simp: valid_tm_def m_def d_def y_def)
  have s: "mktime tz a + tz = ((days * 24 + tm_hour a) * 60 + tm_min a) * 60 + tm_sec a"
    unfolding mktime_def Let_def mon(5,6) add_0_right y_def [symmetric] m_def [symmetric] d_def [symmetric] days_def [symmetric]
    by simp
  have split: "(((D * 24 + h) * 60 + i) * 60 + c) div 86400 = D" "(((D * 24 + h) * 60 + i) * 60 + c) div 3600 mod 24 = h"
    "(((D * 24 + h) * 60 + i) * 60 + c) div 60 mod 60 = i" "(((D * 24 + h) * 60 + i) * 60 + c) mod 60 = c"
    if "0 \<le> c" "c < 60" "0 \<le> i" "i < 60" "0 \<le> h" "h < 24" for D h i c :: int
    unfolding clock_digits digit_split [OF that(1,2)] digit_split [OF that(3,4)] digit_split [OF that(5,6)]
    by (rule refl)+
  have r: "0 \<le> month_start y m + d" "month_start y m + d < days_in_year y"
    using month_start_mono [of 0 m y] month_start_mono [of "Suc m" 12 y] mon month_start_year [of y] by auto
  have year: "year_of days = (y, month_start y m + d)"
    using year_of_start [OF r] by (simp add: days_def add.assoc)
  obtain m1 d1 where ml: "month_loop y 12 0 (month_start y m + d) = (m1, d1)" by (cases "month_loop y 12 0 (month_start y m + d)") auto
  have md: "m1 = m" "d1 = d"
    using month_loop_month [OF ml] r mon month_start_year [of y] month_unique [of m1 m d1 y d] by auto
  have v: "0 \<le> tm_sec a" "tm_sec a < 60" "0 \<le> tm_min a" "tm_min a < 60" "0 \<le> tm_hour a" "tm_hour a < 24"
    using assms by (simp_all add: valid_tm_def)
  have "localtime_r tz (mktime tz a) = \<lparr>tm_sec = tm_sec a, tm_min = tm_min a, tm_hour = tm_hour a,
      tm_mday = d + 1, tm_mon = int m, tm_year = y - 1900\<rparr>"
    unfolding localtime_r_def Let_def s split [OF v] year prod.case ml md ..
  also have "\<dots> = a" using mon(2) by (simp add: y_def d_def)
  finally show ?thesis .
qed

section \<open>The order of times\<close>

text \<open>Broken-down times in the order of the calendar, from the year down to the second.\<close>

definition tm_key :: "'a tm_scheme \<Rightarrow> int \<times> int \<times> int \<times> int \<times> int \<times> int \<times> 'a" where
  "tm_key a = (tm_year a, tm_mon a, tm_mday a, tm_hour a, tm_min a, tm_sec a, tm.more a)"

lemma tm_key_inject: "tm_key a = tm_key b \<longleftrightarrow> a = b"
  by (cases a; cases b) (auto simp: tm_key_def)

instantiation tm_ext :: (linorder) linorder
begin

definition less_eq_tm_ext :: "'a tm_scheme \<Rightarrow> 'a tm_scheme \<Rightarrow> bool" where
  "less_eq_tm_ext a b \<longleftrightarrow> tm_key a \<le> tm_key b"

definition less_tm_ext :: "'a tm_scheme \<Rightarrow> 'a tm_scheme \<Rightarrow> bool" where
  "less_tm_ext a b \<longleftrightarrow> tm_key a < tm_key b"

instance
  by standard (auto simp: less_eq_tm_ext_def less_tm_ext_def less_le tm_key_inject simp del: less_eq_prod_simp less_prod_simp)

end

text \<open>One field of a mixed-radix number decides before the fields below it.\<close>

lemma digit_less:
  fixes x y c d k :: int
  assumes "0 \<le> c" "c < k" "0 \<le> d" "d < k"
  shows "x * k + c < y * k + d \<longleftrightarrow> x < y \<or> x = y \<and> c < d" (is ?less)
    and "x * k + c = y * k + d \<longleftrightarrow> x = y \<and> c = d" (is ?eq)
proof -
  have "x * k + c < y * k + d" if "x + 1 \<le> y"
    using mult_right_mono [OF that, of k] assms by (simp add: distrib_right)
  moreover have "y * k + d < x * k + c" if "y + 1 \<le> x"
    using mult_right_mono [OF that, of k] assms by (simp add: distrib_right)
  ultimately show ?less ?eq by (cases x y rule: linorder_cases; auto)+
qed

text \<open>The days before the month and in it grow in calendar order.\<close>

lemma days_less:
  assumes "m < 12" "0 \<le> d" "d < days_in_month y m" "n < 12" "0 \<le> e" "e < days_in_month z n"
  shows "year_start y + month_start y m + d < year_start z + month_start z n + e
    \<longleftrightarrow> (y, m, d) < (z, n, e)"
proof -
  have in_year: "0 \<le> month_start y m + d" "month_start y m + d < days_in_year y" 
    if "m < 12" "0 \<le> d" "d < days_in_month y m" for y m d
    using month_start_mono [of 0 m y] month_start_mono [of "Suc m" 12 y] that month_start_year [of y] by auto
  have less_year: "year_start y + month_start y m + d < year_start z + month_start z n + e"
    if "y < z" "m < 12" "0 \<le> d" "d < days_in_month y m" "n < 12" "0 \<le> e" "e < days_in_month z n" for y z m n d e
    using year_start_mono [of "y + 1" z] year_start_Suc [of y] in_year [OF that(2-4)] in_year [OF that(5-7)] that(1) by auto
  have less_month: "month_start y m + d < month_start y n + e"
    if "m < n" "n < 12" "0 \<le> e" "d < days_in_month y m" for m n d e
    using month_start_mono [of "Suc m" n y] that by auto
  show ?thesis
  proof (cases y z rule: linorder_cases)
    case equal
    then show ?thesis
      using less_month [of m n e d] less_month [of n m d e] assms by (cases m n rule: linorder_cases) auto
  qed (use less_year [OF _ assms] less_year [OF _ assms(4-6,1-3)] in \<open>auto simp: not_less less_imp_le\<close>)
qed

lemma mktime_less_iff:
  fixes a b :: tm
  assumes "valid_tm a" and "valid_tm b"
  shows "mktime tz a < mktime tz b \<longleftrightarrow> a < b"
proof -
  define day where "day c = year_start (tm_year c + 1900) + month_start (tm_year c + 1900) (nat (tm_mon c)) + (tm_mday c - 1)" for c :: tm
  have mk: "mktime tz c = ((day c * 24 + tm_hour c) * 60 + tm_min c) * 60 + tm_sec c - tz" if "valid_tm c" for c
  proof -
    have "tm_mon c div 12 = 0" "tm_mon c mod 12 = tm_mon c" using that by (auto simp: valid_tm_def)
    then show ?thesis by (simp add: mktime_def day_def Let_def)
  qed
  have day_less: "day a < day b \<longleftrightarrow> (tm_year a, tm_mon a, tm_mday a) < (tm_year b, tm_mon b, tm_mday b)" if "valid_tm a" "valid_tm b" for a b
  proof -
    have "0 \<le> tm_mon a" "0 \<le> tm_mon b" "nat (tm_mon a) < 12" "nat (tm_mon b) < 12" using that by (auto simp: valid_tm_def)
    then show ?thesis
      unfolding day_def by (subst days_less) (use that in \<open>auto simp: valid_tm_def\<close>)
  qed
  note day = day_less [OF assms] day_less [OF assms(2,1)]
  have v: "0 \<le> tm_sec a" "tm_sec a < 60" "0 \<le> tm_sec b" "tm_sec b < 60" "0 \<le> tm_min a" "tm_min a < 60"
    "0 \<le> tm_min b" "tm_min b < 60" "0 \<le> tm_hour a" "tm_hour a < 24" "0 \<le> tm_hour b" "tm_hour b < 24"
    using assms by (simp_all add: valid_tm_def)
  have shift: "x - tz < y - tz \<longleftrightarrow> x < y" for x y by simp
  have less: "mktime tz a < mktime tz b \<longleftrightarrow> day a < day b \<or> day a = day b \<and> (tm_hour a < tm_hour b \<or> tm_hour a = tm_hour b
      \<and> (tm_min a < tm_min b \<or> tm_min a = tm_min b \<and> tm_sec a < tm_sec b))"
    unfolding mk [OF assms(1)] mk [OF assms(2)] shift digit_less [OF v(1-4)] digit_less [OF v(5-8)] digit_less [OF v(9-12)]
    by auto
  have eq: "day a = day b \<longleftrightarrow> (tm_year a, tm_mon a, tm_mday a) = (tm_year b, tm_mon b, tm_mday b)"
    using day by (metis less_irrefl linorder_neq_iff)
  show ?thesis
    unfolding less day eq by (auto simp: less_tm_ext_def tm_key_def)
qed

lemma localtime_strict_mono: "localtime_r tz t < localtime_r tz u \<longleftrightarrow> t < u"
  using mktime_less_iff [OF localtime_valid localtime_valid, of tz tz t tz u] by (simp add: mktime_localtime)

end
