(* ===== verification/Rtc.thy ===== *)
theory Rtc
  imports Calendar Sdk_Log
begin

text \<open>
  The clock driver, src/src/components/drivers/sdk_rtc.c and sdk_rtc.h, and the functions of
  src/src/components/libc/time.c on top of it.

  The board supplies the operations \<open>ops\<close> of the clock with a state of its own; the only
  argument the driver hands them is a \<open>time_t\<close> to read or write. Calendar dates are those of
  \<open>Calendar\<close>; \<open>tz\<close> is the time zone.

  \<^item> \<open>rtc_set_date_time\<close>: setting the date keeps the time of day, setting the time keeps the
    date, over the whole calendar.
  \<^item> \<open>set_date_order\<close>: setting a date moves the clock forward exactly when the date is later in
    the calendar.
  \<^item> \<open>printtime_text\<close>: the text of a printed time.
\<close>

section \<open>Definitions\<close>

definition SDK_CONTROL_RTC_GET_TIME :: s32 where "SDK_CONTROL_RTC_GET_TIME = 0"
definition SDK_CONTROL_RTC_SET_TIME :: s32 where "SDK_CONTROL_RTC_SET_TIME = 1"

text \<open>\<open>rop_control\<close> gets the command and the \<open>time_t\<close> its argument points to, and returns the latter too.\<close>

record 'd sdk_rtc_ops =
  rop_open :: "'d \<Rightarrow> s32 \<times> 'd"
  rop_close :: "'d \<Rightarrow> s32 \<times> 'd"
  rop_control :: "s32 \<Rightarrow> int \<Rightarrow> 'd \<Rightarrow> s32 \<times> int \<times> 'd"

record 'd sdk_rtc =
  rtc_is_opened :: bool
  rtc_dev :: 'd

definition sdk_rtc_open :: "'d sdk_rtc_ops \<Rightarrow> 'd sdk_rtc \<Rightarrow> s32 \<times> 'd sdk_rtc" where
  "sdk_rtc_open ops rtc =
     (if \<not> rtc_is_opened rtc
      then let rtc = rtc\<lparr>rtc_is_opened := True\<rparr>; (ret, d) = rop_open ops (rtc_dev rtc)
           in (ret, rtc\<lparr>rtc_dev := d\<rparr>)
      else (SDK_OK, rtc))"

definition sdk_rtc_close :: "'d sdk_rtc_ops \<Rightarrow> 'd sdk_rtc \<Rightarrow> s32 \<times> 'd sdk_rtc" where
  "sdk_rtc_close ops rtc =
     (let rtc = rtc\<lparr>rtc_is_opened := False\<rparr>; (ret, d) = rop_close ops (rtc_dev rtc)
      in (ret, rtc\<lparr>rtc_dev := d\<rparr>))"

definition sdk_rtc_control :: "'d sdk_rtc_ops \<Rightarrow> s32 \<Rightarrow> int \<Rightarrow> 'd sdk_rtc \<Rightarrow> s32 \<times> int \<times> 'd sdk_rtc" where
  "sdk_rtc_control ops cmd args rtc =
     (let (ret, args, d) = rop_control ops cmd args (rtc_dev rtc) in (ret, args, rtc\<lparr>rtc_dev := d\<rparr>))"

text \<open>The fields of the broken-down time are of type \<open>int\<close>, the arguments unsigned.\<close>

definition sdk_rtc_set_date ::
  "'d sdk_rtc_ops \<Rightarrow> int \<Rightarrow> u32 \<Rightarrow> u32 \<Rightarrow> u32 \<Rightarrow> 'd sdk_rtc \<Rightarrow> s32 \<times> 'd sdk_rtc" where
  "sdk_rtc_set_date ops tz year month day rtc =
     (let (ret, old_timestamp, rtc) = sdk_rtc_control ops SDK_CONTROL_RTC_GET_TIME 0 rtc
      in if ret \<noteq> SDK_OK then (ret, rtc)
         else let tm_new = localtime_r tz old_timestamp;
                  tm_new = tm_new\<lparr>tm_year := sint (year - 1900), tm_mon := sint (month - 1), tm_mday := sint day\<rparr>;
                  now = mktime tz tm_new;
                  (ret, now, rtc) = sdk_rtc_control ops SDK_CONTROL_RTC_SET_TIME now rtc
              in (ret, rtc))"

definition sdk_rtc_set_time ::
  "'d sdk_rtc_ops \<Rightarrow> int \<Rightarrow> u32 \<Rightarrow> u32 \<Rightarrow> u32 \<Rightarrow> 'd sdk_rtc \<Rightarrow> s32 \<times> 'd sdk_rtc" where
  "sdk_rtc_set_time ops tz hour minute sec rtc =
     (let (ret, old_timestamp, rtc) = sdk_rtc_control ops SDK_CONTROL_RTC_GET_TIME 0 rtc
      in if ret \<noteq> SDK_OK then (ret, rtc)
         else let tm_new = localtime_r tz old_timestamp;
                  tm_new = tm_new\<lparr>tm_hour := sint hour, tm_min := sint minute, tm_sec := sint sec\<rparr>;
                  now = mktime tz tm_new;
                  (ret, now, rtc) = sdk_rtc_control ops SDK_CONTROL_RTC_SET_TIME now rtc
              in (ret, rtc))"

definition sdk_rtc_set_timestamp :: "'d sdk_rtc_ops \<Rightarrow> int \<Rightarrow> 'd sdk_rtc \<Rightarrow> s32 \<times> 'd sdk_rtc" where
  "sdk_rtc_set_timestamp ops timestamp rtc =
     (let (ret, _, rtc) = sdk_rtc_control ops SDK_CONTROL_RTC_SET_TIME timestamp rtc in (ret, rtc))"

definition sdk_rtc_get_timestamp :: "'d sdk_rtc_ops \<Rightarrow> int \<Rightarrow> 'd sdk_rtc \<Rightarrow> s32 \<times> int \<times> 'd sdk_rtc" where
  "sdk_rtc_get_timestamp ops timestamp rtc = sdk_rtc_control ops SDK_CONTROL_RTC_GET_TIME timestamp rtc"

definition PRINTTIME_FORMAT :: string where
  "PRINTTIME_FORMAT = ''time: %04d-%02d-%02d %02d:%02d:%02d'' @ [CHR 0x0A]"

definition sdk_printtime :: "(nat \<Rightarrow> char) \<Rightarrow> int \<Rightarrow> int \<Rightarrow> log_state \<Rightarrow> log_state option" where
  "sdk_printtime any tz t s =
     (let p_tm = localtime_r tz t
      in map_option snd (sdk_printf any (PRINTTIME_FORMAT @ [NUL])
           [VA_int (word_of_int (tm_year p_tm + 1900)), VA_int (word_of_int (tm_mon p_tm + 1)),
            VA_int (word_of_int (tm_mday p_tm)), VA_int (word_of_int (tm_hour p_tm)),
            VA_int (word_of_int (tm_min p_tm)), VA_int (word_of_int (tm_sec p_tm))] s))"

text \<open>
  \<open>time\<close>, with the value its argument points to; \<open>garbage\<close> is what the uninitialised
  \<open>time_dat\<close> contains.
\<close>

definition libc_time :: "'d sdk_rtc_ops \<Rightarrow> int \<Rightarrow> int option \<Rightarrow> 'd sdk_rtc \<Rightarrow> int \<times> int option \<times> 'd sdk_rtc" where
  "libc_time ops garbage timer rtc =
     (case timer of
        Some t \<Rightarrow>
          let (ret, t, rtc) = sdk_rtc_control ops SDK_CONTROL_RTC_SET_TIME t rtc
          in (if ret \<noteq> SDK_OK then 0 else t, Some t, rtc)
      | None \<Rightarrow>
          let (ret, time_dat, rtc) = sdk_rtc_control ops SDK_CONTROL_RTC_GET_TIME garbage rtc
          in (time_dat, None, rtc))"

text \<open>\<open>clock\<close> is the tick count of the board.\<close>

definition libc_clock :: "u32 \<Rightarrow> u32" where
  "libc_clock sdk_hw_get_systick = sdk_hw_get_systick"

section \<open>A clock\<close>

text \<open>
  What a board's clock does, \<open>clock_time\<close> the time it shows: reading gives this time and
  changes nothing, and a successful write sets it.
\<close>

definition clock_device :: "'d sdk_rtc_ops \<Rightarrow> ('d \<Rightarrow> int) \<Rightarrow> bool" where
  "clock_device ops clock_time \<longleftrightarrow>
     (\<forall>t d. rop_control ops SDK_CONTROL_RTC_GET_TIME t d = (SDK_OK, clock_time d, d))
     \<and> (\<forall>t d ret t1 d1. rop_control ops SDK_CONTROL_RTC_SET_TIME t d = (ret, t1, d1) \<and> ret = SDK_OK
          \<longrightarrow> clock_time d1 = t \<and> t1 = t)"

lemma clock_get:
  "clock_device ops clock_time \<Longrightarrow> sdk_rtc_control ops SDK_CONTROL_RTC_GET_TIME t rtc = (SDK_OK, clock_time (rtc_dev rtc), rtc)"
  by (simp add: sdk_rtc_control_def clock_device_def)

lemma clock_set:
  "clock_device ops clock_time \<Longrightarrow> sdk_rtc_control ops SDK_CONTROL_RTC_SET_TIME t rtc = (SDK_OK, t1, rtc1)
   \<Longrightarrow> clock_time (rtc_dev rtc1) = t \<and> t1 = t"
  by (auto simp: sdk_rtc_control_def clock_device_def split: prod.splits)

text \<open>The result of an update of the broken-down time.\<close>

lemma set_date_clock:
  assumes "clock_device ops clock_time" and "sdk_rtc_set_date ops tz year month day rtc = (SDK_OK, rtc1)"
  shows "clock_time (rtc_dev rtc1) = mktime tz ((localtime_r tz (clock_time (rtc_dev rtc)))
    \<lparr>tm_year := sint (year - 1900), tm_mon := sint (month - 1), tm_mday := sint day\<rparr>)"
  using assms by (auto simp: sdk_rtc_set_date_def clock_get Let_def split: prod.splits dest: clock_set)

lemma set_time_clock:
  assumes "clock_device ops clock_time" and "sdk_rtc_set_time ops tz hour minute sec rtc = (SDK_OK, rtc1)"
  shows "clock_time (rtc_dev rtc1) = mktime tz ((localtime_r tz (clock_time (rtc_dev rtc)))
    \<lparr>tm_hour := sint hour, tm_min := sint minute, tm_sec := sint sec\<rparr>)"
  using assms by (auto simp: sdk_rtc_set_time_def clock_get Let_def split: prod.splits dest: clock_set)

section \<open>Properties\<close>

lemma sint_word_of_int: "- (2 ^ 31) \<le> i \<Longrightarrow> i < 2 ^ 31 \<Longrightarrow> sint (word_of_int i :: u32) = i"
  by (simp add: sint_sbintrunc' signed_take_bit_int_eq_self)

lemma sint_minus:
  assumes "unat (x :: u32) < 2 ^ 31" and "k \<le> 2000"
  shows "sint (x - word_of_nat k) = int (unat x) - int k"
proof -
  have "x - word_of_nat k = word_of_int (int (unat x) - int k)" by simp
  moreover have "sint (word_of_int (int n - int k) :: u32) = int n - int k" if "n < 2 ^ 31" for n
    by (rule sint_word_of_int) (use that assms(2) in simp_all)
  ultimately show ?thesis using assms(1) by metis
qed

lemma valid_date:
  assumes "valid_tm b" and "1 \<le> mo" and "mo \<le> 12" and "1 \<le> d" and "int d \<le> days_in_month (int y) (mo - 1)"
  shows "valid_tm (b\<lparr>tm_year := int y - 1900, tm_mon := int mo - 1, tm_mday := int d\<rparr>)"
proof -
  have "nat (int mo - 1) = mo - 1" by simp
  then show ?thesis using assms by (auto simp: valid_tm_def)
qed

lemma valid_time:
  "valid_tm b \<Longrightarrow> h < 24 \<Longrightarrow> m < 60 \<Longrightarrow> s < 60 \<Longrightarrow> valid_tm (b\<lparr>tm_hour := int h, tm_min := int m, tm_sec := int s\<rparr>)"
  by (simp add: valid_tm_def)

lemma days_in_month_le: "m < 12 \<Longrightarrow> days_in_month y m \<le> 31"
  by (auto simp: less_Suc_eq numeral_eq_Suc days_in_month_def)

text \<open>The local time after setting the date; the time of day decides nothing when the date changes.\<close>

lemma set_date_shows:
  assumes clock: "clock_device ops clock_time"
    and year: "unat year < 2 ^ 31" and month: "1 \<le> unat month" "unat month \<le> 12"
    and day: "1 \<le> unat day" "int (unat day) \<le> days_in_month (int (unat year)) (unat month - 1)"
    and date: "sdk_rtc_set_date ops tz year month day rtc = (SDK_OK, rtc1)"
  shows "localtime_r tz (clock_time (rtc_dev rtc1)) = (localtime_r tz (clock_time (rtc_dev rtc)))
      \<lparr>tm_year := int (unat year) - 1900, tm_mon := int (unat month) - 1, tm_mday := int (unat day)\<rparr>"
proof -
  let ?a = "(localtime_r tz (clock_time (rtc_dev rtc)))
      \<lparr>tm_year := int (unat year) - 1900, tm_mon := int (unat month) - 1, tm_mday := int (unat day)\<rparr>"
  have "unat month - 1 < 12" using month by simp
  from order_trans [OF day(2) days_in_month_le [OF this]] have "int (unat day) \<le> int 31" by (simp only: of_nat_numeral)
  then have "unat day \<le> 31" by (simp only: of_nat_le_iff)
  then have d31: "unat day < 2 ^ 31" by simp
  have fields: "sint (year - 1900) = int (unat year) - 1900" "sint (month - 1) = int (unat month) - 1" "sint day = int (unat day)"
    using sint_minus [OF year, of 1900] sint_minus [of month 1] sint_small [OF d31] month by simp_all
  have "valid_tm ?a" by (rule valid_date [OF localtime_valid month day])
  then show ?thesis using set_date_clock [OF clock date] localtime_mktime [of ?a tz] by (simp add: fields)
qed

lemma set_date_order:
  assumes clock: "clock_device ops clock_time"
    and year: "unat year < 2 ^ 31" and month: "1 \<le> unat month" "unat month \<le> 12"
    and day: "1 \<le> unat day" "int (unat day) \<le> days_in_month (int (unat year)) (unat month - 1)"
    and date: "sdk_rtc_set_date ops tz year month day rtc = (SDK_OK, rtc1)"
  defines "a \<equiv> localtime_r tz (clock_time (rtc_dev rtc))"
  shows "clock_time (rtc_dev rtc) < clock_time (rtc_dev rtc1)
    \<longleftrightarrow> (tm_year a + 1900, tm_mon a + 1, tm_mday a) < (int (unat year), int (unat month), int (unat day))"
  using localtime_strict_mono [of tz "clock_time (rtc_dev rtc)" "clock_time (rtc_dev rtc1)"]
  unfolding set_date_shows [OF clock year month day date] a_def [symmetric]
  by (auto simp: less_tm_ext_def tm_key_def)



text \<open>
  The function \<open>time\<close> of the C library stores the time through its argument. This one writes
  the argument to the clock: a call with the address of a variable sets the clock to what the
  variable happened to contain.
\<close>

lemma libc_time_sets_clock:
  assumes "clock_device ops clock_time" and "libc_time ops g (Some t) rtc = (r, t1, rtc1)"
  shows "r = 0 \<and> t1 \<noteq> None \<or> clock_time (rtc_dev rtc1) = t \<and> r = t \<and> t1 = Some t"
  using assms clock_set [OF assms(1)]
  by (cases "sdk_rtc_control ops SDK_CONTROL_RTC_SET_TIME t rtc") (auto simp: libc_time_def split: if_splits)

lemma libc_time_reads_clock:
  "clock_device ops clock_time \<Longrightarrow> libc_time ops g None rtc = (clock_time (rtc_dev rtc), None, rtc)"
  by (simp add: libc_time_def clock_get)

text \<open>A clock that could not be opened counts as open, so that opening it again is never tried.\<close>

lemma open_failed_counts_as_open:
  assumes "\<not> rtc_is_opened rtc" and "rop_open ops (rtc_dev rtc) = (ret, d)" and "ret \<noteq> SDK_OK"
  shows "\<exists>rtc1. sdk_rtc_open ops rtc = (ret, rtc1) \<and> sdk_rtc_open ops rtc1 = (SDK_OK, rtc1)"
  using assms by (simp add: sdk_rtc_open_def)

text \<open>The text of a printed time.\<close>

theorem printtime_text:
  fixes tz t :: int
  defines "a \<equiv> localtime_r tz t"
  assumes "0 \<le> tm_year a + 1900" and "tm_year a + 1900 < 2 ^ 31"
  shows "\<exists>s1. sdk_printtime any tz t s = Some s1 \<and> lg_id s1 = lg_id s
    \<and> console_text (lg_out s1) = console_text (lg_out s) @ ''time: ''
      @ zero_padded 4 (decimal_text (nat (tm_year a + 1900))) @ ''-'' @ zero_padded 2 (decimal_text (nat (tm_mon a + 1)))
      @ ''-'' @ zero_padded 2 (decimal_text (nat (tm_mday a))) @ '' '' @ zero_padded 2 (decimal_text (nat (tm_hour a)))
      @ '':'' @ zero_padded 2 (decimal_text (nat (tm_min a))) @ '':'' @ zero_padded 2 (decimal_text (nat (tm_sec a))) @ [CHR 0x0A]"
proof -
  have va: "valid_tm a" unfolding a_def by (rule localtime_valid)
  then have m: "nat (tm_mon a) < 12" by (auto simp: valid_tm_def)
  have v: "0 \<le> tm_sec a" "tm_sec a < 60" "0 \<le> tm_min a" "tm_min a < 60" "0 \<le> tm_hour a" "tm_hour a < 24"
    "0 \<le> tm_mon a" "tm_mon a < 12" "1 \<le> tm_mday a" "tm_mday a \<le> 31"
    using va days_in_month_le [OF m, of "tm_year a + 1900"] by (simp_all add: valid_tm_def)
  have w: "unat (word_of_int i :: u32) = nat i \<and> nat i < 2 ^ 31" if "0 \<le> i" "i < 2 ^ 31" for i
    using that by (simp add: unsigned_of_int take_bit_int_eq_self)
  define tx where "tx = ''time: '' @ zero_padded 4 (decimal_text (nat (tm_year a + 1900))) @ ''-'' @ zero_padded 2 (decimal_text (nat (tm_mon a + 1)))
      @ ''-'' @ zero_padded 2 (decimal_text (nat (tm_mday a))) @ '' '' @ zero_padded 2 (decimal_text (nat (tm_hour a)))
      @ '':'' @ zero_padded 2 (decimal_text (nat (tm_min a))) @ '':'' @ zero_padded 2 (decimal_text (nat (tm_sec a))) @ [CHR 0x0A]"
  have small: "unat (word_of_int (tm_year a + 1900) :: u32) = nat (tm_year a + 1900) \<and> nat (tm_year a + 1900) < 2 ^ 31"
    "unat (word_of_int (tm_mon a + 1) :: u32) = nat (tm_mon a + 1) \<and> nat (tm_mon a + 1) < 2 ^ 31"
    "unat (word_of_int (tm_mday a) :: u32) = nat (tm_mday a) \<and> nat (tm_mday a) < 2 ^ 31"
    "unat (word_of_int (tm_hour a) :: u32) = nat (tm_hour a) \<and> nat (tm_hour a) < 2 ^ 31"
    "unat (word_of_int (tm_min a) :: u32) = nat (tm_min a) \<and> nat (tm_min a) < 2 ^ 31"
    "unat (word_of_int (tm_sec a) :: u32) = nat (tm_sec a) \<and> nat (tm_sec a) < 2 ^ 31"
    by (rule w, use v assms(2,3) in simp, use v assms(2,3) in simp)+
  have fmt: "format_text PRINTTIME_FORMAT [VA_int y, VA_int mo, VA_int d, VA_int h, VA_int mi, VA_int se] 0
      = Some (''time: '' @ zero_padded 4 (decimal_text (unat y)) @ ''-'' @ zero_padded 2 (decimal_text (unat mo))
      @ ''-'' @ zero_padded 2 (decimal_text (unat d)) @ '' '' @ zero_padded 2 (decimal_text (unat h))
      @ '':'' @ zero_padded 2 (decimal_text (unat mi)) @ '':'' @ zero_padded 2 (decimal_text (unat se)) @ [CHR 0x0A], [])"
    if "unat y < 2 ^ 31" "unat mo < 2 ^ 31" "unat d < 2 ^ 31" "unat h < 2 ^ 31" "unat mi < 2 ^ 31" "unat se < 2 ^ 31" for y mo d h mi se
    using that by (simp add: PRINTTIME_FORMAT_def)
  have f: "format_text PRINTTIME_FORMAT [VA_int (word_of_int (tm_year a + 1900)), VA_int (word_of_int (tm_mon a + 1)),
      VA_int (word_of_int (tm_mday a)), VA_int (word_of_int (tm_hour a)), VA_int (word_of_int (tm_min a)), VA_int (word_of_int (tm_sec a))] 0
      = Some (tx, [])"
    unfolding tx_def using small by (subst fmt) (simp_all only:)
  have pad: "NUL \<notin> set (zero_padded k (decimal_text n))" for k n
    using decimal_text_props(2) [of n] by (auto simp: zero_padded_def)
  have "NUL \<notin> set tx" using pad by (simp add: tx_def)
  moreover have "length tx < 256"
  proof -
    have "length (zero_padded k (decimal_text (nat i))) \<le> 10" if "k \<le> 10" "nat i < 2 ^ 31" for k i
      by (rule zero_padded_length) (use that in simp_all)
    then have "length (zero_padded 4 (decimal_text (nat (tm_year a + 1900)))) \<le> 10" "length (zero_padded 2 (decimal_text (nat (tm_mon a + 1)))) \<le> 10"
      "length (zero_padded 2 (decimal_text (nat (tm_mday a)))) \<le> 10" "length (zero_padded 2 (decimal_text (nat (tm_hour a)))) \<le> 10"
      "length (zero_padded 2 (decimal_text (nat (tm_min a)))) \<le> 10" "length (zero_padded 2 (decimal_text (nat (tm_sec a)))) \<le> 10"
      using small by simp_all
    then show ?thesis by (simp add: tx_def)
  qed
  moreover have "vsnprintf (map any [0..<256]) (word_of_nat 256) (PRINTTIME_FORMAT @ NUL # [])
      [VA_int (word_of_int (tm_year a + 1900)), VA_int (word_of_int (tm_mon a + 1)),
       VA_int (word_of_int (tm_mday a)), VA_int (word_of_int (tm_hour a)), VA_int (word_of_int (tm_min a)), VA_int (word_of_int (tm_sec a))]
      = Some (word_of_nat (length tx), tx @ NUL # drop (Suc (length tx)) (map any [0..<256]), [])"
    using vsnprintf_format [OF f, of 256 "map any [0..<256]" "[]"] calculation(2) by (simp add: PRINTTIME_FORMAT_def min_def)
  ultimately show ?thesis
    unfolding tx_def [symmetric]
    by (simp add: sdk_printtime_def sdk_printf_def SDK_LOG_BUF_LEN_def sdk_hw_console_output_def a_def [symmetric] Let_def)
qed

end
