(* ===== verification/Board_Drivers.thy ===== *)
theory Board_Drivers
  imports Prelude
begin

text \<open>
  The thin drivers on top of a board: converter (sdk_adc.c), watchdog (sdk_watchdog.c),
  pins (sdk_gpio.c) and the delay of sdk_common.c, all under src/src/components/drivers/.

  The operations of the board are arguments and work on a state of their own, a null function
  pointer is \<open>None\<close>; so is a null device. Calling a null function pointer that the driver does
  not check is undefined and the result \<open>None\<close>.

  \<^item> \<open>adc_tracks_board\<close>: the converter counts as open exactly after a successful opening, an
    operation that fails or is missing changes neither the flag nor the value read.
  \<^item> \<open>ms_delay_microseconds\<close>: a delay of \<open>n\<close> milliseconds is \<open>n\<close> delays of 1000 microseconds.
\<close>

section \<open>Converter\<close>

record 'd sdk_adc_ops =
  aop_open :: "('d \<Rightarrow> s32 \<times> 'd) option"
  aop_close :: "('d \<Rightarrow> s32 \<times> 'd) option"
  aop_read :: "(u32 \<Rightarrow> u32 \<Rightarrow> 'd \<Rightarrow> s32 \<times> u32 \<times> 'd) option"
  aop_control :: "(s32 \<Rightarrow> u32 option \<Rightarrow> 'd \<Rightarrow> s32 \<times> u32 option \<times> 'd) option"

record 'd sdk_adc =
  adc_is_opened :: bool
  adc_ops :: "'d sdk_adc_ops"
  adc_dev :: 'd

definition sdk_adc_open :: "'d sdk_adc option \<Rightarrow> s32 \<times> 'd sdk_adc option" where
  "sdk_adc_open adc =
     (case adc of None \<Rightarrow> (- SDK_E_INVALID, adc)
      | Some a \<Rightarrow>
          (case aop_open (adc_ops a) of None \<Rightarrow> (- SDK_E_INVALID, adc)
           | Some f \<Rightarrow>
               let (ret, d) = f (adc_dev a);
                   a = a\<lparr>adc_dev := d\<rparr>
               in (ret, Some (if ret = SDK_OK then a\<lparr>adc_is_opened := True\<rparr> else a))))"

definition sdk_adc_close :: "'d sdk_adc option \<Rightarrow> s32 \<times> 'd sdk_adc option" where
  "sdk_adc_close adc =
     (case adc of None \<Rightarrow> (- SDK_E_INVALID, adc)
      | Some a \<Rightarrow>
          (case aop_close (adc_ops a) of None \<Rightarrow> (- SDK_E_INVALID, adc)
           | Some f \<Rightarrow>
               let (ret, d) = f (adc_dev a);
                   a = a\<lparr>adc_dev := d\<rparr>
               in (ret, Some (if ret = SDK_OK then a\<lparr>adc_is_opened := False\<rparr> else a))))"

text \<open>\<open>value\<close> is the variable the last argument points to.\<close>

definition sdk_adc_read :: "'d sdk_adc option \<Rightarrow> u32 \<Rightarrow> u32 \<Rightarrow> s32 \<times> u32 \<times> 'd sdk_adc option" where
  "sdk_adc_read adc channel value =
     (case adc of None \<Rightarrow> (- SDK_E_INVALID, value, adc)
      | Some a \<Rightarrow>
          (case aop_read (adc_ops a) of None \<Rightarrow> (- SDK_E_INVALID, value, adc)
           | Some f \<Rightarrow>
               let (ret, val, d) = f channel 0 (adc_dev a);
                   a = a\<lparr>adc_dev := d\<rparr>
               in (ret, if ret = SDK_OK then val else value, Some a)))"

definition sdk_adc_control ::
  "'d sdk_adc option \<Rightarrow> s32 \<Rightarrow> u32 option \<Rightarrow> s32 \<times> u32 option \<times> 'd sdk_adc option" where
  "sdk_adc_control adc cmd args =
     (case adc of None \<Rightarrow> (- SDK_E_INVALID, args, adc)
      | Some a \<Rightarrow>
          (case aop_control (adc_ops a) of None \<Rightarrow> (- SDK_E_INVALID, args, adc)
           | Some f \<Rightarrow>
               let (ret, args, d) = f cmd args (adc_dev a)
               in (ret, args, Some (a\<lparr>adc_dev := d\<rparr>))))"

section \<open>Watchdog\<close>

definition SDK_CONTROL_WDT_STOP :: s32 where "SDK_CONTROL_WDT_STOP = 6"

record 'd sdk_watchdog_ops =
  wop_open :: "(u32 \<Rightarrow> 'd \<Rightarrow> s32 \<times> 'd) option"
  wop_control :: "(s32 \<Rightarrow> u32 option \<Rightarrow> 'd \<Rightarrow> s32 \<times> 'd) option"

record 'd sdk_watchdog =
  wdt_is_opened :: bool
  wdt_ops :: "'d sdk_watchdog_ops"
  wdt_dev :: 'd

definition sdk_watchdog_open :: "'d sdk_watchdog \<Rightarrow> u32 \<Rightarrow> s32 \<times> 'd sdk_watchdog" where
  "sdk_watchdog_open wdt timeout_s =
     (case wop_open (wdt_ops wdt) of
        Some f \<Rightarrow> let (ret, d) = f timeout_s (wdt_dev wdt) in (ret, wdt\<lparr>wdt_dev := d\<rparr>)
      | None \<Rightarrow> (- SDK_ERROR, wdt))"

definition sdk_watchdog_control ::
  "'d sdk_watchdog \<Rightarrow> s32 \<Rightarrow> u32 option \<Rightarrow> (s32 \<times> 'd sdk_watchdog) option" where
  "sdk_watchdog_control wdt cmd args = do {
     f \<leftarrow> wop_control (wdt_ops wdt);
     let (ret, d) = f cmd args (wdt_dev wdt);
     Some (ret, wdt\<lparr>wdt_dev := d\<rparr>)
   }"

text \<open>The warning in the log is left out.\<close>

definition sdk_watchdog_close :: "'d sdk_watchdog \<Rightarrow> (s32 \<times> 'd sdk_watchdog) option" where
  "sdk_watchdog_close wdt = do {
     f \<leftarrow> wop_control (wdt_ops wdt);
     let (ret, d) = f SDK_CONTROL_WDT_STOP None (wdt_dev wdt);
     let wdt = wdt\<lparr>wdt_dev := d\<rparr>;
     if ret \<noteq> SDK_OK then Some (- SDK_ERROR, wdt) else Some (SDK_OK, wdt)
   }"

section \<open>Pins\<close>

record 'd sdk_gpio_ops =
  gop_mode :: "s32 \<Rightarrow> s32 \<Rightarrow> 'd \<Rightarrow> 'd"
  gop_write :: "s32 \<Rightarrow> s32 \<Rightarrow> 'd \<Rightarrow> 'd"
  gop_read :: "s32 \<Rightarrow> 'd \<Rightarrow> s32 \<times> 'd"

definition sdk_pin_mode :: "'d sdk_gpio_ops \<Rightarrow> s32 \<Rightarrow> s32 \<Rightarrow> 'd \<Rightarrow> 'd" where
  "sdk_pin_mode ops pin mode d = gop_mode ops pin mode d"

definition sdk_gpio_write :: "'d sdk_gpio_ops \<Rightarrow> s32 \<Rightarrow> s32 \<Rightarrow> 'd \<Rightarrow> 'd" where
  "sdk_gpio_write ops pin value d = gop_write ops pin value d"

definition sdk_gpio_read :: "'d sdk_gpio_ops \<Rightarrow> s32 \<Rightarrow> 'd \<Rightarrow> s32 \<times> 'd" where
  "sdk_gpio_read ops pin d = gop_read ops pin d"

section \<open>Delay\<close>

lemma unat_next:
  fixes i n :: u32
  assumes "i < n"
  shows "unat i < unat n \<and> unat (i + 1) = Suc (unat i)"
proof -
  have lt: "unat i < unat n" using assms by (simp add: word_less_nat_alt)
  then have "Suc (unat i) \<le> unat n" by simp
  from le_less_trans [OF this unsigned_less] show ?thesis using lt by (simp add: unat_word_ariths)
qed

function ms_delay_loop :: "(u32 \<Rightarrow> 'd \<Rightarrow> 'd) \<Rightarrow> u32 \<Rightarrow> u32 \<Rightarrow> 'd \<Rightarrow> 'd" where
  "ms_delay_loop us_delay ms i d = (if i < ms then ms_delay_loop us_delay ms (i + 1) (us_delay 1000 d) else d)"
  by pat_completeness auto
termination
proof (relation "measure (\<lambda>(us_delay, ms, i, d). unat ms - unat i)")
  fix us_delay :: "u32 \<Rightarrow> 'd \<Rightarrow> 'd" and ms i :: u32 and d :: 'd
  assume "i < ms"
  from unat_next [OF this] have "unat ms - unat (i + 1) < unat ms - unat i" by linarith
  then show "((us_delay, ms, i + 1, us_delay 1000 d), us_delay, ms, i, d) \<in> measure (\<lambda>(us_delay, ms, i, d). unat ms - unat i)"
    by (simp only: in_measure prod.case)
qed simp

declare ms_delay_loop.simps [simp del]

definition sdk_hw_ms_delay :: "(u32 \<Rightarrow> 'd \<Rightarrow> 'd) \<Rightarrow> u32 \<Rightarrow> 'd \<Rightarrow> 'd" where
  "sdk_hw_ms_delay us_delay ms d = ms_delay_loop us_delay ms 0 d"

section \<open>Properties\<close>

lemma adc_tracks_board:
  assumes "sdk_adc_open (Some a) = (ret, adc1)" and "sdk_adc_close (Some a) = (ret2, adc2)"
  shows "\<exists>a1 a2. adc1 = Some a1 \<and> adc2 = Some a2
    \<and> adc_is_opened a1 = (ret = SDK_OK \<and> aop_open (adc_ops a) \<noteq> None \<or> adc_is_opened a)
    \<and> adc_is_opened a2 = (\<not> (ret2 = SDK_OK \<and> aop_close (adc_ops a) \<noteq> None) \<and> adc_is_opened a)
    \<and> adc_ops a1 = adc_ops a \<and> adc_ops a2 = adc_ops a"
  using assms by (auto simp: sdk_adc_open_def sdk_adc_close_def Let_def split: option.splits prod.splits if_splits)

lemma adc_failed_read_keeps_value:
  "sdk_adc_read adc channel value = (ret, v, adc1) \<Longrightarrow> ret \<noteq> SDK_OK \<Longrightarrow> v = value"
  by (auto simp: sdk_adc_read_def Let_def split: option.splits prod.splits if_splits)

lemma adc_null_device:
  "sdk_adc_open None = (- SDK_E_INVALID, None)" "sdk_adc_close None = (- SDK_E_INVALID, None)"
  "sdk_adc_read None channel value = (- SDK_E_INVALID, value, None)"
  "sdk_adc_control None cmd args = (- SDK_E_INVALID, args, None)"
  by (simp_all add: sdk_adc_open_def sdk_adc_close_def sdk_adc_read_def sdk_adc_control_def)

text \<open>Closing a watchdog whose board has no control function calls a null pointer.\<close>

lemma watchdog_close_needs_control: "sdk_watchdog_close wdt = None \<longleftrightarrow> wop_control (wdt_ops wdt) = None"
  by (cases "wop_control (wdt_ops wdt)") (simp_all add: sdk_watchdog_close_def Let_def split: prod.splits)

lemma ms_delay_microseconds: "sdk_hw_ms_delay us_delay ms d = (us_delay 1000 ^^ unat ms) d"
proof -
  have "ms_delay_loop us_delay ms i d = (us_delay 1000 ^^ (unat ms - unat i)) d" for i d
  proof (induction us_delay ms i d rule: ms_delay_loop.induct)
    case (1 us_delay ms i d)
    show ?case
    proof (cases "i < ms")
      case True
      then have n: "unat ms - unat i = Suc (unat ms - unat (i + 1))"
        using unat_next [of i ms] by linarith
      show ?thesis
        unfolding n by (subst ms_delay_loop.simps) (simp add: True 1 [OF True] funpow_Suc_right del: funpow.simps)
    next
      case False
      then have "unat ms - unat i = 0" by (simp add: word_less_nat_alt)
      then show ?thesis using False by (subst ms_delay_loop.simps) simp
    qed
  qed
  then show ?thesis by (simp add: sdk_hw_ms_delay_def)
qed

end
