(* ===== verification/Crypto.thy ===== *)
theory Crypto
  imports Prelude
begin

text \<open>
  Encryption of messages, src/src/components/crypto/sdk_crypto.c, with the cipher block
  chaining it calls, cbc_mode.c of the TinyCrypt under src/src/3rdparty/.

  The block cipher AES itself is an argument: its two key schedules and the encryption and
  decryption of a block of 16 bytes. The three static buffers of the file are the state.
  A null pointer is \<open>None\<close> as an argument; a result \<open>None\<close> is an access behind an array.

  \<^item> \<open>crypto_roundtrip\<close>: what was encrypted is decrypted to the message, followed by bytes
    an earlier message left in the buffer; a message of exactly 512 bytes is written behind
    the buffer.
\<close>

section \<open>Definitions\<close>

unbundle bit_operations_syntax

record 'k aes =
  aes_enc_key :: "u8 list \<Rightarrow> 'k"
  aes_dec_key :: "u8 list \<Rightarrow> 'k"
  aes_encrypt :: "'k \<Rightarrow> u8 list \<Rightarrow> u8 list"
  aes_decrypt :: "'k \<Rightarrow> u8 list \<Rightarrow> u8 list"

definition TC_AES_BLOCK_SIZE :: nat where "TC_AES_BLOCK_SIZE = 16"
definition TC_CRYPTO_SUCCESS :: s32 where "TC_CRYPTO_SUCCESS = 1"
definition TC_CRYPTO_FAIL :: s32 where "TC_CRYPTO_FAIL = 0"

text \<open>The loop of the encryption, with \<open>k\<close> bytes left from \<open>n\<close> on.\<close>

fun cbc_enc_loop ::
  "'k aes \<Rightarrow> 'k \<Rightarrow> u8 list \<Rightarrow> nat \<Rightarrow> nat \<Rightarrow> nat \<Rightarrow> u8 list \<Rightarrow> u8 list \<Rightarrow> nat \<Rightarrow> u8 list option" where
  "cbc_enc_loop A sched inp n 0 m buffer out p = Some out"
| "cbc_enc_loop A sched inp n (Suc k) m buffer out p = do {
     x \<leftarrow> load inp n;
     b \<leftarrow> load buffer m;
     buffer \<leftarrow> store buffer m (b XOR x);
     if Suc m = TC_AES_BLOCK_SIZE
     then do {
       let buffer = aes_encrypt A sched buffer;
       out \<leftarrow> write_bytes out p buffer;
       cbc_enc_loop A sched inp (Suc n) k 0 buffer out (p + TC_AES_BLOCK_SIZE)
     }
     else cbc_enc_loop A sched inp (Suc n) k (Suc m) buffer out p
   }"

definition tc_cbc_mode_encrypt ::
  "'k aes \<Rightarrow> u8 list \<Rightarrow> nat \<Rightarrow> u8 list \<Rightarrow> nat \<Rightarrow> u8 list \<Rightarrow> 'k \<Rightarrow> (s32 \<times> u8 list) option" where
  "tc_cbc_mode_encrypt A out outlen inp inlen iv sched =
     (if inlen = 0 \<or> outlen = 0 \<or> inlen mod TC_AES_BLOCK_SIZE \<noteq> 0 \<or> outlen mod TC_AES_BLOCK_SIZE \<noteq> 0
         \<or> outlen \<noteq> inlen + TC_AES_BLOCK_SIZE
      then Some (TC_CRYPTO_FAIL, out)
      else do {
        buffer \<leftarrow> read_bytes iv 0 TC_AES_BLOCK_SIZE;
        out \<leftarrow> copy_bytes out 0 iv 0 TC_AES_BLOCK_SIZE;
        out \<leftarrow> cbc_enc_loop A sched inp 0 inlen 0 buffer out TC_AES_BLOCK_SIZE;
        Some (TC_CRYPTO_SUCCESS, out)
      })"

text \<open>
  The loop of the decryption. The initialisation vector and the cipher text lie in the same
  array \<open>mem\<close>, so that \<open>p\<close> runs over both; \<open>i\<close> is the place of the next block.
\<close>

fun cbc_dec_loop ::
  "'k aes \<Rightarrow> 'k \<Rightarrow> u8 list \<Rightarrow> nat \<Rightarrow> nat \<Rightarrow> nat \<Rightarrow> nat \<Rightarrow> nat \<Rightarrow> u8 list \<Rightarrow> u8 list \<Rightarrow> u8 list option" where
  "cbc_dec_loop A sched mem i p n 0 m buffer out = Some out"
| "cbc_dec_loop A sched mem i p n (Suc k) m buffer out = do {
     (buffer, i, m) \<leftarrow>
       (if n mod TC_AES_BLOCK_SIZE = 0
        then do { c \<leftarrow> read_bytes mem i TC_AES_BLOCK_SIZE;
                  Some (aes_decrypt A sched c, i + TC_AES_BLOCK_SIZE, 0) }
        else Some (buffer, i, m));
     b \<leftarrow> load buffer m;
     x \<leftarrow> load mem p;
     out \<leftarrow> store out n (b XOR x);
     cbc_dec_loop A sched mem i (Suc p) (Suc n) k (Suc m) buffer out
   }"

definition tc_cbc_mode_decrypt ::
  "'k aes \<Rightarrow> (nat \<Rightarrow> u8) \<Rightarrow> u8 list \<Rightarrow> nat \<Rightarrow> u8 list \<Rightarrow> nat \<Rightarrow> nat \<Rightarrow> nat \<Rightarrow> 'k \<Rightarrow> (s32 \<times> u8 list) option" where
  "tc_cbc_mode_decrypt A any out outlen mem i inlen iv sched =
     (if inlen = 0 \<or> outlen = 0 \<or> inlen mod TC_AES_BLOCK_SIZE \<noteq> 0 \<or> outlen mod TC_AES_BLOCK_SIZE \<noteq> 0
         \<or> outlen \<noteq> inlen
      then Some (TC_CRYPTO_FAIL, out)
      else do {
        out \<leftarrow> cbc_dec_loop A sched mem i iv 0 outlen 0 (map any [0..<TC_AES_BLOCK_SIZE]) out;
        Some (TC_CRYPTO_SUCCESS, out)
      })"

record crypto_buffers =
  encrypt_buff :: "u8 list"
  fill_buff :: "u8 list"
  encrypt_data :: "u8 list"

definition crypto_reset :: crypto_buffers where
  "crypto_reset = \<lparr>encrypt_buff = replicate (512 + TC_AES_BLOCK_SIZE) 0, fill_buff = replicate 512 0,
     encrypt_data = replicate (512 + TC_AES_BLOCK_SIZE) 0\<rparr>"

text \<open>\<open>outlen\<close> is the variable the pointer of this name points to. The log output is left out.\<close>

definition sdk_crypto_encrypt_cbc ::
  "'k aes \<Rightarrow> u8 list option \<Rightarrow> s32 \<Rightarrow> u8 list option \<Rightarrow> s32 option \<Rightarrow> u8 list option \<Rightarrow> u8 list option
     \<Rightarrow> crypto_buffers \<Rightarrow> (s32 \<times> u8 list option \<times> s32 option \<times> crypto_buffers) option" where
  "sdk_crypto_encrypt_cbc A inp inlen out outlen iv key s =
     (case (inp, out, iv, key, outlen) of
        (Some inp, Some out, Some iv, Some key, Some len) \<Rightarrow>
          if unat inlen > length (fill_buff s) then Some (0, Some out, Some len, s)
          else do {
            let fill = 16 - unat inlen mod 16;
            fb \<leftarrow> copy_bytes (fill_buff s) 0 inp 0 (unat inlen);
            let s = s\<lparr>fill_buff := fb\<rparr>;
            let enc_len = unat inlen + fill;
            (ret, eb) \<leftarrow> tc_cbc_mode_encrypt A (encrypt_buff s) (enc_len + TC_AES_BLOCK_SIZE) fb enc_len iv (aes_enc_key A key);
            let s = s\<lparr>encrypt_buff := eb\<rparr>;
            if ret = 1
            then do {
              out \<leftarrow> copy_bytes out 0 eb TC_AES_BLOCK_SIZE enc_len;
              Some (ret, Some out, Some (word_of_nat enc_len), s)
            }
            else Some (ret, Some out, Some len, s)
          }
      | _ \<Rightarrow> Some (0, out, outlen, s))"

definition sdk_crypto_decrypt_cbc ::
  "'k aes \<Rightarrow> (nat \<Rightarrow> u8) \<Rightarrow> u8 list option \<Rightarrow> s32 \<Rightarrow> u8 list option \<Rightarrow> u8 list option \<Rightarrow> u8 list option
     \<Rightarrow> crypto_buffers \<Rightarrow> (s32 \<times> u8 list option \<times> crypto_buffers) option" where
  "sdk_crypto_decrypt_cbc A any inp inlen out iv key s =
     (case (inp, out, iv, key) of
        (Some inp, Some out, Some iv, Some key) \<Rightarrow>
          if unat inlen > length (encrypt_data s) - TC_AES_BLOCK_SIZE then Some (0, Some out, s)
          else do {
            ed \<leftarrow> copy_bytes (encrypt_data s) 0 iv 0 TC_AES_BLOCK_SIZE;
            ed \<leftarrow> copy_bytes ed TC_AES_BLOCK_SIZE inp 0 (unat inlen);
            (ret, out) \<leftarrow> tc_cbc_mode_decrypt A any out (unat inlen) ed TC_AES_BLOCK_SIZE (unat inlen) 0 (aes_dec_key A key);
            Some (ret, Some out, s\<lparr>encrypt_data := ed\<rparr>)
          }
      | _ \<Rightarrow> Some (0, out, s))"

section \<open>Chaining\<close>

definition xors :: "u8 list \<Rightarrow> u8 list \<Rightarrow> u8 list" where
  "xors a b = map2 (XOR) a b"

fun cbc :: "(u8 list \<Rightarrow> u8 list) \<Rightarrow> u8 list \<Rightarrow> nat \<Rightarrow> u8 list \<Rightarrow> u8 list" where
  "cbc E prev 0 msg = []"
| "cbc E prev (Suc b) msg = (let c = E (xors prev (take 16 msg)) in c @ cbc E c b (drop 16 msg))"

lemma length_xors [simp]: "length (xors a b) = min (length a) (length b)"
  by (simp add: xors_def)

lemma xors_Cons: "xors (x # a) (y # b) = (x XOR y) # xors a b"
  by (simp add: xors_def)

lemma xors_cancel: "length a = length b \<Longrightarrow> xors (xors a b) a = b"
proof (induction a b rule: list_induct2)
  case (Cons x xs y ys)
  have "(x XOR y) XOR x = y" by (simp add: xor.commute xor.left_commute)
  then show ?case using Cons by (simp add: xors_def)
qed (simp add: xors_def)

lemma length_cbc:
  "(\<And>b. length b = 16 \<Longrightarrow> length (E b) = 16) \<Longrightarrow> length prev = 16 \<Longrightarrow> 16 * n \<le> length msg \<Longrightarrow>
   length (cbc E prev n msg) = 16 * n"
  by (induction E prev n msg rule: cbc.induct) (simp_all add: Let_def)

lemma cbc_prefix: "16 * n \<le> length msg \<Longrightarrow> cbc E prev n msg = cbc E prev n (take (16 * n) msg)"
proof (induction n arbitrary: prev msg)
  case (Suc n)
  have "cbc E p n (drop 16 msg) = cbc E p n (take (16 * n) (drop 16 msg))" for p
    by (rule Suc.IH) (use Suc.prems in simp)
  then show ?case by (simp only: cbc.simps drop_take take_take) (simp add: Let_def min_def)
qed simp

text \<open>The block buffer when \<open>d\<close> bytes of \<open>x\<close> have been mixed in.\<close>

definition mixed :: "u8 list \<Rightarrow> u8 list \<Rightarrow> nat \<Rightarrow> u8 list" where
  "mixed buf x d = xors (take d buf) (take d x) @ drop d buf"

lemma mixed_0 [simp]: "mixed buf x 0 = buf"
  by (simp add: mixed_def xors_def)

lemma length_mixed [simp]: "d \<le> length x \<Longrightarrow> length (mixed buf x d) = length buf"
  by (simp add: mixed_def)

lemma mixed_all: "length buf = n \<Longrightarrow> mixed buf x n = xors buf (take n x)"
  by (simp add: mixed_def)

lemma mixed_step:
  assumes "d < length buf" and "d < length x"
  shows "mixed buf x d ! d = buf ! d"
    and "(mixed buf x d)[d := buf ! d XOR x ! d] = mixed buf x (Suc d)"
proof -
  have l: "length (xors (take d buf) (take d x)) = d" using assms by simp
  have d: "drop d buf = buf ! d # drop (Suc d) buf" using assms by (simp add: Cons_nth_drop_Suc)
  show "mixed buf x d ! d = buf ! d" using l d by (simp add: mixed_def nth_append)
  have "xors (take (Suc d) buf) (take (Suc d) x) = xors (take d buf) (take d x) @ [buf ! d XOR x ! d]"
    using assms by (simp add: xors_def take_Suc_conv_app_nth)
  then show "(mixed buf x d)[d := buf ! d XOR x ! d] = mixed buf x (Suc d)"
    using l d by (simp add: mixed_def list_update_append)
qed

lemma enc_steps:
  assumes "length buf = 16" and "d < 16" and "n + d \<le> length inp"
  shows "cbc_enc_loop A s inp n (d + k) 0 buf out p =
    cbc_enc_loop A s inp (n + d) k d (mixed buf (drop n inp) d) out p"
  using assms(2,3)
proof (induction d arbitrary: k)
  case (Suc d)
  have b: "mixed buf (drop n inp) d ! d = buf ! d"
    "(mixed buf (drop n inp) d)[d := buf ! d XOR inp ! (n + d)] = mixed buf (drop n inp) (Suc d)"
    using mixed_step [of d buf "drop n inp"] Suc.prems assms(1) by simp_all
  have "cbc_enc_loop A s inp n (d + Suc k) 0 buf out p =
    cbc_enc_loop A s inp (n + d) (Suc k) d (mixed buf (drop n inp) d) out p"
    by (rule Suc.IH) (use Suc.prems in simp_all)
  also have "\<dots> = cbc_enc_loop A s inp (n + Suc d) k (Suc d) (mixed buf (drop n inp) (Suc d)) out p"
    using Suc.prems assms(1) b by (simp add: load_in store_in TC_AES_BLOCK_SIZE_def)
  finally show ?case by (simp only: add_Suc_shift)
qed simp

lemma enc_block:
  assumes "length buf = 16" and "n + 16 \<le> length inp"
  shows "cbc_enc_loop A s inp n (16 + k) 0 buf out p =
    (let B = aes_encrypt A s (xors buf (take 16 (drop n inp)))
     in do { out \<leftarrow> write_bytes out p B; cbc_enc_loop A s inp (n + 16) k 0 B out (p + 16) })"
proof -
  have b: "mixed buf (drop n inp) 15 ! 15 = buf ! 15"
    "(mixed buf (drop n inp) 15)[15 := buf ! 15 XOR inp ! (n + 15)] = xors buf (take 16 (drop n inp))"
    using mixed_step [of 15 buf "drop n inp"] mixed_all [of buf 16 "drop n inp"] assms by simp_all
  have "cbc_enc_loop A s inp n (15 + Suc k) 0 buf out p =
    cbc_enc_loop A s inp (n + 15) (Suc k) 15 (mixed buf (drop n inp) 15) out p"
    using enc_steps [of buf 15 n inp A s "Suc k"] assms by simp
  then show ?thesis using assms b
    by (simp add: load_in store_in TC_AES_BLOCK_SIZE_def Let_def add.commute)
qed

text \<open>The loop writes the chained blocks and leaves what lies before and behind them.\<close>

lemma enc_loop_cbc:
  assumes "\<And>b. length b = 16 \<Longrightarrow> length (aes_encrypt A s b) = 16"
    and "length buf = 16" and "n + 16 * b \<le> length inp" and "p + 16 * b \<le> length out"
  shows "cbc_enc_loop A s inp n (16 * b) 0 buf out p =
    Some (take p out @ cbc (aes_encrypt A s) buf b (drop n inp) @ drop (p + 16 * b) out)"
  using assms(2-4)
proof (induction b arbitrary: buf n p out)
  case (Suc b)
  define B where "B = aes_encrypt A s (xors buf (take 16 (drop n inp)))"
  have B: "length B = 16" using assms(1) Suc.prems by (simp add: B_def)
  have "cbc_enc_loop A s inp n (16 * Suc b) 0 buf out p =
    do { out \<leftarrow> write_bytes out p B; cbc_enc_loop A s inp (n + 16) (16 * b) 0 B out (p + 16) }"
    using enc_block [of buf n inp A s "16 * b" out p] Suc.prems by (simp add: B_def Let_def)
  also have "\<dots> = cbc_enc_loop A s inp (n + 16) (16 * b) 0 B (take p out @ B @ drop (p + 16) out) (p + 16)"
    using Suc.prems B by (simp add: write_bytes_in)
  also have "\<dots> = Some (take (p + 16) (take p out @ B @ drop (p + 16) out)
      @ cbc (aes_encrypt A s) B b (drop (n + 16) inp) @ drop (p + 16 + 16 * b) (take p out @ B @ drop (p + 16) out))"
    by (rule Suc.IH) (use Suc.prems B in simp_all)
  finally show ?case using Suc.prems B
    by (simp add: B_def [symmetric] Let_def add.commute add.left_commute add.assoc)
qed simp

text \<open>Up to the byte \<open>d\<close> of a block, whose decryption is \<open>C\<close>.\<close>

lemma dec_steps:
  assumes C: "C = aes_decrypt A s (take 16 (drop i mem))" "length C = 16"
    and "i + 16 \<le> length mem" and "n mod 16 = 0"
    and "d < 16" and "p + Suc d \<le> length mem" and "n + Suc d \<le> length out"
  shows "cbc_dec_loop A s mem i p n (Suc d + k) m buf out =
    cbc_dec_loop A s mem (i + 16) (p + Suc d) (n + Suc d) k (Suc d) C
      (take n out @ xors (take (Suc d) C) (take (Suc d) (drop p mem)) @ drop (n + Suc d) out)"
  using assms(5-)
proof (induction d arbitrary: k)
  case 0
  have "xors (take (Suc 0) C) (take (Suc 0) (drop p mem)) = [C ! 0 XOR mem ! p]"
    using 0 C(2) by (simp add: xors_def take_Suc_conv_app_nth)
  moreover have "out[n := v] = take n out @ v # drop (Suc n) out" for v
    using 0 by (simp add: upd_conv_take_nth_drop)
  ultimately show ?case using 0 assms(3,4) C
    by (simp add: load_in store_in read_bytes_in TC_AES_BLOCK_SIZE_def)
next
  case (Suc d)
  let ?x = "\<lambda>d. xors (take (Suc d) C) (take (Suc d) (drop p mem))"
  have n: "(n + Suc d) mod 16 \<noteq> 0" using assms(4) Suc.prems(1) by presburger
  have x: "?x (Suc d) = ?x d @ [C ! Suc d XOR mem ! (p + Suc d)]" and l: "length (?x d) = Suc d"
    using Suc.prems C(2) by (simp_all add: xors_def take_Suc_conv_app_nth)
  have o: "drop (n + Suc d) out = out ! (n + Suc d) # drop (Suc (n + Suc d)) out"
    using Suc.prems by (simp add: Cons_nth_drop_Suc)
  have "cbc_dec_loop A s mem i p n (Suc d + Suc k) m buf out =
    cbc_dec_loop A s mem (i + 16) (p + Suc d) (n + Suc d) (Suc k) (Suc d) C (take n out @ ?x d @ drop (n + Suc d) out)"
    by (rule Suc.IH) (use Suc.prems in simp_all)
  also have "\<dots> = cbc_dec_loop A s mem (i + 16) (p + Suc (Suc d)) (n + Suc (Suc d)) k (Suc (Suc d)) C
      (take n out @ ?x (Suc d) @ drop (n + Suc (Suc d)) out)"
    using Suc.prems C(2) n l unfolding x o
    by (simp add: load_in store_in TC_AES_BLOCK_SIZE_def list_update_append )
  finally show ?case by (simp only: add_Suc_shift)
qed

fun cbc_inv :: "(u8 list \<Rightarrow> u8 list) \<Rightarrow> u8 list \<Rightarrow> nat \<Rightarrow> u8 list \<Rightarrow> u8 list" where
  "cbc_inv D prev 0 c = []"
| "cbc_inv D prev (Suc b) c = xors (D (take 16 c)) prev @ cbc_inv D (take 16 c) b (drop 16 c)"

text \<open>The loop of the decryption: the block before lies 16 bytes ahead of the cipher text.\<close>

lemma dec_loop_cbc:
  assumes D: "\<And>b. length b = 16 \<Longrightarrow> length (aes_decrypt A s b) = 16"
    and "n mod 16 = 0" and "p + 16 + 16 * b \<le> length mem" and "n + 16 * b \<le> length out"
  shows "cbc_dec_loop A s mem (p + 16) p n (16 * b) m buf out =
    Some (take n out @ cbc_inv (aes_decrypt A s) (take 16 (drop p mem)) b (drop (p + 16) mem) @ drop (n + 16 * b) out)"
  using assms(2-)
proof (induction b arbitrary: n p m buf out)
  case (Suc b)
  define C where "C = aes_decrypt A s (take 16 (drop (p + 16) mem))"
  define X where "X = xors C (take 16 (drop p mem))"
  have C: "length C = 16" and X: "length X = 16" using D Suc.prems by (simp_all add: C_def X_def)
  have "cbc_dec_loop A s mem (p + 16) p n (Suc 15 + 16 * b) m buf out =
    cbc_dec_loop A s mem (p + 16 + 16) (p + Suc 15) (n + Suc 15) (16 * b) (Suc 15) C
      (take n out @ xors (take (Suc 15) C) (take (Suc 15) (drop p mem)) @ drop (n + Suc 15) out)"
    by (rule dec_steps [OF C_def C]) (use Suc.prems in simp_all)
  then have "cbc_dec_loop A s mem (p + 16) p n (16 * Suc b) m buf out =
    cbc_dec_loop A s mem (p + 16 + 16) (p + 16) (n + 16) (16 * b) 16 C (take n out @ X @ drop (n + 16) out)"
    using C by (simp add: X_def)
  also have "\<dots> = Some (take (n + 16) (take n out @ X @ drop (n + 16) out)
     @ cbc_inv (aes_decrypt A s) (take 16 (drop (p + 16) mem)) b (drop (p + 16 + 16) mem)
     @ drop (n + 16 + 16 * b) (take n out @ X @ drop (n + 16) out))"
    by (rule Suc.IH) (use Suc.prems X in simp_all)
  finally show ?case using Suc.prems X
    by (simp add: X_def [symmetric] C_def [symmetric] add.commute add.left_commute add.assoc)
qed simp

lemma cbc_inv_cbc:
  assumes "\<And>b. length b = 16 \<Longrightarrow> length (E b) = 16 \<and> D (E b) = b"
    and "length prev = 16" and "16 * n \<le> length msg"
  shows "cbc_inv D prev n (cbc E prev n msg @ rest) = take (16 * n) msg"
  using assms(2-)
proof (induction n arbitrary: prev msg)
  case (Suc n)
  define c where "c = E (xors prev (take 16 msg))"
  have c: "length c = 16" "D c = xors prev (take 16 msg)" using assms(1) Suc.prems by (simp_all add: c_def)
  have "xors (D c) prev = take 16 msg" using c Suc.prems by (simp add: xors_cancel)
  then show ?case using Suc c by (simp add: Let_def c_def [symmetric] take_add [symmetric])
qed simp

lemma enc_loop_reads: "cbc_enc_loop A s inp n k m buf out p = Some out' \<Longrightarrow> 0 < k \<Longrightarrow> n + k \<le> length inp"
proof (induction k arbitrary: n m buf out p)
  case (Suc k)
  have "n < length inp" using Suc.prems(1) by (auto simp: load_Some_iff split: Option.bind_splits)
  moreover have "Suc n + k \<le> length inp" if "0 < k"
    using Suc.prems(1) that by (auto simp: Let_def split: Option.bind_splits if_splits dest: Suc.IH)
  ultimately show ?case by (cases k) auto
qed simp

section \<open>The messages\<close>

definition crypto_sizes :: "crypto_buffers \<Rightarrow> bool" where
  "crypto_sizes s \<longleftrightarrow> length (encrypt_buff s) = 528 \<and> length (fill_buff s) = 512 \<and> length (encrypt_data s) = 528"

lemma crypto_sizes_reset: "crypto_sizes crypto_reset"
  by (simp add: crypto_sizes_def crypto_reset_def TC_AES_BLOCK_SIZE_def)

definition padded :: "nat \<Rightarrow> nat" where
  "padded n = n + (16 - n mod 16)"

lemma padded_props: "padded n mod 16 = 0" "n < padded n" "padded n \<le> n + 16" "n < 512 \<Longrightarrow> padded n \<le> 512"
  unfolding padded_def by presburger+

lemma padded_blocks: "padded n = 16 * (n div 16 + 1)"
  unfolding padded_def by presburger

lemma encrypt_writes:
  assumes E: "\<And>b. length b = 16 \<Longrightarrow> length (aes_encrypt A (aes_enc_key A key) b) = 16"
    and s: "crypto_sizes s" and len: "unat inlen = length msg" "length msg < 512"
    and iv: "length iv = 16" and out: "padded (length msg) \<le> length out"
  defines "fb \<equiv> msg @ drop (length msg) (fill_buff s)"
  defines "c \<equiv> cbc (aes_encrypt A (aes_enc_key A key)) iv (length msg div 16 + 1) fb"
  shows "sdk_crypto_encrypt_cbc A (Some msg) inlen (Some out) (Some n) (Some iv) (Some key) s =
      Some (1, Some (c @ drop (padded (length msg)) out), Some (word_of_nat (padded (length msg))),
        s\<lparr>fill_buff := fb, encrypt_buff := iv @ c @ drop (padded (length msg) + 16) (encrypt_buff s)\<rparr>)"
    and "length c = padded (length msg)"
proof -
  define P b where "P = padded (length msg)" and "b = length msg div 16 + 1"
  have Pb: "P = 16 * b" by (simp add: P_def b_def padded_blocks)
  have P: "P \<le> 512" "P mod 16 = 0" "0 < P" using padded_props [of "length msg"] len by (simp_all add: P_def)
  have fb: "length fb = 512" using s len by (simp add: fb_def crypto_sizes_def)
  have cb: "c = cbc (aes_encrypt A (aes_enc_key A key)) iv b fb" by (simp only: c_def b_def)
  have "length (cbc (aes_encrypt A (aes_enc_key A key)) iv b fb) = 16 * b"
    by (rule length_cbc) (use E iv fb P(1) Pb in simp_all)
  then show c: "length c = padded (length msg)"
    using Pb by (simp add: cb P_def [symmetric])
  define eb where "eb = iv @ drop 16 (encrypt_buff s)"
  have eb: "length eb = 528" using s iv by (simp add: eb_def crypto_sizes_def)
  have loop: "cbc_enc_loop A (aes_enc_key A key) fb 0 P 0 iv eb 16 = Some (iv @ c @ drop (16 + P) (encrypt_buff s))"
    using enc_loop_cbc [of A "aes_enc_key A key" iv 0 b fb 16 eb] E iv fb eb P(1)
    by (simp add: Pb [symmetric] cb [symmetric]) (simp add: eb_def add.commute)
  have "tc_cbc_mode_encrypt A (encrypt_buff s) (P + 16) fb P iv (aes_enc_key A key)
    = Some (1, iv @ c @ drop (16 + P) (encrypt_buff s))"
    using P loop s iv by (simp add: tc_cbc_mode_encrypt_def TC_AES_BLOCK_SIZE_def TC_CRYPTO_SUCCESS_def
      read_bytes_in copy_bytes_in eb_def crypto_sizes_def)
  moreover have "copy_bytes out 0 (iv @ c @ drop (16 + P) (encrypt_buff s)) 16 P = Some (c @ drop P out)"
    using c out iv by (simp add: copy_bytes_in P_def)
  moreover have "copy_bytes (fill_buff s) 0 msg 0 (length msg) = Some fb"
    using s len by (simp add: copy_bytes_in fb_def crypto_sizes_def)
  moreover have "length msg + (16 - length msg mod 16) = P" by (simp add: P_def padded_def)
  ultimately show "sdk_crypto_encrypt_cbc A (Some msg) inlen (Some out) (Some n) (Some iv) (Some key) s =
      Some (1, Some (c @ drop (padded (length msg)) out), Some (word_of_nat (padded (length msg))),
        s\<lparr>fill_buff := fb, encrypt_buff := iv @ c @ drop (padded (length msg) + 16) (encrypt_buff s)\<rparr>)"
    using len s unfolding sdk_crypto_encrypt_cbc_def P_def [symmetric]
    by (simp add: crypto_sizes_def TC_AES_BLOCK_SIZE_def Let_def add.commute)
qed

lemma decrypt_reads:
  assumes D: "\<And>b. length b = 16 \<Longrightarrow> length (aes_decrypt A (aes_dec_key A key) b) = 16"
    and s: "crypto_sizes s" and len: "unat inlen = 16 * b" "0 < b" "16 * b \<le> 512"
    and iv: "length iv = 16" and c: "length c = 16 * b" and out: "16 * b \<le> length out"
  shows "sdk_crypto_decrypt_cbc A any (Some c) inlen (Some out) (Some iv) (Some key) s =
      Some (1, Some (cbc_inv (aes_decrypt A (aes_dec_key A key)) iv b (c @ drop (16 * b + 16) (encrypt_data s)) @ drop (16 * b) out),
        s\<lparr>encrypt_data := iv @ c @ drop (16 * b + 16) (encrypt_data s)\<rparr>)"
proof -
  define mem where "mem = iv @ c @ drop (16 * b + 16) (encrypt_data s)"
  have mem: "length mem = 528" using s iv c len by (simp add: mem_def crypto_sizes_def)
  have "cbc_dec_loop A (aes_dec_key A key) mem (0 + 16) 0 0 (16 * b) 0 (map any [0..<16]) out =
    Some (take 0 out @ cbc_inv (aes_decrypt A (aes_dec_key A key)) (take 16 (drop 0 mem)) b (drop (0 + 16) mem) @ drop (0 + 16 * b) out)"
    by (rule dec_loop_cbc) (use D len mem out in simp_all)
  then have "tc_cbc_mode_decrypt A any out (16 * b) mem 16 (16 * b) 0 (aes_dec_key A key) =
    Some (1, cbc_inv (aes_decrypt A (aes_dec_key A key)) iv b (c @ drop (16 * b + 16) (encrypt_data s)) @ drop (16 * b) out)"
    using len iv by (simp add: tc_cbc_mode_decrypt_def TC_AES_BLOCK_SIZE_def TC_CRYPTO_SUCCESS_def mem_def)
  moreover have "copy_bytes (encrypt_data s) 0 iv 0 16 = Some (iv @ drop 16 (encrypt_data s))"
    using s iv by (simp add: copy_bytes_in crypto_sizes_def)
  moreover have "copy_bytes (iv @ drop 16 (encrypt_data s)) 16 c 0 (16 * b) = Some mem"
    using s iv c len by (simp add: copy_bytes_in crypto_sizes_def mem_def)
  ultimately show ?thesis using len s
    by (simp add: sdk_crypto_decrypt_cbc_def crypto_sizes_def TC_AES_BLOCK_SIZE_def mem_def)
qed

lemma crypto_512_overruns:
  assumes "crypto_sizes s" and "unat inlen = 512" and "length msg = 512" and "length iv = 16"
  shows "sdk_crypto_encrypt_cbc A (Some msg) inlen (Some out) (Some n) (Some iv) (Some key) s = None"
proof -
  have "copy_bytes (fill_buff s) 0 msg 0 512 = Some msg"
    using assms by (simp add: copy_bytes_in crypto_sizes_def)
  moreover have "cbc_enc_loop A sc msg 0 528 m buf eb p = None" for sc m buf eb p
    using enc_loop_reads [of A sc msg 0 528 m buf eb p] assms(3)
    by (cases "cbc_enc_loop A sc msg 0 528 m buf eb p") auto
  then have "tc_cbc_mode_encrypt A (encrypt_buff s) 544 msg 528 iv sc = None" for sc
    by (simp add: tc_cbc_mode_encrypt_def TC_AES_BLOCK_SIZE_def split: Option.bind_splits)
  ultimately show ?thesis using assms
    by (simp add: sdk_crypto_encrypt_cbc_def crypto_sizes_def TC_AES_BLOCK_SIZE_def Let_def)
qed

text \<open>
  C25. A message of less than 512 bytes is encrypted and decrypted again. With a block cipher
  whose decryption undoes its encryption on blocks of 16 bytes and buffers of the file's
  sizes, the encryption answers 1, the length rounded up behind the message to the next
  whole block (16 more for a message of whole blocks), and the encrypted \<open>c\<close>, the chained
  blocks of the message followed by what an earlier message left in the buffer; the bytes of
  the output behind it stay. The decryption of that cipher text in the state reached answers
  1, the message, and behind it those left-over bytes.
\<close>

theorem crypto_roundtrip:
  assumes aes: "\<forall>k b. length k = 16 \<and> length b = 16 \<longrightarrow>
        length (aes_encrypt A (aes_enc_key A k) b) = 16 \<and> length (aes_decrypt A (aes_dec_key A k) b) = 16
      \<and> aes_decrypt A (aes_dec_key A k) (aes_encrypt A (aes_enc_key A k) b) = b"
    and s: "crypto_sizes s" and len: "unat inlen = length msg" "length msg < 512"
    and iv: "length iv = 16" and key: "length key = 16"
    and out: "padded (length msg) \<le> length out" "padded (length msg) \<le> length dec"
  defines "old \<equiv> take (padded (length msg) - length msg) (drop (length msg) (fill_buff s))"
  shows "\<exists>c s' s''. length c = padded (length msg)
    \<and> c = cbc (aes_encrypt A (aes_enc_key A key)) iv (length msg div 16 + 1) (msg @ old)
    \<and> sdk_crypto_encrypt_cbc A (Some msg) inlen (Some out) (Some n) (Some iv) (Some key) s =
        Some (1, Some (c @ drop (padded (length msg)) out), Some (word_of_nat (padded (length msg))), s')
    \<and> crypto_sizes s'
    \<and> sdk_crypto_decrypt_cbc A any (Some c) (word_of_nat (padded (length msg))) (Some dec) (Some iv) (Some key) s' =
        Some (1, Some (msg @ old @ drop (padded (length msg)) dec), s'')"
proof -
  define P b where "P = padded (length msg)" and "b = length msg div 16 + 1"
  have P: "P = 16 * b" "P \<le> 512" "length msg < P" "0 < b"
    using padded_props [of "length msg"] len by (simp_all add: P_def b_def padded_blocks)
  define fb where "fb = msg @ drop (length msg) (fill_buff s)"
  define c where "c = cbc (aes_encrypt A (aes_enc_key A key)) iv b fb"
  define s' where "s' = s\<lparr>fill_buff := fb, encrypt_buff := iv @ c @ drop (P + 16) (encrypt_buff s)\<rparr>"
  have fb: "length fb = 512" and old: "take P fb = msg @ old"
    using s len P by (simp_all add: fb_def crypto_sizes_def old_def P_def)
  have E: "length (aes_encrypt A (aes_enc_key A key) x) = 16"
      "length (aes_decrypt A (aes_dec_key A key) x) = 16"
      "aes_decrypt A (aes_dec_key A key) (aes_encrypt A (aes_enc_key A key) x) = x" if "length x = 16" for x
    using aes key that by blast+
  have enc: "sdk_crypto_encrypt_cbc A (Some msg) inlen (Some out) (Some n) (Some iv) (Some key) s =
      Some (1, Some (c @ drop P out), Some (word_of_nat P), s')" and c: "length c = P"
    using encrypt_writes(1) [OF E(1) s len iv out(1), of n] encrypt_writes(2) [OF E(1) s len iv out(1)]
    by (simp_all only: P_def c_def b_def s'_def fb_def)
  have s': "crypto_sizes s'" using s fb c iv P by (simp add: s'_def crypto_sizes_def)
  have "cbc_inv (aes_decrypt A (aes_dec_key A key)) iv b (c @ rest) = msg @ old" for rest
    using cbc_inv_cbc [of "aes_encrypt A (aes_enc_key A key)" "aes_decrypt A (aes_dec_key A key)" iv b fb rest]
      E iv fb P old by (simp add: c_def)
  moreover have "unat (word_of_nat P :: s32) = 16 * b"
    using P(2) unfolding P(1) [symmetric] by (simp add: unsigned_of_nat take_bit_nat_eq_self)
  ultimately have dec: "\<exists>s''. sdk_crypto_decrypt_cbc A any (Some c) (word_of_nat P) (Some dec) (Some iv) (Some key) s'
      = Some (1, Some (msg @ old @ drop P dec), s'')"
    using decrypt_reads [OF E(2) s' _ _ _ iv _, of "word_of_nat P" b c dec any] P c out by (simp add: P_def [symmetric])
  have "c = cbc (aes_encrypt A (aes_enc_key A key)) iv b (msg @ old)"
    using cbc_prefix [of b fb "aes_encrypt A (aes_enc_key A key)" iv] fb P old by (simp add: c_def)
  then show ?thesis using c enc s' dec unfolding P_def b_def by blast
qed

text \<open>A toy cipher: the key is added to every byte; the message of 17 bytes, buffers as reset.\<close>

definition toy_aes :: "u8 list aes" where
  "toy_aes = \<lparr>aes_enc_key = (\<lambda>k. k), aes_dec_key = (\<lambda>k. k), aes_encrypt = (\<lambda>k b. map (\<lambda>x. x + k ! 0) b),
     aes_decrypt = (\<lambda>k b. map (\<lambda>x. x - k ! 0) b)\<rparr>"

theorem crypto_roundtrip_witness:
  "\<exists>c s' s''. sdk_crypto_encrypt_cbc toy_aes (Some (replicate 17 7)) 17 (Some (replicate 40 0)) (Some 0)
      (Some (replicate 16 1)) (Some (replicate 16 2)) crypto_reset =
        Some (1, Some (c @ replicate 8 0), Some 32, s')
    \<and> sdk_crypto_decrypt_cbc toy_aes (\<lambda>_. 0) (Some c) 32 (Some (replicate 40 0))
        (Some (replicate 16 1)) (Some (replicate 16 2)) s' =
        Some (1, Some (replicate 17 7 @ replicate 15 0 @ replicate 8 0), s'')"
proof -
  have p: "padded 17 = 32" by (simp add: padded_def)
  have aes: "\<forall>k b. length k = 16 \<and> length b = 16 \<longrightarrow>
        length (aes_encrypt toy_aes (aes_enc_key toy_aes k) b) = 16 \<and> length (aes_decrypt toy_aes (aes_dec_key toy_aes k) b) = 16
      \<and> aes_decrypt toy_aes (aes_dec_key toy_aes k) (aes_encrypt toy_aes (aes_enc_key toy_aes k) b) = b"
    by (simp add: toy_aes_def o_def)
  have "take 15 (drop 17 (fill_buff crypto_reset)) = replicate 15 0"
    by (simp add: crypto_reset_def)
  then show ?thesis
    using crypto_roundtrip [OF aes crypto_sizes_reset, of 17 "replicate 17 7" "replicate 16 1" "replicate 16 2"
        "replicate 40 0" "replicate 40 0" 0 "\<lambda>_. 0"] p
    by (simp add: drop_replicate) blast
qed

end
