(* ===== verification/Os_Port_Rtthread.thy ===== *)
theory Os_Port_Rtthread
  imports Os_Port_None Sdk_Log
begin

text \<open>
  src/src/sdk_os_port_rtthread.c: events, semaphores, mutexes and message queues on the kernel
  of RT-Thread.

  The kernel is an argument: its functions, on a state \<open>'k\<close> of its own, and the codes and
  flags of its header. They describe calls that return; a call that blocks for ever has no
  result. An object is named by the address of the structure of the SDK it is embedded in; the
  fields the port adds, whether an event or a queue is initialised, and its four static
  counters of objects are the state of the port.

  \<^item> \<open>rtt_object_names\<close>: the kernel's name of the n-th object of a kind, and up to which n no
    two objects of the kind share one.
  \<^item> \<open>rtt_lifecycle\<close>: whatever the order of the calls, the kernel sees for an event
    alternating initialisations and detachments, the last one in agreement with its state.
  \<^item> \<open>wait_result_cases\<close>: the codes a wait reports.
\<close>

section \<open>The kernel\<close>

unbundle bit_operations_syntax

record 'k rt_kernel =
  RT_EOK :: s32
  RT_ETIMEOUT :: s32
  RT_IPC_FLAG_FIFO :: u8
  RT_IPC_FLAG_PRIO :: u8
  RT_EVENT_FLAG_AND :: u8
  RT_EVENT_FLAG_OR :: u8
  RT_EVENT_FLAG_CLEAR :: u8
  rt_thread_mdelay :: "s32 \<Rightarrow> 'k \<Rightarrow> 'k"
  rt_enter_critical :: "'k \<Rightarrow> 'k"
  rt_exit_critical :: "'k \<Rightarrow> 'k"
  rt_event_init :: "nat \<Rightarrow> string \<Rightarrow> u8 \<Rightarrow> 'k \<Rightarrow> s32 \<times> 'k"
  rt_event_detach :: "nat \<Rightarrow> 'k \<Rightarrow> s32 \<times> 'k"
  rt_event_send :: "nat \<Rightarrow> u32 \<Rightarrow> 'k \<Rightarrow> s32 \<times> 'k"
  rt_event_recv :: "nat \<Rightarrow> u32 \<Rightarrow> u8 \<Rightarrow> s32 \<Rightarrow> u32 option \<Rightarrow> 'k \<Rightarrow> s32 \<times> u32 option \<times> 'k"
  rt_sem_init :: "nat \<Rightarrow> string \<Rightarrow> s32 \<Rightarrow> u8 \<Rightarrow> 'k \<Rightarrow> s32 \<times> 'k"
  rt_sem_take :: "nat \<Rightarrow> s32 \<Rightarrow> 'k \<Rightarrow> s32 \<times> 'k"
  rt_sem_release :: "nat \<Rightarrow> 'k \<Rightarrow> s32 \<times> 'k"
  rt_mutex_init :: "nat \<Rightarrow> string \<Rightarrow> u8 \<Rightarrow> 'k \<Rightarrow> s32 \<times> 'k"
  rt_mutex_take :: "nat \<Rightarrow> s32 \<Rightarrow> 'k \<Rightarrow> s32 \<times> 'k"
  rt_mutex_release :: "nat \<Rightarrow> 'k \<Rightarrow> s32 \<times> 'k"
  rt_mq_init :: "nat \<Rightarrow> string \<Rightarrow> nat \<Rightarrow> u32 \<Rightarrow> u32 \<Rightarrow> u8 \<Rightarrow> 'k \<Rightarrow> s32 \<times> 'k"
  rt_mq_detach :: "nat \<Rightarrow> 'k \<Rightarrow> s32 \<times> 'k"
  rt_mq_send :: "nat \<Rightarrow> u8 list \<Rightarrow> u32 \<Rightarrow> 'k \<Rightarrow> s32 \<times> 'k"
  rt_mq_recv :: "nat \<Rightarrow> u8 list \<Rightarrow> u32 \<Rightarrow> s32 \<Rightarrow> 'k \<Rightarrow> s32 \<times> u8 list \<times> 'k"

datatype sdk_os_ipc_state = UNINITIALIZED | INITIALIZED

record 'k rtt =
  rtt_kernel :: 'k
  m_event_id :: u32
  m_sem_id :: u32
  m_mutex_id :: u32
  m_mq_id :: u32
  event_state :: "nat \<Rightarrow> sdk_os_ipc_state"
  mq_state :: "nat \<Rightarrow> sdk_os_ipc_state"

section \<open>Tasks\<close>

definition sdk_os_delay_ms_rtt :: "'k rt_kernel \<Rightarrow> s32 \<Rightarrow> 'k rtt \<Rightarrow> 'k rtt" where
  "sdk_os_delay_ms_rtt K delay_ms s = s\<lparr>rtt_kernel := rt_thread_mdelay K delay_ms (rtt_kernel s)\<rparr>"

definition sdk_os_enter_critical_rtt :: "'k rt_kernel \<Rightarrow> 'k rtt \<Rightarrow> 'k rtt" where
  "sdk_os_enter_critical_rtt K s = s\<lparr>rtt_kernel := rt_enter_critical K (rtt_kernel s)\<rparr>"

definition sdk_os_exit_critical_rtt :: "'k rt_kernel \<Rightarrow> 'k rtt \<Rightarrow> 'k rtt" where
  "sdk_os_exit_critical_rtt K s = s\<lparr>rtt_kernel := rt_exit_critical K (rtt_kernel s)\<rparr>"

section \<open>Results and names\<close>

text \<open>The code of a call that reports success or failure, and of a wait.\<close>

definition call_result :: "'k rt_kernel \<Rightarrow> s32 \<Rightarrow> s32" where
  "call_result K res = (if res \<noteq> RT_EOK K then - SDK_ERROR else SDK_OK)"

definition wait_result :: "'k rt_kernel \<Rightarrow> s32 \<Rightarrow> s32" where
  "wait_result K res =
     (if res = - RT_ETIMEOUT K then - SDK_E_TIMEOUT
      else if res \<noteq> RT_EOK K then - SDK_ERROR
      else SDK_OK)"

text \<open>
  The array \<open>char name[8]\<close> after \<open>snprintf\<close> with one of the formats \<open>evt%d\<close>, \<open>sem%d\<close>, \<open>mtx%d\<close>
  and \<open>mq%d\<close>, and the counter, whose overflow as a signed number is undefined.
\<close>

definition object_name :: "string \<Rightarrow> u32 \<Rightarrow> string option" where
  "object_name kind i = map_option (\<lambda>(_, name, _). name)
     (snprintf (replicate 8 NUL) 8 (kind @ ''%d'' @ [NUL]) [VA_int i])"

definition next_id :: "u32 \<Rightarrow> u32 option" where
  "next_id i = (if unat i = 2 ^ 31 - 1 then None else Some (i + 1))"

section \<open>Events\<close>

definition sdk_os_event_init_rtt :: "'k rt_kernel \<Rightarrow> nat \<Rightarrow> 'k rtt \<Rightarrow> (s32 \<times> 'k rtt) option" where
  "sdk_os_event_init_rtt K event s =
     (if event_state s event = INITIALIZED then Some (SDK_OK, s)
      else do {
        name \<leftarrow> object_name ''evt'' (m_event_id s);
        i \<leftarrow> next_id (m_event_id s);
        let (_, k) = rt_event_init K event name (RT_IPC_FLAG_FIFO K) (rtt_kernel s);
        Some (SDK_OK, s\<lparr>m_event_id := i, rtt_kernel := k, event_state := (event_state s)(event := INITIALIZED)\<rparr>)
      })"

definition sdk_os_event_send_rtt :: "'k rt_kernel \<Rightarrow> nat \<Rightarrow> u32 \<Rightarrow> 'k rtt \<Rightarrow> s32 \<times> 'k rtt" where
  "sdk_os_event_send_rtt K event bits s =
     (let (res, k) = rt_event_send K event bits (rtt_kernel s)
      in (call_result K res, s\<lparr>rtt_kernel := k\<rparr>))"

definition rt_option :: "'k rt_kernel \<Rightarrow> u8 \<Rightarrow> u8" where
  "rt_option K opt =
     (let rtoption = 0;
          rtoption = (if opt AND SDK_EVENT_FLAG_AND \<noteq> 0 then rtoption OR RT_EVENT_FLAG_AND K else rtoption);
          rtoption = (if opt AND SDK_EVENT_FLAG_OR \<noteq> 0 then rtoption OR RT_EVENT_FLAG_OR K else rtoption);
          rtoption = (if opt AND SDK_EVENT_FLAG_CLEAR \<noteq> 0 then rtoption OR RT_EVENT_FLAG_CLEAR K else rtoption)
      in rtoption)"

text \<open>\<open>recved\<close> is the variable the last argument points to, \<open>None\<close> for a null pointer.\<close>

definition sdk_os_event_recv_rtt ::
  "'k rt_kernel \<Rightarrow> nat \<Rightarrow> u32 \<Rightarrow> u8 \<Rightarrow> s32 \<Rightarrow> u32 option \<Rightarrow> 'k rtt \<Rightarrow> s32 \<times> u32 option \<times> 'k rtt" where
  "sdk_os_event_recv_rtt K event bits opt timeout recved s =
     (if bits = 0 then (- SDK_ERROR, recved, s)
      else let (res, recved, k) = rt_event_recv K event bits (rt_option K opt) timeout recved (rtt_kernel s)
           in (wait_result K res, recved, s\<lparr>rtt_kernel := k\<rparr>))"

definition sdk_os_event_deinit_rtt :: "'k rt_kernel \<Rightarrow> nat \<Rightarrow> 'k rtt \<Rightarrow> s32 \<times> 'k rtt" where
  "sdk_os_event_deinit_rtt K event s =
     (if event_state s event = UNINITIALIZED then (SDK_OK, s)
      else let (_, k) = rt_event_detach K event (rtt_kernel s)
           in (SDK_OK, s\<lparr>rtt_kernel := k, event_state := (event_state s)(event := UNINITIALIZED)\<rparr>))"

section \<open>Semaphores\<close>

definition sdk_os_sem_init_rtt :: "'k rt_kernel \<Rightarrow> nat \<Rightarrow> s32 \<Rightarrow> 'k rtt \<Rightarrow> (s32 \<times> 'k rtt) option" where
  "sdk_os_sem_init_rtt K sem count s = do {
     name \<leftarrow> object_name ''sem'' (m_sem_id s);
     i \<leftarrow> next_id (m_sem_id s);
     let (_, k) = rt_sem_init K sem name count (RT_IPC_FLAG_FIFO K) (rtt_kernel s);
     Some (SDK_OK, s\<lparr>m_sem_id := i, rtt_kernel := k\<rparr>)
   }"

definition sdk_os_sem_take_rtt :: "'k rt_kernel \<Rightarrow> nat \<Rightarrow> s32 \<Rightarrow> 'k rtt \<Rightarrow> s32 \<times> 'k rtt" where
  "sdk_os_sem_take_rtt K sem timeout s =
     (let (res, k) = rt_sem_take K sem timeout (rtt_kernel s) in (wait_result K res, s\<lparr>rtt_kernel := k\<rparr>))"

definition sdk_os_sem_release_rtt :: "'k rt_kernel \<Rightarrow> nat \<Rightarrow> 'k rtt \<Rightarrow> s32 \<times> 'k rtt" where
  "sdk_os_sem_release_rtt K sem s =
     (let (res, k) = rt_sem_release K sem (rtt_kernel s) in (call_result K res, s\<lparr>rtt_kernel := k\<rparr>))"

section \<open>Mutexes\<close>

definition sdk_os_mutex_init_rtt :: "'k rt_kernel \<Rightarrow> nat \<Rightarrow> 'k rtt \<Rightarrow> (s32 \<times> 'k rtt) option" where
  "sdk_os_mutex_init_rtt K mutex s = do {
     name \<leftarrow> object_name ''mtx'' (m_mutex_id s);
     i \<leftarrow> next_id (m_mutex_id s);
     let (_, k) = rt_mutex_init K mutex name (RT_IPC_FLAG_PRIO K) (rtt_kernel s);
     Some (SDK_OK, s\<lparr>m_mutex_id := i, rtt_kernel := k\<rparr>)
   }"

definition sdk_os_mutex_take_rtt :: "'k rt_kernel \<Rightarrow> nat \<Rightarrow> s32 \<Rightarrow> 'k rtt \<Rightarrow> s32 \<times> 'k rtt" where
  "sdk_os_mutex_take_rtt K mutex timeout_ms s =
     (let (res, k) = rt_mutex_take K mutex timeout_ms (rtt_kernel s) in (wait_result K res, s\<lparr>rtt_kernel := k\<rparr>))"

definition sdk_os_mutex_release_rtt :: "'k rt_kernel \<Rightarrow> nat \<Rightarrow> 'k rtt \<Rightarrow> s32 \<times> 'k rtt" where
  "sdk_os_mutex_release_rtt K mutex s =
     (let (res, k) = rt_mutex_release K mutex (rtt_kernel s) in (call_result K res, s\<lparr>rtt_kernel := k\<rparr>))"

section \<open>Message queues\<close>

definition sdk_os_mq_init_rtt ::
  "'k rt_kernel \<Rightarrow> nat \<Rightarrow> nat \<Rightarrow> u32 \<Rightarrow> u32 \<Rightarrow> 'k rtt \<Rightarrow> (s32 \<times> 'k rtt) option" where
  "sdk_os_mq_init_rtt K mq msg_pool msg_size pool_size s =
     (if mq_state s mq = INITIALIZED then Some (SDK_OK, s)
      else do {
        name \<leftarrow> object_name ''mq'' (m_mq_id s);
        i \<leftarrow> next_id (m_mq_id s);
        let (res, k) = rt_mq_init K mq name msg_pool msg_size pool_size (RT_IPC_FLAG_FIFO K) (rtt_kernel s);
        let s = s\<lparr>m_mq_id := i, rtt_kernel := k\<rparr>;
        if res \<noteq> RT_EOK K then Some (- SDK_ERROR, s)
        else Some (SDK_OK, s\<lparr>mq_state := (mq_state s)(mq := INITIALIZED)\<rparr>)
      })"

definition sdk_os_mq_deinit_rtt :: "'k rt_kernel \<Rightarrow> nat \<Rightarrow> 'k rtt \<Rightarrow> s32 \<times> 'k rtt" where
  "sdk_os_mq_deinit_rtt K mq s =
     (if mq_state s mq = UNINITIALIZED then (SDK_OK, s)
      else let (res, k) = rt_mq_detach K mq (rtt_kernel s);
               s = s\<lparr>rtt_kernel := k\<rparr>
           in if res \<noteq> RT_EOK K then (- SDK_ERROR, s)
              else (SDK_OK, s\<lparr>mq_state := (mq_state s)(mq := UNINITIALIZED)\<rparr>))"

definition sdk_os_mq_send_rtt :: "'k rt_kernel \<Rightarrow> nat \<Rightarrow> u8 list \<Rightarrow> u32 \<Rightarrow> 'k rtt \<Rightarrow> s32 \<times> 'k rtt" where
  "sdk_os_mq_send_rtt K mq msg msg_size s =
     (let (res, k) = rt_mq_send K mq msg msg_size (rtt_kernel s) in (call_result K res, s\<lparr>rtt_kernel := k\<rparr>))"

definition sdk_os_mq_recv_rtt ::
  "'k rt_kernel \<Rightarrow> nat \<Rightarrow> u8 list \<Rightarrow> u32 \<Rightarrow> s32 \<Rightarrow> 'k rtt \<Rightarrow> s32 \<times> u8 list \<times> 'k rtt" where
  "sdk_os_mq_recv_rtt K mq msg msg_size timeout_ms s =
     (let (res, msg, k) = rt_mq_recv K mq msg msg_size timeout_ms (rtt_kernel s)
      in (wait_result K res, msg, s\<lparr>rtt_kernel := k\<rparr>))"

section \<open>Results\<close>

text \<open>The codes of a wait tell success, time-out and other failures apart.\<close>

lemma wait_result_cases:
  assumes "RT_EOK K \<noteq> - RT_ETIMEOUT K"
  shows "wait_result K res = SDK_OK \<longleftrightarrow> res = RT_EOK K"
    and "wait_result K res = - SDK_E_TIMEOUT \<longleftrightarrow> res = - RT_ETIMEOUT K"
    and "wait_result K res \<in> {SDK_OK, - SDK_E_TIMEOUT, - SDK_ERROR}"
  using assms by (auto simp: wait_result_def sdk_codes)

lemma call_result_cases: "call_result K res = SDK_OK \<longleftrightarrow> res = RT_EOK K"
  by (simp add: call_result_def sdk_codes)

section \<open>Names\<close>

text \<open>The name is cut after seven characters.\<close>

lemma format_text_kind:
  assumes "CHR ''%'' \<notin> set kind"
  shows "format_text (kind @ ''%d'') [VA_int i] k = Some (kind @ int_text i, [])"
  using assms
proof (induction kind arbitrary: k)
  case (Cons c kind)
  then have "c \<noteq> CHR ''%''" and "CHR ''%'' \<notin> set kind" by auto
  with Cons.IH show ?case by simp
qed simp

lemma decimal_text_length: "length (decimal_text v) = max 1 (count_digits 10 v)"
  using body_text_decimal(2) [OF flags_zero(20,21)] by (simp add: decimal_text_def)

lemma int_text_small: "unat (i :: u32) < 2 ^ 31 \<Longrightarrow> int_text i = decimal_text (unat i)"
  by (simp add: int_text_def sint_small)

lemma object_name_text:
  assumes i: "unat i < 2 ^ 31" and kind: "length kind \<le> 3" "NUL \<notin> set kind" "CHR ''%'' \<notin> set kind"
  shows "object_name kind i = Some (let t = take 7 (kind @ decimal_text (unat i)) in t @ replicate (8 - length t) NUL)"
proof -
  define t where "t = kind @ decimal_text (unat i)"
  have d: "length (decimal_text (unat i)) \<le> 10" "0 < length (decimal_text (unat i))"
    using decimal_text_props(3) [of "unat i"] i decimal_text_length [of "unat i"] by simp_all
  have f: "format_text (kind @ ''%d'') [VA_int i] 0 = Some (t, [])"
    using format_text_kind [OF kind(3)] i by (simp add: t_def int_text_small)
  have l: "length t \<le> 13" using d kind by (simp add: t_def)
  have "object_name kind i = Some (let m = min (length t) 7 in take m t @ NUL # drop (Suc m) (replicate 8 NUL))"
    using snprintf_format [OF f, of 8 "replicate 8 NUL" "[]"] kind l
    by (simp add: object_name_def)
  also have "\<dots> = Some (let u = take 7 t in u @ replicate (8 - length u) NUL)"
    using l by (cases "length t \<le> 7")
      (simp_all add: Let_def min_def drop_replicate replicate_Suc [symmetric] Suc_diff_le del: replicate_Suc)
  finally show ?thesis by (simp add: t_def)
qed

lemma decimal_text_inj: "decimal_text v = decimal_text w \<Longrightarrow> v = w"
  by (metis decimal_text_props(1))

lemma object_name_whole:
  assumes "kind \<in> {''evt'', ''sem'', ''mtx'', ''mq''}" and "unat i < 10 ^ (7 - length kind)"
  shows "object_name kind i = Some (kind @ decimal_text (unat i)
      @ replicate (8 - length kind - length (decimal_text (unat i))) NUL)"
proof -
  have kind: "length kind \<le> 3" "2 \<le> length kind" "NUL \<notin> set kind" "CHR ''%'' \<notin> set kind"
    using assms(1) by auto
  have "(10::nat) ^ (7 - length kind) \<le> 10 ^ 5" using kind by (intro power_increasing) simp_all
  then have i: "unat i < 2 ^ 31" using assms(2) by simp
  have "length (decimal_text (unat i)) \<le> 7 - length kind"
    using count_digits_bound [OF assms(2)] kind by (simp add: decimal_text_length)
  then show ?thesis using object_name_text [OF i kind(1,3,4)] kind by (simp add: Let_def)
qed

text \<open>
  The kernel's name of the object number \<open>i\<close> of a kind is the kind followed by the number
  in decimal, padded with zero bytes, as long as the number has at most four digits, for a
  queue five; up to there no two objects of a kind share a name.
\<close>

theorem rtt_object_names:
  assumes "kind \<in> {''evt'', ''sem'', ''mtx'', ''mq''}"
    and "unat i < 10 ^ (7 - length kind)" and "unat j < 10 ^ (7 - length kind)"
  shows "object_name kind i = Some (kind @ decimal_text (unat i)
        @ replicate (8 - length kind - length (decimal_text (unat i))) NUL)
    \<and> (object_name kind i = object_name kind j \<longleftrightarrow> i = j)"
proof -
  have nul: "NUL \<notin> set (decimal_text v)" for v using decimal_text_props(2) [of v] by auto
  have t: "takeWhile (\<lambda>c. c \<noteq> NUL) (decimal_text v @ replicate n NUL) = decimal_text v" for v n
    using nul [of v] by (subst takeWhile_append2) (auto simp: takeWhile_replicate)
  have "i = j" if "object_name kind i = object_name kind j"
  proof -
    have "decimal_text (unat i) @ replicate (8 - length kind - length (decimal_text (unat i))) NUL
        = decimal_text (unat j) @ replicate (8 - length kind - length (decimal_text (unat j))) NUL"
      using that object_name_whole [OF assms(1,2)] object_name_whole [OF assms(1,3)] by simp
    then have "decimal_text (unat i) = decimal_text (unat j)" by (metis t)
    from decimal_text_inj [OF this] show ?thesis by (simp add: word_unat_eq_iff)
  qed
  with object_name_whole [OF assms(1,2)] show ?thesis by auto
qed

theorem rtt_object_names_witness:
  "object_name ''evt'' 42 = Some (''evt'' @ decimal_text 42 @ replicate (5 - length (decimal_text 42)) NUL)
    \<and> object_name ''evt'' 42 \<noteq> object_name ''evt'' 43"
  by (rule conj_forward [OF rtt_object_names [of "''evt''" 42 43]]) simp_all

text \<open>One digit more is cut off: a number of four digits and ten of five have the same name.\<close>

lemma decimal_text_low: "decimal_text v = rev (low_digits lcdigits 10 (max 1 (count_digits 10 v)) v)"
proof -
  have "nat (digits_needed 0 10 (- 1) v) = max 1 (count_digits 10 v)"
    using count_digits_pos [of v 10] by (cases "v = 0") (auto simp: digits_needed_def flags_zero)
  then show ?thesis by (simp add: decimal_text_def body_text_low flags_zero Let_def tick_none)
qed

lemma decimal_text_step:
  assumes "v \<noteq> 0" and "d < 10"
  shows "decimal_text (10 * v + d) = decimal_text v @ [lcdigits ! d]"
proof -
  have "count_digits 10 (10 * v + d) = Suc (count_digits 10 v)"
    using assms by (subst count_digits.simps) simp
  moreover have "0 < count_digits 10 v" using assms by (simp add: count_digits_pos)
  ultimately show ?thesis using assms by (simp add: decimal_text_low)
qed

lemma object_names_collide:
  assumes "1000 \<le> unat i" and "unat i < 10000" and "d < 10" and "unat j = 10 * unat i + d"
  shows "object_name ''evt'' j = object_name ''evt'' i"
proof -
  define c where "c = count_digits 10 (unat i)"
  have u: "unat i < 10 ^ c" unfolding c_def by (rule count_digits_upper)
  have "\<not> c \<le> 3"
  proof
    assume "c \<le> 3"
    then have "(10::nat) ^ c \<le> 10 ^ 3" by (intro power_increasing) simp_all
    with u assms(1) show False by simp
  qed
  moreover have "c \<le> 4" unfolding c_def by (rule count_digits_bound) (use assms(2) in simp)
  ultimately have l: "length (decimal_text (unat i)) = 4" by (simp add: decimal_text_length c_def [symmetric])
  have t: "decimal_text (unat j) = decimal_text (unat i) @ [lcdigits ! d]"
    using decimal_text_step [of "unat i" d] assms by simp
  have "unat i < 2 ^ 31" "unat j < 2 ^ 31" using assms by simp_all
  then show ?thesis
    using object_name_text [of i "''evt''"] object_name_text [of j "''evt''"] l t by simp
qed

section \<open>Life cycle\<close>

datatype rtt_object = Event nat | Queue nat

text \<open>
  What the kernel does with its objects, \<open>att\<close> telling which it has in its lists: putting an
  object there that is not, taking one out that is; a queue may fail. Nothing is said of an
  object put there twice or taken out without being there. No other call changes the lists.
\<close>

definition object_kernel :: "'k rt_kernel \<Rightarrow> (rtt_object \<Rightarrow> 'k \<Rightarrow> bool) \<Rightarrow> bool" where
  "object_kernel K att \<longleftrightarrow>
     (\<forall>e n f k x. \<not> att (Event e) k \<longrightarrow> att x (snd (rt_event_init K e n f k)) = (x = Event e \<or> att x k))
   \<and> (\<forall>e k x. att (Event e) k \<longrightarrow> att x (snd (rt_event_detach K e k)) = (x \<noteq> Event e \<and> att x k))
   \<and> (\<forall>q n p m l f k x. \<not> att (Queue q) k \<longrightarrow> att x (snd (rt_mq_init K q n p m l f k))
        = (x = Queue q \<and> fst (rt_mq_init K q n p m l f k) = RT_EOK K \<or> att x k))
   \<and> (\<forall>q k x. att (Queue q) k \<longrightarrow> att x (snd (rt_mq_detach K q k))
        = ((x = Queue q \<longrightarrow> fst (rt_mq_detach K q k) \<noteq> RT_EOK K) \<and> att x k))
   \<and> (\<forall>e b k x. att x (snd (rt_event_send K e b k)) = att x k)
   \<and> (\<forall>e b opt t r k x. att x (snd (snd (rt_event_recv K e b opt t r k))) = att x k)
   \<and> (\<forall>q m l k x. att x (snd (rt_mq_send K q m l k)) = att x k)
   \<and> (\<forall>q m l t k x. att x (snd (snd (rt_mq_recv K q m l t k))) = att x k)
   \<and> (\<forall>s n c f k x. att x (snd (rt_sem_init K s n c f k)) = att x k)
   \<and> (\<forall>s t k x. att x (snd (rt_sem_take K s t k)) = att x k)
   \<and> (\<forall>s k x. att x (snd (rt_sem_release K s k)) = att x k)
   \<and> (\<forall>m n f k x. att x (snd (rt_mutex_init K m n f k)) = att x k)
   \<and> (\<forall>m t k x. att x (snd (rt_mutex_take K m t k)) = att x k)
   \<and> (\<forall>m k x. att x (snd (rt_mutex_release K m k)) = att x k)
   \<and> (\<forall>t k x. att x (rt_thread_mdelay K t k) = att x k)
   \<and> (\<forall>k x. att x (rt_enter_critical K k) = att x k)
   \<and> (\<forall>k x. att x (rt_exit_critical K k) = att x k)"

inductive rtt_step :: "'k rt_kernel \<Rightarrow> 'k rtt \<Rightarrow> 'k rtt \<Rightarrow> bool" for K where
  event_init: "sdk_os_event_init_rtt K e s = Some (r, s1) \<Longrightarrow> rtt_step K s s1"
| event_deinit: "sdk_os_event_deinit_rtt K e s = (r, s1) \<Longrightarrow> rtt_step K s s1"
| event_send: "sdk_os_event_send_rtt K e b s = (r, s1) \<Longrightarrow> rtt_step K s s1"
| event_recv: "sdk_os_event_recv_rtt K e b opt t v s = (r, v1, s1) \<Longrightarrow> rtt_step K s s1"
| mq_init: "sdk_os_mq_init_rtt K q p m l s = Some (r, s1) \<Longrightarrow> rtt_step K s s1"
| mq_deinit: "sdk_os_mq_deinit_rtt K q s = (r, s1) \<Longrightarrow> rtt_step K s s1"
| mq_send: "sdk_os_mq_send_rtt K q msg l s = (r, s1) \<Longrightarrow> rtt_step K s s1"
| mq_recv: "sdk_os_mq_recv_rtt K q msg l t s = (r, v, s1) \<Longrightarrow> rtt_step K s s1"
| sem_init: "sdk_os_sem_init_rtt K m c s = Some (r, s1) \<Longrightarrow> rtt_step K s s1"
| sem_take: "sdk_os_sem_take_rtt K m t s = (r, s1) \<Longrightarrow> rtt_step K s s1"
| sem_release: "sdk_os_sem_release_rtt K m s = (r, s1) \<Longrightarrow> rtt_step K s s1"
| mutex_init: "sdk_os_mutex_init_rtt K m s = Some (r, s1) \<Longrightarrow> rtt_step K s s1"
| mutex_take: "sdk_os_mutex_take_rtt K m t s = (r, s1) \<Longrightarrow> rtt_step K s s1"
| mutex_release: "sdk_os_mutex_release_rtt K m s = (r, s1) \<Longrightarrow> rtt_step K s s1"
| delay: "rtt_step K s (sdk_os_delay_ms_rtt K t s)"
| enter: "rtt_step K s (sdk_os_enter_critical_rtt K s)"
| exit: "rtt_step K s (sdk_os_exit_critical_rtt K s)"

definition in_step :: "(rtt_object \<Rightarrow> 'k \<Rightarrow> bool) \<Rightarrow> 'k rtt \<Rightarrow> bool" where
  "in_step att s \<longleftrightarrow>
     (\<forall>e. att (Event e) (rtt_kernel s) \<longleftrightarrow> event_state s e = INITIALIZED)
   \<and> (\<forall>q. att (Queue q) (rtt_kernel s) \<longleftrightarrow> mq_state s q = INITIALIZED)"

lemmas rtt_defs = sdk_os_event_init_rtt_def sdk_os_event_deinit_rtt_def sdk_os_event_send_rtt_def
  sdk_os_event_recv_rtt_def sdk_os_mq_init_rtt_def sdk_os_mq_deinit_rtt_def sdk_os_mq_send_rtt_def
  sdk_os_mq_recv_rtt_def sdk_os_sem_init_rtt_def sdk_os_sem_take_rtt_def sdk_os_sem_release_rtt_def
  sdk_os_mutex_init_rtt_def sdk_os_mutex_take_rtt_def sdk_os_mutex_release_rtt_def
  sdk_os_delay_ms_rtt_def sdk_os_enter_critical_rtt_def sdk_os_exit_critical_rtt_def

lemma rtt_step_in_step:
  assumes "rtt_step K s s1" and K: "object_kernel K att" and s: "in_step att s"
  shows "in_step att s1"
  using assms(1)
proof (cases rule: rtt_step.cases)
  case (event_init e r)
  have "att x (snd (rt_event_init K e n f (rtt_kernel s))) = (x = Event e \<or> att x (rtt_kernel s))"
    if "event_state s e \<noteq> INITIALIZED" for n f x
    using K s that by (simp add: object_kernel_def in_step_def)
  with event_init s show ?thesis
    by (auto simp: sdk_os_event_init_rtt_def in_step_def case_prod_unfold Let_def split: if_splits Option.bind_splits)
next
  case (event_deinit e r)
  have "att x (snd (rt_event_detach K e (rtt_kernel s))) = (x \<noteq> Event e \<and> att x (rtt_kernel s))"
    if "event_state s e \<noteq> UNINITIALIZED"  for x
  proof -
    have "att (Event e) (rtt_kernel s)" using that s by (cases "event_state s e") (simp_all add: in_step_def)
    then show ?thesis using K by (simp add: object_kernel_def)
  qed
  with event_deinit s show ?thesis
    by (auto simp: sdk_os_event_deinit_rtt_def in_step_def case_prod_unfold Let_def split: if_splits)
next
  case (mq_init q p m l r)
  have "att x (snd (rt_mq_init K q n p m l f (rtt_kernel s)))
      = (x = Queue q \<and> fst (rt_mq_init K q n p m l f (rtt_kernel s)) = RT_EOK K \<or> att x (rtt_kernel s))"
    if "mq_state s q \<noteq> INITIALIZED" for n f x
    using K s that by (simp add: object_kernel_def in_step_def)
  with mq_init s show ?thesis
    by (auto simp: sdk_os_mq_init_rtt_def in_step_def case_prod_unfold Let_def split: if_splits Option.bind_splits)
next
  case (mq_deinit q r)
  have "att x (snd (rt_mq_detach K q (rtt_kernel s)))
      = ((x = Queue q \<longrightarrow> fst (rt_mq_detach K q (rtt_kernel s)) \<noteq> RT_EOK K) \<and> att x (rtt_kernel s))"
    if "mq_state s q \<noteq> UNINITIALIZED" for x
  proof -
    have "att (Queue q) (rtt_kernel s)" using that s by (cases "mq_state s q") (simp_all add: in_step_def)
    then show ?thesis using K by (simp add: object_kernel_def)
  qed
  with mq_deinit s show ?thesis
    by (auto simp: sdk_os_mq_deinit_rtt_def in_step_def case_prod_unfold Let_def split: if_splits)
qed (use K s in \<open>auto simp: rtt_defs in_step_def object_kernel_def case_prod_unfold Let_def split: if_splits Option.bind_splits\<close>)

text \<open>
  C32. Whatever calls of the port are made in whatever order, from a state where the kernel and
  the port agree on which events and queues are initialised, they agree afterwards: the
  kernel never gets an event or a queue to put into its lists that it has there, nor one to
  take out that it has not, a queue whose initialisation or detachment fails included.
\<close>

theorem rtt_lifecycle:
  assumes "object_kernel K att" and "in_step att s0" and "(rtt_step K)\<^sup>*\<^sup>* s0 s"
  shows "in_step att s"
  using assms(3,2) by (induction rule: rtranclp_induct) (use rtt_step_in_step [OF _ assms(1)] in blast)+

text \<open>A kernel that keeps the set of its objects; the event 5 initialised, then the queue 6.\<close>

definition set_kernel :: "rtt_object set rt_kernel" where
  "set_kernel = \<lparr>RT_EOK = 0, RT_ETIMEOUT = 2, RT_IPC_FLAG_FIFO = 0, RT_IPC_FLAG_PRIO = 1,
     RT_EVENT_FLAG_AND = 1, RT_EVENT_FLAG_OR = 2, RT_EVENT_FLAG_CLEAR = 4,
     rt_thread_mdelay = (\<lambda>t k. k), rt_enter_critical = (\<lambda>k. k), rt_exit_critical = (\<lambda>k. k),
     rt_event_init = (\<lambda>e n f k. (0, insert (Event e) k)), rt_event_detach = (\<lambda>e k. (0, k - {Event e})),
     rt_event_send = (\<lambda>e b k. (0, k)), rt_event_recv = (\<lambda>e b opt t v k. (- 2, v, k)),
     rt_sem_init = (\<lambda>s n c f k. (0, k)), rt_sem_take = (\<lambda>s t k. (0, k)), rt_sem_release = (\<lambda>s k. (0, k)),
     rt_mutex_init = (\<lambda>m n f k. (0, k)), rt_mutex_take = (\<lambda>m t k. (0, k)), rt_mutex_release = (\<lambda>m k. (0, k)),
     rt_mq_init = (\<lambda>q n p m l f k. (0, insert (Queue q) k)), rt_mq_detach = (\<lambda>q k. (0, k - {Queue q})),
     rt_mq_send = (\<lambda>q m l k. (0, k)), rt_mq_recv = (\<lambda>q m l t k. (- 2, m, k))\<rparr>"

definition rtt_reset :: "'k \<Rightarrow> 'k rtt" where
  "rtt_reset k = \<lparr>rtt_kernel = k, m_event_id = 0, m_sem_id = 0, m_mutex_id = 0, m_mq_id = 0,
     event_state = (\<lambda>_. UNINITIALIZED), mq_state = (\<lambda>_. UNINITIALIZED)\<rparr>"

theorem rtt_lifecycle_witness:
  "\<exists>s1 s2. sdk_os_event_init_rtt set_kernel 5 (rtt_reset {}) = Some (SDK_OK, s1)
     \<and> sdk_os_mq_init_rtt set_kernel 6 0 8 64 s1 = Some (SDK_OK, s2)
     \<and> in_step (\<lambda>x k. x \<in> k) s2 \<and> rtt_kernel s2 = {Queue 6, Event 5}"
proof -
  define s1 where "s1 = (rtt_reset {})\<lparr>m_event_id := 1, rtt_kernel := {Event 5},
    event_state := (\<lambda>_. UNINITIALIZED)(5 := INITIALIZED)\<rparr>"
  define s2 where "s2 = s1\<lparr>m_mq_id := 1, rtt_kernel := {Queue 6, Event 5},
    mq_state := (\<lambda>_. UNINITIALIZED)(6 := INITIALIZED)\<rparr>"
  have e: "sdk_os_event_init_rtt set_kernel 5 (rtt_reset {}) = Some (SDK_OK, s1)"
    using object_name_whole [of "''evt''" 0]
    by (simp add: sdk_os_event_init_rtt_def rtt_reset_def set_kernel_def next_id_def s1_def)
  have q: "sdk_os_mq_init_rtt set_kernel 6 0 8 64 s1 = Some (SDK_OK, s2)"
    using object_name_whole [of "''mq''" 0]
    by (simp add: sdk_os_mq_init_rtt_def rtt_reset_def set_kernel_def next_id_def s1_def s2_def)
  have "(rtt_step set_kernel)\<^sup>*\<^sup>* (rtt_reset {}) s2"
    using rtt_step.event_init [OF e] rtt_step.mq_init [OF q] by (meson rtranclp.simps)
  moreover have "object_kernel set_kernel (\<lambda>x k. x \<in> k)"
    unfolding object_kernel_def set_kernel_def by auto
  moreover have "in_step (\<lambda>x k. x \<in> k) (rtt_reset {})"
    by (simp add: in_step_def rtt_reset_def)
  ultimately have "in_step (\<lambda>x k. x \<in> k) s2" by (rule rtt_lifecycle [rotated 2])
  with e q show ?thesis by (auto simp: s2_def)
qed

end
