(* ===== verification/Bus_Link.thy ===== *)
theory Bus_Link
  imports Bus_Protocol
begin

text \<open>
  Two devices of the SDK on a serial line: the register protocol (\<open>Bus_Protocol\<close>) over its frames
  (\<open>Bus_Frame\<close>), the UART driver with its receive FIFO (\<open>Uart\<close>) and a board under it. The
  theory has no code of its own; it runs the functions of these components after one another
  as the main loops and the receive interrupts of the two devices do.

  \<^item> \<open>serial_board\<close>: what the driver relies on, a board that hands over the bytes that have
    arrived one after the other and transmits what it is given.
  \<^item> \<open>delivered_message\<close>: bytes that end with a frame, delivered by the receive interrupt, reach
    the handler of the protocol as the message.
  \<^item> \<open>register_read_over_line\<close>: a whole register read between two devices.
\<close>

section \<open>Boards and devices\<close>

text \<open>
  In the hardware state, \<open>pending\<close> are the bytes that have arrived and are not fetched yet,
  \<open>sent\<close> the bytes transmitted so far; \<open>arrive\<close> is the arrival of bytes.
\<close>

definition serial_board ::
  "'h sdk_uart_ops \<Rightarrow> ('h \<Rightarrow> u8 list) \<Rightarrow> ('h \<Rightarrow> u8 list) \<Rightarrow> (u8 list \<Rightarrow> 'h \<Rightarrow> 'h) \<Rightarrow> bool" where
  "serial_board ops pending sent arrive \<longleftrightarrow>
     (\<forall>u h. case pending h of
        [] \<Rightarrow> uop_getc ops (u, h) = (- 1, u, h)
      | c # cs \<Rightarrow> \<exists>h1. uop_getc ops (u, h) = (ucast c, u, h1) \<and> pending h1 = cs \<and> sent h1 = sent h)
   \<and> (\<exists>wr. uop_write ops = Some wr \<and> (\<forall>data len u h. \<exists>ret h1. wr data len (u, h) = (ret, u, h1)
        \<and> sent h1 = sent h @ take (unat len) data \<and> pending h1 = pending h))
   \<and> (\<forall>\<sigma>. snd (uop_control ops SDK_CONTROL_UART_UPDATE_STATE None \<sigma>) = \<sigma>)
   \<and> (\<forall>bs h. pending (arrive bs h) = pending h @ bs \<and> sent (arrive bs h) = sent h)"

lemma board_getc:
  assumes "serial_board ops pending sent arrive"
  shows "pending h = [] \<Longrightarrow> uop_getc ops (u, h) = (- 1, u, h)"
    and "pending h = c # cs \<Longrightarrow> \<exists>h1. uop_getc ops (u, h) = (ucast c, u, h1) \<and> pending h1 = cs \<and> sent h1 = sent h"
proof -
  have "case pending h of [] \<Rightarrow> uop_getc ops (u, h) = (- 1, u, h)
      | c # cs \<Rightarrow> \<exists>h1. uop_getc ops (u, h) = (ucast c, u, h1) \<and> pending h1 = cs \<and> sent h1 = sent h"
    using assms unfolding serial_board_def by blast
  then show "pending h = [] \<Longrightarrow> uop_getc ops (u, h) = (- 1, u, h)"
    "pending h = c # cs \<Longrightarrow> \<exists>h1. uop_getc ops (u, h) = (ucast c, u, h1) \<and> pending h1 = cs \<and> sent h1 = sent h"
    by simp_all
qed

lemma board_arrive:
  assumes "serial_board ops pending sent arrive"
  shows "pending (arrive bs h) = pending h @ bs" and "sent (arrive bs h) = sent h"
  using assms unfolding serial_board_def by blast+

text \<open>The receive interrupt after bytes have arrived.\<close>

definition deliver ::
  "'h sdk_uart_ops \<Rightarrow> nat \<Rightarrow> (u8 list \<Rightarrow> 'h \<Rightarrow> 'h) \<Rightarrow> u8 list \<Rightarrow> ('h uart_st, 'a) bus_ctx \<Rightarrow> ('h uart_st, 'a) bus_ctx option" where
  "deliver ops fuel arrive bs ctx =
     (case sdk_uart_rx_isr ops fuel (fst (cx_port ctx), arrive bs (snd (cx_port ctx))) of
        Some (Some \<sigma>) \<Rightarrow> Some (ctx\<lparr>cx_port := \<sigma>\<rparr>)
      | _ \<Rightarrow> None)"

text \<open>A device whose line is quiet and which waits for a message; \<open>line_free\<close>: it may send.\<close>

definition quiet :: "('h \<Rightarrow> u8 list) \<Rightarrow> ('h uart_st, 'a) bus_ctx \<Rightarrow> bool" where
  "quiet pending ctx \<longleftrightarrow> port_inv (cx_port ctx) \<and> port_view (cx_port ctx) = [] \<and> pending (snd (cx_port ctx)) = []
     \<and> ua_rx_callback (fst (cx_port ctx)) = None \<and> length (cx_msg ctx) = 280
     \<and> 0 <s cx_response_timeout ctx \<and> \<not> cx_recv_waiting ctx"

definition line_free :: "'h uart_st \<Rightarrow> bool" where
  "line_free \<sigma> \<longleftrightarrow> ua_state (fst \<sigma>) = UART_READY \<and> ua_txstate (fst \<sigma>) \<noteq> UART_TX_ACTIVE"

abbreviation sent_by :: "('h \<Rightarrow> u8 list) \<Rightarrow> ('h uart_st, 'a) bus_ctx \<Rightarrow> u8 list" where
  "sent_by sent ctx \<equiv> sent (snd (cx_port ctx))"

section \<open>Receiving\<close>

lemma rx_isr_keeps:
  assumes "\<And>u h. P h \<Longrightarrow> P (snd (snd (uop_getc ops (u, h))))"
    and "\<And>u h. fst (snd (uop_getc ops (u, h))) = u" and "ua_rx_callback u = None"
    and "sdk_uart_rx_isr ops fuel (u, h) = Some (Some (u1, h1))" and "P h"
  shows "P h1"
  using assms(3-5)
proof (induction fuel arbitrary: u h)
  case (Suc fuel)
  obtain ch h2 where g: "uop_getc ops (u, h) = (ch, u, h2)" using assms(2) [of u h] by (metis prod.collapse)
  then have P: "P h2" using assms(1) [of h u] Suc.prems(3) by simp
  show ?case
  proof (cases "ch = - 1")
    case True
    then show ?thesis using Suc.prems g P by simp
  next
    case False
    then obtain \<sigma> where s: "sdk_uart_rx_getc (u, h2) ch = Some \<sigma>" "sdk_uart_rx_isr ops fuel \<sigma> = Some (Some (u1, h1))"
      using Suc.prems(2) g by (auto split: option.splits)
    have "snd \<sigma> = h2 \<and> ua_rx_callback (fst \<sigma>) = None"
      using s(1) Suc.prems(1) by (auto simp: sdk_uart_rx_getc_def split: option.splits if_splits Option.bind_splits)
    then show ?thesis using Suc.IH [of "fst \<sigma>" "snd \<sigma>"] s(2) P by (cases \<sigma>) simp
  qed
qed simp

lemma isr_delivers:
  assumes b: "serial_board ops pending sent arrive" and u: "uart_rx_inv u" "uart_rx_view u = []" "ua_rx_callback u = None"
    and h: "length (pending h) \<le> 511" "length (pending h) < fuel"
  shows "\<exists>f h1. sdk_uart_rx_isr ops fuel (u, h) = Some (Some (u\<lparr>ua_rx_fifo := f\<rparr>, h1))
    \<and> fifo_inv SDK_UART_RX_FIFO_LEN f \<and> fifo_view SDK_UART_RX_FIFO_LEN f = pending h
    \<and> pending h1 = [] \<and> sent h1 = sent h"
proof -
  obtain f h1 where f: "sdk_uart_rx_isr ops fuel (u, h) = Some (Some (u\<lparr>ua_rx_fifo := f\<rparr>, h1))"
    "push_list (fifo_push SDK_UART_RX_FIFO_LEN) (pending h) (ua_rx_fifo u) = Some f" "pending h1 = []"
    using uart_rx_isr_push_list [of pending ops u h fuel] board_getc [OF b] u(1,3) h(2) by fastforce
  have "fifo_inv SDK_UART_RX_FIFO_LEN f \<and> fifo_view SDK_UART_RX_FIFO_LEN f = pending h"
    using uartq.push_list_lastn [OF u(1), of "pending h"] f(2) u(2) h(1) by auto
  moreover have "sent h1 = sent h"
  proof (rule rx_isr_keeps [where P = "\<lambda>x. sent x = sent h", OF _ _ u(3) f(1)])
    show "sent (snd (snd (uop_getc ops (v, x)))) = sent h" if "sent x = sent h" for v x
      using board_getc(1) [OF b, of x v] board_getc(2) [OF b, of x _ _ v] that by (cases "pending x") fastforce+
    show "fst (snd (uop_getc ops (v, x))) = v" for v x
      using board_getc(1) [OF b, of x v] board_getc(2) [OF b, of x _ _ v] by (cases "pending x") fastforce+
  qed simp
  ultimately show ?thesis using f by blast
qed

lemma deliver_arrives:
  assumes b: "serial_board ops pending sent arrive" and q: "quiet pending ctx"
    and len: "length bs \<le> 511" "length bs < fuel"
  shows "\<exists>\<sigma>. deliver ops fuel arrive bs ctx = Some (ctx\<lparr>cx_port := \<sigma>\<rparr>) \<and> port_inv \<sigma> \<and> port_view \<sigma> = bs
    \<and> (fst \<sigma>)\<lparr>ua_rx_fifo := ua_rx_fifo (fst (cx_port ctx))\<rparr> = fst (cx_port ctx)
    \<and> pending (snd \<sigma>) = [] \<and> sent (snd \<sigma>) = sent_by sent ctx"
proof -
  let ?u = "fst (cx_port ctx)" and ?h = "arrive bs (snd (cx_port ctx))"
  have p: "pending ?h = bs" "sent ?h = sent_by sent ctx" using board_arrive [OF b] q by (simp_all add: quiet_def)
  obtain f h1 where f: "sdk_uart_rx_isr ops fuel (?u, ?h) = Some (Some (?u\<lparr>ua_rx_fifo := f\<rparr>, h1))"
    "fifo_inv SDK_UART_RX_FIFO_LEN f" "fifo_view SDK_UART_RX_FIFO_LEN f = bs" "pending h1 = []" "sent h1 = sent_by sent ctx"
    using isr_delivers [OF b, of ?u ?h fuel] p q len by (auto simp: quiet_def)
  then show ?thesis by (intro exI [of _ "(?u\<lparr>ua_rx_fifo := f\<rparr>, h1)"]) (simp add: deliver_def)
qed

text \<open>
  The message behind any bytes without the first marker; a device with one command handler for
  its function. Afterwards the line is quiet, and free if it was.
\<close>

lemma delivered_message:
  fixes ctx :: "('h uart_st, 'a) bus_ctx"
  assumes b: "serial_board ops pending sent arrive" and q: "quiet pending ctx"
    and bk: "bus_backend_ok bk" and m: "msg_meta_ok m" and m0: "length (mm_body m0) = 256"
    and junk: "bk_mark0 bk \<notin> set junk" "length junk \<le> 200" and fuel: "512 \<le> fuel"
    and ps: "ps_own_cmd_ops ps = [(mm_cmd_func m, Some handler)]"
  shows "\<exists>ctx1 ctx2. deliver ops fuel arrive (junk @ bus_frame bk m) ctx = Some ctx1
    \<and> bus_recv_poll (serial_io bk ops delay_ms) tick m0 (Some ps) (ucast (mm_dest_id m)) ctx1
        = do { (_, c, _) \<leftarrow> handler ctx2 (received_meta m m0); Some (PT_ENDED, c) }
    \<and> quiet pending ctx2 \<and> (line_free (cx_port ctx) \<longrightarrow> line_free (cx_port ctx2))
    \<and> cx_app ctx2 = cx_app ctx \<and> cx_msg_body ctx2 = cx_msg_body ctx \<and> sent_by sent ctx2 = sent_by sent ctx"
proof -
  have "length (junk @ bus_frame bk m) \<le> 511"
    using length_bus_frame [OF m, of bk] m junk(2) by (simp add: msg_meta_ok_def)
  then obtain \<sigma> where s: "deliver ops fuel arrive (junk @ bus_frame bk m) ctx = Some (ctx\<lparr>cx_port := \<sigma>\<rparr>)"
    "port_inv \<sigma>" "port_view \<sigma> = junk @ bus_frame bk m @ []"
    "(fst \<sigma>)\<lparr>ua_rx_fifo := ua_rx_fifo (fst (cx_port ctx))\<rparr> = fst (cx_port ctx)"
    "pending (snd \<sigma>) = []" "sent (snd \<sigma>) = sent_by sent ctx"
    using deliver_arrives [OF b q, of "junk @ bus_frame bk m" fuel] fuel by auto
  let ?c = "ctx\<lparr>cx_port := \<sigma>\<rparr>"
  have c: "length (cx_msg ?c) = 280" "0 <s cx_response_timeout ?c" "\<not> cx_recv_waiting ?c"
    "port_inv (cx_port ?c)" "port_view (cx_port ?c) = junk @ bus_frame bk m @ []"
    using q s by (simp_all add: quiet_def)
  obtain ctx2 where 2: "cx_app ctx2 = cx_app ctx" "port_like \<sigma> (cx_port ctx2)" "port_view (cx_port ctx2) = []"
    "cx_msg ctx2 = bus_frame bk m @ drop (unat (mm_body_len m) + 11) (cx_msg ctx)" "\<not> cx_recv_waiting ctx2"
    "cx_response_timeout ctx2 = cx_response_timeout ctx" "cx_msg_body ctx2 = cx_msg_body ctx"
    "bus_recv_poll (serial_io bk ops delay_ms) tick m0 (Some ps) (ucast (mm_dest_id m)) ?c
      = do { (c, _) \<leftarrow> bus_dispatch (ps_own_cmd_ops ps) ctx2 (received_meta m m0); Some (PT_ENDED, c) }"
    using bus_recv_poll_frame [OF bk m m0 junk(1) c, of ops delay_ms tick "Some ps" "ucast (mm_dest_id m)"] by auto
  have "mm_cmd_func (received_meta m m0) = mm_cmd_func m" by (simp add: received_meta_def)
  then have d: "bus_dispatch (ps_own_cmd_ops ps) ctx2 (received_meta m m0)
      = do { (_, c, x) \<leftarrow> handler ctx2 (received_meta m m0); Some (c, x) }"
    by (simp add: ps case_prod_unfold)
  have fields: "ua_rx_callback (fst (cx_port ctx2)) = ua_rx_callback (fst (cx_port ctx))"
    "ua_state (fst (cx_port ctx2)) = ua_state (fst (cx_port ctx))"
    "ua_txstate (fst (cx_port ctx2)) = ua_txstate (fst (cx_port ctx))"
    using 2(2) s(4) unfolding port_like_def by (metis sdk_uart.select_convs sdk_uart.surjective sdk_uart.update_convs(5))+
  have "quiet pending ctx2"
    using q 2 s(5) fields length_bus_frame [OF m, of bk] m
    by (simp add: quiet_def port_like_def msg_meta_ok_def)
  moreover have "line_free (cx_port ctx) \<longrightarrow> line_free (cx_port ctx2)"
    using fields by (simp add: line_free_def)
  moreover have "sent_by sent ctx2 = sent_by sent ctx" using 2(2) s(6) by (simp add: port_like_def)
  moreover have "bus_recv_poll (serial_io bk ops delay_ms) tick m0 (Some ps) (ucast (mm_dest_id m)) ?c
      = do { (_, c, _) \<leftarrow> handler ctx2 (received_meta m m0); Some (PT_ENDED, c) }"
    unfolding 2(8) d by (simp add: case_prod_unfold)
  ultimately show ?thesis using s(1) 2(1,7) by blast
qed

section \<open>Sending\<close>

lemma uart_write_free:
  assumes b: "serial_board ops pending sent arrive" and f: "line_free \<sigma>"
  shows "\<exists>\<sigma>1. sdk_uart_write ops delay_ms data len \<sigma> = (len, \<sigma>1)
    \<and> sent (snd \<sigma>1) = sent (snd \<sigma>) @ take (unat len) data \<and> pending (snd \<sigma>1) = pending (snd \<sigma>)
    \<and> fst \<sigma>1 = (fst \<sigma>)\<lparr>ua_txstate := UART_TX_ACTIVE\<rparr>"
proof -
  obtain u h where s: "\<sigma> = (u, h)" by (cases \<sigma>)
  obtain wr where wr: "uop_write ops = Some wr"
    "\<And>data len u h. \<exists>ret h1. wr data len (u, h) = (ret, u, h1)
        \<and> sent h1 = sent h @ take (unat len) data \<and> pending h1 = pending h"
    using b unfolding serial_board_def by blast
  have ctrl: "snd (sdk_uart_control ops SDK_CONTROL_UART_UPDATE_STATE None (u, h)) = (u, h)"
    using b by (simp add: serial_board_def sdk_uart_control_def SDK_CONTROL_UART_UPDATE_STATE_def)
  have wait: "uart_tx_wait ops delay_ms 0 (u, h) = (True, (u, h))"
    using f s by (subst uart_tx_wait.simps) (simp add: line_free_def)
  obtain ret h1 where h1: "wr data len (u\<lparr>ua_txstate := UART_TX_ACTIVE\<rparr>, h) = (ret, u\<lparr>ua_txstate := UART_TX_ACTIVE\<rparr>, h1)"
    "sent h1 = sent h @ take (unat len) data" "pending h1 = pending h"
    using wr(2) by metis
  then show ?thesis using f s wr(1) ctrl wait
    by (simp add: sdk_uart_write_def line_free_def case_prod_unfold)
qed

lemma bus_send_over_line:
  fixes ctx :: "('h uart_st, 'a) bus_ctx"
  assumes b: "serial_board ops pending sent arrive" and q: "quiet pending ctx" and f: "line_free (cx_port ctx)"
    and m: "msg_meta_ok m"
  shows "\<exists>ctx1. bus_send (serial_io bk ops delay_ms) m ctx = Some ctx1 \<and> quiet pending ctx1
    \<and> sent_by sent ctx1 = sent_by sent ctx @ bus_frame bk m \<and> cx_msg_body ctx1 = cx_msg_body ctx
    \<and> cx_app ctx1 = cx_app ctx"
proof -
  obtain \<sigma>1 where w: "sdk_uart_write ops delay_ms (sent_frame bk m) (frame_len m) (cx_port ctx) = (frame_len m, \<sigma>1)"
    "sent (snd \<sigma>1) = sent_by sent ctx @ take (unat (frame_len m)) (sent_frame bk m)"
    "pending (snd \<sigma>1) = pending (snd (cx_port ctx))"
    "fst \<sigma>1 = (fst (cx_port ctx))\<lparr>ua_txstate := UART_TX_ACTIVE\<rparr>"
    using uart_write_free [OF b f] by blast
  have n: "unat (mm_body_len m) \<le> 256" using m by (simp add: msg_meta_ok_def)
  then have "unat (frame_len m) = unat (mm_body_len m) + 11" by (simp add: unat_of_nat del: of_nat_add)
  then have "take (unat (frame_len m)) (sent_frame bk m) = bus_frame bk m"
    using length_bus_frame [OF m, of bk] by simp
  then show ?thesis using w q bus_send_frame [OF m, of "serial_io bk ops delay_ms" ctx]
    by (simp add: serial_io_def bus_serial_write_def quiet_def)
qed

section \<open>A register read\<close>

text \<open>
  The handlers of the two devices: the one asked answers from its table as many bytes as the
  request says, the asking one takes the answer.
\<close>

definition read_handler :: "bus_codes \<Rightarrow> 'p bus_io \<Rightarrow> u16 list \<Rightarrow> ('p, 'a) cmd_handler" where
  "read_handler cc io tab ctx x =
     do { (ret, c) \<leftarrow> bus_send_read_ack cc io x (ucast (mk16 (mm_body x ! 0) (mm_body x ! 1))) tab ctx; Some (ret, c, x) }"

definition server_parser :: "bus_codes \<Rightarrow> 'p bus_io \<Rightarrow> u16 list \<Rightarrow> ('p, 'a) cmd_parser" where
  "server_parser cc io tab = \<lparr>ps_own_cmd_ops = [(cc_rd cc, Some (read_handler cc io tab))], ps_others_cmd_handler = None\<rparr>"

definition client_parser :: "bus_codes \<Rightarrow> ('p, 'a) cmd_parser" where
  "client_parser cc = \<lparr>ps_own_cmd_ops = [(cc_ack_rd cc, Some bus_received_ack)], ps_others_cmd_handler = None\<rparr>"

text \<open>The request makes the server send the answer.\<close>

lemma server_answers:
  fixes sv :: "('h uart_st, 'a) bus_ctx"
  assumes b: "serial_board ops pending sent arrive" and q: "quiet pending sv" and f: "line_free (cx_port sv)"
    and bk: "bus_backend_ok bk" and m0: "length (mm_body m0) = 256"
    and junk: "bk_mark0 bk \<notin> set junk" "length junk \<le> 200" and fuel: "512 \<le> fuel"
    and n: "n \<le> 128" "unat index + n \<le> length tab"
  shows "\<exists>sv1 sv2 r. deliver ops fuel arrive (junk @ bus_frame bk (read_request cc src dest index n)) sv = Some sv1
    \<and> bus_recv_poll (serial_io bk ops delay_ms) tick m0 (Some (server_parser cc (serial_io bk ops delay_ms) tab)) (ucast dest) sv1 = Some (PT_ENDED, sv2)
    \<and> mm_index r = index \<and> mm_src_id r = src \<and> mm_dest_id r = dest
    \<and> sent_by sent sv2 = sent_by sent sv @ bus_frame bk (read_answer cc r (take n (drop (unat index) tab)))"
proof -
  let ?rq = "read_request cc src dest index n" and ?io = "serial_io bk ops delay_ms"
  let ?rs = "take n (drop (unat index) tab)"
  define r where "r = received_meta ?rq m0"
  have r: "mm_index r = index" "mm_src_id r = src" "mm_dest_id r = dest"
    "mm_body r ! 0 = lo8 (word_of_nat (2 * n))" "mm_body r ! 1 = hi8 (word_of_nat (2 * n))"
    by (simp_all add: r_def received_meta_def read_request_def del: of_nat_mult)
  have rq: "msg_meta_ok ?rq" "mm_dest_id ?rq = dest" "mm_cmd_func ?rq = cc_rd cc"
    using messages_ok(1) by (simp_all add: read_request_def)
  obtain sv1 c where c: "deliver ops fuel arrive (junk @ bus_frame bk ?rq) sv = Some sv1"
    "bus_recv_poll ?io tick m0 (Some (server_parser cc ?io tab)) (ucast dest) sv1
        = do { (_, c, _) \<leftarrow> read_handler cc ?io tab c r; Some (PT_ENDED, c) }"
    "quiet pending c" "line_free (cx_port c)" "sent_by sent c = sent_by sent sv"
    using delivered_message [OF b q bk rq(1) m0 junk fuel, of "server_parser cc ?io tab" "read_handler cc ?io tab" delay_ms tick]
      f rq by (auto simp: server_parser_def r_def)
  have an: "msg_meta_ok (read_answer cc r ?rs)" using n messages_ok(4) [of ?rs cc r] by simp
  obtain sv2 where s2: "bus_send ?io (read_answer cc r ?rs) c = Some sv2"
    "sent_by sent sv2 = sent_by sent c @ bus_frame bk (read_answer cc r ?rs)"
    using bus_send_over_line [OF b c(3,4) an] by blast
  have "ucast (mk16 (mm_body r ! 0) (mm_body r ! 1)) = (word_of_nat (2 * n) :: s32)"
    using n unat_u16_of_nat [of "2 * n"] of_nat_unat [of "word_of_nat (2 * n) :: u16", where ?'a = s32]
    unfolding r(4,5) mk16_lo8_hi8 by simp
  then have "read_handler cc ?io tab c r = Some (BUS_ERR_NO, sv2, r)"
    using bus_send_read_ack_answer [of r n tab cc ?io c] n r(1) s2(1) by (simp add: read_handler_def)
  then show ?thesis using c(1,2,5) r(1-3) s2(2) by (intro exI [of _ sv1] exI [of _ sv2] exI [of _ r]) simp
qed

text \<open>The answer, taken by the asking device, ends its request with the registers.\<close>

lemma client_takes_answer:
  fixes cl :: "('h uart_st, 'a) bus_ctx"
  assumes b: "serial_board ops pending sent arrive" and q: "quiet pending cl"
    and bk: "bus_backend_ok bk" and m0: "length (mm_body m0) = 256"
    and junk: "bk_mark0 bk \<notin> set junk" "length junk \<le> 200" and fuel: "512 \<le> fuel"
    and r: "mm_index r = index" "mm_src_id r = src" and rs: "length rs \<le> 128" "length rs \<le> length reg"
    and mb: "length (mb_body (cx_msg_body cl)) = 280" and pt: "rp_waiting pt"
  shows "\<exists>cl1 cl2 cl3 pt1. deliver ops fuel arrive (junk @ bus_frame bk (read_answer cc r rs)) cl = Some cl1
    \<and> bus_recv_poll (serial_io bk ops delay_ms) tick m0 (Some (client_parser cc)) (ucast src) cl1 = Some (PT_ENDED, cl2)
    \<and> bus_read_reg_poll cc (serial_io bk ops delay_ms) later timeout src dest index num pt reg rn cl2
        = Some (PT_ENDED, pt1, rs @ drop (length rs) reg, word_of_nat (length rs), cl3)"
proof -
  let ?io = "serial_io bk ops delay_ms" and ?n = "length rs"
  let ?an = "read_answer cc r rs"
  define a where "a = received_meta ?an m0"
  have an: "msg_meta_ok ?an" "unat (mm_body_len ?an) = 2 * ?n" "mm_body_len ?an = word_of_nat (2 * ?n)"
    "mm_dest_id ?an = src" "mm_cmd_func ?an = cc_ack_rd cc" "mm_index ?an = index"
    using messages_ok(4) [of rs cc r] rs(1) unat_u16_of_nat [of "2 * ?n"] r
    by (simp_all add: read_answer_def del: of_nat_mult)
  obtain cl1 c where c: "deliver ops fuel arrive (junk @ bus_frame bk ?an) cl = Some cl1"
    "bus_recv_poll ?io tick m0 (Some (client_parser cc)) (ucast src) cl1
        = do { (_, c, _) \<leftarrow> bus_received_ack c a; Some (PT_ENDED, c) }"
    "cx_msg_body c = cx_msg_body cl"
    using delivered_message [OF b q bk an(1) m0 junk fuel, of "client_parser cc" bus_received_ack delay_ms tick] an(4,5)
    by (auto simp: client_parser_def a_def)
  have a: "mm_index a = index" "mm_cmd_func a = cc_ack_rd cc" "mm_body_len a = word_of_nat (2 * ?n)"
    "length (mm_body a) = 256" "take (2 * ?n) (mm_body a) = reg_bytes rs" "unat (mm_body_len a) = 2 * ?n"
    using an rs(1) m0 by (simp_all add: a_def received_meta_def msg_meta_ok_def del: of_nat_mult)
      (simp add: read_answer_def)
  let ?mb = "\<lparr>mb_body = reg_bytes rs @ drop (2 * ?n) (mb_body (cx_msg_body c)), mb_recv = 1,
    mb_cmd_fun = cc_ack_rd cc, mb_cmd_index = index, mb_body_len = word_of_nat (2 * ?n)\<rparr>"
  have ua: "ucast (mm_body_len a) = (word_of_nat (2 * ?n) :: s32)"
    using a(3,6) of_nat_unat [of "mm_body_len a", where ?'a = s32] by (simp del: of_nat_mult)
  have rcv: "bus_received_ack c a = Some (0, c\<lparr>cx_msg_body := ?mb\<rparr>, a)"
    using bus_received_ack_stores [OF a(4), of c] ua rs(1) a mb c(3) by simp
  obtain cl3 where "bus_read_reg_poll cc ?io later timeout src dest index num pt reg rn (c\<lparr>cx_msg_body := ?mb\<rparr>)
    = Some (PT_ENDED, pt\<lparr>rp_waiting := False\<rparr>, rs @ drop ?n reg, word_of_nat ?n, cl3)"
    using bus_read_reg_poll_answer [of pt "c\<lparr>cx_msg_body := ?mb\<rparr>" cc index rs reg] pt rs by (simp del: of_nat_mult)
  then show ?thesis using c(1,2) rcv
    by (intro exI [of _ cl1] exI [of _ "c\<lparr>cx_msg_body := ?mb\<rparr>"] exI [of _ cl3] exI [of _ "pt\<lparr>rp_waiting := False\<rparr>"]) simp
qed

text \<open>
  C3. A register read between two devices on a serial line, from the first call to the result:
  the request a client's protothread sends is transmitted byte for byte, arrives at the server
  through the receive interrupt and the FIFO of its UART driver, behind line noise without the
  first marker, is found, checked and dispatched by its receiving protothread, whose
  handler transmits the answer; the answer reaches the client in the same way, and the client's
  protothread, called again at any time, ends with exactly the registers asked for.
\<close>

theorem register_read_over_line:
  fixes cl sv :: "('h uart_st, 'a) bus_ctx"
  assumes "serial_board ops pending sent arrive" and "bus_backend_ok bk"
    and "quiet pending cl" and "line_free (cx_port cl)" and "quiet pending sv" and "line_free (cx_port sv)"
    and "length (mb_body (cx_msg_body cl)) = 280" and "length (mm_body m1) = 256" and "length (mm_body m2) = 256"
    and "bk_mark0 bk \<notin> set noise1" and "length noise1 \<le> 200" and "bk_mark0 bk \<notin> set noise2" and "length noise2 \<le> 200"
    and "512 \<le> fuel" and "n \<le> 128" and "unat index + n \<le> length tab" and "n \<le> length reg" and "\<not> rp_waiting pt"
  shows "\<exists>pt1 pt2 request answer cl1 cl2 cl3 cl4 sv1 sv2.
      bus_read_reg_poll cc (serial_io bk ops delay_ms) now timeout src dest index (word_of_nat n) pt reg rn cl
        = Some (PT_YIELDED, pt1, reg, rn, cl1)
    \<and> sent_by sent cl1 = sent_by sent cl @ request
    \<and> deliver ops fuel arrive (noise1 @ request) sv = Some sv1
    \<and> bus_recv_poll (serial_io bk ops delay_ms) tick1 m1 (Some (server_parser cc (serial_io bk ops delay_ms) tab))
        (ucast dest) sv1 = Some (PT_ENDED, sv2)
    \<and> sent_by sent sv2 = sent_by sent sv @ answer
    \<and> deliver ops fuel arrive (noise2 @ answer) cl1 = Some cl2
    \<and> bus_recv_poll (serial_io bk ops delay_ms) tick2 m2 (Some (client_parser cc)) (ucast src) cl2 = Some (PT_ENDED, cl3)
    \<and> bus_read_reg_poll cc (serial_io bk ops delay_ms) later timeout src dest index (word_of_nat n) pt1 reg rn cl3
        = Some (PT_ENDED, pt2, take n (drop (unat index) tab) @ drop n reg, word_of_nat n, cl4)"
proof -
  let ?io = "serial_io bk ops delay_ms" and ?rq = "read_request cc src dest index n"
  let ?rs = "take n (drop (unat index) tab)"
  have rs: "length ?rs = n" using assms(16) by simp
  obtain cl1 where cl1: "bus_send ?io ?rq cl = Some cl1" "quiet pending cl1"
    "sent_by sent cl1 = sent_by sent cl @ bus_frame bk ?rq" "cx_msg_body cl1 = cx_msg_body cl"
    using bus_send_over_line [OF assms(1,3,4) messages_ok(1)] by blast
  define pt1 where "pt1 = \<lparr>rp_waiting = True, rp_timer = swtimer_set now timeout (rp_timer pt)\<rparr>"
  have poll: "bus_read_reg_poll cc ?io now timeout src dest index (word_of_nat n) pt reg rn cl
      = Some (PT_YIELDED, pt1, reg, rn, cl1)"
    using assms(18) cl1(1) by (simp add: bus_read_reg_poll_def bus_read_reg_send_request pt1_def)
  obtain sv1 sv2 r where sv: "deliver ops fuel arrive (noise1 @ bus_frame bk ?rq) sv = Some sv1"
    "bus_recv_poll ?io tick1 m1 (Some (server_parser cc ?io tab)) (ucast dest) sv1 = Some (PT_ENDED, sv2)"
    "mm_index r = index" "mm_src_id r = src" "sent_by sent sv2 = sent_by sent sv @ bus_frame bk (read_answer cc r ?rs)"
    using server_answers [OF assms(1,5,6,2,8,10,11,14,15,16), of cc src dest delay_ms tick1] by blast
  obtain cl2 cl3 cl4 pt2 where "deliver ops fuel arrive (noise2 @ bus_frame bk (read_answer cc r ?rs)) cl1 = Some cl2"
    "bus_recv_poll ?io tick2 m2 (Some (client_parser cc)) (ucast src) cl2 = Some (PT_ENDED, cl3)"
    "bus_read_reg_poll cc ?io later timeout src dest index (word_of_nat n) pt1 reg rn cl3
      = Some (PT_ENDED, pt2, ?rs @ drop (length ?rs) reg, word_of_nat (length ?rs), cl4)"
    using client_takes_answer [OF assms(1) cl1(2) assms(2,9,12,13,14) sv(3,4), of ?rs reg pt1 cc delay_ms tick2 later timeout dest "word_of_nat n" rn]
      rs assms(7,15,17) cl1(4) by (auto simp: pt1_def)
  then show ?thesis using poll cl1(3) sv(1,2,5) unfolding rs by blast
qed

text \<open>A board that keeps the bytes arrived and the bytes sent; two registers from index 1 on.\<close>

definition line_board :: "(u8 list \<times> u8 list) sdk_uart_ops" where
  "line_board = \<lparr>uop_open = (\<lambda>_ _ _ _ \<sigma>. (0, \<sigma>)), uop_close = (\<lambda>\<sigma>. (0, \<sigma>)),
     uop_write = Some (\<lambda>data len (u, rx, tx). (0, u, rx, tx @ take (unat len) data)), uop_putc = (\<lambda>_ \<sigma>. (0, \<sigma>)),
     uop_getc = (\<lambda>(u, rx, tx). case rx of [] \<Rightarrow> (- 1, u, [], tx) | c # cs \<Rightarrow> (ucast c, u, cs, tx)),
     uop_control = (\<lambda>_ _ \<sigma>. (0, \<sigma>))\<rparr>"

lemma line_board_serial: "serial_board line_board fst snd (\<lambda>bs (rx, tx). (rx @ bs, tx))"
  by (auto simp: serial_board_def line_board_def split: list.splits)

definition line_ctx :: "((u8 list \<times> u8 list) uart_st, unit) bus_ctx" where
  "line_ctx = fresh_ctx (idle_uart UART_TX_IDLE, [], []) ()"

lemma line_ctx_quiet:
  "quiet fst line_ctx" "line_free (cx_port line_ctx)" "length (mb_body (cx_msg_body line_ctx)) = 280"
  using idle_uart_empty [of UART_TX_IDLE]
  by (simp_all add: quiet_def line_free_def line_ctx_def fresh_ctx_def word_sless_alt) (simp_all add: idle_uart_def)

theorem register_read_over_line_witness:
  "\<exists>request answer cl1 cl2 cl3 cl4 sv1 sv2 pt1 pt2 io.
     io = serial_io unibus_backend_uart line_board (\<lambda>_ \<sigma>. \<sigma>)
   \<and> bus_read_reg_poll unibus_codes io 7 100 1 2 1 2 idle_reg_pt [0, 0, 0] 0 line_ctx
       = Some (PT_YIELDED, pt1, [0, 0, 0], 0, cl1)
   \<and> deliver line_board 512 (\<lambda>bs (rx, tx). (rx @ bs, tx)) ([1] @ request) line_ctx = Some sv1
   \<and> bus_recv_poll io 8 zero_meta (Some (server_parser unibus_codes io [10, 20, 30, 40])) 2 sv1 = Some (PT_ENDED, sv2)
   \<and> deliver line_board 512 (\<lambda>bs (rx, tx). (rx @ bs, tx)) ([] @ answer) cl1 = Some cl2
   \<and> bus_recv_poll io 9 zero_meta (Some (client_parser unibus_codes)) 1 cl2 = Some (PT_ENDED, cl3)
   \<and> bus_read_reg_poll unibus_codes io 10 100 1 2 1 2 pt1 [0, 0, 0] 0 cl3
       = Some (PT_ENDED, pt2, [20, 30, 0], 2, cl4)"
proof -
  have bk: "bus_backend_ok unibus_backend_uart" "bk_mark0 unibus_backend_uart \<notin> set [1]"
    by (simp_all add: bus_backend_ok_def unibus_backend_uart_def)
  note read = register_read_over_line [OF line_board_serial bk(1) line_ctx_quiet(1,2,1,2,3) wire_facts(4,4) bk(2),
      where ?noise2.0 = "[]" and n = 2 and index = 1 and tab = "[10, 20, 30, 40]" and reg = "[0, 0, 0]"
        and pt = idle_reg_pt and fuel = 512 and cc = unibus_codes and delay_ms = "\<lambda>_ \<sigma>. \<sigma>" and now = 7
        and timeout = 100 and src = 1 and dest = 2 and rn = 0 and ?tick1.0 = 8 and ?tick2.0 = 9 and later = 10]
  have "take 2 (drop (unat (1 :: u16)) [10, 20, 30, 40]) @ drop 2 [0, 0, 0] = ([20, 30, 0] :: u16 list)"
    by (simp add: numeral_2_eq_2)
  then show ?thesis using read wire_facts(3) by simp metis
qed

end
