(* ===== verification/Ble_Link.thy ===== *)
theory Ble_Link
  imports Bus_Link
begin

text \<open>
  A device of the SDK as a Bluetooth peripheral: a register read by a central, through the
  characteristics of \<open>Ble\<close>, the frames of \<open>Bus_Frame\<close> and the protocol of \<open>Bus_Protocol\<close>. The
  central writes its request in pieces of at most 20 bytes and gets the answer in such pieces.

  \<^item> \<open>ble_register_read\<close>: the notifications put together are a frame that the central's check
    accepts and that holds the registers asked for.
\<close>

section \<open>The transport as a port\<close>

definition ble_like :: "ble_transport \<times> 'h \<Rightarrow> ble_transport \<times> 'h \<Rightarrow> bool" where
  "ble_like p0 p \<longleftrightarrow> ble_rx_inv (fst p) \<and> snd p = snd p0 \<and> bl_simulate (fst p) = bl_simulate (fst p0)"

interpretation ble_device: byte_source "io_read (ble_io notify)" "\<lambda>p. ble_rx_view (fst p)" "ble_like p0"
  for notify :: "u8 list \<Rightarrow> 'h \<Rightarrow> 'h" and p0
proof unfold_locales
  fix p :: "ble_transport \<times> 'h" and i and n :: u32 and buf :: "u8 list"
  assume "ble_like p0 p"
  then have inv: "ble_rx_inv (fst p)" and like: "snd p = snd p0" "bl_simulate (fst p) = bl_simulate (fst p0)"
    by (simp_all add: ble_like_def)
  show "\<exists>p1. io_read (ble_io notify) p buf i n
      = Some (word_of_nat (min (unat n) (length (ble_rx_view (fst p)))),
          take i buf @ take (unat n) (ble_rx_view (fst p)) @ drop (i + min (unat n) (length (ble_rx_view (fst p)))) buf, p1)
        \<and> ble_like p0 p1 \<and> ble_rx_view (fst p1) = drop (unat n) (ble_rx_view (fst p))"
    if fits: "i + min (unat n) (length (ble_rx_view (fst p))) \<le> length buf"
  proof -
    obtain b1 where b1: "ble_read (fst p) buf i n = Some (word_of_nat (min (unat n) (length (ble_rx_view (fst p)))),
          take i buf @ take (unat n) (ble_rx_view (fst p)) @ drop (i + min (unat n) (length (ble_rx_view (fst p)))) buf, b1)"
        "ble_rx_inv b1" "ble_rx_view b1 = drop (unat n) (ble_rx_view (fst p))"
      using ble_port.rd_view [OF inv fits] by blast
    moreover have "bl_simulate b1 = bl_simulate (fst p)"
      using b1(1) by (auto simp: ble_read_def split: Option.bind_splits)
    ultimately show ?thesis using like by (cases p) (auto simp: ble_io_def ble_like_def)
  qed
  show "io_read (ble_io notify) p buf i n = None"
    if "i \<le> length buf" "length buf < i + min (unat n) (length (ble_rx_view (fst p)))"
    using ble_port.rd_overrun [OF inv that] by (cases p) (simp add: ble_io_def)
qed

section \<open>Pieces of a message\<close>

text \<open>The central's writes to the characteristic, each from its beginning.\<close>

fun ble_writes :: "s32 \<Rightarrow> u8 list list \<Rightarrow> ble_transport \<Rightarrow> ble_transport option" where
  "ble_writes e [] b = Some b"
| "ble_writes e (c # cs) b = do { (_, b) \<leftarrow> write_trx_c2s e c (word_of_nat (length c)) 0 b; ble_writes e cs b }"

lemma ble_writes_collect:
  assumes "ble_rx_inv b" and "length (bl_c2s_value b) = 21" and "\<forall>c \<in> set cs. length c \<le> 20"
    and "length (ble_rx_view b) + length (concat cs) \<le> 511"
  shows "\<exists>b1. ble_writes e cs b = Some b1 \<and> ble_rx_inv b1 \<and> bl_simulate b1 = bl_simulate b
    \<and> ble_rx_view b1 = ble_rx_view b @ concat cs"
  using assms
proof (induction cs arbitrary: b)
  case (Cons c cs)
  have l: "unat (word_of_nat (length c) :: u16) = length c"
    using Cons.prems(3) by (simp add: unat_u16_of_nat)
  then obtain b1 where b1: "write_trx_c2s e c (word_of_nat (length c)) 0 b = Some (ucast (word_of_nat (length c) :: u16), b1)"
    "ble_rx_inv b1" "length (bl_c2s_value b1) = 21" "bl_simulate b1 = bl_simulate b"
    "ble_rx_view b1 = lastn 511 (ble_rx_view b @ c)"
    using ble_write_feeds_fifo [OF Cons.prems(1,2), of "word_of_nat (length c)" c 0 e] Cons.prems(3) by auto
  have v: "ble_rx_view b1 = ble_rx_view b @ c" using b1(5) Cons.prems(4) by simp
  then obtain b2 where "ble_writes e cs b1 = Some b2" "ble_rx_inv b2" "bl_simulate b2 = bl_simulate b"
    "ble_rx_view b2 = ble_rx_view b @ c @ concat cs"
    using Cons.IH [OF b1(2,3)] Cons.prems b1(4) by auto
  then show ?case using b1(1) by simp
qed simp

lemma ble_send:
  fixes ctx :: "(ble_transport \<times> 'h, 'a) bus_ctx"
  assumes m: "msg_meta_ok m" and s: "bl_simulate (fst (cx_port ctx)) \<noteq> 0"
  shows "\<exists>ctx1 pieces. bus_send (ble_io notify) m ctx = Some ctx1
    \<and> snd (cx_port ctx1) = fold notify pieces (snd (cx_port ctx)) \<and> concat pieces = bus_frame unibus_backend_ble m
    \<and> (\<forall>p \<in> set pieces. 1 \<le> length p \<and> length p \<le> 20)"
proof -
  define fr len L where "fr = sent_frame unibus_backend_ble m" and "len = frame_len m" and "L = unat (mm_body_len m) + 11"
  have n: "unat (mm_body_len m) \<le> 256" using m by (simp add: msg_meta_ok_def)
  have l: "sint len = int L" unfolding len_def L_def by (rule sint_of_nat_31) (use n in simp)
  have fr: "take L fr = bus_frame unibus_backend_ble m" "L \<le> length fr"
    using length_bus_frame [OF m, of unibus_backend_ble] n by (simp_all add: fr_def L_def)
  obtain pieces where "unibus_ble_write notify (fst (cx_port ctx)) fr len (snd (cx_port ctx))
      = Some (len, fold notify pieces (snd (cx_port ctx)))"
    "concat pieces = bus_frame unibus_backend_ble m" "\<forall>p \<in> set pieces. 1 \<le> length p \<and> length p \<le> 20"
    using ble_notify_chunks [of len fr notify "fst (cx_port ctx)" "snd (cx_port ctx)"] s fr by (auto simp: l)
  then show ?thesis
    using bus_send_frame [OF m, of "ble_io notify" ctx, folded len_def]
    by (cases "cx_port ctx") (auto simp: ble_io_def fr_def [symmetric])
qed

section \<open>A register read\<close>

text \<open>
  C12. A register read over Bluetooth: the pieces a central writes, which put together end with
  its request behind other bytes, are collected by the characteristic's write function; the next
  run of the device's receiving protothread finds the request, and its handler answers
  in notifications of 1 to 20 bytes. Put together these are a frame that the check accepts, from
  the device to the central, with the index and exactly the registers asked for.
\<close>

theorem ble_register_read:
  fixes ctx :: "(ble_transport \<times> 'h, 'a) bus_ctx"
  assumes "ble_rx_inv (fst (cx_port ctx))" and "ble_rx_view (fst (cx_port ctx)) = []"
    and "length (bl_c2s_value (fst (cx_port ctx))) = 21" and "bl_simulate (fst (cx_port ctx)) \<noteq> 0"
    and "length (cx_msg ctx) = 280" and "0 <s cx_response_timeout ctx" and "\<not> cx_recv_waiting ctx"
    and "\<forall>c \<in> set pieces. length c \<le> 20"
    and "concat pieces = noise @ bus_frame unibus_backend_ble (read_request cc src dest index n)"
    and "bk_mark0 unibus_backend_ble \<notin> set noise" and "length noise \<le> 200"
    and "n \<le> 128" and "unat index + n \<le> length tab" and "length (mm_body m1) = 256" and "length (mm_body m2) = 256"
  shows "\<exists>b1 ctx1 answers a. ble_writes e pieces (fst (cx_port ctx)) = Some b1
    \<and> bus_recv_poll (ble_io notify) tick m1 (Some (server_parser cc (ble_io notify) tab)) (ucast dest)
        (ctx\<lparr>cx_port := (b1, snd (cx_port ctx))\<rparr>) = Some (PT_ENDED, ctx1)
    \<and> snd (cx_port ctx1) = fold notify answers (snd (cx_port ctx))
    \<and> (\<forall>p \<in> set answers. 1 \<le> length p \<and> length p \<le> 20)
    \<and> bus_check_integrity unibus_backend_ble (concat answers @ replicate (269 - 2 * n) 0)
        (word_of_nat (length (concat answers))) m2 = Some (BUS_ERR_NO, a)
    \<and> mm_src_id a = dest \<and> mm_dest_id a = src \<and> mm_cmd_func a = cc_ack_rd cc \<and> mm_index a = index
    \<and> take (2 * n) (mm_body a) = reg_bytes (take n (drop (unat index) tab))"
proof -
  let ?bk = unibus_backend_ble and ?io = "ble_io notify" and ?rq = "read_request cc src dest index n"
  let ?rs = "take n (drop (unat index) tab)" and ?b = "fst (cx_port ctx)" and ?h = "snd (cx_port ctx)"
  have bk: "bus_backend_ok ?bk" by (simp add: bus_backend_ok_def)
  have rq: "msg_meta_ok ?rq" "mm_dest_id ?rq = dest" "mm_cmd_func ?rq = cc_rd cc" "mm_body_len ?rq = 2"
    using messages_ok(1) by (simp_all add: read_request_def)
  have "length (concat pieces) \<le> 511"
    unfolding assms(9) using assms(11) length_bus_frame [OF rq(1), of ?bk] rq(4) by simp
  then obtain b1 where b1: "ble_writes e pieces ?b = Some b1" "ble_rx_inv b1" "bl_simulate b1 = bl_simulate ?b"
    "ble_rx_view b1 = concat pieces"
    using ble_writes_collect [OF assms(1,3,8)] assms(2) by auto
  let ?c = "ctx\<lparr>cx_port := (b1, ?h)\<rparr>"
  have c: "length (cx_msg ?c) = 280" "0 <s cx_response_timeout ?c" "\<not> cx_recv_waiting ?c"
    "ble_like (b1, ?h) (cx_port ?c)" "ble_rx_view (fst (cx_port ?c)) = noise @ bus_frame ?bk ?rq @ []"
    using assms(5-7,9) b1 by (simp_all add: ble_like_def)
  define r where "r = received_meta ?rq m1"
  have r: "mm_index r = index" "mm_src_id r = src" "mm_dest_id r = dest" "mm_cmd_func r = cc_rd cc"
    "mm_body r ! 0 = lo8 (word_of_nat (2 * n))" "mm_body r ! 1 = hi8 (word_of_nat (2 * n))"
    by (simp_all add: r_def received_meta_def read_request_def del: of_nat_mult)
  have io: "io_backend ?io = ?bk" by (simp add: ble_io_def)
  obtain c2 where c2: "ble_like (b1, ?h) (cx_port c2)"
    "bus_recv_poll ?io tick m1 (Some (server_parser cc ?io tab)) (ucast dest) ?c
      = do { (x, _) \<leftarrow> bus_dispatch [(cc_rd cc, Some (read_handler cc ?io tab))] c2 r; Some (PT_ENDED, x) }"
    using ble_device.recv_poll_frame [OF bk rq(1) assms(14,10) c refl io, of tick "Some (server_parser cc ?io tab)" "ucast dest"]
      rq(2) by (auto simp: server_parser_def r_def)
  define an where "an = read_answer cc r ?rs"
  have an: "msg_meta_ok an" "unat (mm_body_len an) = 2 * n" "mm_cmd_func an = cc_ack_rd cc" "mm_index an = index"
    "mm_src_id an = dest" "mm_dest_id an = src" "take (2 * n) (mm_body an) = reg_bytes ?rs"
    using messages_ok(4) [of ?rs cc r] assms(12,13) unat_u16_of_nat [of "2 * n"] r
    by (simp_all add: an_def read_answer_def del: of_nat_mult)
  have "bl_simulate (fst (cx_port c2)) \<noteq> 0" "snd (cx_port c2) = ?h"
    using c2(1) b1(3) assms(4) by (simp_all add: ble_like_def)
  then obtain c3 answers where c3: "bus_send ?io an c2 = Some c3" "snd (cx_port c3) = fold notify answers ?h"
    "concat answers = bus_frame ?bk an" "\<forall>p \<in> set answers. 1 \<le> length p \<and> length p \<le> 20"
    using ble_send [OF an(1), of c2 notify] by metis
  have "ucast (mk16 (mm_body r ! 0) (mm_body r ! 1)) = (word_of_nat (2 * n) :: s32)"
    using assms(12) unat_u16_of_nat [of "2 * n"] of_nat_unat [of "word_of_nat (2 * n) :: u16", where ?'a = s32]
    unfolding r(5,6) mk16_lo8_hi8 by simp
  then have "read_handler cc ?io tab c2 r = Some (BUS_ERR_NO, c3, r)"
    using bus_send_read_ack_answer [of r n tab cc ?io c2] assms(12,13) r(1) c3(1) by (simp add: read_handler_def an_def)
  then have poll: "bus_recv_poll ?io tick m1 (Some (server_parser cc ?io tab)) (ucast dest) ?c = Some (PT_ENDED, c3)"
    using c2(2) r(4) by simp
  define a where "a = an\<lparr>mm_body := take (2 * n) (mm_body an) @ drop (2 * n) (mm_body m2)\<rparr>"
  have "length (concat answers) = unat (mm_body_len an) + 11"
    unfolding c3(3) by (rule length_bus_frame [OF an(1)])
  moreover have "269 - 2 * n = 269 - unat (mm_body_len an)" using an(2) by simp
  ultimately have chk: "bus_check_integrity ?bk (concat answers @ replicate (269 - 2 * n) 0)
      (word_of_nat (length (concat answers))) m2 = Some (BUS_ERR_NO, a)"
    using bus_check_sent_frame [OF bk an(1) assms(15)] an(2) by (simp only: c3(3) a_def)
  have a: "mm_src_id a = dest" "mm_dest_id a = src" "mm_cmd_func a = cc_ack_rd cc" "mm_index a = index"
    using an by (simp_all add: a_def)
  have "length (mm_body an) = 256" using an(1) by (simp add: msg_meta_ok_def)
  then have "take (2 * n) (mm_body a) = reg_bytes ?rs" using an(7) assms(12,13) by (simp add: a_def)
  with b1(1) poll c3(2,4) chk a show ?thesis by blast
qed

text \<open>Two registers from index 1 on, of a device that keeps its notifications in a list.\<close>

definition ble_ctx :: "(ble_transport \<times> u8 list list, unit) bus_ctx" where
  "ble_ctx = fresh_ctx (fresh_ble, []) ()"

lemma ble_ctx_facts:
  "ble_rx_inv (fst (cx_port ble_ctx))" "ble_rx_view (fst (cx_port ble_ctx)) = []"
  "length (bl_c2s_value (fst (cx_port ble_ctx))) = 21" "bl_simulate (fst (cx_port ble_ctx)) \<noteq> 0"
  "length (cx_msg ble_ctx) = 280" "0 <s cx_response_timeout ble_ctx" "\<not> cx_recv_waiting ble_ctx"
  using fifo_inv_zero [of 512 "replicate 512 (0 :: u8)"]
  by (simp_all add: ble_ctx_def fresh_ctx_def fresh_ble_def SDK_BLE_RX_FIFO_LEN_def word_sless_alt)

definition ble_pieces :: "u8 list list" where
  "ble_pieces = [[1], bus_frame unibus_backend_ble (read_request unibus_codes 1 2 1 2)]"

theorem ble_register_read_witness:
  "\<exists>b1 ctx1 answers a.
     ble_writes (- 7) ble_pieces fresh_ble = Some b1
   \<and> bus_recv_poll (ble_io (\<lambda>p ps. ps @ [p])) 8 zero_meta
       (Some (server_parser unibus_codes (ble_io (\<lambda>p ps. ps @ [p])) [10, 20, 30, 40])) 2
       (ble_ctx\<lparr>cx_port := (b1, [])\<rparr>) = Some (PT_ENDED, ctx1)
   \<and> snd (cx_port ctx1) = fold (\<lambda>p ps. ps @ [p]) answers []
   \<and> bus_check_integrity unibus_backend_ble (concat answers @ replicate 265 0)
       (word_of_nat (length (concat answers))) zero_meta = Some (BUS_ERR_NO, a)
   \<and> take 4 (mm_body a) = reg_bytes [20, 30]"
proof -
  let ?fr = "bus_frame unibus_backend_ble (read_request unibus_codes 1 2 1 2)"
  have l: "length ?fr = 13"
    using length_bus_frame [OF messages_ok(1) [of unibus_codes 1 2 1 2], of unibus_backend_ble]
    by (simp add: read_request_def)
  have p: "\<forall>c \<in> set ble_pieces. length c \<le> 20" "concat ble_pieces = [1] @ ?fr"
    "bk_mark0 unibus_backend_ble \<notin> set [1]" "length [1 :: u8] \<le> 200"
    using l by (simp_all add: ble_pieces_def unibus_backend_ble_def)
  have t: "take 2 (drop (unat (1 :: u16)) [10, 20, 30, 40]) = ([20, 30] :: u16 list)" by (simp add: numeral_2_eq_2)
  have port: "fst (cx_port ble_ctx) = fresh_ble" "snd (cx_port ble_ctx) = []" by (simp_all add: ble_ctx_def fresh_ctx_def)
  have n: "(2 :: nat) \<le> 128" "unat (1 :: u16) + 2 \<le> length [10, 20, 30, 40 :: u16]" by simp_all
  obtain b1 ctx1 answers a where "ble_writes (- 7) ble_pieces fresh_ble = Some b1"
    "bus_recv_poll (ble_io (\<lambda>p ps. ps @ [p])) 8 zero_meta
       (Some (server_parser unibus_codes (ble_io (\<lambda>p ps. ps @ [p])) [10, 20, 30, 40])) (ucast (2 :: u8))
       (ble_ctx\<lparr>cx_port := (b1, [])\<rparr>) = Some (PT_ENDED, ctx1)"
    "snd (cx_port ctx1) = fold (\<lambda>p ps. ps @ [p]) answers []"
    "bus_check_integrity unibus_backend_ble (concat answers @ replicate (269 - 2 * 2) 0)
       (word_of_nat (length (concat answers))) zero_meta = Some (BUS_ERR_NO, a)"
    "take (2 * 2) (mm_body a) = reg_bytes (take 2 (drop (unat (1 :: u16)) [10, 20, 30, 40]))"
    using ble_register_read [OF ble_ctx_facts p n wire_facts(4,4), of "- 7" "\<lambda>p ps. ps @ [p]" 8]
    unfolding port by blast
  then show ?thesis
    unfolding t by (intro exI [of _ b1] exI [of _ ctx1] exI [of _ answers] exI [of _ a]) simp
qed

end
