(* ===== verification/Utils_Double.thy ===== *)
theory Utils_Double
  imports Complex_Main Soft_Timer
begin

text \<open>
  The functions of src/src/sdk_utils.c that compute with \<open>double\<close>: conversions between register
  values and physical quantities, the slope of a regression line and the spread of data.

  The type \<open>double\<close> and its operations are an argument, in the order the code applies them; the
  conversion of a \<open>double\<close> to an integer that does not hold its integer part is undefined and
  the result \<open>None\<close>. The lemmas are about exact arithmetic, \<open>exact_ops\<close>, where \<open>None\<close>
  stands for a result that is not a number.

  \<^item> \<open>hex16_phys_roundtrip\<close>: converting to a quantity and back.
  \<^item> \<open>slope_of_line\<close>: points on a line have its slope.
  \<^item> \<open>dispersion_exact\<close>, \<open>dispersion_one_value\<close>: what the spread is compared with, and that a
    single value is never within any range.
\<close>

section \<open>Definitions\<close>

record 'f double_ops =
  d_int :: "int \<Rightarrow> 'f"
  d_add :: "'f \<Rightarrow> 'f \<Rightarrow> 'f"
  d_sub :: "'f \<Rightarrow> 'f \<Rightarrow> 'f"
  d_mul :: "'f \<Rightarrow> 'f \<Rightarrow> 'f"
  d_div :: "'f \<Rightarrow> 'f \<Rightarrow> 'f"
  d_trunc :: "'f \<Rightarrow> int option"
  d_le :: "'f \<Rightarrow> 'f \<Rightarrow> bool"
  d_sqrtf :: "'f \<Rightarrow> 'f"
  d_fabs :: "'f \<Rightarrow> 'f"

text \<open>Conversion to an integer type with the values from \<open>lo\<close> to \<open>hi\<close>.\<close>

definition d_to_int :: "'f double_ops \<Rightarrow> int \<Rightarrow> int \<Rightarrow> 'f \<Rightarrow> int option" where
  "d_to_int D lo hi x = do { i \<leftarrow> d_trunc D x; if lo \<le> i \<and> i \<le> hi then Some i else None }"

definition get_float_phys_from_hex :: "'f double_ops \<Rightarrow> u32 \<Rightarrow> s32 \<Rightarrow> 'f \<Rightarrow> 'f" where
  "get_float_phys_from_hex D hex offset factor =
     d_add D (d_mul D (d_int D (uint hex)) factor) (d_int D (sint offset))"

definition get_int_phys_from_hex :: "'f double_ops \<Rightarrow> u32 \<Rightarrow> s32 \<Rightarrow> 'f \<Rightarrow> s32 option" where
  "get_int_phys_from_hex D hex offset factor =
     map_option word_of_int (d_to_int D (- (2 ^ 31)) (2 ^ 31 - 1)
       (d_add D (d_mul D (d_int D (uint hex)) factor) (d_int D (sint offset))))"

definition get_hex16_from_float_phys :: "'f double_ops \<Rightarrow> 'f \<Rightarrow> s32 \<Rightarrow> 'f \<Rightarrow> u16 option" where
  "get_hex16_from_float_phys D phys offset factor =
     map_option word_of_int (d_to_int D 0 65535 (d_div D (d_sub D phys (d_int D (sint offset))) factor))"

text \<open>Here the difference is one of integers, whose overflow is undefined.\<close>

definition get_hex16_from_int_phys :: "'f double_ops \<Rightarrow> s32 \<Rightarrow> s32 \<Rightarrow> 'f \<Rightarrow> u16 option" where
  "get_hex16_from_int_phys D phys offset factor =
     (let d = sint phys - sint offset
      in if - (2 ^ 31) \<le> d \<and> d < 2 ^ 31
         then map_option word_of_int (d_to_int D 0 65535 (d_div D (d_int D d) factor))
         else None)"

definition get_hex32_from_float_phys :: "'f double_ops \<Rightarrow> 'f \<Rightarrow> s32 \<Rightarrow> 'f \<Rightarrow> u32 option" where
  "get_hex32_from_float_phys D phys offset factor =
     map_option word_of_int (d_to_int D 0 (2 ^ 32 - 1) (d_div D (d_sub D phys (d_int D (sint offset))) factor))"

text \<open>The sums of the loop over the data, with \<open>k\<close> rounds left from \<open>i\<close> on.\<close>

fun slope_sums ::
  "'f double_ops \<Rightarrow> 'f list \<Rightarrow> 'f list \<Rightarrow> nat \<Rightarrow> nat \<Rightarrow> 'f \<times> 'f \<times> 'f \<times> 'f \<Rightarrow> ('f \<times> 'f \<times> 'f \<times> 'f) option" where
  "slope_sums D x y i 0 acc = Some acc"
| "slope_sums D x y i (Suc k) (sum_x, sum_y, sum_xy, sum_x2) = do {
     a \<leftarrow> load x i;
     b \<leftarrow> load y i;
     slope_sums D x y (Suc i) k (d_add D sum_x a, d_add D sum_y b, d_add D sum_xy (d_mul D a b), d_add D sum_x2 (d_mul D a a))
   }"

definition calculate_slope :: "'f double_ops \<Rightarrow> 'f list \<Rightarrow> 'f list \<Rightarrow> s32 \<Rightarrow> 'f option" where
  "calculate_slope D x y data_size = do {
     (sum_x, sum_y, sum_xy, sum_x2) \<leftarrow> slope_sums D x y 0 (nat (sint data_size)) (d_int D 0, d_int D 0, d_int D 0, d_int D 0);
     let n = d_int D (sint data_size);
     let numerator = d_sub D (d_mul D n sum_xy) (d_mul D sum_x sum_y);
     let denominator = d_sub D (d_mul D n sum_x2) (d_mul D sum_x sum_x);
     Some (d_div D numerator denominator)
   }"

fun sum_loop :: "'f double_ops \<Rightarrow> ('f \<Rightarrow> 'f) \<Rightarrow> 'f list \<Rightarrow> nat \<Rightarrow> nat \<Rightarrow> 'f \<Rightarrow> 'f option" where
  "sum_loop D f data i 0 acc = Some acc"
| "sum_loop D f data i (Suc k) acc = do { a \<leftarrow> load data i; sum_loop D f data (Suc i) k (d_add D acc (f a)) }"

text \<open>An array of no or a negative number of elements is undefined.\<close>

definition is_dispersion_within_range :: "'f double_ops \<Rightarrow> 'f list \<Rightarrow> s32 \<Rightarrow> 'f \<Rightarrow> 'f \<Rightarrow> s32 option" where
  "is_dispersion_within_range D data data_size in_range slope_limit =
     (if sint data_size \<le> 0 then None
      else do {
        let n = nat (sint data_size);
        let x = map (\<lambda>i. d_int D (int i)) [0..<n];
        slope \<leftarrow> calculate_slope D x data data_size;
        total \<leftarrow> sum_loop D (\<lambda>a. a) data 0 n (d_int D 0);
        let mean = d_div D total (d_int D (sint data_size));
        squared_diff_sum \<leftarrow> sum_loop D (\<lambda>a. let diff = d_sub D a mean in d_mul D diff diff) data 0 n (d_int D 0);
        let variance = d_div D squared_diff_sum (d_int D (sint data_size));
        let standard_deviation = d_sqrtf D variance;
        Some (if d_le D standard_deviation in_range \<and> d_le D (d_fabs D slope) slope_limit then 1 else 0)
      })"

section \<open>Exact arithmetic\<close>

definition lift2 :: "(real \<Rightarrow> real \<Rightarrow> real) \<Rightarrow> real option \<Rightarrow> real option \<Rightarrow> real option" where
  "lift2 f x y = do { a \<leftarrow> x; b \<leftarrow> y; Some (f a b) }"

lemma lift2_Some [simp]: "lift2 f (Some a) (Some b) = Some (f a b)"
  by (simp add: lift2_def)

definition exact_div :: "real option \<Rightarrow> real option \<Rightarrow> real option" where
  "exact_div x y = (if y = Some 0 then None else lift2 (/) x y)"

text \<open>The integer part, towards zero.\<close>

definition integer_part :: "real \<Rightarrow> int" where
  "integer_part r = (if 0 \<le> r then \<lfloor>r\<rfloor> else \<lceil>r\<rceil>)"

definition exact_ops :: "real option double_ops" where
  "exact_ops = \<lparr>d_int = (\<lambda>i. Some (of_int i)), d_add = lift2 (+), d_sub = lift2 (-), d_mul = lift2 (*),
     d_div = exact_div, d_trunc = map_option integer_part,
     d_le = (\<lambda>x y. case (x, y) of (Some a, Some b) \<Rightarrow> a \<le> b | _ \<Rightarrow> False),
     d_sqrtf = map_option sqrt, d_fabs = map_option abs\<rparr>"

lemma exact_simps [simp]:
  "d_int exact_ops i = Some (of_int i)" "d_add exact_ops = lift2 (+)" "d_sub exact_ops = lift2 (-)"
  "d_mul exact_ops = lift2 (*)" "d_div exact_ops = exact_div" "d_trunc exact_ops = map_option integer_part"
  "d_le exact_ops (Some a) (Some b) \<longleftrightarrow> a \<le> b" "\<not> d_le exact_ops None y"
  "d_sqrtf exact_ops = map_option sqrt" "d_fabs exact_ops = map_option abs"
  by (simp_all add: exact_ops_def)

lemma exact_div_Some [simp]: "b \<noteq> 0 \<Longrightarrow> exact_div (Some a) (Some b) = Some (a / b)" "exact_div x (Some 0) = None"
  by (simp_all add: exact_div_def)

lemma integer_part_of_int: "integer_part (of_int i) = i"
  by (simp add: integer_part_def)

text \<open>A 16-bit register value is got back from the quantity, whatever offset and factor.\<close>

theorem hex16_phys_roundtrip:
  assumes "f \<noteq> 0"
  shows "get_hex16_from_float_phys exact_ops (get_float_phys_from_hex exact_ops (ucast h) offset (Some f)) offset (Some f) = Some h"
proof -
  have "integer_part (real_of_int (uint h)) = uint h" by (rule integer_part_of_int)
  moreover have "uint h < 2 ^ LENGTH(16)" by (rule unsigned_less)
  then have h: "uint h \<le> 65535" by simp
  moreover have "take_bit 32 (uint h) = uint h" by (rule take_bit_int_eq_self) (use h in simp_all)
  then have "uint (ucast h :: u32) = uint h" by (simp add: unsigned_ucast_eq)
  ultimately show ?thesis using assms
    by (simp add: get_hex16_from_float_phys_def get_float_phys_from_hex_def d_to_int_def)
qed

text \<open>The loops over arrays of numbers.\<close>

lemma slope_sums_exact:
  assumes "i + k \<le> length X" and "i + k \<le> length Y"
  shows "slope_sums exact_ops (map Some X) (map Some Y) i k (Some a, Some b, Some c, Some d) =
    (let x = take k (drop i X); y = take k (drop i Y)
     in Some (Some (a + sum_list x), Some (b + sum_list y), Some (c + (\<Sum>(u, v) \<leftarrow> zip x y. u * v)),
          Some (d + (\<Sum>u \<leftarrow> x. u * u))))"
  using assms
proof (induction k arbitrary: i a b c d)
  case (Suc k)
  have "take (Suc k) (drop i X) = X ! i # take k (drop (Suc i) X)" "take (Suc k) (drop i Y) = Y ! i # take k (drop (Suc i) Y)"
    using Suc.prems by (simp_all add: Cons_nth_drop_Suc [symmetric])
  then show ?case using Suc.IH [of "Suc i"] Suc.prems by (simp add: load_in Let_def add.assoc)
qed (simp add: Let_def)

lemma sum_loop_exact:
  assumes "i + k \<le> length X" and "\<And>x. f (Some x) = Some (g x)"
  shows "sum_loop exact_ops f (map Some X) i k (Some a) = Some (Some (a + (\<Sum>x \<leftarrow> take k (drop i X). g x)))"
  using assms(1)
proof (induction k arbitrary: i a)
  case (Suc k)
  have "take (Suc k) (drop i X) = X ! i # take k (drop (Suc i) X)"
    using Suc.prems by (simp add: Cons_nth_drop_Suc [symmetric])
  then show ?case using Suc.IH [of "Suc i"] Suc.prems assms(2) by (simp add: load_in add.assoc)
qed simp

lemma slope_exact:
  assumes "length X = n" and "length Y = n" and "n < 2 ^ 31"
  shows "calculate_slope exact_ops (map Some X) (map Some Y) (word_of_nat n) =
    Some (exact_div (Some (real n * (\<Sum>(u, v) \<leftarrow> zip X Y. u * v) - sum_list X * sum_list Y))
      (Some (real n * (\<Sum>u \<leftarrow> X. u * u) - sum_list X * sum_list X)))"
  using slope_sums_exact [of 0 n X Y 0 0 0 0] assms sint_of_nat_31 [OF assms(3)]
  by (simp add: calculate_slope_def Let_def)

text \<open>The denominator is the sum of the squared distances from the mean, n times.\<close>

lemma denominator_positive:
  fixes X :: "real list"
  assumes "x \<in> set X" and "y \<in> set X" and "x \<noteq> y"
  shows "0 < real (length X) * (\<Sum>u \<leftarrow> X. u * u) - sum_list X * sum_list X"
proof -
  define n m where "n = real (length X)" and "m = sum_list X / real (length X)"
  have n: "0 < n" using assms(1) by (auto simp: n_def)
  have sq: "(\<Sum>u \<leftarrow> Y. (u - m) * (u - m)) = (\<Sum>u \<leftarrow> Y. u * u) - 2 * m * sum_list Y + real (length Y) * m * m" for Y
    by (induction Y) (simp_all add: algebra_simps)
  have s: "sum_list X = n * m" using n by (simp add: m_def n_def)
  have "(\<Sum>u \<leftarrow> X. (u - m) * (u - m)) = (\<Sum>u \<leftarrow> X. u * u) - n * m * m"
    unfolding sq s by (simp add: n_def algebra_simps)
  moreover have "(\<Sum>u \<leftarrow> X. (u - m) * (u - m)) \<noteq> 0"
  proof
    assume "(\<Sum>u \<leftarrow> X. (u - m) * (u - m)) = 0"
    then have "\<forall>z \<in> set (map (\<lambda>u. (u - m) * (u - m)) X). z = 0"
      by (subst (asm) sum_list_nonneg_eq_0_iff) auto
    then have "\<forall>z \<in> set X. z = m" by simp
    then show False using assms by metis
  qed
  moreover have "0 \<le> (\<Sum>u \<leftarrow> X. (u - m) * (u - m))" by (rule sum_list_nonneg) auto
  ultimately have "0 < n * ((\<Sum>u \<leftarrow> X. u * u) - n * m * m)" using n by simp
  then show ?thesis unfolding s n_def [symmetric] by (simp add: algebra_simps)
qed

text \<open>Points on a line, not all at the same place, have the slope of the line.\<close>

theorem slope_of_line:
  assumes "length X < 2 ^ 31" and "x \<in> set X" and "y \<in> set X" and "x \<noteq> y"
  shows "calculate_slope exact_ops (map Some X) (map (\<lambda>x. Some (a * x + b)) X) (word_of_nat (length X)) = Some (Some a)"
proof -
  define d where "d = real (length X) * (\<Sum>u \<leftarrow> X. u * u) - sum_list X * sum_list X"
  have "(\<Sum>(u, v) \<leftarrow> zip Z (map (\<lambda>x. a * x + b) Z). u * v) = a * (\<Sum>u \<leftarrow> Z. u * u) + b * sum_list Z"
    "sum_list (map (\<lambda>x. a * x + b) Z) = a * sum_list Z + b * real (length Z)" for Z
    by (induction Z) (simp_all add: algebra_simps)
  then have "real (length X) * (\<Sum>(u, v) \<leftarrow> zip X (map (\<lambda>x. a * x + b) X). u * v)
      - sum_list X * sum_list (map (\<lambda>x. a * x + b) X) = a * d"
    by (simp add: d_def algebra_simps)
  moreover have "d \<noteq> 0" using denominator_positive [OF assms(2-4)] by (simp add: d_def)
  ultimately show ?thesis
    using slope_exact [of X "length X" "map (\<lambda>x. a * x + b) X"] assms(1) by (simp add: d_def [symmetric] o_def)
qed

text \<open>
  The spread: the standard deviation, with the square root in single precision here taken
  exactly, against the range and the absolute slope against its limit; a slope that is not a
  number is not within the limit, which makes the answer for one value always 0.
\<close>

theorem dispersion_exact:
  assumes "length Y = n" and "0 < n" and "n < 2 ^ 31"
  defines "mean \<equiv> sum_list Y / real n"
  shows "\<exists>slope. calculate_slope exact_ops (map (\<lambda>i. Some (real i)) [0..<n]) (map Some Y) (word_of_nat n) = Some slope
    \<and> is_dispersion_within_range exact_ops (map Some Y) (word_of_nat n) (Some r) (Some limit) =
      Some (if sqrt ((\<Sum>y \<leftarrow> Y. (y - mean) * (y - mean)) / real n) \<le> r
               \<and> (case slope of Some sl \<Rightarrow> \<bar>sl\<bar> \<le> limit | None \<Rightarrow> False) then 1 else 0)"
proof -
  have n: "real n \<noteq> 0" using assms(2) by simp
  obtain slope where slope: "calculate_slope exact_ops (map (\<lambda>i. Some (real i)) [0..<n]) (map Some Y) (word_of_nat n) = Some slope"
    using slope_exact [of "map real [0..<n]" n Y] assms(1,3) by (auto simp: o_def)
  have "sum_loop exact_ops (\<lambda>a. a) (map Some Y) 0 n (Some 0) = Some (Some (sum_list Y))"
    using sum_loop_exact [of 0 n Y "\<lambda>a. a" "\<lambda>a. a" 0] assms(1) by simp
  moreover have "sum_loop exact_ops (\<lambda>a. let diff = lift2 (-) a (Some mean) in lift2 (*) diff diff) (map Some Y) 0 n (Some 0)
      = Some (Some (\<Sum>y \<leftarrow> Y. (y - mean) * (y - mean)))"
    using sum_loop_exact [of 0 n Y "\<lambda>a. let diff = lift2 (-) a (Some mean) in lift2 (*) diff diff" "\<lambda>y. (y - mean) * (y - mean)" 0]
      assms(1) by simp
  ultimately have "is_dispersion_within_range exact_ops (map Some Y) (word_of_nat n) (Some r) (Some limit) =
      Some (if sqrt ((\<Sum>y \<leftarrow> Y. (y - mean) * (y - mean)) / real n) \<le> r
               \<and> (case slope of Some sl \<Rightarrow> \<bar>sl\<bar> \<le> limit | None \<Rightarrow> False) then 1 else 0)"
    using slope n assms(2) sint_of_nat_31 [OF assms(3)]
    by (cases slope) (simp_all add: is_dispersion_within_range_def mean_def Let_def)
  with slope show ?thesis by blast
qed

lemma dispersion_one_value:
  "is_dispersion_within_range exact_ops [Some y] 1 (Some r) (Some limit) = Some 0"
  using dispersion_exact [of "[y]" 1 r limit] slope_exact [of "[0]" 1 "[y]"] by auto

end
