(* ===== verification/Pt_Example.thy ===== *)
theory Pt_Example
  imports Prelude
begin

text \<open>
  src/examples/example_pt.c: four protothreads that hand the turn to each other with flags, the
  first one running the third and the fourth.

  A protothread is the function of one call of it: it goes on behind the wait where it returned,
  or from its beginning, until it has to wait again. Its endless loop goes round as long as
  the flag it waits for is set, which is shown to end. Printing appends the thread's number.

  \<^item> \<open>example_pt_output\<close>: what the main loop prints in any number of rounds.
\<close>

section \<open>Definitions\<close>

record pt_state =
  protothread1_flag :: s32
  protothread2_flag :: s32
  protothread3_flag :: s32
  protothread4_flag :: s32
  pt1 :: bool   \<comment> \<open>the thread has reached its wait\<close>
  pt2 :: bool
  pt3 :: bool
  pt4 :: bool
  printed :: "nat list"

definition prints :: "nat \<Rightarrow> pt_state \<Rightarrow> pt_state" where
  "prints i s = s\<lparr>printed := printed s @ [i]\<rparr>"

lemma prints_simps [simp]:
  "protothread1_flag (prints i s) = protothread1_flag s" "protothread2_flag (prints i s) = protothread2_flag s"
  "protothread3_flag (prints i s) = protothread3_flag s" "protothread4_flag (prints i s) = protothread4_flag s"
  "pt1 (prints i s) = pt1 s" "pt2 (prints i s) = pt2 s" "pt3 (prints i s) = pt3 s" "pt4 (prints i s) = pt4 s"
  "printed (prints i s) = printed s @ [i]"
  by (simp_all add: prints_def)

text \<open>The third thread from its wait on; both its beginning and its resumption lead there.\<close>

function pt3_loop :: "pt_state \<Rightarrow> pt_state" where
  "pt3_loop s =
     (let s = s\<lparr>pt3 := True\<rparr>
      in if protothread4_flag s = 0 then s
         else let s = prints 3 s; s = s\<lparr>protothread4_flag := 0\<rparr>; s = s\<lparr>protothread3_flag := 1\<rparr>
              in pt3_loop s)"
  by pat_completeness auto
termination by (relation "measure (\<lambda>s. if protothread4_flag s = 0 then 0 else 1)") auto

definition protothread3 :: "pt_state \<Rightarrow> pt_state" where
  "protothread3 s = pt3_loop s"

text \<open>The fourth thread sets its flag before every wait.\<close>

function pt4_loop :: "pt_state \<Rightarrow> pt_state" where
  "pt4_loop s =
     (let s = s\<lparr>pt4 := True\<rparr>
      in if protothread3_flag s = 0 then s
         else let s = prints 4 s; s = s\<lparr>protothread3_flag := 0\<rparr>; s = s\<lparr>protothread4_flag := 1\<rparr>
              in pt4_loop s)"
  by pat_completeness auto
termination by (relation "measure (\<lambda>s. if protothread3_flag s = 0 then 0 else 1)") auto

definition protothread4 :: "pt_state \<Rightarrow> pt_state" where
  "protothread4 s = (if pt4 s then pt4_loop s else pt4_loop (s\<lparr>protothread4_flag := 1\<rparr>))"

function pt1_loop :: "pt_state \<Rightarrow> pt_state" where
  "pt1_loop s =
     (let s = s\<lparr>pt1 := True\<rparr>
      in if protothread2_flag s = 0 then s
         else let s = prints 1 s; s = protothread3 s; s = protothread4 s; s = protothread4 s;
                  s = s\<lparr>protothread2_flag := 0\<rparr>; s = s\<lparr>protothread1_flag := 1\<rparr>
              in pt1_loop s)"
  by pat_completeness auto
termination by (relation "measure (\<lambda>s. if protothread2_flag s = 0 then 0 else 1)") (auto simp: Let_def)

definition protothread1 :: "pt_state \<Rightarrow> pt_state" where
  "protothread1 s = pt1_loop s"

function pt2_loop :: "pt_state \<Rightarrow> pt_state" where
  "pt2_loop s =
     (let s = s\<lparr>pt2 := True\<rparr>
      in if protothread1_flag s = 0 then s
         else let s = prints 2 s; s = s\<lparr>protothread1_flag := 0\<rparr>; s = s\<lparr>protothread2_flag := 1\<rparr>
              in pt2_loop s)"
  by pat_completeness auto
termination by (relation "measure (\<lambda>s. if protothread1_flag s = 0 then 0 else 1)") auto

definition protothread2 :: "pt_state \<Rightarrow> pt_state" where
  "protothread2 s = (if pt2 s then pt2_loop s else pt2_loop (s\<lparr>protothread2_flag := 1\<rparr>))"

declare pt1_loop.simps [simp del] pt2_loop.simps [simp del] pt3_loop.simps [simp del] pt4_loop.simps [simp del]

definition example_pt_init :: "pt_state \<Rightarrow> pt_state" where
  "example_pt_init s = s\<lparr>pt1 := False, pt2 := False\<rparr>"

definition example_pt34_init :: "pt_state \<Rightarrow> pt_state" where
  "example_pt34_init s = s\<lparr>pt3 := False, pt4 := False\<rparr>"

definition example_pt_run :: "pt_state \<Rightarrow> pt_state" where
  "example_pt_run s = protothread2 (protothread1 s)"

definition example_pt34_run :: "pt_state \<Rightarrow> pt_state" where
  "example_pt34_run s = protothread4 (protothread3 s)"

text \<open>The static variables at the start, and the state after \<open>n\<close> rounds of the main loop.\<close>

definition pt_reset :: pt_state where
  "pt_reset = \<lparr>protothread1_flag = 0, protothread2_flag = 0, protothread3_flag = 0, protothread4_flag = 0,
     pt1 = False, pt2 = False, pt3 = False, pt4 = False, printed = []\<rparr>"

definition example_pt_main :: "nat \<Rightarrow> pt_state" where
  "example_pt_main n = (example_pt_run ^^ n) (example_pt34_init (example_pt_init pt_reset))"

section \<open>What is printed\<close>

text \<open>One call of every thread.\<close>

lemma pt3_call: "pt3_loop s = (if protothread4_flag s = 0 then s\<lparr>pt3 := True\<rparr>
    else (prints 3 s)\<lparr>pt3 := True, protothread4_flag := 0, protothread3_flag := 1\<rparr>)"
  by (subst pt3_loop.simps, simp add: Let_def) (subst pt3_loop.simps, simp add: Let_def prints_def)

lemma pt4_call: "pt4_loop s = (if protothread3_flag s = 0 then s\<lparr>pt4 := True\<rparr>
    else (prints 4 s)\<lparr>pt4 := True, protothread3_flag := 0, protothread4_flag := 1\<rparr>)"
  by (subst pt4_loop.simps, simp add: Let_def) (subst pt4_loop.simps, simp add: Let_def prints_def)

lemma pt2_call: "pt2_loop s = (if protothread1_flag s = 0 then s\<lparr>pt2 := True\<rparr>
    else (prints 2 s)\<lparr>pt2 := True, protothread1_flag := 0, protothread2_flag := 1\<rparr>)"
  by (subst pt2_loop.simps, simp add: Let_def) (subst pt2_loop.simps, simp add: Let_def prints_def)

lemma pt1_call: "pt1_loop s = (if protothread2_flag s = 0 then s\<lparr>pt1 := True\<rparr>
    else (protothread4 (protothread4 (protothread3 (prints 1 (s\<lparr>pt1 := True\<rparr>)))))
      \<lparr>pt1 := True, protothread2_flag := 0, protothread1_flag := 1\<rparr>)"
  by (subst pt1_loop.simps, simp add: Let_def) (subst pt1_loop.simps, simp add: Let_def)

lemmas pt_calls = protothread1_def protothread2_def protothread3_def protothread4_def
  pt1_call pt2_call pt3_call pt4_call

text \<open>The state every round from the third on starts and ends in, but for the output.\<close>

definition pt_round :: "nat list \<Rightarrow> pt_state" where
  "pt_round out = \<lparr>protothread1_flag = 0, protothread2_flag = 1, protothread3_flag = 0, protothread4_flag = 1,
     pt1 = True, pt2 = True, pt3 = True, pt4 = True, printed = out\<rparr>"

lemma pt_round_step: "example_pt_run (pt_round out) = pt_round (out @ [1, 3, 4, 2])"
  by (simp add: example_pt_run_def pt_calls pt_round_def prints_def)

lemma pt_first_rounds: "example_pt_run (example_pt_run (example_pt34_init (example_pt_init pt_reset))) = pt_round [1, 2]"
  by (simp add: example_pt_run_def pt_calls pt_round_def prints_def example_pt_init_def example_pt34_init_def pt_reset_def)

text \<open>
  The turns alternate for ever: the first round prints nothing, the second 1 and 2, while the inner
  threads start, and every further one 1, 3, 4, 2.
\<close>

theorem example_pt_output: "printed (example_pt_main (n + 2)) = [1, 2] @ concat (replicate n [1, 3, 4, 2])"
proof -
  have "(example_pt_run ^^ n) (pt_round out) = pt_round (out @ concat (replicate n [1, 3, 4, 2]))" for out
    by (induction n arbitrary: out) (simp_all add: funpow_Suc_right pt_round_step del: funpow.simps(2))
  moreover have "example_pt_main (n + 2) = (example_pt_run ^^ n) (pt_round [1, 2])"
    by (simp only: example_pt_main_def funpow_add o_apply numeral_2_eq_2 funpow.simps pt_first_rounds id_apply)
  ultimately show ?thesis by (simp add: pt_round_def)
qed

end
