(* ===== verification/Spec2Isabelle.thy ===== *)
theory Spec2Isabelle
  imports Ringbuffer Os_Port_None Uart Can Ble Dlist App_Sched Bus_Protocol Utils Modbus At_Device Base64 Hmac_Sha1 Swi2c Nboot Vsnprintf Tm1668 Libc_String Token Sdk_Log Sdk_Error Rtc Board_Drivers Crypto Os_Port_Rtthread Bus_Link Ble_Link Utils_Double Pt_Example
begin

text \<open>
  Verification of the AFT SDK, a kit of components for small micro-controllers: drivers above a
  board's operations, queues and schedulers, an operating system port, two register buses, a Modbus
  master, an AT command client, a boot loader, a small C library and the authorization of a cloud
  service. This theory imports the whole development; the paths below are those of the
  repository, where the code is under src/src/ and the examples under src/examples/.

  \<^bigskip>
  \<^bold>\<open>How the program is put together.\<close> A board supplies records of function pointers for its
  hardware. The drivers wrap them and, where data arrive in interrupts, put a queue between the
  interrupt and the main loop. The main loop polls: protothreads and small state machines return to
  it whenever they have to wait, and software timers on the millisecond tick bound the waiting. The
  bus backends make and check frames over a driver, and the bus protocol reads and writes the registers
  of the other device with such frames. The rest are independent components: those
  of the cloud authorization call one another and the formatted output, the log and the error
  records use the formatted output.

  \<^bigskip>
  \<^bold>\<open>Conventions of the model\<close> (theory \<open>Prelude\<close>).

  \<^item> Integers have their width: \<open>u8\<close>, \<open>u16\<close> and \<open>u32\<close> are words; \<open>int\<close>, \<open>long\<close> and \<open>size_t\<close>
    have the 32 bits of the SDK's targets, and a signed value is the word with the same bits, read
    with \<open>sint\<close> and compared with the signed order. Natural numbers stand for lengths
    of arrays that exist.
  \<^item> An array is the list of its cells. \<open>None\<close> is an access outside an array, a call of a null
    function pointer or another undefined behaviour. A theorem with the result \<open>Some\<close>
    therefore also says that none of these occurs. Where an outer option has another
    meaning, the theory says so.
  \<^item> Shared pointers live in an explicit heap, a partial map from addresses (\<open>Can\<close>, \<open>Dlist\<close>);
    elsewhere a pointer that nothing else aliases is the value it points to.
  \<^item> An operation takes the state of its component and returns it updated, together with its result
    and its output parameters. Result codes are the negative numbers of src/src/sdk_def.h.
  \<^item> A protothread is the function of one call of it, from the resumption point to the next
    wait; the resumption point is part of its state.
  \<^item> What is not under the SDK's own sources is an argument: the operations of a board, the state
    \<open>'h\<close> of the hardware, the tick of the clock, the Bluetooth stack, the kernel of RT-Thread, the
    block cipher, the type \<open>double\<close>, the contents of uninitialised memory. What a property relies
    on is a hypothesis with a name (\<open>serial_board\<close>, \<open>nor_flash\<close>, \<open>clock_device\<close>, \<open>object_kernel\<close>), and
    its witness instantiates it with a concrete function.

  \<^bigskip>
  \<^bold>\<open>Shared theories.\<close>

  \<^item> \<open>Prelude\<close>: the integers and codes above, reads and writes of arrays (collection \<open>mem_simps\<close>),
    the two bytes of a 16-bit value, and windows of circular buffers (collection \<open>ring_simps\<close>) with which
    every ring of the SDK is seen as a list.
  \<^item> \<open>Queue_Interfaces\<close>: three contracts as locales. \<open>drainable_queue\<close> is the reader's side;
    \<open>bounded_queue\<close> adds a writer that refuses when full, \<open>overwriting_queue\<close> one that drops the oldest
    element. Their lemmas lift the laws of one element to whole messages (\<open>enq_deq_roundtrip\<close>,
    \<open>push_deq_roundtrip\<close>). They are interpreted on the byte ring, the event queue and the receive
    FIFOs of the three drivers.
  \<^item> \<open>Rx_Fifo\<close>: the receive FIFO that sdk_uart.c, sdk_can.c and unibus_backend_ble.c each write out,
    for any element type and array length \<open>N\<close>. One place stays free, so it holds \<open>N - 1\<close> elements.

  \<^bigskip>
  \<^bold>\<open>Queues, timers and schedulers.\<close>

  \<^item> \<open>Ringbuffer\<close> (sdk_ringbuffer.c): \<open>sdk_ringbuffer\<close> is the C struct, with the caller's memory as a
    list, \<open>rb_view\<close> the bytes it holds. Putting stores exactly the prefix that fits, getting
    delivers the oldest bytes, forced putting keeps the most recent ones.
  \<^item> \<open>App_Sched\<close> (app_scheduler.c): headers and data of the events in the caller's buffer; events
    are run once each in the order they were posted, also when handlers post events.
  \<^item> \<open>Dlist\<close> (sdk_dlist.c, event_scheduler.c): the circular list on a heap. \<open>dring\<close> says that the
    links of a set of nodes form a ring; every operation is shown to change the ring as a list and no other
    node. The event scheduler runs the posted events in order.
  \<^item> \<open>Soft_Timer\<close> (sdk_soft_timer.c): a timer expires exactly when its time has passed,
    across the wrap of the tick; one that was set at tick 0 never does.

  \<^bold>\<open>Operating system ports.\<close>

  \<^item> \<open>Os_Port_None\<close> (sdk_os_port_none.c): semaphores and event groups that are polled. \<open>sem_run\<close>
    is the step relation of any interleaving of takes and releases; the count is conserved
    and stays within its range, and a polled wait reports busy until its timeout.
  \<^item> \<open>Os_Port_Rtthread\<close> (sdk_os_port_rtthread.c): the same interface on the kernel of RT-Thread, with
    the kernel as a record of functions. \<open>rtt_step\<close> is any call of the port; the kernel and the port always
    agree on which objects are initialised. Object names are unique up to the 10000th.

  \<^bold>\<open>Drivers\<close> (src/src/components/drivers/).

  \<^item> \<open>Uart\<close> (sdk_uart.c): the state machine of the driver, blocking and non-blocking transmission,
    the receive interrupt and the reading functions. The driver's struct and the rest of the hardware are a
    pair, because delays run interrupts that change both.
  \<^item> \<open>Can\<close> (sdk_can.c): the message queue and the linked registration table. Registering an identifier
    appends it to the list, polling hands the oldest message to the handler registered for it.
  \<^item> \<open>Swi2c\<close> (sdk_swi2c.c): the bit-banged I2C master. A specification of the lines,
    symbols for start, stop and bits, is refined by writing and reading, with the device's acknowledgements
    as an input; waiting for a clock line that is held low ends after the timeout.
  \<^item> \<open>Rtc\<close> (sdk_rtc.c, libc/time.c) over \<open>Calendar\<close>, the Gregorian calendar of the C library
    in a fixed time zone: setting a date keeps the time of day and conversely.
  \<^item> \<open>Board_Drivers\<close> (sdk_adc.c, sdk_watchdog.c, sdk_gpio.c, sdk_common.c): the thin wrappers.

  \<^bold>\<open>Register buses\<close> (src/src/components/unibus/, src/src/components/apbus/).

  \<^item> \<open>Ble\<close>: the byte transport over a Bluetooth characteristic: writes feed the FIFO, sending
    is cut into notifications of at most 20 bytes.
  \<^item> \<open>Bus_Frame\<close>: frames of the three backends, defined once over a record of what differs: making,
    checking (a message survives the round trip, one changed byte is detected) and the reader that
    skips noise and reads one frame. \<open>byte_source\<close> is the contract of a port the reader can be run on,
    interpreted on the UART driver and on the Bluetooth transport.
  \<^item> \<open>Bus_Protocol\<close>: requests, answers, acknowledgements, dispatch and the polled receiving of
    unibus.c and apbus.c, over a record of the command bytes.
  \<^item> \<open>Bus_Link\<close> and \<open>Ble_Link\<close> compose all of these: a register read between two devices, from the
    client's protothread through the frames, the drivers and the interrupts of both sides and back.

  \<^bold>\<open>Other devices and protocols.\<close>

  \<^item> \<open>Modbus\<close> (modbus.c): the table-driven checksum equals the bitwise one; requests and answers
    have the form of the specification, a changed byte of a read answer is rejected.
  \<^item> \<open>At_Device\<close> (at_device.c): the line reader, the answer parser, unsolicited codes and the
    command state machines; \<open>at_ex_run\<close> is the step relation of one command with anything between its
    polls.
  \<^item> \<open>Tm1668\<close> (tm1668.c): operations are the list of their accesses to three lines; \<open>tm_wire\<close> and
    \<open>tm_exec\<close> specify what the chip makes of them.
  \<^item> \<open>Nboot\<close> (nboot.c, sdk_flash.h): the boot loader over a flash device. \<open>nor_flash\<close> is what NOR
    flash promises, whether or not an operation succeeds; an interrupted installation can be resumed.

  \<^bold>\<open>Library code.\<close>

  \<^item> \<open>Vsnprintf\<close> (libc/vsnprintf.c, snprintf.c): the printer with its buffer implements \<open>format_text\<close>, a
    grammar of conversions without any buffer. \<open>Libc_String\<close>: memmem.c, strstr.c, strnlen.c, strlcpy.c.
  \<^item> \<open>Sdk_Log\<close> (sdk_log.c) and \<open>Sdk_Error\<close> (sdk_error.c): the lines that reach the console.
  \<^item> \<open>Utils\<close> and \<open>Utils_Double\<close> (sdk_utils.c): byte order and hexadecimal text; the functions on
    \<open>double\<close> over a record of its operations, with lemmas about exact arithmetic.
  \<^item> \<open>Base64\<close>, \<open>Hmac_Sha1\<close> and \<open>Token\<close> (cloud/onenet/authorization/): the coder against RFC 4648, SHA-1
    against FIPS 180-4, HMAC against RFC 2104, and the access token built from them. HMAC has the length of
    one local array as a parameter, because with the length of the code every call writes
    behind the array.
  \<^item> \<open>Crypto\<close> (sdk_crypto.c and the block chaining cbc_mode.c it calls): decryption returns the
    message and the bytes that filled it up.
  \<^item> \<open>Pt_Example\<close> (src/examples/example_pt.c): four protothreads and what they print.

  \<^bigskip>
  \<^bold>\<open>Loops, fuel and termination.\<close> Structural recursion wherever the loop counts; otherwise a
  measure. Loops that may run for ever are partial functions with the result \<open>None\<close>, and
  the properties state that they return: the readers of frames (\<open>bus_read_loop\<close>), the event loops
  (\<open>app_sched_execute\<close>, \<open>event_sched_loop\<close>), the walks over linked lists (\<open>canid_find\<close>, \<open>canid_mem\<close>,
  \<open>canid_last\<close>) and the wait for the I2C clock (\<open>scl_wait\<close>). Fuel occurs once, in the receive
  interrupt \<open>sdk_uart_rx_isr\<close>, whose loop ends when the hardware has no more characters: every
  theorem about it asks for more fuel than there are pending characters, and then shows that it
  ends. The 512 of \<open>Bus_Link\<close> are enough for 200 bytes of noise and the longest frame of 267 bytes, which
  also fit the 511 places of the FIFO.

  \<^bigskip>
  \<^bold>\<open>Not modelled\<close>, and why.

  \<^item> Everything under src/src/3rdparty/ but cbc_mode.c: FlashDB, fal, SEGGER RTT, the Paho client,
    TinyCrypt's AES and the protothread macros are third-party code. AES is an argument; the
    SDK's code does not call the others, apart from the macros, whose meaning the protothreads have.
  \<^item> Code without behaviour: the Zephyr port (stubs with constant results), sdk_storage.c, modem.c
    (weak stubs), the empty files of components/net/, umbrella headers and prototypes.
  \<^item> Code that is not compiled: blocks under \<open>#if 0\<close> and in comments, the branch \<open>UART_DMA_LEGACY\<close>
    of sdk_uart.c, the branch \<open>SDK_LOG_USING_TIME\<close> of sdk_log.c, which does not compile.
  \<^item> Data without code that reads it: test vectors in hmac_sha1.c, the service table of
    the Bluetooth stack.
  \<^item> Log calls inside the other components, and callbacks that do nothing but log.
  \<^item> The board examples under src/examples/, whose main programs set up a board and call drivers.
  \<^item> True concurrency: interrupts run between the operations of the main loop, or where a
    delay lets them; an interrupt in the middle of an operation that disables interrupts cannot happen,
    and for the others (the byte ring, the event queue) it is not considered.
\<close>

end
